(* ===== verification/Hpx_Prelude.thy ===== *)
theory Hpx_Prelude
  imports "HOL-Library.Word" "HOL-Library.While_Combinator"
begin

text \<open>
  Shared vocabulary of the development: the machine types of the runtime, the
  outcomes of an operation that may stop the program (a failed assertion, an
  access outside an array, a call of the runtime's own error routine), and
  the generic facts on words, lists and arithmetic that the component
  theories use.
\<close>

named_theorems outcome_simps \<open>unfolding the outcome monad\<close>
named_theorems u32_simps \<open>arithmetic of 32-bit unsigned integers kept as natural numbers\<close>

unbundle bit_operations_syntax

section \<open>Machine types\<close>

type_synonym u16 = "16 word"
type_synonym u32 = "32 word"
type_synonym u64 = "64 word"

text \<open>
  Where a component computes with \<^verbatim>\<open>unsigned\<close> indices the model keeps
  them as natural numbers and writes the wrap-around of the C type out.
\<close>

definition u32wrap :: "nat \<Rightarrow> nat" where
  "u32wrap x = x mod 2 ^ 32"

definition u32sub :: "nat \<Rightarrow> nat \<Rightarrow> nat" where
  "u32sub x y = (if y \<le> x then x - y else (x + 2 ^ 32 - y) mod 2 ^ 32)"

definition u64wrap :: "nat \<Rightarrow> nat" where
  "u64wrap x = x mod 2 ^ 64"

text \<open>Signed arithmetic wraps as two's complement, which is what the compilers in use do.\<close>

definition s32wrap :: "int \<Rightarrow> int" where
  "s32wrap i = signed_take_bit 31 i"

lemma s32wrap_id: "- (2 ^ 31) \<le> i \<Longrightarrow> i < 2 ^ 31 \<Longrightarrow> s32wrap i = i"
  unfolding s32wrap_def by (rule signed_take_bit_int_eq_self) auto

section \<open>Outcomes\<close>

text \<open>
  An operation of the runtime returns a value or stops: \<^verbatim>\<open>Assert_failed\<close>
  is a failed \<^verbatim>\<open>assert\<close>, \<^verbatim>\<open>Out_of_bounds\<close> an access outside an
  array, \<^verbatim>\<open>Dbg_error\<close> a call of \<^verbatim>\<open>dbg_error\<close>, which aborts, \<^verbatim>\<open>Thrown\<close> an
  exception.
\<close>

datatype fault = Assert_failed | Out_of_bounds | Dbg_error | Thrown

type_synonym 'a outcome = "fault + 'a"

abbreviation Fault :: "fault \<Rightarrow> 'a outcome" where
  "Fault \<equiv> Inl"

abbreviation Ret :: "'a \<Rightarrow> 'a outcome" where
  "Ret \<equiv> Inr"

definition bindO :: "'a outcome \<Rightarrow> ('a \<Rightarrow> 'b outcome) \<Rightarrow> 'b outcome" where
  "bindO m f = (case m of Inl e \<Rightarrow> Inl e | Inr x \<Rightarrow> f x)"

definition assertO :: "bool \<Rightarrow> 'b outcome \<Rightarrow> 'b outcome" where
  "assertO b m = (if b then m else Fault Assert_failed)"

lemma bindO_Ret [simp, outcome_simps]: "bindO (Ret x) f = f x"
  by (simp add: bindO_def)

lemma bindO_Fault [simp, outcome_simps]: "bindO (Fault e) f = Fault e"
  by (simp add: bindO_def)

lemma bindO_assoc [outcome_simps]: "bindO (bindO m f) g = bindO m (\<lambda>x. bindO (f x) g)"
  by (cases m) simp_all

lemma bindO_eq_Ret [outcome_simps]: "bindO m f = Ret y \<longleftrightarrow> (\<exists>x. m = Ret x \<and> f x = Ret y)"
  by (cases m) simp_all

lemma assertO_True [simp, outcome_simps]: "assertO True m = m"
  by (simp add: assertO_def)

lemma assertO_eq_Ret [outcome_simps]: "assertO b m = Ret y \<longleftrightarrow> b \<and> m = Ret y"
  by (simp add: assertO_def)

text \<open>The status codes of the runtime's internal functions.\<close>

datatype status =
  LIBHPX_ENOMEM | LIBHPX_EINVAL | LIBHPX_ERROR | LIBHPX_EUNIMPLEMENTED | LIBHPX_OK | LIBHPX_RETRY

section \<open>Unsigned arithmetic\<close>

lemma u32wrap_small [simp, u32_simps]: "x < 2 ^ 32 \<Longrightarrow> u32wrap x = x"
  by (simp add: u32wrap_def)

lemma u32wrap_less [simp]: "u32wrap x < 2 ^ 32"
  by (simp add: u32wrap_def)

lemma u32sub_small [simp, u32_simps]: "y \<le> x \<Longrightarrow> u32sub x y = x - y"
  by (simp add: u32sub_def)

lemma u32sub_wrap [u32_simps]:
  assumes "y \<le> x" "y < 2 ^ 32" "x - y < 2 ^ 32"
  shows "u32sub (u32wrap x) y = x - y"
proof (cases "x < 2 ^ 32")
  case False
  then have "u32wrap x = x - 2 ^ 32"
    unfolding u32wrap_def using assms by (subst le_mod_geq) auto
  then show ?thesis using False assms by (simp add: u32sub_def)
qed (use assms in simp)

lemma u64wrap_small [simp, u32_simps]: "x < 2 ^ 64 \<Longrightarrow> u64wrap x = x"
  by (simp add: u64wrap_def)

section \<open>Words\<close>

lemma int_less_pow: "n < 2 ^ k \<Longrightarrow> int n < 2 ^ k"
  by (metis of_nat_less_iff of_nat_numeral of_nat_power)

lemma int_less_powD: "int n < 2 ^ k \<Longrightarrow> n < 2 ^ k"
  by (metis of_nat_less_iff of_nat_numeral of_nat_power)

lemma len32: "LENGTH(32) = 32" and len64: "LENGTH(64) = 64"
  by simp_all

lemma unat_less_pow: "unat (w :: 'a::len word) < 2 ^ LENGTH('a)"
  by (rule unsigned_less)

lemma unat_div_pow: "unat (drop_bit k w) = unat w div 2 ^ k"
  using unat_drop_bit_eq [of k w] drop_bit_eq_div [of k "unat w"] by (rule trans)

lemma unat_mod_pow: "unat (take_bit k w) = unat w mod 2 ^ k"
  using unsigned_take_bit_eq [of k w] take_bit_eq_mod [of k "unat w"] by (rule trans)

lemma unat_mult_pow:
  fixes w :: "'a::len word"
  shows "unat (push_bit k w) = (unat w * 2 ^ k) mod 2 ^ LENGTH('a)"
proof -
  have "unat (push_bit k w) = take_bit LENGTH('a) (push_bit k (unat w))"
    by (rule unsigned_push_bit_eq)
  then show ?thesis by (simp only: push_bit_eq_mult take_bit_eq_mod)
qed

lemma unat_of_nat_small:
  "n < 2 ^ LENGTH('a) \<Longrightarrow> unat (of_nat n :: 'a::len word) = n"
  by (simp add: unsigned_of_nat take_bit_nat_eq_self)

lemma unat_of_int_nat:
  "n < 2 ^ LENGTH('a) \<Longrightarrow> unat (of_int (int n) :: 'a::len word) = n"
  by (simp add: unat_of_nat_small)

lemma unat_add_small:
  "unat x + unat y < 2 ^ LENGTH('a) \<Longrightarrow> unat (x + y :: 'a::len word) = unat x + unat y"
  by (simp add: unat_word_ariths)

lemma unat_ucast_small:
  fixes w :: "'a::len word"
  assumes "unat w < 2 ^ LENGTH('b)"
  shows "unat (ucast w :: 'b::len word) = unat w"
  unfolding unsigned_ucast_eq using assms by (rule take_bit_nat_eq_self)

lemma unat_pow2 [simp]:
  assumes "h < LENGTH('a::len)"
  shows "unat (2 ^ h :: 'a word) = 2 ^ h"
  using unat_of_nat_small [of "2 ^ h", where 'a='a] assms by (simp only: of_nat_power of_nat_numeral) simp

section \<open>Lists\<close>

lemma takeWhile_upt_first:
  assumes "P k" "i \<le> k" "k < n" "\<And>j. i \<le> j \<Longrightarrow> j < k \<Longrightarrow> \<not> P j"
  shows "length (takeWhile (\<lambda>j. \<not> P j) [i..<n]) = k - i"
  using assms
proof (induction "k - i" arbitrary: i)
  case 0
  then show ?case by (simp add: upt_conv_Cons)
next
  case (Suc d)
  then have "i < k" by simp
  with Suc.prems have "[i..<n] = i # [Suc i..<n]" "\<not> P i"
    by (auto simp: upt_conv_Cons)
  moreover have "length (takeWhile (\<lambda>j. \<not> P j) [Suc i..<n]) = k - Suc i"
    using Suc \<open>i < k\<close> by (intro Suc.hyps(1)) auto
  ultimately show ?case using \<open>i < k\<close> by simp
qed

lemma length_filter_upt_interval:
  "length (filter (\<lambda>k. a \<le> k \<and> k < b) [0..<n]) = min b n - a" for a b n :: nat
proof (induction n)
  case (Suc n)
  then show ?case by auto
qed simp

end
