(* ===== verification/Hpx_Math.thy ===== *)
theory Hpx_Math
  imports Hpx_Prelude
begin

text \<open>
  The integer helpers of \<^verbatim>\<open>include/libhpx/util/math.h\<close>,
  \<^verbatim>\<open>include/hpx/builtins.h\<close> and \<^verbatim>\<open>include/libhpx/padding.h\<close>:
  bit scans and counts, ceiling logarithm and division, and alignment
  padding, with the arithmetic facts their callers rely on.
\<close>

section \<open>Bit scans\<close>

text \<open>
  The compiler builtins behind \<^verbatim>\<open>ctzl\<close>, \<^verbatim>\<open>clzl\<close> and
  \<^verbatim>\<open>popcountl\<close>. The scans of the zero word, undefined in C, return the
  width.
\<close>

definition ctz :: "'a::len word \<Rightarrow> nat" where
  "ctz w = length (takeWhile (\<lambda>k. \<not> bit w k) [0..<LENGTH('a)])"

definition clz :: "'a::len word \<Rightarrow> nat" where
  "clz w = length (takeWhile (\<lambda>k. \<not> bit w (LENGTH('a) - 1 - k)) [0..<LENGTH('a)])"

definition popcount :: "'a::len word \<Rightarrow> nat" where
  "popcount w = length (filter (bit w) [0..<LENGTH('a)])"

section \<open>Logarithm, division, padding\<close>

definition ceil_log2 :: "'a::len word \<Rightarrow> nat" where
  "ceil_log2 v = (LENGTH('a) - 1 - clz v) + (if v AND (v - 1) \<noteq> 0 then 1 else 0)"

definition ceil2 :: "'a::len word \<Rightarrow> 'a word" where
  "ceil2 v = push_bit (ceil_log2 v) 1"

definition ceil_div :: "nat \<Rightarrow> nat \<Rightarrow> nat" where
  "ceil_div num denom = num div denom + (if num mod denom \<noteq> 0 then 1 else 0)"

definition pad_align :: "'a::len word \<Rightarrow> 'a word \<Rightarrow> 'a word" where
  "pad_align bytes align = (align - (bytes AND (align - 1))) AND (align - 1)"

section \<open>Facts\<close>

lemma ctz_eqI:
  fixes w :: "'a::len word"
  assumes "bit w k" "\<And>j. j < k \<Longrightarrow> \<not> bit w j"
  shows "ctz w = k"
proof -
  have "k < LENGTH('a)" using assms(1) by (rule bit_imp_le_length)
  then show ?thesis
    unfolding ctz_def using takeWhile_upt_first [of "bit w" k 0 "LENGTH('a)"] assms by simp
qed

lemma bit_exists_nonzero: "w \<noteq> 0 \<Longrightarrow> \<exists>k. bit (w :: 'a::len word) k"
  by (auto simp: bit_eq_iff)

lemma ctz_least:
  fixes w :: "'a::len word"
  assumes "w \<noteq> 0"
  shows "bit w (ctz w)" "j < ctz w \<Longrightarrow> \<not> bit w j"
proof -
  obtain k where "bit w k" using bit_exists_nonzero [OF assms] by blast
  define m where "m = (LEAST k. bit w k)"
  have m: "bit w m" "\<And>j. j < m \<Longrightarrow> \<not> bit w j"
    unfolding m_def using \<open>bit w k\<close> by (auto intro: LeastI dest: not_less_Least)
  with ctz_eqI [of w m] have "ctz w = m" by blast
  with m show "bit w (ctz w)" "j < ctz w \<Longrightarrow> \<not> bit w j" by auto
qed

lemma clz_eqI:
  fixes w :: "'a::len word"
  assumes "bit w h" "\<And>j. h < j \<Longrightarrow> \<not> bit w j"
  shows "clz w = LENGTH('a) - 1 - h"
proof -
  have h: "h < LENGTH('a)" using assms(1) by (rule bit_imp_le_length)
  have "length (takeWhile (\<lambda>k. \<not> bit w (LENGTH('a) - 1 - k)) [0..<LENGTH('a)])
      = (LENGTH('a) - 1 - h) - 0"
    by (rule takeWhile_upt_first) (use assms h in auto)
  then show ?thesis by (simp add: clz_def)
qed

lemma highest_bit:
  fixes w :: "'a::len word"
  assumes "w \<noteq> 0"
  obtains h where "bit w h" "\<And>j. h < j \<Longrightarrow> \<not> bit w j" "h < LENGTH('a)"
proof -
  let ?S = "{k. bit w k}"
  have fin: "finite ?S"
    by (rule finite_subset [of _ "{..<LENGTH('a)}"]) (auto dest: bit_imp_le_length)
  have ne: "?S \<noteq> {}" using bit_exists_nonzero [OF assms] by auto
  show thesis
  proof (rule that [of "Max ?S"])
    show "bit w (Max ?S)" using Max_in [OF fin ne] by simp
    then show "Max ?S < LENGTH('a)" by (rule bit_imp_le_length)
    show "\<not> bit w j" if "Max ?S < j" for j
      using Max_ge [OF fin, of j] that by (auto simp: not_le [symmetric])
  qed
qed

lemma unat_highest_bit:
  fixes w :: "'a::len word"
  assumes "bit w h" "\<And>j. h < j \<Longrightarrow> \<not> bit w j"
  shows "2 ^ h \<le> unat w" "unat w < 2 ^ Suc h"
proof -
  have *: "bit (unat w) j \<longleftrightarrow> bit w j" for j by (simp add: bit_simps)
  have "take_bit (Suc h) (unat w) = unat w"
    by (rule bit_eqI)
      (use assms in \<open>auto simp: bit_take_bit_iff bit_unsigned_iff less_Suc_eq_le not_le [symmetric]\<close>)
  then show "unat w < 2 ^ Suc h" by (metis take_bit_nat_less_exp)
  have "odd (unat w div 2 ^ h)" using assms(1) * by (simp add: bit_iff_odd)
  then have "unat w div 2 ^ h \<noteq> 0" by (metis even_zero)
  then show "2 ^ h \<le> unat w" by (metis div_less not_le)
qed

lemma clz_bounds:
  fixes w :: "'a::len word"
  assumes "w \<noteq> 0"
  defines "h \<equiv> LENGTH('a) - 1 - clz w"
  shows "bit w h" "h < j \<Longrightarrow> \<not> bit w j" "h < LENGTH('a)"
    "2 ^ h \<le> unat w" "unat w < 2 ^ Suc h"
proof -
  obtain k where k: "bit w k" "\<And>j. k < j \<Longrightarrow> \<not> bit w j" "k < LENGTH('a)"
    using highest_bit [OF assms(1)] by blast
  then have "h = k" using clz_eqI [of w k] by (simp add: h_def)
  with k unat_highest_bit [of w k]
  show "bit w h" "h < j \<Longrightarrow> \<not> bit w j" "h < LENGTH('a)"
    "2 ^ h \<le> unat w" "unat w < 2 ^ Suc h" by auto
qed

lemma popcount_interval:
  fixes w :: "'a::len word"
  assumes "\<And>k. k < LENGTH('a) \<Longrightarrow> bit w k \<longleftrightarrow> a \<le> k \<and> k < b"
  shows "popcount w = min b LENGTH('a) - a"
proof -
  have "filter (bit w) [0..<LENGTH('a)] = filter (\<lambda>k. a \<le> k \<and> k < b) [0..<LENGTH('a)]"
    by (rule filter_cong) (use assms in auto)
  then show ?thesis by (simp add: popcount_def length_filter_upt_interval)
qed

lemma unat_minus_one_word: "w \<noteq> 0 \<Longrightarrow> unat (w - 1 :: 'a::len word) = unat w - 1"
  by (simp add: unat_minus_one)

lemma and_pred_eq_0_iff:
  fixes w :: "'a::len word"
  assumes "bit w h" "\<And>j. h < j \<Longrightarrow> \<not> bit w j"
  shows "w AND (w - 1) = 0 \<longleftrightarrow> unat w = 2 ^ h"
proof -
  note lo = unat_highest_bit [OF assms]
  have hlt: "h < LENGTH('a)" using assms(1) by (rule bit_imp_le_length)
  have w0: "w \<noteq> 0" using assms(1) by auto
  show ?thesis
  proof
    assume *: "unat w = 2 ^ h"
    then have w: "w = 2 ^ h"
      using hlt by (simp add: word_unat_eq_iff)
    then have "w - 1 = mask h" by (simp add: mask_eq_exp_minus_1)
    moreover have "w = push_bit h 1" using w by (simp add: push_bit_eq_mult)
    ultimately show "w AND (w - 1) = 0"
      by (auto intro!: bit_word_eqI simp: bit_simps)
  next
    assume *: "w AND (w - 1) = 0"
    show "unat w = 2 ^ h"
    proof (rule ccontr)
      assume "unat w \<noteq> 2 ^ h"
      with lo have lt: "2 ^ h \<le> unat w - 1" "unat w - 1 < 2 ^ Suc h" by auto
      then have "(unat w - 1) div 2 ^ h = 1"
        by (intro div_nat_eqI) auto
      then have "bit (unat (w - 1)) h"
        using w0 by (simp add: unat_minus_one_word bit_iff_odd)
      then have "bit (w - 1) h" by (simp add: bit_simps)
      with * assms(1) show False by (metis bit_and_iff bit_0_eq bot_apply bot_bool_def)
    qed
  qed
qed

lemma ceil_div_bounds:
  assumes "0 < d"
  shows "n \<le> d * ceil_div n d" "d * ceil_div n d < n + d"
proof -
  define q where "q = d * (n div d)"
  have n: "q + n mod d = n" "n mod d < d" using assms by (simp_all add: q_def)
  have "d * ceil_div n d = q + (if n mod d \<noteq> 0 then d else 0)"
    by (simp add: ceil_div_def q_def distrib_left)
  then show "n \<le> d * ceil_div n d" "d * ceil_div n d < n + d"
    using n by (auto split: if_splits)
qed

lemma ceil_log2_bounds:
  fixes v :: "'a::len word"
  assumes "v \<noteq> 0"
  shows "unat v \<le> 2 ^ ceil_log2 v" "ceil_log2 v \<noteq> 0 \<Longrightarrow> 2 ^ (ceil_log2 v - 1) < unat v"
proof -
  define h where "h = LENGTH('a) - 1 - clz v"
  note b = clz_bounds [OF assms, folded h_def]
  have pow: "v AND (v - 1) = 0 \<longleftrightarrow> unat v = 2 ^ h" by (rule and_pred_eq_0_iff) (use b in auto)
  have cl: "ceil_log2 v = (if unat v = 2 ^ h then h else Suc h)"
    unfolding ceil_log2_def using pow by (simp add: h_def)
  show "unat v \<le> 2 ^ ceil_log2 v" unfolding cl using b(4,5) by simp
  show "2 ^ (ceil_log2 v - 1) < unat v" if "ceil_log2 v \<noteq> 0"
    using that b(4) unfolding cl by (auto split: if_splits)
qed

lemma ceil_log2_pow2:
  assumes "k < LENGTH('a::len)"
  shows "ceil_log2 (2 ^ k :: 'a word) = k"
proof -
  have nz: "(2 ^ k :: 'a word) \<noteq> 0" using unat_pow2 [OF assms] by (metis unsigned_0 power_not_zero zero_neq_numeral)
  note b = ceil_log2_bounds [OF nz, unfolded unat_pow2 [OF assms]]
  have "k \<le> ceil_log2 (2 ^ k :: 'a word)" using b(1) by (simp add: power_le_imp_le_exp)
  moreover have "ceil_log2 (2 ^ k :: 'a word) \<le> k"
  proof (rule ccontr)
    assume *: "\<not> ceil_log2 (2 ^ k :: 'a word) \<le> k"
    then have "(2::nat) ^ k \<le> 2 ^ (ceil_log2 (2 ^ k :: 'a word) - 1)" by (intro power_increasing) auto
    with b(2) * show False by auto
  qed
  ultimately show ?thesis by simp
qed

lemma and_pred_pow2_mod:
  assumes "k < LENGTH('a::len)"
  shows "unat (w AND (2 ^ k - 1) :: 'a word) = unat w mod 2 ^ k"
proof -
  have "w AND (2 ^ k - 1) = take_bit k w" by (simp add: take_bit_eq_mask mask_eq_exp_minus_1)
  moreover have "unat (take_bit k w) = take_bit k (unat w)" by (rule unsigned_take_bit_eq)
  ultimately show ?thesis by (simp only: take_bit_eq_mod)
qed

lemma pad_align_unat:
  assumes "k < LENGTH('a::len)"
  shows "unat (pad_align w (2 ^ k) :: 'a word) = (2 ^ k - unat w mod 2 ^ k) mod 2 ^ k"
proof -
  let ?r = "w AND (2 ^ k - 1) :: 'a word"
  have r: "unat ?r = unat w mod 2 ^ k" by (rule and_pred_pow2_mod [OF assms])
  have "unat (2 ^ k - ?r) = 2 ^ k - unat ?r"
    using assms r by (intro unat_sub [THEN trans]) (auto simp: word_le_nat_alt less_imp_le)
  then show ?thesis
    unfolding pad_align_def by (simp add: and_pred_pow2_mod [OF assms] r)
qed

section \<open>Properties\<close>

text \<open>
  The ceiling logarithm of a nonzero word is the exponent of the least power
  of two that is not below it.
\<close>
lemma ceil_log2_least_power:
  fixes v :: "'a::len word"
  assumes "v \<noteq> 0"
  shows "unat v \<le> 2 ^ k \<longleftrightarrow> ceil_log2 v \<le> k"
proof
  assume "unat v \<le> 2 ^ k"
  show "ceil_log2 v \<le> k"
  proof (rule ccontr)
    assume "\<not> ceil_log2 v \<le> k"
    then have "(2::nat) ^ k \<le> 2 ^ (ceil_log2 v - 1)" by (intro power_increasing) auto
    moreover have "2 ^ (ceil_log2 v - 1) < unat v"
      using \<open>\<not> ceil_log2 v \<le> k\<close> by (intro ceil_log2_bounds(2) [OF assms]) auto
    ultimately show False using \<open>unat v \<le> 2 ^ k\<close> by linarith
  qed
next
  assume "ceil_log2 v \<le> k"
  then have "(2::nat) ^ ceil_log2 v \<le> 2 ^ k" by (intro power_increasing) auto
  with ceil_log2_bounds(1) [OF assms] show "unat v \<le> 2 ^ k" by linarith
qed

text \<open>
  The alignment padding of \<^verbatim>\<open>ALIGN\<close> is smaller than the alignment and
  completes the byte count to a multiple of it.
\<close>
lemma pad_align_completes:
  assumes "k < LENGTH('a::len)"
  shows "unat (pad_align w (2 ^ k) :: 'a word) < 2 ^ k \<and>
    2 ^ k dvd unat w + unat (pad_align w (2 ^ k) :: 'a word)"
proof -
  define r where "r = unat w mod 2 ^ k"
  have "unat w = 2 ^ k * (unat w div 2 ^ k) + r" by (simp add: r_def)
  moreover have "2 ^ k dvd r + (2 ^ k - r) mod 2 ^ k"
    by (cases "r = 0") (auto simp: r_def less_imp_le)
  ultimately have "2 ^ k dvd unat w + (2 ^ k - r) mod 2 ^ k"
    by (metis add.assoc dvd_add dvd_triv_left)
  then show ?thesis by (simp add: pad_align_unat [OF assms] r_def)
qed

end
