(* ===== verification/Hpx_Bitmap.thy ===== *)
theory Hpx_Bitmap
  imports Hpx_Math
begin

text \<open>
  The bitmap allocator of \<^verbatim>\<open>libhpx/util/Bitmap.cpp\<close>, from which the global
  heap hands out its blocks. A bit that is 1 is free. The model keeps the
  block array as a list of 64-bit words and the \<^verbatim>\<open>unsigned\<close> indices as natural
  numbers with the 32-bit wrap-around written out. The lock makes each public
  operation atomic, so each is one function on the state. The two searches may
  run for ever on some arguments: their loops are partial functions whose
  value is \<^const>\<open>None\<close> when they do not return.
\<close>

section \<open>State\<close>

record bitmap =
  bm_minAlign :: nat
  bm_baseAlign :: nat
  bm_nBits :: nat
  bm_nBlocks :: nat
  bm_min :: nat
  bm_max :: nat
  bm_blocks :: "u64 list"

definition BLOCK_BITS :: nat where
  "BLOCK_BITS = 64"

definition Bitmap_new :: "nat \<Rightarrow> nat \<Rightarrow> nat \<Rightarrow> bitmap" where
  "Bitmap_new nbits minAlign baseAlign =
    \<lparr> bm_minAlign = minAlign, bm_baseAlign = baseAlign, bm_nBits = nbits,
      bm_nBlocks = ceil_div nbits BLOCK_BITS, bm_min = 0, bm_max = nbits,
      bm_blocks = replicate (ceil_div nbits BLOCK_BITS) (- 1) \<rparr>"

section \<open>Block helpers\<close>

definition BlockIFS :: "u64 \<Rightarrow> nat outcome" where
  "BlockIFS b = assertO (b \<noteq> 0) (Ret (ctz b))"

definition BlockILS :: "u64 \<Rightarrow> nat outcome" where
  "BlockILS b = assertO (b \<noteq> 0) (Ret (BLOCK_BITS - clz b - 1))"

definition CreateMask :: "nat \<Rightarrow> nat \<Rightarrow> u64 outcome" where
  "CreateMask offset len = assertO (offset < BLOCK_BITS)
    (let rshift = (if BLOCK_BITS < len then 0 else BLOCK_BITS - len)
     in Ret (push_bit offset (drop_bit rshift (- 1))))"

section \<open>Scanning and updating ranges\<close>

function match_loop ::
  "u64 list \<Rightarrow> nat \<Rightarrow> (u64 \<Rightarrow> nat outcome) \<Rightarrow> nat \<Rightarrow> u64 \<Rightarrow> nat \<Rightarrow> nat outcome" where
  "match_loop bs nbits f block msk n =
    (if n < nbits then
       if block < length bs then
         let mismatch = msk XOR (msk AND bs ! block) in
         if mismatch \<noteq> 0 then
           bindO (f mismatch) (\<lambda>i. bindO (BlockIFS msk) (\<lambda>j. Ret (u32sub (u32wrap (n + i)) j)))
         else
           let n' = u32wrap (n + popcount msk) in
           case CreateMask 0 (u32sub nbits n') of
             Inl e \<Rightarrow> Inl e
           | Inr msk' \<Rightarrow> match_loop bs nbits f (Suc block) msk' n'
       else Fault Out_of_bounds
     else assertO (n = nbits) (Ret n))"
  by pat_completeness auto
termination
  by (relation "measure (\<lambda>(bs, nbits, f, block, msk, n). length bs - block)") auto

definition match_bits :: "bitmap \<Rightarrow> nat \<Rightarrow> nat \<Rightarrow> (u64 \<Rightarrow> nat outcome) \<Rightarrow> nat outcome" where
  "match_bits bm pos nbits f = assertO (nbits \<noteq> 0)
    (bindO (CreateMask (pos mod BLOCK_BITS) nbits) (\<lambda>msk.
      match_loop (bm_blocks bm) nbits f (pos div BLOCK_BITS) msk 0))"

function findFirstFree_loop :: "u64 list \<Rightarrow> nat \<Rightarrow> nat \<Rightarrow> u64 \<Rightarrow> nat \<Rightarrow> nat outcome" where
  "findFirstFree_loop bs mx block msk pos =
    (if pos < mx then
       if block < length bs then
         let match = msk AND bs ! block in
         if match \<noteq> 0 then
           bindO (BlockIFS match) (\<lambda>i. bindO (BlockIFS msk) (\<lambda>j.
             Ret (u32sub (u32wrap (pos + i)) j)))
         else findFirstFree_loop bs mx (Suc block) (- 1) (u32wrap (pos + popcount msk))
       else Fault Out_of_bounds
     else Ret mx)"
  by pat_completeness auto
termination
  by (relation "measure (\<lambda>(bs, mx, block, msk, pos). length bs - block)") auto

definition findFirstFree :: "bitmap \<Rightarrow> nat \<Rightarrow> nat \<Rightarrow> nat outcome" where
  "findFirstFree bm pos mx = assertO (pos < mx)
    (bindO (CreateMask (pos mod BLOCK_BITS) BLOCK_BITS) (\<lambda>msk.
      findFirstFree_loop (bm_blocks bm) mx (pos div BLOCK_BITS) msk pos))"

function set_loop :: "u64 list \<Rightarrow> nat \<Rightarrow> u64 \<Rightarrow> nat \<Rightarrow> u64 list outcome" where
  "set_loop bs block msk nbits =
    (if nbits > 0 then
       if block < length bs then
         let nbits' = u32sub nbits (popcount msk) in
         case CreateMask 0 nbits' of
           Inl e \<Rightarrow> Inl e
         | Inr msk' \<Rightarrow> set_loop (bs[block := bs ! block AND NOT msk]) (Suc block) msk' nbits'
       else Fault Out_of_bounds
     else Ret bs)"
  by pat_completeness auto
termination
  by (relation "measure (\<lambda>(bs, block, msk, nbits). length bs - block)") auto

definition set_bits :: "bitmap \<Rightarrow> nat \<Rightarrow> nat \<Rightarrow> bitmap outcome" where
  "set_bits bm pos nbits = assertO (nbits \<noteq> 0)
    (bindO (CreateMask (pos mod BLOCK_BITS) nbits) (\<lambda>msk.
      bindO (set_loop (bm_blocks bm) (pos div BLOCK_BITS) msk nbits) (\<lambda>bs.
        Ret (bm\<lparr>bm_blocks := bs\<rparr>))))"

function clear_loop :: "u64 list \<Rightarrow> nat \<Rightarrow> u64 \<Rightarrow> nat \<Rightarrow> u64 list outcome" where
  "clear_loop bs block msk nbits =
    (if nbits > 0 then
       if block < length bs then
         let nbits' = u32sub nbits (popcount msk) in
         case CreateMask 0 nbits' of
           Inl e \<Rightarrow> Inl e
         | Inr msk' \<Rightarrow> clear_loop (bs[block := bs ! block OR msk]) (Suc block) msk' nbits'
       else Fault Out_of_bounds
     else Ret bs)"
  by pat_completeness auto
termination
  by (relation "measure (\<lambda>(bs, block, msk, nbits). length bs - block)") auto

definition clear_bits :: "bitmap \<Rightarrow> nat \<Rightarrow> nat \<Rightarrow> bitmap outcome" where
  "clear_bits bm pos nbits = assertO (nbits \<noteq> 0)
    (bindO (CreateMask (pos mod BLOCK_BITS) nbits) (\<lambda>msk.
      bindO (clear_loop (bm_blocks bm) (pos div BLOCK_BITS) msk nbits) (\<lambda>bs.
        Ret (bm\<lparr>bm_blocks := bs\<rparr>))))"

declare match_loop.simps [simp del] findFirstFree_loop.simps [simp del]
  set_loop.simps [simp del] clear_loop.simps [simp del]

text \<open>
  The conversion to \<^verbatim>\<open>int\<close> on return keeps the 32-bit pattern; the sum of the
  bit counts and the correction of the last block are \<^verbatim>\<open>unsigned\<close>.
\<close>

definition countUnusedBlocks :: "bitmap \<Rightarrow> int" where
  "countUnusedBlocks bm =
    (let unused = u32wrap (sum_list (map popcount (bm_blocks bm)));
         extra = BLOCK_BITS - bm_nBits bm mod BLOCK_BITS
     in signed_take_bit 31 (int (u32sub unused extra)))"

definition oom :: "bitmap \<Rightarrow> nat \<Rightarrow> nat \<Rightarrow> 'a outcome" where
  "oom bm nbits align = Fault Dbg_error"

section \<open>Reservation and release\<close>

definition align_val :: "bitmap \<Rightarrow> nat \<Rightarrow> u64" where
  "align_val bm pos =
    of_nat pos * push_bit (bm_minAlign bm) 1 + push_bit (bm_baseAlign bm) 1"

text \<open>The inner loop of \<^verbatim>\<open>reserve\<close>: the next bit with the requested alignment.\<close>

definition align_up :: "bitmap \<Rightarrow> nat \<Rightarrow> nat \<Rightarrow> nat option" where
  "align_up bm align pos =
    while_option (\<lambda>pos. align > ctz (align_val bm pos)) (\<lambda>pos. u32wrap (pos + 1)) pos"

text \<open>
  The inner loop of \<^verbatim>\<open>rreserve\<close>: the nearest lower bit with the requested
  alignment, or a call of \<^verbatim>\<open>oom\<close> when it falls off the low end.
\<close>

fun align_down :: "bitmap \<Rightarrow> nat \<Rightarrow> nat \<Rightarrow> nat option" where
  "align_down bm align 0 = (if align > ctz (align_val bm 0) then None else Some 0)"
| "align_down bm align (Suc pos) =
    (if align > ctz (align_val bm (Suc pos)) then align_down bm align pos else Some (Suc pos))"

partial_function (option) reserve_loop ::
  "bitmap \<Rightarrow> nat \<Rightarrow> nat \<Rightarrow> nat \<Rightarrow> nat outcome option" where
  [code]: "reserve_loop bm nbits align pos =
    (case align_up bm align pos of
       None \<Rightarrow> None
     | Some pos \<Rightarrow>
         if u32wrap (pos + nbits) > bm_max bm then Some (oom bm nbits align)
         else case match_bits bm pos nbits BlockILS of
             Inl e \<Rightarrow> Some (Inl e)
           | Inr matched \<Rightarrow>
               if matched = nbits then Some (Ret pos)
               else case findFirstFree bm (u32wrap (pos + matched)) (bm_nBits bm) of
                   Inl e \<Rightarrow> Some (Inl e)
                 | Inr pos \<Rightarrow> reserve_loop bm nbits align pos)"

definition reserve :: "bitmap \<Rightarrow> nat \<Rightarrow> nat \<Rightarrow> (status \<times> nat option \<times> bitmap) outcome option" where
  "reserve bm nbits align =
    (if nbits = 0 then Some (Ret (LIBHPX_EINVAL, None, bm))
     else map_option (\<lambda>r. bindO r (\<lambda>pos.
       assertO (u32wrap (pos + nbits) \<le> bm_max bm)
         (let bm' = (if bm_min bm = pos then bm\<lparr>bm_min := u32wrap (pos + nbits)\<rparr> else bm)
          in bindO (set_bits bm' pos nbits) (\<lambda>bm''. Ret (LIBHPX_OK, Some pos, bm'')))))
       (reserve_loop bm nbits align (bm_min bm)))"

partial_function (option) rreserve_loop ::
  "bitmap \<Rightarrow> nat \<Rightarrow> nat \<Rightarrow> nat \<Rightarrow> nat \<Rightarrow> nat outcome option" where
  [code]: "rreserve_loop bm nbits align matched pos =
    (if matched = nbits then Some (Ret pos)
     else if \<not> matched \<le> nbits then Some (Fault Assert_failed)
     else let shift = u32sub nbits matched in
       if pos < shift then Some (oom bm nbits align)
       else case align_down bm align (pos - shift) of
           None \<Rightarrow> Some (oom bm nbits align)
         | Some pos \<Rightarrow>
             if pos < bm_min bm then Some (oom bm nbits align)
             else case match_bits bm pos nbits BlockIFS of
                 Inl e \<Rightarrow> Some (Inl e)
               | Inr matched \<Rightarrow> rreserve_loop bm nbits align matched pos)"

definition rreserve :: "bitmap \<Rightarrow> nat \<Rightarrow> nat \<Rightarrow> (status \<times> nat option \<times> bitmap) outcome option" where
  "rreserve bm nbits align =
    (if nbits = 0 then Some (Ret (LIBHPX_EINVAL, None, bm))
     else map_option (\<lambda>r. bindO r (\<lambda>pos.
       assertO (u32wrap (pos + nbits) \<le> bm_max bm)
         (let bm' = (if bm_max bm = u32wrap (pos + nbits) then bm\<lparr>bm_max := pos\<rparr> else bm)
          in bindO (set_bits bm' pos nbits) (\<lambda>bm''. Ret (LIBHPX_OK, Some pos, bm'')))))
       (rreserve_loop bm nbits align 0 (bm_max bm)))"

definition release :: "bitmap \<Rightarrow> nat \<Rightarrow> nat \<Rightarrow> bitmap outcome" where
  "release bm pos nbits = bindO (clear_bits bm pos nbits) (\<lambda>bm1.
    let bm2 = (if pos < bm_min bm1 then bm1\<lparr>bm_min := pos\<rparr> else bm1);
        mx = u32wrap (pos + nbits)
    in Ret (if mx > bm_max bm2 then bm2\<lparr>bm_max := mx\<rparr> else bm2))"

function isSet_loop :: "u64 list \<Rightarrow> nat \<Rightarrow> u64 \<Rightarrow> nat \<Rightarrow> bool outcome" where
  "isSet_loop bs block msk nbits =
    (if nbits > 0 then
       if block < length bs then
         if msk XOR (msk AND bs ! block) \<noteq> 0 then Ret True
         else let nbits' = u32sub nbits (popcount msk) in
           case CreateMask 0 nbits' of
             Inl e \<Rightarrow> Inl e
           | Inr msk' \<Rightarrow> isSet_loop bs (Suc block) msk' nbits'
       else Fault Out_of_bounds
     else Ret False)"
  by pat_completeness auto
termination
  by (relation "measure (\<lambda>(bs, block, msk, nbits). length bs - block)") auto

declare isSet_loop.simps [simp del]

definition isSet :: "bitmap \<Rightarrow> nat \<Rightarrow> nat \<Rightarrow> bool outcome" where
  "isSet bm pos nbits = assertO (u32wrap (pos + nbits) \<le> bm_nBits bm)
    (bindO (CreateMask (pos mod BLOCK_BITS) nbits) (\<lambda>msk.
      isSet_loop (bm_blocks bm) (pos div BLOCK_BITS) msk nbits))"

section \<open>Abstract view and invariant\<close>

definition free_at :: "u64 list \<Rightarrow> nat \<Rightarrow> bool" where
  "free_at bs k = bit (bs ! (k div 64)) (k mod 64)"

definition free_run :: "u64 list \<Rightarrow> nat \<Rightarrow> nat \<Rightarrow> bool" where
  "free_run bs p n = (\<forall>k. p \<le> k \<longrightarrow> k < p + n \<longrightarrow> free_at bs k)"

definition free_set :: "bitmap \<Rightarrow> nat set" where
  "free_set bm = {k. k < bm_nBits bm \<and> free_at (bm_blocks bm) k}"

definition aligned :: "bitmap \<Rightarrow> nat \<Rightarrow> nat \<Rightarrow> bool" where
  "aligned bm align k = (2 ^ align dvd k * 2 ^ bm_minAlign bm + 2 ^ bm_baseAlign bm)"

definition bm_inv :: "bitmap \<Rightarrow> bool" where
  "bm_inv bm = (length (bm_blocks bm) = bm_nBlocks bm \<and>
    bm_nBlocks bm = ceil_div (bm_nBits bm) 64 \<and>
    bm_nBits bm + 64 \<le> 2 ^ 32 \<and> bm_minAlign bm \<le> bm_baseAlign bm \<and>
    bm_minAlign bm \<le> 30 \<and> bm_baseAlign bm \<le> 62 \<and>
    bm_min bm \<le> bm_max bm \<and> bm_max bm \<le> bm_nBits bm \<and>
    (\<forall>k \<in> free_set bm. bm_min bm \<le> k \<and> k < bm_max bm))"

definition candidate :: "bitmap \<Rightarrow> nat \<Rightarrow> nat \<Rightarrow> nat \<Rightarrow> bool" where
  "candidate bm nbits align p =
    (aligned bm align p \<and> p + nbits \<le> bm_nBits bm \<and> {p..<p + nbits} \<subseteq> free_set bm)"

section \<open>Masks\<close>

definition interval_mask :: "u64 \<Rightarrow> nat \<Rightarrow> nat \<Rightarrow> bool" where
  "interval_mask w off len = (\<forall>k. bit w k \<longleftrightarrow> k < 64 \<and> off \<le> k \<and> k < off + len)"

lemma CreateMask_interval:
  assumes "off < 64"
  shows "\<exists>w. CreateMask off len = Ret w \<and> interval_mask w off len"
proof -
  let ?r = "if 64 < len then 0 else 64 - len"
  have "interval_mask (push_bit off (drop_bit ?r (- 1))) off len"
    unfolding interval_mask_def using assms by (auto simp: bit_simps)
  moreover have "CreateMask off len = Ret (push_bit off (drop_bit ?r (- 1)))"
    using assms by (simp add: CreateMask_def BLOCK_BITS_def Let_def)
  ultimately show ?thesis by blast
qed

lemma CreateMask_mod:
  obtains w where "CreateMask (p mod 64) len = Ret w" "interval_mask w (p mod 64) len"
proof -
  have "p mod 64 < 64" by simp
  from CreateMask_interval [OF this, of len] that show thesis by blast
qed

lemma interval_mask_bit_off: "interval_mask w off len \<Longrightarrow> off < 64 \<Longrightarrow> 0 < len \<Longrightarrow> bit w off"
  by (simp add: interval_mask_def)

lemma interval_mask_nonzero: "interval_mask w off len \<Longrightarrow> off < 64 \<Longrightarrow> 0 < len \<Longrightarrow> w \<noteq> 0"
  using interval_mask_bit_off by fastforce

lemma interval_mask_ctz: "interval_mask w off len \<Longrightarrow> off < 64 \<Longrightarrow> 0 < len \<Longrightarrow> ctz w = off"
  by (rule ctz_eqI) (simp_all add: interval_mask_def)

lemma interval_mask_popcount:
  assumes "interval_mask w off len" "off < 64"
  shows "popcount w = min len (64 - off)"
proof -
  have "popcount w = min (off + len) LENGTH(64) - off"
    by (rule popcount_interval) (use assms in \<open>simp add: interval_mask_def\<close>)
  then show ?thesis using assms(2) by (simp add: min_def split: if_splits)
qed

lemma interval_mask_full: "interval_mask (- 1) 0 64"
  by (simp add: interval_mask_def bit_simps)

lemma interval_mask_trunc:
  assumes "off < 64" "interval_mask w off 64"
  shows "interval_mask w off (64 - off)"
proof -
  have "k < 64 \<and> off \<le> k \<and> k < off + 64 \<longleftrightarrow> k < 64 \<and> off \<le> k \<and> k < off + (64 - off)" for k
    using assms(1) by linarith
  with assms(2) show ?thesis unfolding interval_mask_def by blast
qed

lemma BlockIFS_mask:
  "interval_mask w off len \<Longrightarrow> off < 64 \<Longrightarrow> 0 < len \<Longrightarrow> BlockIFS w = Ret off"
  by (simp add: BlockIFS_def interval_mask_ctz interval_mask_nonzero)

lemma mismatch_bit: "bit (w XOR (w AND b)) k \<longleftrightarrow> bit w k \<and> \<not> bit b k" for w b :: u64
  by (auto simp: bit_simps)

lemma mismatch_zero: "w XOR (w AND b) = 0 \<longleftrightarrow> (\<forall>k. bit w k \<longrightarrow> bit b k)" for w b :: u64
proof
  assume "w XOR (w AND b) = 0"
  then have "\<not> bit (w XOR (w AND b)) k" for k by simp
  then show "\<forall>k. bit w k \<longrightarrow> bit b k" by (simp only: mismatch_bit) blast
next
  assume "\<forall>k. bit w k \<longrightarrow> bit b k"
  then show "w XOR (w AND b) = 0" by (intro bit_word_eqI) (auto simp: bit_simps)
qed

lemma free_at_block: "k < 64 \<Longrightarrow> free_at bs (64 * b + k) = bit (bs ! b) k"
  by (simp add: free_at_def)

lemma free_run_split:
  assumes "m \<le> n"
  shows "free_run bs p n \<longleftrightarrow> free_run bs p m \<and> free_run bs (p + m) (n - m)"
proof -
  have "p \<le> k \<and> k < p + n \<longleftrightarrow> (p \<le> k \<and> k < p + m) \<or> (p + m \<le> k \<and> k < p + m + (n - m))" for k
    using assms by linarith
  then show ?thesis unfolding free_run_def by blast
qed

lemma free_run_block:
  assumes "off < 64" "interval_mask w off len"
  shows "(\<forall>k. bit w k \<longrightarrow> bit (bs ! b) k) \<longleftrightarrow> free_run bs (64 * b + off) (min len (64 - off))"
proof
  assume *: "\<forall>k. bit w k \<longrightarrow> bit (bs ! b) k"
  show "free_run bs (64 * b + off) (min len (64 - off))"
    unfolding free_run_def
  proof (intro allI impI)
    fix k assume k: "64 * b + off \<le> k" "k < 64 * b + off + min len (64 - off)"
    define j where "j = k - 64 * b"
    have "off \<le> j" "j < 64" "j < off + len" "k = 64 * b + j"
      using k assms(1) unfolding j_def by linarith+
    then show "free_at bs k" using * assms(2) by (simp add: free_at_block interval_mask_def)
  qed
next
  assume *: "free_run bs (64 * b + off) (min len (64 - off))"
  show "\<forall>k. bit w k \<longrightarrow> bit (bs ! b) k"
  proof (intro allI impI)
    fix k assume "bit w k"
    then have "k < 64" "off \<le> k" "k < off + len" using assms by (auto simp: interval_mask_def)
    then have "free_at bs (64 * b + k)" using * by (auto simp: free_run_def)
    with \<open>k < 64\<close> show "bit (bs ! b) k" by (simp add: free_at_block)
  qed
qed

section \<open>Range scans\<close>

text \<open>
  The contract of the function pointer passed to \<^verbatim>\<open>match\<close>: it names a bit
  that is 1 in a nonzero block.
\<close>

locale block_scan =
  fixes scan :: "u64 \<Rightarrow> nat outcome"
  assumes scan_bit: "w \<noteq> 0 \<Longrightarrow> \<exists>i. scan w = Ret i \<and> bit w i"
begin

lemma match_loop_scan:
  assumes "interval_mask w off (nbits - n)" "off < 64" "n < nbits" "nbits < 2 ^ 32"
    and "64 * block + off + (nbits - n) \<le> 64 * length bs"
  shows "\<exists>r. match_loop bs nbits scan block w n = Ret r \<and> n \<le> r \<and> r \<le> nbits \<and>
    (r = nbits \<longleftrightarrow> free_run bs (64 * block + off) (nbits - n)) \<and>
    (r < nbits \<longrightarrow> \<not> free_at bs (64 * block + off + (r - n)))"
  using assms
proof (induction "nbits - n" arbitrary: n block off w rule: less_induct)
  case less
  have blk: "block < length bs" using less.prems by linarith
  let ?mm = "w XOR (w AND bs ! block)"
  show ?case
  proof (cases "?mm = 0")
    case False
    obtain i where i: "scan ?mm = Ret i" "bit ?mm i" using scan_bit [OF False] by blast
    then have iw: "bit w i" "\<not> bit (bs ! block) i" using mismatch_bit by blast+
    then have b: "off \<le> i" "i < 64" "i < off + (nbits - n)"
      using less.prems(1) by (auto simp: interval_mask_def)
    have "match_loop bs nbits scan block w n = Ret (n + i - off)"
      using less.prems b blk False i(1)
      by (subst match_loop.simps) (simp add: Let_def BlockIFS_mask u32sub_wrap)
    moreover have "\<not> free_at bs (64 * block + i)" using iw(2) b by (simp add: free_at_block)
    ultimately show ?thesis
      using b less.prems(3) by (auto simp: free_run_def intro!: exI [of _ "64 * block + i"])
  next
    case True
    let ?c = "min (nbits - n) (64 - off)"
    have pc: "popcount w = ?c" using interval_mask_popcount less.prems by blast
    have fr: "free_run bs (64 * block + off) ?c"
      using True free_run_block [OF less.prems(2,1)] by (simp add: mismatch_zero)
    obtain w' where w': "CreateMask 0 (nbits - (n + ?c)) = Ret w'"
      "interval_mask w' 0 (nbits - (n + ?c))"
      using CreateMask_interval [of 0] by auto
    have small: "n + ?c < 2 ^ 32" "n + ?c \<le> nbits" using less.prems by linarith+
    have step: "match_loop bs nbits scan block w n = match_loop bs nbits scan (Suc block) w' (n + ?c)"
      using less.prems(3) blk True w'(1) small
      by (subst match_loop.simps) (simp add: Let_def pc)
    show ?thesis
    proof (cases "n + ?c < nbits")
      case False
      then have "n + ?c = nbits" using small by simp
      then have "match_loop bs nbits scan block w n = Ret nbits"
        unfolding step by (subst match_loop.simps) simp
      moreover have "?c = nbits - n" using \<open>n + ?c = nbits\<close> by linarith
      ultimately show ?thesis using fr less.prems(3) by simp
    next
      case lt: True
      then have c: "?c = 64 - off" by linarith
      have pos: "64 * Suc block + 0 = 64 * block + off + ?c" unfolding c using less.prems(2) by simp
      have "\<exists>r. match_loop bs nbits scan (Suc block) w' (n + ?c) = Ret r \<and> n + ?c \<le> r \<and> r \<le> nbits \<and>
        (r = nbits \<longleftrightarrow> free_run bs (64 * Suc block + 0) (nbits - (n + ?c))) \<and>
        (r < nbits \<longrightarrow> \<not> free_at bs (64 * Suc block + 0 + (r - (n + ?c))))"
      proof (rule less.hyps)
        show "nbits - (n + ?c) < nbits - n" unfolding c using less.prems(2,3) by linarith
        show "64 * Suc block + 0 + (nbits - (n + ?c)) \<le> 64 * length bs"
          using less.prems(2,3,5) lt unfolding c by simp
      qed (use lt w'(2) less.prems(4) in auto)
      then obtain r where r: "match_loop bs nbits scan (Suc block) w' (n + ?c) = Ret r"
        "n + ?c \<le> r" "r \<le> nbits"
        "r = nbits \<longleftrightarrow> free_run bs (64 * block + off + ?c) (nbits - (n + ?c))"
        "r < nbits \<Longrightarrow> \<not> free_at bs (64 * block + off + ?c + (r - (n + ?c)))"
        unfolding pos by blast
      have "free_run bs (64 * block + off) (nbits - n) \<longleftrightarrow> r = nbits"
        using free_run_split [of ?c "nbits - n" bs "64 * block + off"] fr r(4)
        by (simp only: diff_diff_left min.cobounded1) blast
      moreover have "64 * block + off + ?c + (r - (n + ?c)) = 64 * block + off + (r - n)"
        using r(2) by linarith
      ultimately show ?thesis using r(1-3,5) unfolding step by (intro exI [of _ r]) simp
    qed
  qed
qed

lemma match_bits_scan:
  assumes "0 < nbits" "nbits < 2 ^ 32" "p + nbits \<le> 64 * length (bm_blocks bm)"
  shows "\<exists>r. match_bits bm p nbits scan = Ret r \<and> r \<le> nbits \<and>
    (r = nbits \<longleftrightarrow> free_run (bm_blocks bm) p nbits) \<and>
    (r < nbits \<longrightarrow> \<not> free_at (bm_blocks bm) (p + r))"
proof -
  obtain w where w: "CreateMask (p mod 64) nbits = Ret w" "interval_mask w (p mod 64) nbits"
    by (rule CreateMask_mod)
  have pp: "64 * (p div 64) + p mod 64 = p" by simp
  have "match_bits bm p nbits scan = match_loop (bm_blocks bm) nbits scan (p div 64) w 0"
    using w(1) assms(1) by (simp add: match_bits_def BLOCK_BITS_def)
  moreover have "\<exists>r. match_loop (bm_blocks bm) nbits scan (p div 64) w 0 = Ret r \<and> 0 \<le> r \<and>
    r \<le> nbits \<and> (r = nbits \<longleftrightarrow> free_run (bm_blocks bm) (64 * (p div 64) + p mod 64) (nbits - 0)) \<and>
    (r < nbits \<longrightarrow> \<not> free_at (bm_blocks bm) (64 * (p div 64) + p mod 64 + (r - 0)))"
    by (rule match_loop_scan, unfold pp diff_zero) (use w(2) assms in simp_all)
  ultimately show ?thesis by (simp only: pp diff_zero) blast
qed

end

interpretation ifs: block_scan BlockIFS
  by unfold_locales (simp add: BlockIFS_def ctz_least(1))

interpretation ils: block_scan BlockILS
proof unfold_locales
  fix w :: u64 assume "w \<noteq> 0"
  then show "\<exists>i. BlockILS w = Ret i \<and> bit w i"
    using clz_bounds(1) [of w] by (simp add: BlockILS_def BLOCK_BITS_def diff_right_commute)
qed

lemma findFirstFree_loop_scan:
  assumes "interval_mask w off (64 - off)" "off < 64" "64 * block + off < mx"
    and "mx \<le> 64 * length bs" "64 * length bs < 2 ^ 32"
  shows "\<exists>r. findFirstFree_loop bs mx block w (64 * block + off) = Ret r \<and>
    64 * block + off \<le> r \<and> r \<le> 64 * length bs \<and>
    (\<forall>k. 64 * block + off \<le> k \<longrightarrow> k < r \<longrightarrow> \<not> free_at bs k) \<and> (r < mx \<longrightarrow> free_at bs r)"
  using assms
proof (induction "length bs - block" arbitrary: block off w rule: less_induct)
  case less
  have blk: "block < length bs" using less.prems by linarith
  let ?m = "w AND bs ! block"
  have mbit: "bit ?m i \<longleftrightarrow> off \<le> i \<and> i < 64 \<and> bit (bs ! block) i" for i
    using less.prems(1,2) by (auto simp: interval_mask_def bit_and_iff)
  have none: "\<not> free_at bs k"
    if "64 * block + off \<le> k" "k < 64 * block + n" "n \<le> 64" "\<And>i. i < n \<Longrightarrow> \<not> bit ?m i" for k n
  proof -
    define j where "j = k - 64 * block"
    have j: "off \<le> j" "j < n" "j < 64" "k = 64 * block + j" using that(1-3) unfolding j_def by linarith+
    then have "\<not> bit (bs ! block) j" using that(4) [of j] mbit by blast
    with j show ?thesis by (simp add: free_at_block)
  qed
  show ?case
  proof (cases "?m = 0")
    case False
    define i where "i = ctz ?m"
    have i: "bit ?m i" "\<And>j. j < i \<Longrightarrow> \<not> bit ?m j"
      unfolding i_def using ctz_least [OF False] by auto
    then have b: "off \<le> i" "i < 64" "bit (bs ! block) i" using mbit by blast+
    have "findFirstFree_loop bs mx block w (64 * block + off) = Ret (64 * block + i)"
      using less.prems b blk False BlockIFS_mask [OF less.prems(1,2)]
      by (subst findFirstFree_loop.simps) (simp add: Let_def BlockIFS_def i_def u32sub_wrap)
    moreover have "free_at bs (64 * block + i)" using b by (simp add: free_at_block)
    moreover have "64 * block + i \<le> 64 * length bs" using blk b by linarith
    ultimately show ?thesis using b none [of _ i] i(2) by auto
  next
    case True
    have pc: "64 * block + off + popcount w = 64 * Suc block + 0"
      using interval_mask_popcount [OF less.prems(1,2)] less.prems(2) by simp
    have "64 * Suc block \<le> 64 * length bs" using blk by simp
    then have "64 * Suc block < 2 ^ 32" using less.prems(5) by (rule le_less_trans)
    then have step: "findFirstFree_loop bs mx block w (64 * block + off) =
        findFirstFree_loop bs mx (Suc block) (- 1) (64 * Suc block + 0)"
      using less.prems(3) blk True
      by (subst findFirstFree_loop.simps) (simp only: pc Let_def if_True if_False
        u32wrap_small add_0_right, simp)
    have pre: "\<not> free_at bs k" if "64 * block + off \<le> k" "k < 64 * Suc block" for k
      using none [of k 64] that True by simp
    show ?thesis
    proof (cases "64 * Suc block + 0 < mx")
      case False
      then have "findFirstFree_loop bs mx block w (64 * block + off) = Ret mx"
        unfolding step by (subst findFirstFree_loop.simps) simp
      with False less.prems(3,4) pre show ?thesis by simp
    next
      case lt: True
      have "\<exists>r. findFirstFree_loop bs mx (Suc block) (- 1) (64 * Suc block + 0) = Ret r \<and>
        64 * Suc block + 0 \<le> r \<and> r \<le> 64 * length bs \<and>
        (\<forall>k. 64 * Suc block + 0 \<le> k \<longrightarrow> k < r \<longrightarrow> \<not> free_at bs k) \<and> (r < mx \<longrightarrow> free_at bs r)"
        by (rule less.hyps) (use lt blk less.prems(4,5) interval_mask_full in simp_all)
      then obtain r where r: "findFirstFree_loop bs mx block w (64 * block + off) = Ret r"
        "64 * Suc block \<le> r" "r \<le> 64 * length bs" "r < mx \<longrightarrow> free_at bs r"
        "\<And>k. 64 * Suc block \<le> k \<Longrightarrow> k < r \<Longrightarrow> \<not> free_at bs k"
        unfolding step by auto
      have "\<not> free_at bs k" if "64 * block + off \<le> k" "k < r" for k
        using pre [of k] r(5) [of k] that by (cases "k < 64 * Suc block") auto
      with r less.prems(2) show ?thesis by (intro exI [of _ r]) auto
    qed
  qed
qed

lemma findFirstFree_scan:
  assumes "p < mx" "mx \<le> 64 * length (bm_blocks bm)" "64 * length (bm_blocks bm) < 2 ^ 32"
  shows "\<exists>r. findFirstFree bm p mx = Ret r \<and> p \<le> r \<and> r \<le> 64 * length (bm_blocks bm) \<and>
    (\<forall>k. p \<le> k \<longrightarrow> k < r \<longrightarrow> \<not> free_at (bm_blocks bm) k) \<and> (r < mx \<longrightarrow> free_at (bm_blocks bm) r)"
proof -
  obtain w where w: "CreateMask (p mod 64) 64 = Ret w" "interval_mask w (p mod 64) 64"
    by (rule CreateMask_mod)
  have off: "p mod 64 < 64" by simp
  have w': "interval_mask w (p mod 64) (64 - p mod 64)"
    using off w(2) by (rule interval_mask_trunc)
  have pp: "64 * (p div 64) + p mod 64 = p" by simp
  have "findFirstFree bm p mx = findFirstFree_loop (bm_blocks bm) mx (p div 64) w p"
    using w(1) assms(1) by (simp add: findFirstFree_def BLOCK_BITS_def)
  with findFirstFree_loop_scan [OF w' off, of "p div 64", unfolded pp, OF assms] show ?thesis by simp
qed

text \<open>
  The range updates: both loops overwrite the bits of the range with one
  value and leave every other bit alone.
\<close>

locale range_update =
  fixes upd_loop :: "u64 list \<Rightarrow> nat \<Rightarrow> u64 \<Rightarrow> nat \<Rightarrow> u64 list outcome"
    and upd :: "u64 \<Rightarrow> u64 \<Rightarrow> u64" and val :: bool
  assumes upd_loop: "upd_loop bs block w n =
    (if n > 0 then
       if block < length bs then
         let n' = u32sub n (popcount w) in
         case CreateMask 0 n' of
           Inl e \<Rightarrow> Inl e
         | Inr w' \<Rightarrow> upd_loop (bs[block := upd (bs ! block) w]) (Suc block) w' n'
       else Fault Out_of_bounds
     else Ret bs)"
    and upd_bit: "k < 64 \<Longrightarrow> bit (upd b w) k \<longleftrightarrow> (if bit w k then val else bit b k)"
begin

lemma upd_block:
  assumes "interval_mask w off n" "off < 64" "block < length bs"
  shows "free_at (bs[block := upd (bs ! block) w]) k \<longleftrightarrow>
    (if 64 * block + off \<le> k \<and> k < 64 * block + off + min n (64 - off) then val else free_at bs k)"
proof (cases "k div 64 = block")
  case True
  define j where "j = k mod 64"
  have j: "j < 64" "k = 64 * block + j" unfolding j_def using True by auto
  have "bit w j \<longleftrightarrow> j < 64 \<and> off \<le> j \<and> j < off + n" using assms(1) by (simp add: interval_mask_def)
  then have "64 * block + off \<le> k \<and> k < 64 * block + off + min n (64 - off) \<longleftrightarrow> bit w j"
    unfolding j(2) using j(1) assms(2) by linarith
  then show ?thesis
    using assms(3) j(1) unfolding j(2) by (simp add: free_at_block upd_bit)
next
  case False
  have "\<not> (64 * block + off \<le> k \<and> k < 64 * block + off + min n (64 - off))"
  proof
    assume "64 * block + off \<le> k \<and> k < 64 * block + off + min n (64 - off)"
    then have "64 * block \<le> k" "k < 64 * Suc block" using assms(2) by auto
    then have "k div 64 = block" by (intro div_nat_eqI) auto
    with False show False ..
  qed
  then show ?thesis using False by (simp only: if_False) (simp add: free_at_def)
qed

lemma upd_loop_range:
  assumes "interval_mask w off n" "off < 64" "0 < n" "64 * block + off + n \<le> 64 * length bs"
  shows "\<exists>bs'. upd_loop bs block w n = Ret bs' \<and> length bs' = length bs \<and>
    (\<forall>k. free_at bs' k \<longleftrightarrow>
      (if 64 * block + off \<le> k \<and> k < 64 * block + off + n then val else free_at bs k))"
  using assms
proof (induction n arbitrary: bs block off w rule: less_induct)
  case (less n)
  have blk: "block < length bs" using less.prems by linarith
  let ?c = "min n (64 - off)"
  let ?bs = "bs[block := upd (bs ! block) w]"
  have pc: "popcount w = ?c" using interval_mask_popcount less.prems by blast
  obtain w' where w': "CreateMask 0 (n - ?c) = Ret w'" "interval_mask w' 0 (n - ?c)"
    using CreateMask_interval [of 0] by auto
  have step: "upd_loop bs block w n = upd_loop ?bs (Suc block) w' (n - ?c)"
    using less.prems(3) blk w'(1) by (subst upd_loop) (simp add: Let_def pc)
  note here = upd_block [OF less.prems(1,2) blk]
  show ?case
  proof (cases "n \<le> 64 - off")
    case True
    then have "upd_loop bs block w n = Ret ?bs" unfolding step by (subst upd_loop) simp
    moreover have "?c = n" using True by simp
    ultimately show ?thesis using here by simp
  next
    case False
    then have c: "?c = 64 - off" by simp
    have pos: "64 * Suc block + 0 = 64 * block + off + ?c" unfolding c using less.prems(2) by simp
    have "\<exists>bs'. upd_loop ?bs (Suc block) w' (n - ?c) = Ret bs' \<and> length bs' = length ?bs \<and>
      (\<forall>k. free_at bs' k \<longleftrightarrow>
        (if 64 * Suc block + 0 \<le> k \<and> k < 64 * Suc block + 0 + (n - ?c) then val else free_at ?bs k))"
    proof (rule less.IH)
      show "n - ?c < n" "0 < n - ?c" unfolding c using less.prems(2) False by linarith+
      show "64 * Suc block + 0 + (n - ?c) \<le> 64 * length ?bs"
        unfolding pos using less.prems(4) by simp
    qed (use w' in auto)
    then obtain bs' where bs': "upd_loop bs block w n = Ret bs'" "length bs' = length bs"
      "\<And>k. free_at bs' k \<longleftrightarrow> (if 64 * block + off + ?c \<le> k \<and> k < 64 * block + off + ?c + (n - ?c)
        then val else free_at ?bs k)"
      unfolding step pos by auto
    have "64 * block + off + ?c + (n - ?c) = 64 * block + off + n" by simp
    then have "free_at bs' k \<longleftrightarrow>
      (if 64 * block + off \<le> k \<and> k < 64 * block + off + n then val else free_at bs k)" for k
      unfolding bs'(3) here by (cases "k < 64 * block + off + ?c") auto
    with bs'(1,2) show ?thesis by blast
  qed
qed

end

interpretation setl: range_update set_loop "\<lambda>b w. b AND NOT w" False
  by unfold_locales (subst set_loop.simps, simp, auto simp: bit_simps)

interpretation clearl: range_update clear_loop "\<lambda>b w. b OR w" True
  by unfold_locales (subst clear_loop.simps, simp, auto simp: bit_simps)

lemma set_bits_range:
  assumes "0 < n" "p + n \<le> 64 * length (bm_blocks bm)"
  shows "\<exists>bs. set_bits bm p n = Ret (bm\<lparr>bm_blocks := bs\<rparr>) \<and> length bs = length (bm_blocks bm) \<and>
    (\<forall>k. free_at bs k \<longleftrightarrow> free_at (bm_blocks bm) k \<and> \<not> (p \<le> k \<and> k < p + n))"
proof -
  obtain w where w: "CreateMask (p mod 64) n = Ret w" "interval_mask w (p mod 64) n"
    by (rule CreateMask_mod)
  have off: "p mod 64 < 64" by simp
  have pp: "64 * (p div 64) + p mod 64 = p" by simp
  obtain bs where "set_loop (bm_blocks bm) (p div 64) w n = Ret bs" "length bs = length (bm_blocks bm)"
    "\<And>k. free_at bs k \<longleftrightarrow> (if p \<le> k \<and> k < p + n then False else free_at (bm_blocks bm) k)"
    using setl.upd_loop_range [OF w(2) off assms(1), of "p div 64" "bm_blocks bm"] assms(2)
    unfolding pp by blast
  moreover from this(1) have "set_bits bm p n = Ret (bm\<lparr>bm_blocks := bs\<rparr>)"
    using w(1) assms(1) by (simp add: set_bits_def BLOCK_BITS_def)
  ultimately show ?thesis by (intro exI [of _ bs]) auto
qed

lemma clear_bits_range:
  assumes "0 < n" "p + n \<le> 64 * length (bm_blocks bm)"
  shows "\<exists>bs. clear_bits bm p n = Ret (bm\<lparr>bm_blocks := bs\<rparr>) \<and> length bs = length (bm_blocks bm) \<and>
    (\<forall>k. free_at bs k \<longleftrightarrow> free_at (bm_blocks bm) k \<or> (p \<le> k \<and> k < p + n))"
proof -
  obtain w where w: "CreateMask (p mod 64) n = Ret w" "interval_mask w (p mod 64) n"
    by (rule CreateMask_mod)
  have off: "p mod 64 < 64" by simp
  have pp: "64 * (p div 64) + p mod 64 = p" by simp
  obtain bs where "clear_loop (bm_blocks bm) (p div 64) w n = Ret bs" "length bs = length (bm_blocks bm)"
    "\<And>k. free_at bs k \<longleftrightarrow> (if p \<le> k \<and> k < p + n then True else free_at (bm_blocks bm) k)"
    using clearl.upd_loop_range [OF w(2) off assms(1), of "p div 64" "bm_blocks bm"] assms(2)
    unfolding pp by blast
  moreover from this(1) have "clear_bits bm p n = Ret (bm\<lparr>bm_blocks := bs\<rparr>)"
    using w(1) assms(1) by (simp add: clear_bits_def BLOCK_BITS_def)
  ultimately show ?thesis by (intro exI [of _ bs]) auto
qed

end
