(* ===== verification/Hpx_Allocator.thy ===== *)
theory Hpx_Allocator
  imports Hpx_Bitmap
begin

text \<open>
  Correctness of the bitmap allocator: the searches find the least and the
  greatest aligned free run, release undoes a reservation, and any sequence of
  reservations and releases keeps the live allocations disjoint. The last part
  is proved over an allocator interface that the bitmap implements.
\<close>

section \<open>Alignment\<close>

lemma le_ctz_iff_dvd:
  fixes w :: "'a::len word"
  assumes "w \<noteq> 0"
  shows "a \<le> ctz w \<longleftrightarrow> 2 ^ a dvd unat w"
proof -
  have "2 ^ a dvd unat w \<longleftrightarrow> take_bit a (unat w) = 0"
    by (simp add: take_bit_eq_0_iff)
  also have "\<dots> \<longleftrightarrow> (\<forall>j < a. \<not> bit w j)"
    by (auto simp: bit_eq_iff [of "take_bit a _"] bit_take_bit_iff bit_unsigned_iff)
  also have "\<dots> \<longleftrightarrow> a \<le> ctz w"
    using ctz_least [OF assms] by (meson leI le_less_trans less_le_trans)
  finally show ?thesis by simp
qed

lemma align_val_unat:
  assumes "bm_inv bm" "k < 2 ^ 32"
  shows "unat (align_val bm k) = k * 2 ^ bm_minAlign bm + 2 ^ bm_baseAlign bm"
    and "align_val bm k \<noteq> 0"
proof -
  let ?v = "k * 2 ^ bm_minAlign bm + 2 ^ bm_baseAlign bm"
  have m: "bm_minAlign bm \<le> 30" "bm_baseAlign bm \<le> 62" using assms(1) by (auto simp: bm_inv_def)
  have "(2::nat) ^ bm_minAlign bm \<le> 2 ^ 30" using m(1) by (intro power_increasing) auto
  then have "k * 2 ^ bm_minAlign bm < 2 ^ 32 * 2 ^ 30"
    using assms(2) by (intro mult_less_le_imp_less) auto
  moreover have "(2::nat) ^ bm_baseAlign bm \<le> 2 ^ 62" using m(2) by (intro power_increasing) auto
  ultimately have lt: "?v < 2 ^ LENGTH(64)" by simp
  have av: "align_val bm k = of_nat ?v"
    by (simp add: align_val_def push_bit_eq_mult)
  show *: "unat (align_val bm k) = ?v" unfolding av using lt by (rule unat_of_nat_small)
  have "?v \<noteq> 0" by simp
  with * show "align_val bm k \<noteq> 0" by (metis unsigned_0)
qed

lemma ctz_aligned:
  assumes "bm_inv bm" "k < 2 ^ 32"
  shows "align > ctz (align_val bm k) \<longleftrightarrow> \<not> aligned bm align k"
  using le_ctz_iff_dvd [of "align_val bm k" align] align_val_unat [OF assms]
  by (auto simp: aligned_def)

lemma next_multiple:
  fixes P p c :: nat
  assumes "0 < P"
  obtains k where "p \<le> k" "k < p + P" "P dvd k + c"
proof (cases "(p + c) mod P = 0")
  case True
  then show thesis using that [of p] assms by auto
next
  case False
  define r where "r = (p + c) mod P"
  have r: "0 < r" "r < P" using False assms by (auto simp: r_def)
  have "p + c = P * ((p + c) div P) + r" by (simp add: r_def)
  then have "p + (P - r) + c = P * ((p + c) div P + 1)" using r(2) by (simp add: distrib_left)
  then have "P dvd p + (P - r) + c" by (metis dvd_triv_left)
  then show thesis using that [of "p + (P - r)"] r by auto
qed

lemma aligned_next:
  assumes "bm_inv bm"
  obtains k where "p \<le> k" "k < p + 2 ^ (align - bm_minAlign bm)" "aligned bm align k"
proof -
  let ?m = "bm_minAlign bm" let ?b = "bm_baseAlign bm" let ?P = "2 ^ (align - ?m) :: nat"
  have mb: "?m \<le> ?b" using assms by (simp add: bm_inv_def)
  obtain k where k: "p \<le> k" "k < p + ?P" "?P dvd k + 2 ^ (?b - ?m)"
    by (rule next_multiple [of ?P]) auto
  have "(2::nat) ^ align dvd 2 ^ ?m * ?P"
    unfolding power_add [symmetric] by (rule le_imp_power_dvd) simp
  also have "2 ^ ?m * ?P dvd 2 ^ ?m * (k + 2 ^ (?b - ?m))" using k(3) by (rule mult_dvd_mono [OF dvd_refl])
  also have "\<dots> = k * 2 ^ ?m + 2 ^ ?m * 2 ^ (?b - ?m)" by (simp only: distrib_left mult.commute)
  also have "(2::nat) ^ ?m * 2 ^ (?b - ?m) = 2 ^ ?b" unfolding power_add [symmetric] using mb by simp
  finally have "aligned bm align k" by (simp add: aligned_def)
  then show thesis using that k(1,2) by blast
qed

lemma align_up_least:
  assumes "bm_inv bm" "p + 2 ^ (align - bm_minAlign bm) \<le> 2 ^ 32"
  obtains k where "align_up bm align p = Some k" "p \<le> k" "k < p + 2 ^ (align - bm_minAlign bm)"
    "aligned bm align k" "\<And>j. p \<le> j \<Longrightarrow> j < k \<Longrightarrow> \<not> aligned bm align j"
proof -
  obtain k' where k': "p \<le> k'" "k' < p + 2 ^ (align - bm_minAlign bm)" "aligned bm align k'"
    using aligned_next [OF assms(1)] by blast
  define k where "k = (LEAST k. p \<le> k \<and> aligned bm align k)"
  have k: "p \<le> k" "aligned bm align k" "\<And>j. p \<le> j \<Longrightarrow> j < k \<Longrightarrow> \<not> aligned bm align j" "k \<le> k'"
    unfolding k_def using k' LeastI [of "\<lambda>k. p \<le> k \<and> aligned bm align k" k']
    by (auto dest: not_less_Least intro: Least_le)
  have lt: "k < 2 ^ 32" using k(4) k'(2) assms(2) by linarith
  have "align_up bm align q = Some k" if "p \<le> q" "q \<le> k" for q
    using that
  proof (induction "k - q" arbitrary: q)
    case 0
    then have "\<not> align > ctz (align_val bm q)" using k(2) lt ctz_aligned [OF assms(1), of q align] by simp
    with 0 show ?case unfolding align_up_def by (subst while_option_unfold) simp
  next
    case (Suc d)
    then have "q < k" by simp
    then have "align > ctz (align_val bm q)" using k(3) Suc.prems lt ctz_aligned [OF assms(1), of q align] by simp
    moreover have "align_up bm align (q + 1) = Some k" by (rule Suc.hyps(1)) (use Suc in auto)
    moreover have "u32wrap (q + 1) = q + 1" using \<open>q < k\<close> lt by (intro u32wrap_small) linarith
    ultimately show ?case unfolding align_up_def by (subst while_option_unfold) simp
  qed
  with k have "align_up bm align p = Some k" by simp
  moreover have "k < p + 2 ^ (align - bm_minAlign bm)" using k(4) k'(2) by linarith
  ultimately show thesis using that k by blast
qed

lemma align_down_greatest:
  assumes "bm_inv bm" "p < 2 ^ 32"
  shows "case align_down bm align p of
      None \<Rightarrow> \<forall>j \<le> p. \<not> aligned bm align j
    | Some k \<Rightarrow> k \<le> p \<and> aligned bm align k \<and> (\<forall>j. k < j \<longrightarrow> j \<le> p \<longrightarrow> \<not> aligned bm align j)"
  using assms(2)
proof (induction p)
  case 0
  then show ?case using ctz_aligned [OF assms(1) 0, of align] by simp
next
  case (Suc p)
  then have IH: "case align_down bm align p of
      None \<Rightarrow> \<forall>j \<le> p. \<not> aligned bm align j
    | Some k \<Rightarrow> k \<le> p \<and> aligned bm align k \<and> (\<forall>j. k < j \<longrightarrow> j \<le> p \<longrightarrow> \<not> aligned bm align j)"
    by simp
  show ?case
    using IH ctz_aligned [OF assms(1) Suc.prems, of align]
    by (auto split: option.splits simp: le_Suc_eq)
qed

section \<open>The forward search\<close>

lemma bm_inv_bounds:
  assumes "bm_inv bm"
  shows "bm_nBits bm \<le> 64 * length (bm_blocks bm)" "64 * length (bm_blocks bm) < bm_nBits bm + 64"
    "64 * length (bm_blocks bm) < 2 ^ 32" "bm_min bm \<le> bm_max bm" "bm_max bm \<le> bm_nBits bm"
proof -
  let ?n = "bm_nBits bm"
  have len: "length (bm_blocks bm) = ceil_div ?n 64" and n: "?n + 64 \<le> 2 ^ 32"
    using assms by (auto simp: bm_inv_def)
  show a: "?n \<le> 64 * length (bm_blocks bm)" "64 * length (bm_blocks bm) < ?n + 64"
    unfolding len by (rule ceil_div_bounds, simp)+
  show "64 * length (bm_blocks bm) < 2 ^ 32" using a(2) n by linarith
  show "bm_min bm \<le> bm_max bm" "bm_max bm \<le> ?n" using assms by (auto simp: bm_inv_def)
qed

lemma free_run_free_set:
  "p + n \<le> bm_nBits bm \<Longrightarrow> free_run (bm_blocks bm) p n \<longleftrightarrow> {p..<p + n} \<subseteq> free_set bm"
  by (auto simp: free_run_def free_set_def subset_eq)

lemma candidate_bounds:
  assumes "bm_inv bm" "0 < n" "candidate bm n align p"
  shows "bm_min bm \<le> p" "p + n \<le> bm_max bm" "aligned bm align p"
    "\<And>k. p \<le> k \<Longrightarrow> k < p + n \<Longrightarrow> free_at (bm_blocks bm) k"
proof -
  have sub: "{p..<p + n} \<subseteq> free_set bm" and al: "aligned bm align p"
    using assms(3) by (auto simp: candidate_def)
  have in_bounds: "bm_min bm \<le> k \<and> k < bm_max bm" if "k \<in> free_set bm" for k
    using assms(1) that by (simp add: bm_inv_def)
  have "p \<in> free_set bm" "p + n - 1 \<in> free_set bm" using sub assms(2) by (auto simp: subset_eq)
  with in_bounds [of p] in_bounds [of "p + n - 1"] assms(2)
  show "bm_min bm \<le> p" "p + n \<le> bm_max bm" by auto
  show "aligned bm align p" by (rule al)
  show "free_at (bm_blocks bm) k" if "p \<le> k" "k < p + n" for k
    using sub that by (auto simp: free_set_def subset_eq)
qed

definition least_candidate :: "bitmap \<Rightarrow> nat \<Rightarrow> nat \<Rightarrow> nat \<Rightarrow> bool" where
  "least_candidate bm n align p =
    (candidate bm n align p \<and> (\<forall>q. candidate bm n align q \<longrightarrow> p \<le> q))"

definition greatest_candidate :: "bitmap \<Rightarrow> nat \<Rightarrow> nat \<Rightarrow> nat \<Rightarrow> bool" where
  "greatest_candidate bm n align p =
    (candidate bm n align p \<and> (\<forall>q. candidate bm n align q \<longrightarrow> q \<le> p))"

lemma reserve_loop_search:
  assumes inv: "bm_inv bm" and n: "0 < n"
    and room: "bm_nBits bm + 64 + n + 2 ^ (align - bm_minAlign bm) \<le> 2 ^ 32"
    and start: "\<And>q. candidate bm n align q \<Longrightarrow> p \<le> q" "p < bm_nBits bm + 64"
  shows "\<exists>r. reserve_loop bm n align p = Some r \<and>
    (case r of Inl e \<Rightarrow> e = Dbg_error \<and> (\<forall>q. \<not> candidate bm n align q)
     | Inr q \<Rightarrow> least_candidate bm n align q)"
  using start
proof (induction "bm_nBits bm + 64 - p" arbitrary: p rule: less_induct)
  case less
  note bnd = bm_inv_bounds [OF inv]
  have "p + 2 ^ (align - bm_minAlign bm) \<le> 2 ^ 32" using room less.prems(2) by linarith
  then obtain k where k: "align_up bm align p = Some k" "p \<le> k"
    "k < p + 2 ^ (align - bm_minAlign bm)" "aligned bm align k"
    "\<And>j. p \<le> j \<Longrightarrow> j < k \<Longrightarrow> \<not> aligned bm align j"
    using align_up_least [OF inv] by blast
  have wrap: "u32wrap (k + n) = k + n" using k(3) room less.prems(2) by (intro u32wrap_small) linarith
  have from_k: "k \<le> q" if "candidate bm n align q" for q
    using that less.prems(1) [OF that] k(5) [of q] candidate_bounds(3) [OF inv n that]
    by (meson not_le)
  show ?case
  proof (cases "k + n > bm_max bm")
    case True
    then have "\<not> candidate bm n align q" for q
      using from_k [of q] candidate_bounds(2) [OF inv n, of align q] by auto
    then show ?thesis using True
      by (subst reserve_loop.simps) (simp add: k(1) wrap oom_def)
  next
    case False
    have n32: "n < 2 ^ 32" using room by linarith
    have fit: "k + n \<le> 64 * length (bm_blocks bm)" using False bnd by linarith
    obtain r where r: "match_bits bm k n BlockILS = Ret r" "r \<le> n"
      "r = n \<longleftrightarrow> free_run (bm_blocks bm) k n" "r < n \<Longrightarrow> \<not> free_at (bm_blocks bm) (k + r)"
      using ils.match_bits_scan [OF n n32 fit] by blast
    show ?thesis
    proof (cases "r = n")
      case True
      then have "candidate bm n align k"
        using r(3) k(4) False bnd free_run_free_set [of k n bm] by (simp add: candidate_def)
      then have "least_candidate bm n align k" using from_k by (simp add: least_candidate_def)
      with True False show ?thesis
        by (subst reserve_loop.simps) (simp add: k(1) wrap r(1))
    next
      case rn: False
      then have "r < n" using r(2) by simp
      then have nf: "\<not> free_at (bm_blocks bm) (k + r)" by (rule r(4))
      have kr: "k + r < bm_nBits bm" using False \<open>r < n\<close> bnd by linarith
      have wrap2: "u32wrap (k + r) = k + r" using wrap \<open>r < n\<close> by (metis add_strict_left_mono less_trans u32wrap_less u32wrap_small)
      obtain f where f: "findFirstFree bm (k + r) (bm_nBits bm) = Ret f" "k + r \<le> f"
        "f \<le> 64 * length (bm_blocks bm)" "\<And>j. k + r \<le> j \<Longrightarrow> j < f \<Longrightarrow> \<not> free_at (bm_blocks bm) j"
        "f < bm_nBits bm \<Longrightarrow> free_at (bm_blocks bm) f"
        using findFirstFree_scan [OF kr bnd(1,3)] by blast
      have "k + r < f" using f(2,5) nf kr by (metis le_neq_implies_less)
      have from_f: "f \<le> q" if q: "candidate bm n align q" for q
      proof (rule ccontr)
        assume "\<not> f \<le> q"
        have kq: "k \<le> q" by (rule from_k [OF q])
        show False
        proof (cases "q \<le> k + r")
          case True
          then have "free_at (bm_blocks bm) (k + r)"
            using candidate_bounds(4) [OF inv n q, of "k + r"] kq \<open>r < n\<close> by linarith
          with nf show False ..
        next
          case False
          then have "free_at (bm_blocks bm) q" "\<not> free_at (bm_blocks bm) q"
            using candidate_bounds(4) [OF inv n q, of q] n f(4) [of q] \<open>\<not> f \<le> q\<close> by auto
          then show False by blast
        qed
      qed
      have "bm_nBits bm + 64 - f < bm_nBits bm + 64 - p" "f < bm_nBits bm + 64"
        using \<open>k + r < f\<close> k(2) f(3) bnd(2) less.prems(2) by linarith+
      then have "\<exists>r. reserve_loop bm n align f = Some r \<and>
        (case r of Inl e \<Rightarrow> e = Dbg_error \<and> (\<forall>q. \<not> candidate bm n align q)
         | Inr q \<Rightarrow> least_candidate bm n align q)"
        using less.hyps [of f] from_f by blast
      moreover have "reserve_loop bm n align p = reserve_loop bm n align f"
        using rn False by (subst reserve_loop.simps) (simp add: k(1) wrap r(1) wrap2 f(1))
      ultimately show ?thesis by simp
    qed
  qed
qed

section \<open>The backward search\<close>

lemma rreserve_loop_search:
  assumes inv: "bm_inv bm" and n: "0 < n" "n < 2 ^ 32"
    and start: "\<And>q. candidate bm n align q \<Longrightarrow> q + n \<le> p + m" "p + m \<le> bm_max bm" "m \<le> n"
      "m = n \<Longrightarrow> candidate bm n align p"
  shows "\<exists>r. rreserve_loop bm n align m p = Some r \<and>
    (case r of Inl e \<Rightarrow> e = Dbg_error \<and> (\<forall>q. \<not> candidate bm n align q)
     | Inr q \<Rightarrow> greatest_candidate bm n align q)"
  using start
proof (induction p arbitrary: m rule: less_induct)
  case (less p)
  note bnd = bm_inv_bounds [OF inv]
  let ?none = "\<forall>q. \<not> candidate bm n align q"
  have oomI: "rreserve_loop bm n align m p = Some (oom bm n align) \<Longrightarrow> ?none \<Longrightarrow> ?case"
    by (simp add: oom_def)
  show ?case
  proof (cases "m = n")
    case True
    then have "greatest_candidate bm n align p"
      using less.prems(1,4) by (auto simp: greatest_candidate_def)
    with True show ?thesis by (subst rreserve_loop.simps) simp
  next
    case mn: False
    then have m: "m < n" "u32sub n m = n - m" using less.prems(3) by auto
    show ?thesis
    proof (cases "p < n - m")
      case True
      then have ?none using less.prems(1) m(1) by fastforce
      then show ?thesis using True mn m by (intro oomI) (subst rreserve_loop.simps, simp_all)
    next
      case fits: False
      let ?p = "p - (n - m)"
      have p32: "?p < 2 ^ 32" using less.prems(2) bnd(1,3,5) by linarith
      note ad = align_down_greatest [OF inv p32, of align]
      show ?thesis
      proof (cases "align_down bm align ?p")
        case None
        have "\<not> candidate bm n align q" for q
        proof
          assume q: "candidate bm n align q"
          then have "q \<le> ?p" using less.prems(1) [OF q] fits m(1) by linarith
          with ad None candidate_bounds(3) [OF inv n(1) q] show False by simp
        qed
        then show ?thesis using None mn m fits by (intro oomI) (subst rreserve_loop.simps, simp_all)
      next
        case (Some k)
        with ad have k: "k \<le> ?p" "aligned bm align k" "\<And>j. k < j \<Longrightarrow> j \<le> ?p \<Longrightarrow> \<not> aligned bm align j"
          by auto
        have to_k: "q \<le> k" if q: "candidate bm n align q" for q
        proof (rule ccontr)
          assume "\<not> q \<le> k"
          moreover have "q \<le> ?p" using less.prems(1) [OF q] fits m(1) by linarith
          ultimately show False using k(3) [of q] candidate_bounds(3) [OF inv n(1) q] by simp
        qed
        show ?thesis
        proof (cases "k < bm_min bm")
          case True
          then have ?none using to_k candidate_bounds(1) [OF inv n(1)] by fastforce
          then show ?thesis using Some True mn m fits by (intro oomI) (subst rreserve_loop.simps, simp_all)
        next
          case False
          have kn: "k + n \<le> p + m" using k(1) fits m(1) by linarith
          then have fit: "k + n \<le> 64 * length (bm_blocks bm)" "k + n \<le> bm_max bm"
            using less.prems(2) bnd by linarith+
          obtain r where r: "match_bits bm k n BlockIFS = Ret r" "r \<le> n"
            "r = n \<longleftrightarrow> free_run (bm_blocks bm) k n" "r < n \<Longrightarrow> \<not> free_at (bm_blocks bm) (k + r)"
            using ifs.match_bits_scan [OF n fit(1)] by blast
          have step: "rreserve_loop bm n align m p = rreserve_loop bm n align r k"
            using Some False mn m fits r(1) by (subst rreserve_loop.simps) simp
          show ?thesis unfolding step
          proof (rule less.IH)
            show "k < p" using k(1) m(1) fits by linarith
            show "k + r \<le> bm_max bm" using fit(2) r(2) by linarith
            show "r \<le> n" by (rule r(2))
            show "candidate bm n align k" if "r = n"
              using that r(3) k(2) fit(2) bnd free_run_free_set [of k n bm] by (simp add: candidate_def)
            show "q + n \<le> k + r" if q: "candidate bm n align q" for q
            proof (rule ccontr)
              assume "\<not> q + n \<le> k + r"
              moreover from this have "r < n" using to_k [OF q] r(2) by linarith
              ultimately show False
                using candidate_bounds(4) [OF inv n(1) q, of "k + r"] r(4) to_k [OF q] by simp
            qed
          qed
        qed
      qed
    qed
  qed
qed

section \<open>Reservations\<close>

definition reserved :: "bitmap \<Rightarrow> nat \<Rightarrow> nat \<Rightarrow> bitmap \<Rightarrow> bool" where
  "reserved bm p n bm' = (bm_inv bm' \<and> bm_nBits bm' = bm_nBits bm \<and>
    bm_minAlign bm' = bm_minAlign bm \<and> bm_baseAlign bm' = bm_baseAlign bm \<and>
    free_set bm' = free_set bm - {p..<p + n})"

lemma set_bits_reserved:
  assumes inv: "bm_inv bm" and n: "0 < n" and p: "p + n \<le> bm_nBits bm"
    and lohi: "lo \<le> hi" "hi \<le> bm_nBits bm"
      "\<And>k. k \<in> free_set bm - {p..<p + n} \<Longrightarrow> lo \<le> k \<and> k < hi"
  obtains bm' where "set_bits (bm\<lparr>bm_min := lo, bm_max := hi\<rparr>) p n = Ret bm'" "reserved bm p n bm'"
proof -
  let ?bm = "bm\<lparr>bm_min := lo, bm_max := hi\<rparr>"
  have "p + n \<le> 64 * length (bm_blocks ?bm)" using p bm_inv_bounds(1) [OF inv] by simp
  from set_bits_range [OF n this]
  obtain bs where bs: "set_bits ?bm p n = Ret (?bm\<lparr>bm_blocks := bs\<rparr>)" "length bs = length (bm_blocks ?bm)"
    "\<And>k. free_at bs k \<longleftrightarrow> free_at (bm_blocks ?bm) k \<and> \<not> (p \<le> k \<and> k < p + n)"
    by blast
  have fs: "free_set (?bm\<lparr>bm_blocks := bs\<rparr>) = free_set bm - {p..<p + n}"
    by (rule set_eqI) (simp add: free_set_def bs(3))
  have "reserved bm p n (?bm\<lparr>bm_blocks := bs\<rparr>)"
    unfolding reserved_def bm_inv_def fs using inv bs(2) lohi(1,2)
    by (simp add: bm_inv_def lohi(3))
  with bs(1) that show thesis by blast
qed

lemma reserve_correct:
  assumes inv: "bm_inv bm" and n: "0 < n"
    and room: "bm_nBits bm + 64 + n + 2 ^ (align - bm_minAlign bm) \<le> 2 ^ 32"
  shows "(\<exists>p bm'. least_candidate bm n align p \<and> reserve bm n align = Some (Ret (LIBHPX_OK, Some p, bm')) \<and>
            reserved bm p n bm') \<or>
         ((\<forall>p. \<not> candidate bm n align p) \<and> reserve bm n align = Some (Fault Dbg_error))"
proof -
  note bnd = bm_inv_bounds [OF inv]
  have "bm_min bm < bm_nBits bm + 64" using bnd by linarith
  then obtain r where r: "reserve_loop bm n align (bm_min bm) = Some r"
    "case r of Inl e \<Rightarrow> e = Dbg_error \<and> (\<forall>q. \<not> candidate bm n align q)
     | Inr q \<Rightarrow> least_candidate bm n align q"
    using reserve_loop_search [OF inv n room candidate_bounds(1) [OF inv n, of align]] by blast
  show ?thesis
  proof (cases r)
    case (Inl e)
    with r n show ?thesis by (simp add: reserve_def)
  next
    case (Inr p)
    then have lc: "least_candidate bm n align p" and c: "candidate bm n align p"
      using r(2) by (auto simp: least_candidate_def)
    note cb = candidate_bounds [OF inv n c]
    have wrap: "u32wrap (p + n) = p + n" using cb(2) bnd by (intro u32wrap_small) linarith
    define lo where "lo = (if bm_min bm = p then p + n else bm_min bm)"
    have eq: "(if bm_min bm = p then bm\<lparr>bm_min := u32wrap (p + n)\<rparr> else bm) = bm\<lparr>bm_min := lo, bm_max := bm_max bm\<rparr>"
      by (simp add: lo_def wrap)
    have free: "bm_min bm \<le> k \<and> k < bm_max bm" if "k \<in> free_set bm" for k
      using inv that by (simp add: bm_inv_def)
    obtain bm' where bm': "set_bits (bm\<lparr>bm_min := lo, bm_max := bm_max bm\<rparr>) p n = Ret bm'" "reserved bm p n bm'"
    proof (rule set_bits_reserved [OF inv n])
      show "p + n \<le> bm_nBits bm" "lo \<le> bm_max bm" "bm_max bm \<le> bm_nBits bm"
        using cb(2) bnd by (auto simp: lo_def)
      show "lo \<le> k \<and> k < bm_max bm" if "k \<in> free_set bm - {p..<p + n}" for k
        using free [of k] that by (auto simp: lo_def)
    qed
    have "reserve bm n align = Some (Ret (LIBHPX_OK, Some p, bm'))"
      using n r(1) Inr cb(2) bm'(1) by (simp add: reserve_def wrap eq Let_def split del: if_split)
    with lc bm'(2) show ?thesis by blast
  qed
qed

lemma rreserve_correct:
  assumes inv: "bm_inv bm" and n: "0 < n" "n < 2 ^ 32"
  shows "(\<exists>p bm'. greatest_candidate bm n align p \<and> rreserve bm n align = Some (Ret (LIBHPX_OK, Some p, bm')) \<and>
            reserved bm p n bm') \<or>
         ((\<forall>p. \<not> candidate bm n align p) \<and> rreserve bm n align = Some (Fault Dbg_error))"
proof -
  note bnd = bm_inv_bounds [OF inv]
  obtain r where r: "rreserve_loop bm n align 0 (bm_max bm) = Some r"
    "case r of Inl e \<Rightarrow> e = Dbg_error \<and> (\<forall>q. \<not> candidate bm n align q)
     | Inr q \<Rightarrow> greatest_candidate bm n align q"
    using rreserve_loop_search [OF inv n, of align "bm_max bm" 0] candidate_bounds(2) [OF inv n(1)] n(1)
    by auto
  show ?thesis
  proof (cases r)
    case (Inl e)
    with r n show ?thesis by (simp add: rreserve_def)
  next
    case (Inr p)
    then have lc: "greatest_candidate bm n align p" and c: "candidate bm n align p"
      using r(2) by (auto simp: greatest_candidate_def)
    note cb = candidate_bounds [OF inv n(1) c]
    have wrap: "u32wrap (p + n) = p + n" using cb(2) bnd by (intro u32wrap_small) linarith
    define hi where "hi = (if bm_max bm = p + n then p else bm_max bm)"
    have eq: "(if bm_max bm = p + n then bm\<lparr>bm_max := p\<rparr> else bm) = bm\<lparr>bm_min := bm_min bm, bm_max := hi\<rparr>"
      by (simp add: hi_def)
    have free: "bm_min bm \<le> k \<and> k < bm_max bm" if "k \<in> free_set bm" for k
      using inv that by (simp add: bm_inv_def)
    obtain bm' where bm': "set_bits (bm\<lparr>bm_min := bm_min bm, bm_max := hi\<rparr>) p n = Ret bm'" "reserved bm p n bm'"
    proof (rule set_bits_reserved [OF inv n(1)])
      show "p + n \<le> bm_nBits bm" "bm_min bm \<le> hi" "hi \<le> bm_nBits bm"
        using cb(1,2) bnd by (auto simp: hi_def)
      show "bm_min bm \<le> k \<and> k < hi" if "k \<in> free_set bm - {p..<p + n}" for k
        using free [of k] that by (auto simp: hi_def)
    qed
    have "rreserve bm n align = Some (Ret (LIBHPX_OK, Some p, bm'))"
      using n(1) r(1) Inr cb(2) bm'(1) by (simp add: rreserve_def wrap eq Let_def split del: if_split)
    with lc bm'(2) show ?thesis by blast
  qed
qed

section \<open>Release and query\<close>

definition released :: "bitmap \<Rightarrow> nat \<Rightarrow> nat \<Rightarrow> bitmap \<Rightarrow> bool" where
  "released bm p n bm' = (bm_inv bm' \<and> bm_nBits bm' = bm_nBits bm \<and>
    bm_minAlign bm' = bm_minAlign bm \<and> bm_baseAlign bm' = bm_baseAlign bm \<and>
    free_set bm' = free_set bm \<union> {p..<p + n})"

lemma release_correct:
  assumes inv: "bm_inv bm" and n: "0 < n" and p: "p + n \<le> bm_nBits bm"
  shows "\<exists>bm'. release bm p n = Ret bm' \<and> released bm p n bm'"
proof -
  note bnd = bm_inv_bounds [OF inv]
  have "p + n \<le> 64 * length (bm_blocks bm)" using p bnd(1) by linarith
  from clear_bits_range [OF n this]
  obtain bs where bs: "clear_bits bm p n = Ret (bm\<lparr>bm_blocks := bs\<rparr>)" "length bs = length (bm_blocks bm)"
    "\<And>k. free_at bs k \<longleftrightarrow> free_at (bm_blocks bm) k \<or> (p \<le> k \<and> k < p + n)"
    by blast
  have wrap: "u32wrap (p + n) = p + n" using p bnd by (intro u32wrap_small) linarith
  define lo where "lo = min p (bm_min bm)"
  define hi where "hi = max (p + n) (bm_max bm)"
  let ?bm = "bm\<lparr>bm_blocks := bs, bm_min := lo, bm_max := hi\<rparr>"
  have "release bm p n = Ret ?bm"
    by (simp add: release_def bs(1) wrap lo_def hi_def min_def max_def Let_def)
  moreover have fs: "free_set ?bm = free_set bm \<union> {p..<p + n}"
    by (rule set_eqI) (use p in \<open>auto simp: free_set_def bs(3)\<close>)
  moreover have "bm_inv ?bm"
    unfolding bm_inv_def fs using inv p bs(2)
    by (auto simp: bm_inv_def lo_def hi_def min_def max_def)
  ultimately show ?thesis by (auto simp: released_def)
qed

lemma isSet_loop_scan:
  assumes "interval_mask w off n" "off < 64" "0 < n" "64 * block + off + n \<le> 64 * length bs"
  shows "isSet_loop bs block w n = Ret (\<not> free_run bs (64 * block + off) n)"
  using assms
proof (induction n arbitrary: block off w rule: less_induct)
  case (less n)
  have blk: "block < length bs" using less.prems by linarith
  let ?c = "min n (64 - off)"
  have pc: "popcount w = ?c" using interval_mask_popcount less.prems by blast
  have fr: "w XOR (w AND bs ! block) = 0 \<longleftrightarrow> free_run bs (64 * block + off) ?c"
    using free_run_block [OF less.prems(2,1)] by (simp add: mismatch_zero)
  note split = free_run_split [of ?c n bs "64 * block + off"]
  obtain w' where w': "CreateMask 0 (n - ?c) = Ret w'" "interval_mask w' 0 (n - ?c)"
    using CreateMask_interval [of 0] by auto
  show ?case
  proof (cases "free_run bs (64 * block + off) ?c")
    case False
    then have "isSet_loop bs block w n = Ret True"
      using less.prems(3) blk fr by (subst isSet_loop.simps) simp
    with False split show ?thesis by simp
  next
    case True
    then have step: "isSet_loop bs block w n = isSet_loop bs (Suc block) w' (n - ?c)"
      using less.prems(3) blk fr w'(1) by (subst isSet_loop.simps) (simp add: Let_def pc)
    show ?thesis
    proof (cases "n \<le> 64 - off")
      case le: True
      then have "isSet_loop bs block w n = Ret False" unfolding step by (subst isSet_loop.simps) simp
      with True le show ?thesis by simp
    next
      case False
      then have c: "?c = 64 - off" by simp
      have pos: "64 * Suc block + 0 = 64 * block + off + ?c" unfolding c using less.prems(2) by simp
      have "isSet_loop bs (Suc block) w' (n - ?c) = Ret (\<not> free_run bs (64 * Suc block + 0) (n - ?c))"
      proof (rule less.IH)
        show "n - ?c < n" "0 < n - ?c" unfolding c using less.prems(2) False by linarith+
        show "64 * Suc block + 0 + (n - ?c) \<le> 64 * length bs"
          unfolding pos using less.prems(4) by simp
      qed (use w' in auto)
      with split True show ?thesis unfolding step pos by simp
    qed
  qed
qed

lemma isSet_correct:
  assumes "bm_inv bm" "0 < n" "p + n \<le> bm_nBits bm"
  shows "isSet bm p n = Ret (\<not> {p..<p + n} \<subseteq> free_set bm)"
proof -
  note bnd = bm_inv_bounds [OF assms(1)]
  obtain w where w: "CreateMask (p mod 64) n = Ret w" "interval_mask w (p mod 64) n"
    by (rule CreateMask_mod)
  have off: "p mod 64 < 64" by simp
  have pp: "64 * (p div 64) + p mod 64 = p" by simp
  have "p + n \<le> 64 * length (bm_blocks bm)" "u32wrap (p + n) = p + n"
    using assms(3) bnd by (auto intro!: u32wrap_small)
  with isSet_loop_scan [OF w(2) off assms(2), of "p div 64" "bm_blocks bm"]
  show ?thesis using w(1) assms(3) unfolding pp
    by (simp add: isSet_def BLOCK_BITS_def free_run_free_set)
qed

lemma Bitmap_new_inv:
  assumes "nbits + 64 \<le> 2 ^ 32" "m \<le> b" "m \<le> 30" "b \<le> 62"
  shows "bm_inv (Bitmap_new nbits m b)" "free_set (Bitmap_new nbits m b) = {..<nbits}"
proof -
  have "k div 64 < ceil_div nbits 64" if "k < nbits" for k
    using ceil_div_bounds(1) [of 64 nbits] that by (simp add: less_mult_imp_div_less mult.commute)
  then show fs: "free_set (Bitmap_new nbits m b) = {..<nbits}"
    by (auto simp: free_set_def Bitmap_new_def free_at_def BLOCK_BITS_def bit_simps)
  show "bm_inv (Bitmap_new nbits m b)"
    unfolding bm_inv_def fs using assms by (simp add: Bitmap_new_def BLOCK_BITS_def)
qed

section \<open>The allocator interface\<close>

text \<open>
  What the heap segments rely on: an allocator over a set of free indices,
  searched from either end. The ledger is the history of a client that
  releases only what it was given.
\<close>

inductive ledger ::
  "('s \<Rightarrow> bool \<Rightarrow> nat \<Rightarrow> nat \<Rightarrow> bool) \<Rightarrow> ('s \<Rightarrow> bool \<Rightarrow> nat \<Rightarrow> nat \<Rightarrow> (nat \<times> 's) option) \<Rightarrow>
   ('s \<Rightarrow> nat \<Rightarrow> nat \<Rightarrow> 's option) \<Rightarrow> 's \<Rightarrow> 's \<Rightarrow> (nat \<times> nat) set \<Rightarrow> bool"
  for req alloc dealloc s0 where
  ledger_init: "ledger req alloc dealloc s0 s0 {}"
| ledger_alloc: "\<lbrakk> ledger req alloc dealloc s0 s L; req s up n a; alloc s up n a = Some (p, s') \<rbrakk>
    \<Longrightarrow> ledger req alloc dealloc s0 s' (insert (p, n) L)"
| ledger_free: "\<lbrakk> ledger req alloc dealloc s0 s L; (p, n) \<in> L; dealloc s p n = Some s' \<rbrakk>
    \<Longrightarrow> ledger req alloc dealloc s0 s' (L - {(p, n)})"

definition range_of :: "nat \<times> nat \<Rightarrow> nat set" where
  "range_of r = {fst r..<fst r + snd r}"

locale range_allocator =
  fixes inv :: "'s \<Rightarrow> bool" and free :: "'s \<Rightarrow> nat set" and limit :: "'s \<Rightarrow> nat"
    and req :: "'s \<Rightarrow> bool \<Rightarrow> nat \<Rightarrow> nat \<Rightarrow> bool"
    and alloc :: "'s \<Rightarrow> bool \<Rightarrow> nat \<Rightarrow> nat \<Rightarrow> (nat \<times> 's) option"
    and dealloc :: "'s \<Rightarrow> nat \<Rightarrow> nat \<Rightarrow> 's option"
  assumes free_limit: "inv s \<Longrightarrow> free s \<subseteq> {..<limit s}"
    and req_pos: "req s up n a \<Longrightarrow> 0 < n"
    and alloc_law: "\<lbrakk> inv s; req s up n a; alloc s up n a = Some (p, s') \<rbrakk> \<Longrightarrow>
      inv s' \<and> limit s' = limit s \<and> {p..<p + n} \<subseteq> free s \<and> free s' = free s - {p..<p + n}"
    and dealloc_law: "\<lbrakk> inv s; 0 < n; p + n \<le> limit s \<rbrakk> \<Longrightarrow>
      \<exists>s'. dealloc s p n = Some s' \<and> inv s' \<and> limit s' = limit s \<and> free s' = free s \<union> {p..<p + n}"
begin

definition consistent :: "'s \<Rightarrow> 's \<Rightarrow> (nat \<times> nat) set \<Rightarrow> bool" where
  "consistent s0 s L = (inv s \<and> limit s = limit s0 \<and> (\<forall>r \<in> L. 0 < snd r \<and> fst r + snd r \<le> limit s0) \<and>
    free s \<union> \<Union> (range_of ` L) = free s0 \<and> free s \<inter> \<Union> (range_of ` L) = {} \<and>
    (\<forall>r \<in> L. \<forall>r' \<in> L. r \<noteq> r' \<longrightarrow> range_of r \<inter> range_of r' = {}))"

lemma consistent_alloc:
  assumes c: "consistent s0 s L" and q: "req s up n a" "alloc s up n a = Some (p, s')"
  shows "consistent s0 s' (insert (p, n) L)"
proof -
  have inv: "inv s" and lim: "limit s = limit s0" using c by (auto simp: consistent_def)
  note law = alloc_law [OF inv q]
  have n: "0 < n" by (rule req_pos [OF q(1)])
  have r: "range_of (p, n) \<subseteq> free s" using law by (simp add: range_of_def)
  have "p + n - 1 \<in> free s" using r n by (auto simp: range_of_def subset_eq)
  then have "p + n - 1 < limit s0" using free_limit [OF inv] lim by auto
  then have pn: "p + n \<le> limit s0" using n by linarith
  have fs: "free s' = free s - range_of (p, n)" using law by (simp add: range_of_def)
  have U: "free s \<union> \<Union> (range_of ` L) = free s0" "free s \<inter> \<Union> (range_of ` L) = {}"
    using c by (auto simp: consistent_def)
  have dj: "range_of (p, n) \<inter> range_of r' = {}" if "r' \<in> L" for r'
    using U(2) r that by blast
  have "free s' \<union> \<Union> (range_of ` insert (p, n) L) = free s0"
    "free s' \<inter> \<Union> (range_of ` insert (p, n) L) = {}"
    unfolding fs using U r by blast+
  moreover have "\<forall>r \<in> insert (p, n) L. \<forall>r' \<in> insert (p, n) L. r \<noteq> r' \<longrightarrow> range_of r \<inter> range_of r' = {}"
    using c dj unfolding consistent_def by blast
  ultimately show ?thesis using c law lim n pn unfolding consistent_def by simp
qed

lemma consistent_dealloc:
  assumes c: "consistent s0 s L" and r: "(p, n) \<in> L" "dealloc s p n = Some s'"
  shows "consistent s0 s' (L - {(p, n)})"
proof -
  have inv: "inv s" and lim: "limit s = limit s0" and pn: "0 < n" "p + n \<le> limit s"
    using c r(1) by (auto simp: consistent_def)
  have law: "inv s'" "limit s' = limit s" "free s' = free s \<union> range_of (p, n)"
    using dealloc_law [OF inv pn] r(2) by (auto simp: range_of_def)
  have L: "\<Union> (range_of ` L) = range_of (p, n) \<union> \<Union> (range_of ` (L - {(p, n)}))" using r(1) by blast
  have "range_of (p, n) \<inter> \<Union> (range_of ` (L - {(p, n)})) = {}"
    using c r(1) unfolding consistent_def by blast
  with c law L lim show ?thesis unfolding consistent_def by auto
qed

lemma ledger_consistent:
  assumes "ledger req alloc dealloc s0 s L" "inv s0"
  shows "consistent s0 s L"
  using assms
proof (induction rule: ledger.induct)
  case ledger_init
  then show ?case by (simp add: consistent_def)
next
  case (ledger_alloc s L up n a p s')
  then show ?case by (intro consistent_alloc) auto
next
  case (ledger_free s L p n s')
  then show ?case by (intro consistent_dealloc) auto
qed

lemma ledger_free_enabled:
  assumes "ledger req alloc dealloc s0 s L" "inv s0" "(p, n) \<in> L"
  shows "\<exists>s'. dealloc s p n = Some s'"
proof -
  have "consistent s0 s L" using assms(1,2) by (rule ledger_consistent)
  then have "inv s" "0 < n" "p + n \<le> limit s" using assms(3) by (auto simp: consistent_def)
  then show ?thesis using dealloc_law by blast
qed

end

definition bm_request :: "bitmap \<Rightarrow> bool \<Rightarrow> nat \<Rightarrow> nat \<Rightarrow> bool" where
  "bm_request bm up n align = (0 < n \<and> bm_nBits bm + 64 + n + 2 ^ (align - bm_minAlign bm) \<le> 2 ^ 32)"

definition bm_alloc :: "bitmap \<Rightarrow> bool \<Rightarrow> nat \<Rightarrow> nat \<Rightarrow> (nat \<times> bitmap) option" where
  "bm_alloc bm up n align =
    (case (if up then reserve bm n align else rreserve bm n align) of
       Some (Inr (LIBHPX_OK, Some p, bm')) \<Rightarrow> Some (p, bm')
     | _ \<Rightarrow> None)"

definition bm_dealloc :: "bitmap \<Rightarrow> nat \<Rightarrow> nat \<Rightarrow> bitmap option" where
  "bm_dealloc bm p n = (case release bm p n of Inr bm' \<Rightarrow> Some bm' | Inl _ \<Rightarrow> None)"

lemma bm_alloc_law:
  assumes "bm_inv bm" "bm_request bm up n align" "bm_alloc bm up n align = Some (p, bm')"
  shows "bm_inv bm' \<and> bm_nBits bm' = bm_nBits bm \<and> {p..<p + n} \<subseteq> free_set bm \<and>
    free_set bm' = free_set bm - {p..<p + n}"
proof -
  have n: "0 < n" "n < 2 ^ 32" and room: "bm_nBits bm + 64 + n + 2 ^ (align - bm_minAlign bm) \<le> 2 ^ 32"
    using assms(2) by (auto simp: bm_request_def)
  have "candidate bm n align p \<and> reserved bm p n bm'"
    using reserve_correct [OF assms(1) n(1) room] rreserve_correct [OF assms(1) n, of align] assms(3)
    by (cases up) (auto simp: bm_alloc_def least_candidate_def greatest_candidate_def)
  then show ?thesis by (simp add: candidate_def reserved_def)
qed

interpretation bma: range_allocator bm_inv free_set bm_nBits bm_request bm_alloc bm_dealloc
proof unfold_locales
  show "free_set bm \<subseteq> {..<bm_nBits bm}" for bm by (auto simp: free_set_def)
  show "0 < n" if "bm_request bm up n a" for bm up n a using that by (simp add: bm_request_def)
  show "bm_inv bm' \<and> bm_nBits bm' = bm_nBits bm \<and> {p..<p + n} \<subseteq> free_set bm \<and>
      free_set bm' = free_set bm - {p..<p + n}"
    if "bm_inv bm" "bm_request bm up n a" "bm_alloc bm up n a = Some (p, bm')" for bm up n a p bm'
    using that by (rule bm_alloc_law)
  show "\<exists>s'. bm_dealloc bm p n = Some s' \<and> bm_inv s' \<and> bm_nBits s' = bm_nBits bm \<and>
      free_set s' = free_set bm \<union> {p..<p + n}"
    if "bm_inv bm" "0 < n" "p + n \<le> bm_nBits bm" for bm n p
    using release_correct [OF that] by (auto simp: bm_dealloc_def released_def)
qed

lemma bm_alloc_enabled:
  assumes "bm_inv bm" "bm_request bm up n align" "candidate bm n align q"
  shows "\<exists>p bm'. bm_alloc bm up n align = Some (p, bm')"
proof -
  have n: "0 < n" "n < 2 ^ 32" and room: "bm_nBits bm + 64 + n + 2 ^ (align - bm_minAlign bm) \<le> 2 ^ 32"
    using assms(2) by (auto simp: bm_request_def)
  show ?thesis
    using reserve_correct [OF assms(1) n(1) room] rreserve_correct [OF assms(1) n, of align] assms(3)
    by (cases up) (auto simp: bm_alloc_def)
qed

text \<open>A small bitmap on which the properties are exercised.\<close>

lemma small_bitmap:
  shows small_inv: "bm_inv (Bitmap_new 128 3 6)"
    and small_request: "bm_request (Bitmap_new 128 3 6) up 4 5"
    and small_candidate: "candidate (Bitmap_new 128 3 6) 4 5 0"
    and small_nBits: "bm_nBits (Bitmap_new 128 3 6) = 128"
    and small_minAlign: "bm_minAlign (Bitmap_new 128 3 6) = 3"
proof -
  show "bm_inv (Bitmap_new 128 3 6)" by (rule Bitmap_new_inv) simp_all
  have fs: "free_set (Bitmap_new 128 3 6) = {..<128}" by (rule Bitmap_new_inv) simp_all
  show nb: "bm_nBits (Bitmap_new 128 3 6) = 128" "bm_minAlign (Bitmap_new 128 3 6) = 3"
    by (simp_all add: Bitmap_new_def)
  have "bm_baseAlign (Bitmap_new 128 3 6) = 6" by (simp add: Bitmap_new_def)
  then show "candidate (Bitmap_new 128 3 6) 4 5 0"
    unfolding candidate_def aligned_def fs nb by auto
  show "bm_request (Bitmap_new 128 3 6) up 4 5" by (simp add: bm_request_def nb)
qed

section \<open>Properties\<close>

text \<open>
  C9: \<^verbatim>\<open>reserve\<close> terminates on a well-formed bitmap and takes the first fit: it
  returns the least aligned start of a run of free bits, marks exactly that
  run as used and keeps the invariant; it calls \<^verbatim>\<open>oom\<close> only when no aligned
  free run of that length exists.
\<close>
theorem reserve_first_fit:
  assumes "bm_inv bm" "0 < n"
    and "bm_nBits bm + 64 + n + 2 ^ (align - bm_minAlign bm) \<le> 2 ^ 32"
  shows "(\<exists>p bm'. reserve bm n align = Some (Ret (LIBHPX_OK, Some p, bm')) \<and>
      candidate bm n align p \<and> (\<forall>q. candidate bm n align q \<longrightarrow> p \<le> q) \<and>
      bm_inv bm' \<and> free_set bm' = free_set bm - {p..<p + n}) \<or>
    ((\<forall>p. \<not> candidate bm n align p) \<and> reserve bm n align = Some (Fault Dbg_error))"
  using reserve_correct [OF assms] by (auto simp: least_candidate_def reserved_def)

theorem reserve_first_fit_witness:
  "(\<exists>p bm'. reserve (Bitmap_new 128 3 6) 4 5 = Some (Ret (LIBHPX_OK, Some p, bm')) \<and>
      candidate (Bitmap_new 128 3 6) 4 5 p \<and> (\<forall>q. candidate (Bitmap_new 128 3 6) 4 5 q \<longrightarrow> p \<le> q) \<and>
      bm_inv bm' \<and> free_set bm' = free_set (Bitmap_new 128 3 6) - {p..<p + 4})"
  using reserve_first_fit [OF small_inv, of 4 5] small_candidate
  by (simp add: small_nBits small_minAlign) blast

text \<open>
  \<^verbatim>\<open>rreserve\<close> terminates for every alignment and takes the last fit: the
  greatest aligned start of a run of free bits, marked as used and nothing
  else changed; it calls \<^verbatim>\<open>oom\<close> only when no aligned free run exists.
\<close>
lemma rreserve_last_fit:
  assumes "bm_inv bm" "0 < n" "n < 2 ^ 32"
  shows "(\<exists>p bm'. rreserve bm n align = Some (Ret (LIBHPX_OK, Some p, bm')) \<and>
      candidate bm n align p \<and> (\<forall>q. candidate bm n align q \<longrightarrow> q \<le> p) \<and>
      bm_inv bm' \<and> free_set bm' = free_set bm - {p..<p + n}) \<or>
    ((\<forall>p. \<not> candidate bm n align p) \<and> rreserve bm n align = Some (Fault Dbg_error))"
  using rreserve_correct [OF assms, of align] by (auto simp: greatest_candidate_def reserved_def)

text \<open>
  C19: Whatever sequence of reservations from either end and releases of earlier
  reservations a client performs, the live allocations are pairwise disjoint,
  disjoint from the free bits, and together with them make up the bits that
  were free at the start.
\<close>
theorem bitmap_live_disjoint:
  assumes "bm_inv bm0" "ledger bm_request bm_alloc bm_dealloc bm0 bm L"
  shows "(\<forall>r \<in> L. \<forall>r' \<in> L. r \<noteq> r' \<longrightarrow> range_of r \<inter> range_of r' = {}) \<and>
    free_set bm \<inter> \<Union> (range_of ` L) = {} \<and> free_set bm \<union> \<Union> (range_of ` L) = free_set bm0 \<and> bm_inv bm"
  using bma.ledger_consistent [OF assms(2,1)] unfolding bma.consistent_def by blast

theorem bitmap_live_disjoint_witness:
  "\<exists>bm L. L \<noteq> {} \<and> (\<forall>r \<in> L. \<forall>r' \<in> L. r \<noteq> r' \<longrightarrow> range_of r \<inter> range_of r' = {}) \<and>
    free_set bm \<inter> \<Union> (range_of ` L) = {} \<and>
    free_set bm \<union> \<Union> (range_of ` L) = free_set (Bitmap_new 128 3 6) \<and> bm_inv bm"
proof -
  obtain p bm where ok: "bm_alloc (Bitmap_new 128 3 6) True 4 5 = Some (p, bm)"
    using bm_alloc_enabled [OF small_inv small_request small_candidate] by blast
  let ?L = "ledger bm_request bm_alloc bm_dealloc (Bitmap_new 128 3 6)"
  have "?L (Bitmap_new 128 3 6) {}" by (rule ledger_init)
  then have "?L bm {(p, 4)}" using small_request [of True] ok by (rule ledger_alloc)
  note c = bitmap_live_disjoint [OF small_inv this]
  show ?thesis by (rule exI [of _ bm], rule exI [of _ "{(p, 4)}"], rule conjI [OF insert_not_empty c])
qed

text \<open>
  Releasing a range always succeeds on a range inside the bitmap, and a
  release right after a reservation restores the set of free bits.
\<close>
lemma reserve_release_restores:
  assumes "bm_inv bm" "bm_request bm up n align" "bm_alloc bm up n align = Some (p, bm')"
  shows "\<exists>bm''. release bm' p n = Ret bm'' \<and> bm_inv bm'' \<and> free_set bm'' = free_set bm"
proof -
  have n: "0 < n" using assms(2) by (simp add: bm_request_def)
  note law = bm_alloc_law [OF assms]
  have "p + n - 1 \<in> free_set bm" using law n by (auto simp: subset_eq)
  then have "p + n \<le> bm_nBits bm'" using n law by (auto simp: free_set_def)
  from release_correct [of bm', OF _ n this] law
  obtain bm'' where "release bm' p n = Ret bm''" "released bm' p n bm''" by blast
  with law show ?thesis unfolding released_def by blast
qed

end
