(* ===== verification/Hpx_Address.thy ===== *)
theory Hpx_Address
  imports Hpx_Math "HOL-Library.Signed_Division"
begin

text \<open>
  Global addresses. The first part is the global physical address of
  \<^verbatim>\<open>include/libhpx/gpa.h\<close> and its block-cyclic arithmetic in
  \<^verbatim>\<open>libhpx/gas/gpa.c\<close>; the second is the virtual address of
  \<^verbatim>\<open>libhpx/gas/agas/GlobalVirtualAddress.h\<close>. An address is a 64-bit word and
  a bit-field is a slice of it. The signed 64-bit intermediate values are
  integers, wrapped where the code converts from \<^verbatim>\<open>uint64_t\<close>; division is the
  truncating division of C. The number of localities \<^verbatim>\<open>here->ranks\<close> and the
  compile-time constant \<^verbatim>\<open>DEBUG\<close> are arguments.
\<close>

named_theorems gpa_simps \<open>fields of a composed address\<close>

section \<open>Physical addresses\<close>

type_synonym addr = u64

definition gpa_to_offset :: "addr \<Rightarrow> u64" where
  "gpa_to_offset a = take_bit 48 a"

definition gpa_to_rank :: "addr \<Rightarrow> u32" where
  "gpa_to_rank a = ucast (drop_bit 48 a)"

definition gpa_bits :: "u64 \<Rightarrow> u64 \<Rightarrow> addr" where
  "gpa_bits offset home = take_bit 48 offset OR push_bit 48 home"

definition UINT16_MAX :: int where
  "UINT16_MAX = 2 ^ 16 - 1"

definition UINT32_MAX :: int where
  "UINT32_MAX = 2 ^ 32 - 1"

definition offset_to_gpa :: "u32 \<Rightarrow> u64 \<Rightarrow> addr outcome" where
  "offset_to_gpa locality offset =
    assertO (uint locality < UINT16_MAX) (Ret (gpa_bits offset (ucast locality)))"

definition i64 :: "int \<Rightarrow> int" where
  "i64 x = signed_take_bit 63 x"

definition gpa_sub :: "addr \<Rightarrow> addr \<Rightarrow> int" where
  "gpa_sub lhs rhs = i64 (uint (lhs - rhs))"

definition gpa_add :: "addr \<Rightarrow> int \<Rightarrow> addr" where
  "gpa_add gpa bytes = gpa + of_int bytes"

definition phase_of :: "addr \<Rightarrow> u32 \<Rightarrow> u32 outcome" where
  "phase_of gpa bsize =
    (let msk = push_bit (ceil_log2 bsize) 1 - 1; phase = msk AND gpa
     in assertO (uint phase < UINT32_MAX) (Ret (ucast phase)))"

definition block_of :: "addr \<Rightarrow> u32 \<Rightarrow> u64" where
  "block_of a bsize = drop_bit (ceil_log2 bsize) (gpa_to_offset a)"

definition triple_to_gpa :: "bool \<Rightarrow> int \<Rightarrow> int \<Rightarrow> int \<Rightarrow> u32 \<Rightarrow> addr outcome" where
  "triple_to_gpa debug rank bid phase bsize =
    assertO (0 \<le> rank \<and> rank < UINT16_MAX)
    (assertO (0 \<le> bid)
    (assertO (0 \<le> phase \<and> phase < UINT32_MAX)
    (if debug \<and> bsize \<noteq> 0 \<and> phase \<noteq> 0 \<and> phase \<ge> uint bsize then Fault Dbg_error
     else if debug \<and> bsize = 0 \<and> phase \<noteq> 0 then Fault Dbg_error
     else let shift = (if bsize \<noteq> 0 then ceil_log2 bsize else 0);
              offset = push_bit shift (of_int bid) + of_int phase
          in offset_to_gpa (of_int rank) offset)))"

section \<open>Cyclic arithmetic\<close>

text \<open>The difference and the sum without the sanity check of the debug build.\<close>

definition sub_cyclic_raw :: "u32 \<Rightarrow> addr \<Rightarrow> addr \<Rightarrow> u32 \<Rightarrow> int outcome" where
  "sub_cyclic_raw ranks lhs rhs bsize =
    bindO (phase_of lhs bsize) (\<lambda>plhs. bindO (phase_of rhs bsize) (\<lambda>prhs.
      let dphase = i64 (uint (ucast plhs - ucast prhs :: u64));
          dlocality = i64 (uint (ucast (gpa_to_rank lhs) - ucast (gpa_to_rank rhs) :: u64));
          dblock = i64 (uint (block_of lhs bsize - block_of rhs bsize))
      in Ret (i64 (dblock * uint ranks * uint bsize + dlocality * uint bsize + dphase))))"

definition add_cyclic_raw :: "bool \<Rightarrow> u32 \<Rightarrow> addr \<Rightarrow> int \<Rightarrow> u32 \<Rightarrow> addr outcome" where
  "add_cyclic_raw debug ranks gpa n bsize =
    bindO (phase_of gpa bsize) (\<lambda>p.
      let phase0 = i64 (uint p + n + uint bsize);
          phase = phase0 smod uint bsize;
          blocks = phase0 sdiv uint bsize - 1;
          rank0 = i64 (uint (gpa_to_rank gpa) + blocks + uint ranks);
          rank = rank0 smod uint ranks;
          cycles = rank0 sdiv uint ranks - 1;
          blockid = i64 (uint (block_of gpa bsize) + cycles);
          phase = phase + (if phase < 0 then uint bsize else 0);
          rank = rank + (if rank < 0 then uint ranks else 0)
      in triple_to_gpa debug rank blockid phase bsize)"

definition gpa_sub_cyclic :: "bool \<Rightarrow> u32 \<Rightarrow> addr \<Rightarrow> addr \<Rightarrow> u32 \<Rightarrow> int outcome" where
  "gpa_sub_cyclic debug ranks lhs rhs bsize =
    bindO (sub_cyclic_raw ranks lhs rhs bsize) (\<lambda>d.
      if debug then bindO (add_cyclic_raw debug ranks rhs d bsize) (\<lambda>a. assertO (a = lhs) (Ret d))
      else Ret d)"

definition gpa_add_cyclic :: "bool \<Rightarrow> u32 \<Rightarrow> addr \<Rightarrow> int \<Rightarrow> u32 \<Rightarrow> addr outcome" where
  "gpa_add_cyclic debug ranks gpa n bsize =
    (if bsize \<noteq> 0 then
       bindO (add_cyclic_raw debug ranks gpa n bsize) (\<lambda>a.
         if debug then bindO (sub_cyclic_raw ranks a gpa bsize) (\<lambda>diff. assertO (diff = n) (Ret a))
         else Ret a)
     else Ret (gpa_add gpa n))"

section \<open>Virtual addresses\<close>

definition gva_offset :: "addr \<Rightarrow> u64" where
  "gva_offset a = take_bit 42 a"

definition gva_size :: "addr \<Rightarrow> nat" where
  "gva_size a = unat (take_bit 5 (drop_bit 42 a))"

definition gva_cyclic :: "addr \<Rightarrow> bool" where
  "gva_cyclic a = bit a 47"

definition gva_home :: "addr \<Rightarrow> u64" where
  "gva_home a = drop_bit 48 a"

definition gva_make :: "u64 \<Rightarrow> nat \<Rightarrow> bool \<Rightarrow> u64 \<Rightarrow> addr" where
  "gva_make offset sz cyclic home =
    take_bit 42 offset OR push_bit 42 (take_bit 5 (of_nat sz)) OR
    push_bit 47 (of_bool cyclic) OR push_bit 48 home"

definition gva_toKey :: "addr \<Rightarrow> u64" where
  "gva_toKey a = a AND NOT (push_bit (gva_size a) 1 - 1)"

definition gva_toBlockOffset :: "addr \<Rightarrow> u64" where
  "gva_toBlockOffset a = a AND (push_bit (gva_size a) 1 - 1)"

definition gva_getBlockSize :: "addr \<Rightarrow> u64" where
  "gva_getBlockSize a = push_bit (gva_size a) 1"

definition gva_eq :: "addr \<Rightarrow> addr \<Rightarrow> bool" where
  "gva_eq a b = (gva_toKey a = gva_toKey b)"

definition gva_addCyclic :: "bool \<Rightarrow> u32 \<Rightarrow> addr \<Rightarrow> int \<Rightarrow> u64 \<Rightarrow> addr outcome" where
  "gva_addCyclic debug ranks a bytes bsize =
    bindO (gpa_add_cyclic debug ranks a bytes (ucast bsize)) (\<lambda>lhs.
      Ret (gva_make (gva_offset lhs) (gva_size a) True (gva_home lhs)))"

text \<open>
  In \<^verbatim>\<open>addLocal\<close> the signed displacement meets the unsigned \<^verbatim>\<open>bsize\<close>, so the
  division and the remainder are the unsigned ones.
\<close>

definition gva_addLocal :: "addr \<Rightarrow> int \<Rightarrow> u64 \<Rightarrow> addr outcome" where
  "gva_addLocal a n bsize =
    (let block_size = push_bit (gva_size a) 1;
         blocks = (of_int n :: u64) div bsize;
         bytes = (of_int n :: u64) mod bsize;
         r = a + blocks * block_size + bytes
     in assertO (r AND (block_size - 1) < bsize) (Ret r))"

definition gva_add :: "bool \<Rightarrow> u32 \<Rightarrow> addr \<Rightarrow> int \<Rightarrow> u64 \<Rightarrow> addr outcome" where
  "gva_add debug ranks a bytes bsize =
    assertO (gva_size a = ceil_log2 bsize)
      (if gva_cyclic a then gva_addCyclic debug ranks a bytes bsize else gva_addLocal a bytes bsize)"

definition gva_plus_assign :: "bool \<Rightarrow> u32 \<Rightarrow> addr \<Rightarrow> int \<Rightarrow> addr outcome" where
  "gva_plus_assign debug ranks a bytes = gva_add debug ranks a bytes (gva_getBlockSize a)"

definition gva_subLocal :: "addr \<Rightarrow> addr \<Rightarrow> u64 \<Rightarrow> int" where
  "gva_subLocal a b bsize =
    (let msk = push_bit (gva_size a) 1 - 1;
         plhs = gva_offset a AND msk;
         prhs = gva_offset b AND msk;
         blhs = drop_bit (gva_size a) (gva_offset a);
         brhs = drop_bit (gva_size a) (gva_offset b)
     in i64 (uint ((plhs - prhs) + (blhs - brhs) * bsize)))"

definition gva_sub :: "bool \<Rightarrow> u32 \<Rightarrow> addr \<Rightarrow> addr \<Rightarrow> u64 \<Rightarrow> int outcome" where
  "gva_sub debug ranks a b bsize =
    assertO (gva_size a = gva_size b)
    (assertO (gva_size a = ceil_log2 bsize)
    (assertO (\<not> gva_cyclic a \<or> gva_cyclic b)
    (assertO (\<not> gva_cyclic b \<or> gva_cyclic a)
    (if gva_cyclic a then gpa_sub_cyclic debug ranks a b (ucast bsize)
     else assertO (gva_home a = gva_home b) (Ret (gva_subLocal a b bsize))))))"

section \<open>Fields of a physical address\<close>

definition phase_nat :: "addr \<Rightarrow> u32 \<Rightarrow> nat" where
  "phase_nat a bsize = unat a mod 2 ^ ceil_log2 bsize"

definition block_nat :: "addr \<Rightarrow> u32 \<Rightarrow> nat" where
  "block_nat a bsize = (unat a mod 2 ^ 48) div 2 ^ ceil_log2 bsize"

definition rank_nat :: "addr \<Rightarrow> nat" where
  "rank_nat a = unat a div 2 ^ 48"

lemma ceil_log2_le_32: "bsize \<noteq> 0 \<Longrightarrow> ceil_log2 (bsize :: u32) \<le> 32"
proof (rule ccontr)
  assume "bsize \<noteq> 0" "\<not> ceil_log2 bsize \<le> 32"
  then have "2 ^ (ceil_log2 bsize - 1) < unat bsize" by (intro ceil_log2_bounds(2)) auto
  moreover have "(2::nat) ^ 32 \<le> 2 ^ (ceil_log2 bsize - 1)"
    using \<open>\<not> ceil_log2 bsize \<le> 32\<close> by (intro power_increasing) auto
  ultimately show False using unat_less_pow [of bsize] by simp
qed

lemma rank_nat_less: "rank_nat a < 2 ^ 16"
proof -
  have "unat a < 2 ^ 48 * 2 ^ 16" using unat_less_pow [of a] by simp
  then show ?thesis unfolding rank_nat_def by (intro less_mult_imp_div_less) (simp add: mult.commute)
qed

lemma uint_gpa_to_rank [gpa_simps]: "uint (gpa_to_rank a) = int (rank_nat a)"
proof -
  have "unat (drop_bit 48 a) = rank_nat a"
    by (simp only: unat_div_pow rank_nat_def)
  then have "unat (gpa_to_rank a) = take_bit 32 (rank_nat a)"
    by (simp add: gpa_to_rank_def unsigned_ucast_eq)
  also have "\<dots> = rank_nat a"
    using rank_nat_less [of a] by (intro take_bit_nat_eq_self) simp
  finally show ?thesis by (metis unat_eq_nat_uint uint_nat)
qed

lemma unat_block_of [gpa_simps]: "unat (block_of a bsize) = block_nat a bsize"
  by (simp only: block_of_def gpa_to_offset_def block_nat_def unat_div_pow unat_mod_pow)

lemma phase_of_eq:
  assumes "bsize \<noteq> 0" "phase_nat a bsize < unat bsize"
  shows "\<exists>p. phase_of a bsize = Ret p \<and> unat p = phase_nat a bsize"
proof -
  let ?k = "ceil_log2 bsize" and ?w = "(push_bit (ceil_log2 bsize) 1 - 1) AND a :: u64"
  have k: "?k < LENGTH(64)" using ceil_log2_le_32 [OF assms(1)] by simp
  have w: "unat ?w = phase_nat a bsize"
    using and_pred_pow2_mod [OF k, of a] by (simp add: phase_nat_def push_bit_eq_mult and.commute)
  have lt: "phase_nat a bsize < 2 ^ 32 - 1"
    using assms(2) unat_less_pow [of bsize] by simp
  have "uint ?w < UINT32_MAX"
    using lt unfolding UINT32_MAX_def uint_nat w by simp
  moreover have "unat (ucast ?w :: u32) = phase_nat a bsize"
    using lt unfolding unsigned_ucast_eq w by (intro take_bit_nat_eq_self) simp
  ultimately show ?thesis by (auto simp: phase_of_def Let_def assertO_def)
qed

lemma unat_gpa_bits:
  assumes "unat home < 2 ^ 16"
  shows "unat (gpa_bits off home) = unat off mod 2 ^ 48 + 2 ^ 48 * unat home"
proof -
  have "gpa_bits off home = take_bit 48 off + push_bit 48 home"
    unfolding gpa_bits_def by (rule disjunctive_add [symmetric]) (auto simp: bit_simps)
  moreover have p: "unat (push_bit 48 home) = 2 ^ 48 * unat home"
    using assms unfolding unat_mult_pow by simp
  moreover have t: "unat (take_bit 48 off) = unat off mod 2 ^ 48"
    by (rule unat_mod_pow)
  moreover have "unat off mod 2 ^ 48 + 2 ^ 48 * unat home < 2 ^ 64"
  proof -
    have "unat off mod 2 ^ 48 < 2 ^ 48" by simp
    moreover have "2 ^ 48 * unat home \<le> 2 ^ 48 * (2 ^ 16 - 1)" using assms by simp
    ultimately show ?thesis by simp
  qed
  ultimately show ?thesis by (simp add: unat_word_ariths)
qed

lemma triple_to_gpa_fields:
  assumes "bsize \<noteq> 0" "r < 2 ^ 16 - 1" "b < 2 ^ (48 - ceil_log2 bsize)" "p < unat bsize"
  shows "\<exists>a. triple_to_gpa debug (int r) (int b) (int p) bsize = Ret a \<and>
    rank_nat a = r \<and> block_nat a bsize = b \<and> phase_nat a bsize = p"
proof -
  let ?k = "ceil_log2 bsize"
  have k: "?k \<le> 32" by (rule ceil_log2_le_32 [OF assms(1)])
  have p: "p < 2 ^ ?k" using assms(4) ceil_log2_bounds(1) [OF assms(1)] by linarith
  have pw: "(2::nat) ^ 48 = 2 ^ (48 - ?k) * 2 ^ ?k" unfolding power_add [symmetric] using k by simp
  have "(b + 1) * 2 ^ ?k \<le> 2 ^ (48 - ?k) * 2 ^ ?k" using assms(3) by (intro mult_right_mono) auto
  then have off: "b * 2 ^ ?k + p < 2 ^ 48" unfolding pw using p by simp
  let ?off = "push_bit ?k (of_int (int b)) + of_int (int p) :: u64"
  have bl: "b * 2 ^ ?k < 2 ^ 64" "p < 2 ^ 64" using off by auto
  have "b \<le> b * 2 ^ ?k" by simp
  from le_less_trans [OF this bl(1)] have b64: "b < 2 ^ LENGTH(64)" by simp
  have "unat (push_bit ?k (of_int (int b)) :: u64) = b * 2 ^ ?k"
    unfolding unat_mult_pow unat_of_int_nat [OF b64] using bl(1) by simp
  moreover have "unat (of_int (int p) :: u64) = p" using bl(2) by (intro unat_of_int_nat) simp
  ultimately have "unat ?off = b * 2 ^ ?k + p"
    using off by (subst unat_add_small) simp_all
  moreover have r32: "unat (of_int (int r) :: u32) = r" using assms(2) by (intro unat_of_int_nat) simp
  then have r: "unat (ucast (of_int (int r) :: u32) :: u64) = r"
    using assms(2) by (subst unat_ucast_small) simp_all
  ultimately have a: "unat (gpa_bits ?off (ucast (of_int (int r) :: u32))) = b * 2 ^ ?k + p + 2 ^ 48 * r"
    using assms(2) off by (subst unat_gpa_bits) (simp_all add: r)
  let ?a = "gpa_bits ?off (ucast (of_int (int r) :: u32))"
  have "rank_nat ?a = r" unfolding rank_nat_def a using off by simp
  moreover have "block_nat ?a bsize = b"
  proof -
    have "(b * 2 ^ ?k + p + 2 ^ 48 * r) mod 2 ^ 48 = b * 2 ^ ?k + p" using off by simp
    then show ?thesis unfolding block_nat_def a using p by simp
  qed
  moreover have "phase_nat ?a bsize = p"
  proof -
    have "b * 2 ^ ?k + p + 2 ^ 48 * r = p + 2 ^ ?k * (b + 2 ^ (48 - ?k) * r)"
      unfolding pw by (simp add: algebra_simps)
    then have "phase_nat ?a bsize = (p + 2 ^ ?k * (b + 2 ^ (48 - ?k) * r)) mod 2 ^ ?k"
      unfolding phase_nat_def a by (rule arg_cong)
    then show ?thesis using p by simp
  qed
  moreover have "triple_to_gpa debug (int r) (int b) (int p) bsize = Ret ?a"
  proof -
    have "uint (of_int (int r) :: u32) = int r"
      unfolding uint_nat r32 ..
    moreover have "int p < UINT32_MAX" "int p < uint bsize"
      using assms(4) int_less_pow [OF unat_less_pow [of bsize]] unfolding UINT32_MAX_def uint_nat len32
      by linarith+
    ultimately show ?thesis
      using assms(1,2) unfolding triple_to_gpa_def offset_to_gpa_def assertO_def
      by (simp add: UINT16_MAX_def)
  qed
  ultimately show ?thesis by blast
qed

section \<open>Linear position in a cyclic allocation\<close>

definition gpa_ok :: "u32 \<Rightarrow> u32 \<Rightarrow> addr \<Rightarrow> bool" where
  "gpa_ok ranks bsize a = (bsize \<noteq> 0 \<and> unat ranks < 2 ^ 16 \<and>
    phase_nat a bsize < unat bsize \<and> rank_nat a < unat ranks)"

definition linear :: "u32 \<Rightarrow> u32 \<Rightarrow> addr \<Rightarrow> int" where
  "linear ranks bsize a =
    (int (block_nat a bsize) * uint ranks + int (rank_nat a)) * uint bsize + int (phase_nat a bsize)"

definition cyclic_space :: "u32 \<Rightarrow> u32 \<Rightarrow> int" where
  "cyclic_space ranks bsize = 2 ^ (48 - ceil_log2 bsize) * uint ranks * uint bsize"

lemma i64_small: "- (2 ^ 63) \<le> x \<Longrightarrow> x < 2 ^ 63 \<Longrightarrow> i64 x = x"
  unfolding i64_def by (rule signed_take_bit_int_eq_self) auto

lemma i64_uint_diff:
  fixes x y :: u64
  assumes "unat x < 2 ^ 63" "unat y < 2 ^ 63"
  shows "i64 (uint (x - y)) = int (unat x) - int (unat y)"
proof -
  have "uint (x - y) = take_bit 64 (uint x - uint y)"
    unfolding uint_word_ariths take_bit_eq_mod by simp
  then have "i64 (uint (x - y)) = i64 (uint x - uint y)"
    unfolding i64_def by (simp only: signed_take_bit_take_bit) simp
  also have "\<dots> = uint x - uint y"
    unfolding uint_nat
    by (rule i64_small) (use assms [THEN int_less_pow] in linarith)+
  finally show ?thesis by (simp only: uint_nat)
qed

lemma sdiv_nonneg:
  fixes x y :: int
  assumes "0 \<le> x" "0 < y"
  shows "x sdiv y = x div y" "x smod y = x mod y"
  using assms by (auto simp: signed_divide_int_def signed_modulo_int_def sgn_if)

lemma block_nat_less: "block_nat a bsize < 2 ^ 48"
proof -
  have "unat a mod 2 ^ 48 < 2 ^ 48" by simp
  then show ?thesis unfolding block_nat_def by (rule le_less_trans [OF div_le_dividend])
qed

lemma gpa_ok_phase:
  assumes "gpa_ok ranks bsize a"
  obtains p where "phase_of a bsize = Ret p" "unat p = phase_nat a bsize"
  using phase_of_eq [of bsize a] assms by (auto simp: gpa_ok_def)

lemma i64_diff_u32:
  fixes x y :: u32
  shows "i64 (uint (ucast x - ucast y :: u64)) = int (unat x) - int (unat y)"
proof -
  have u: "unat (ucast z :: u64) = unat z" for z :: u32
    using unat_less_pow [of z] by (intro unat_ucast_small) simp
  have "unat (ucast x :: u64) < 2 ^ 63" "unat (ucast y :: u64) < 2 ^ 63"
    unfolding u using unat_less_pow [of x] unat_less_pow [of y] by simp_all
  from i64_uint_diff [OF this] show ?thesis unfolding u .
qed

lemma sub_cyclic_raw_linear:
  assumes l: "gpa_ok ranks bsize lhs" and r: "gpa_ok ranks bsize rhs"
    and d: "- (2 ^ 63) \<le> linear ranks bsize lhs - linear ranks bsize rhs"
      "linear ranks bsize lhs - linear ranks bsize rhs < 2 ^ 63"
  shows "sub_cyclic_raw ranks lhs rhs bsize = Ret (linear ranks bsize lhs - linear ranks bsize rhs)"
proof -
  obtain pl where pl: "phase_of lhs bsize = Ret pl" "unat pl = phase_nat lhs bsize"
    using gpa_ok_phase [OF l] by blast
  obtain pr where pr: "phase_of rhs bsize = Ret pr" "unat pr = phase_nat rhs bsize"
    using gpa_ok_phase [OF r] by blast
  have bl: "i64 (uint (block_of lhs bsize - block_of rhs bsize)) =
      int (block_nat lhs bsize) - int (block_nat rhs bsize)"
    using i64_uint_diff [of "block_of lhs bsize" "block_of rhs bsize"]
      block_nat_less [of lhs bsize] block_nat_less [of rhs bsize]
    unfolding unat_block_of by simp
  have rk: "int (unat (gpa_to_rank a)) = int (rank_nat a)" for a
    using uint_gpa_to_rank [of a] unfolding uint_nat .
  have "(int (block_nat lhs bsize) - int (block_nat rhs bsize)) * uint ranks * uint bsize +
      (int (rank_nat lhs) - int (rank_nat rhs)) * uint bsize +
      (int (phase_nat lhs bsize) - int (phase_nat rhs bsize)) =
      linear ranks bsize lhs - linear ranks bsize rhs"
    unfolding linear_def by (simp add: algebra_simps)
  then show ?thesis
    unfolding sub_cyclic_raw_def pl(1) pr(1) Let_def bindO_Ret i64_diff_u32 bl pl(2) pr(2) rk
    using i64_small [OF d] by simp
qed

lemma cyclic_split:
  fixes B r p n R S :: int
  assumes "0 < R" "0 < S" "0 \<le> (B * R + r) * S + p + n" "(B * R + r) * S + p + n < N * R * S"
  defines "q \<equiv> (p + n) div S"
  shows "0 \<le> B + (r + q) div R" "B + (r + q) div R < N"
    "((B + (r + q) div R) * R + (r + q) mod R) * S + (p + n) mod S = (B * R + r) * S + p + n"
proof -
  let ?b = "B + (r + q) div R" and ?m = "((r + q) mod R) * S + (p + n) mod S"
  have split: "((B + c) * R + m) * S + f = (B * R + r) * S + p + n"
    if "c * R + m = r + q" "q * S + f = p + n" for c m f
  proof -
    have "((B + c) * R + m) * S + f = (B * R + (c * R + m)) * S + f" by (simp add: distrib_right)
    also have "\<dots> = (B * R + r) * S + (q * S + f)" unfolding that(1) by (simp add: distrib_right)
    finally show ?thesis unfolding that(2) by simp
  qed
  show eq: "(?b * R + (r + q) mod R) * S + (p + n) mod S = (B * R + r) * S + p + n"
    by (rule split) (simp_all add: q_def)
  have "(r + q) mod R \<le> R - 1" using pos_mod_bound [OF assms(1), of "r + q"] by linarith
  then have "(r + q) mod R * S \<le> (R - 1) * S" using assms(2) by (intro mult_right_mono) auto
  then have m: "0 \<le> ?m" "?m < R * S"
    using assms(1,2) pos_mod_bound [OF assms(2), of "p + n"] pos_mod_sign [OF assms(2), of "p + n"]
      pos_mod_sign [OF assms(1), of "r + q"] by (auto simp: algebra_simps)
  have e: "?b * (R * S) + ?m = (B * R + r) * S + p + n" unfolding eq [symmetric] by (simp only: distrib_right mult.assoc add.assoc)
  have RS: "0 < R * S" using assms(1,2) by simp
  show "0 \<le> ?b"
  proof (rule ccontr)
    assume "\<not> 0 \<le> ?b"
    then have "?b * (R * S) \<le> - 1 * (R * S)" using RS by (intro mult_right_mono) auto
    with e m assms(3) show False by linarith
  qed
  show "?b < N"
  proof (rule ccontr)
    assume "\<not> ?b < N"
    then have "N * (R * S) \<le> ?b * (R * S)" using RS by (intro mult_right_mono) auto
    with e m assms(4) show False by (simp add: mult.assoc)
  qed
qed

text \<open>
  The sum is right as long as it does not go back beyond the start of the
  preceding block.
\<close>

lemma add_cyclic_raw_linear:
  assumes g: "gpa_ok ranks bsize g"
    and n: "0 \<le> int (phase_nat g bsize) + n + uint bsize" "n < 2 ^ 62"
    and room: "0 \<le> linear ranks bsize g + n" "linear ranks bsize g + n < cyclic_space ranks bsize"
  shows "\<exists>a. add_cyclic_raw debug ranks g n bsize = Ret a \<and> gpa_ok ranks bsize a \<and>
    linear ranks bsize a = linear ranks bsize g + n"
proof -
  define P where "P = int (phase_nat g bsize)"
  define r where "r = int (rank_nat g)"
  define B where "B = int (block_nat g bsize)"
  define R where "R = uint ranks"
  define S where "S = uint bsize"
  define q where "q = (P + n) div S"
  obtain p where p: "phase_of g bsize = Ret p" "unat p = phase_nat g bsize"
    using gpa_ok_phase [OF g] by blast
  have upS: "uint p = P" "uint (block_of g bsize) = B" "uint (gpa_to_rank g) = r"
    using p(2) by (simp_all only: uint_nat P_def B_def unat_block_of r_def)
      (use uint_gpa_to_rank [of g] in \<open>simp only: uint_nat\<close>)
  have nz: "bsize \<noteq> 0" "unat ranks < 2 ^ 16" "rank_nat g < unat ranks" "phase_nat g bsize < unat bsize"
    using g by (auto simp: gpa_ok_def)
  have S: "P < S" "S < 2 ^ 32"
    using nz(4) int_less_pow [OF unat_less_pow [of bsize]] unfolding S_def P_def uint_nat len32 by linarith+
  have R: "r < R" "R < 2 ^ 16"
    using nz(3) int_less_pow [OF nz(2)] unfolding R_def r_def uint_nat by linarith+
  have B: "B < 2 ^ 48" unfolding B_def by (rule int_less_pow [OF block_nat_less])
  have pos: "0 \<le> P" "0 < S" "0 \<le> r" "0 < R" "0 \<le> B"
    using S(1) R(1) by (auto simp: P_def r_def B_def)
  have x: "0 \<le> P + n + S" using n(1) by (simp add: P_def S_def)
  have xdiv: "(P + n + S) div S - 1 = q" "(P + n + S) mod S = (P + n) mod S"
    using pos(2) div_add_self2 [of S "P + n"] by (simp_all add: q_def)
  have "- 1 \<le> q" using pos_imp_zdiv_nonneg_iff [OF pos(2), of "P + n + S"] x xdiv(1) by linarith
  moreover have "q \<le> 2 ^ 62 + 2 ^ 32"
  proof (cases "0 < q")
    case True
    then have "q * 1 \<le> q * S" using pos(2) by (intro mult_left_mono) auto
    moreover have "q * S \<le> P + n"
      using pos_mod_sign [OF pos(2), of "P + n"] div_mult_mod_eq [of "P + n" S] unfolding q_def by linarith
    ultimately show ?thesis using n(2) S by linarith
  qed simp
  ultimately have y: "0 \<le> r + q + R" "r + q + R < 2 ^ 63" using pos R by (linarith, simp)
  have ydiv: "(r + q + R) div R - 1 = (r + q) div R" "(r + q + R) mod R = (r + q) mod R"
    using pos(4) div_add_self2 [of R "r + q"] by simp_all
  have lin: "linear ranks bsize g = (B * R + r) * S + P"
    by (simp add: linear_def B_def R_def r_def S_def P_def)
  have space: "cyclic_space ranks bsize = 2 ^ (48 - ceil_log2 bsize) * R * S"
    by (simp add: cyclic_space_def R_def S_def)
  have room': "0 \<le> (B * R + r) * S + P + n" "(B * R + r) * S + P + n < 2 ^ (48 - ceil_log2 bsize) * R * S"
    using room unfolding lin space by simp_all
  note cs = cyclic_split [OF pos(4,2) room', folded q_def]
  define b' where "b' = nat (B + (r + q) div R)"
  define r' where "r' = nat ((r + q) mod R)"
  define p' where "p' = nat ((P + n) mod S)"
  have ints: "int b' = B + (r + q) div R" "int r' = (r + q) mod R" "int p' = (P + n) mod S"
    unfolding b'_def r'_def p'_def using cs(1) pos by simp_all
  have b': "b' < 2 ^ (48 - ceil_log2 bsize)" using cs(2) unfolding ints(1) [symmetric] by (rule int_less_powD)
  have r': "r' < unat ranks" using pos_mod_bound [OF pos(4), of "r + q"] ints(2)
    unfolding R_def uint_nat by linarith
  have p': "p' < unat bsize" using pos_mod_bound [OF pos(2), of "P + n"] ints(3)
    unfolding S_def uint_nat by linarith
  have "r' < 2 ^ 16 - 1" using r' nz(2) by linarith
  from triple_to_gpa_fields [OF nz(1) this b' p', of debug]
  obtain a where a: "triple_to_gpa debug (int r') (int b') (int p') bsize = Ret a"
    "rank_nat a = r'" "block_nat a bsize = b'" "phase_nat a bsize = p'" by blast
  have "(2::nat) ^ (48 - ceil_log2 bsize) \<le> 2 ^ 63" by (rule power_increasing) auto
  with b' have "int b' < 2 ^ 63" by (intro int_less_pow) linarith
  then have bid: "i64 (B + (r + q) div R) = int b'"
    unfolding ints(1) [symmetric] by (intro i64_small) auto
  have i1: "i64 (P + n + S) = P + n + S" by (rule i64_small) (use x n(2) S in simp_all)
  have i2: "i64 (r + q + R) = r + q + R" by (rule i64_small) (use y in simp_all)
  have adj: "(P + n) mod S + (if (P + n) mod S < 0 then S else 0) = int p'"
    "(r + q) mod R + (if (r + q) mod R < 0 then R else 0) = int r'"
    using ints(2,3) by simp_all
  have "add_cyclic_raw debug ranks g n bsize = triple_to_gpa debug (int r') (int b') (int p') bsize"
    unfolding add_cyclic_raw_def p(1) bindO_Ret Let_def upS S_def [symmetric] R_def [symmetric] i1
      sdiv_nonneg [OF x pos(2)] xdiv i2 sdiv_nonneg [OF y(1) pos(4)] ydiv bid adj ..
  moreover have "linear ranks bsize a = linear ranks bsize g + n"
    using cs(3) unfolding lin by (simp add: linear_def a(2-4) ints flip: R_def S_def)
  moreover have "gpa_ok ranks bsize a"
    using nz r' p' by (simp add: gpa_ok_def a)
  ultimately show ?thesis using a(1) by simp
qed

lemma gpa_ok_ints:
  assumes "gpa_ok ranks bsize a"
  shows "0 < uint bsize" "int (phase_nat a bsize) < uint bsize" "int (rank_nat a) < uint ranks"
    "uint bsize < 4294967296"
proof -
  have "phase_nat a bsize < unat bsize" "rank_nat a < unat ranks" "unat bsize < 2 ^ 32"
    using assms unat_less_pow [of bsize] by (auto simp: gpa_ok_def)
  then show "0 < uint bsize" "int (phase_nat a bsize) < uint bsize" "int (rank_nat a) < uint ranks"
    "uint bsize < 4294967296"
    using int_less_pow [of "unat bsize" 32] unfolding uint_nat by (linarith, linarith, linarith, simp)
qed

lemma linear_inject:
  assumes "gpa_ok ranks bsize a" "gpa_ok ranks bsize b" "linear ranks bsize a = linear ranks bsize b"
  shows "a = b"
proof -
  note S = gpa_ok_ints [OF assms(1)] gpa_ok_ints [OF assms(2)]
  let ?x = "int (block_nat a bsize) * uint ranks + int (rank_nat a)"
  let ?y = "int (block_nat b bsize) * uint ranks + int (rank_nat b)"
  have eq: "?x * uint bsize + int (phase_nat a bsize) = ?y * uint bsize + int (phase_nat b bsize)"
    using assms(3) by (simp only: linear_def)
  have split: "u = v \<and> i = j" if "u * m + i = v * m + j" "0 \<le> i" "i < m" "0 \<le> j" "j < m"
    for u v i j m :: int
  proof -
    have "(u * m + i) mod m = i" "(v * m + j) mod m = j" using that(2-5) by simp_all
    then have "i = j" unfolding that(1) by simp
    then show ?thesis using that by simp
  qed
  have xy: "?x = ?y" "phase_nat a bsize = phase_nat b bsize" using split [OF eq] S by auto
  have rb: "block_nat a bsize = block_nat b bsize" "rank_nat a = rank_nat b"
    using split [OF xy(1)] S by auto
  have whole: "unat c = 2 ^ 48 * rank_nat c + (2 ^ ceil_log2 bsize * block_nat c bsize + phase_nat c bsize)" for c
  proof -
    have k: "ceil_log2 bsize \<le> 48" using ceil_log2_le_32 [of bsize] assms(1) by (simp add: gpa_ok_def)
    have "phase_nat c bsize = (unat c mod 2 ^ 48) mod 2 ^ ceil_log2 bsize"
      unfolding phase_nat_def by (rule mod_mod_cancel [symmetric]) (rule le_imp_power_dvd [OF k])
    then have "2 ^ ceil_log2 bsize * block_nat c bsize + phase_nat c bsize = unat c mod 2 ^ 48"
      unfolding block_nat_def by simp
    then show ?thesis unfolding rank_nat_def by simp
  qed
  show "a = b" using whole [of a] whole [of b] unfolding rb xy(2) by (simp add: word_unat_eq_iff)
qed

lemma gpa_add_cyclic_linear:
  assumes g: "gpa_ok ranks bsize g"
    and n: "0 \<le> int (phase_nat g bsize) + n + uint bsize" "n < 2 ^ 62"
    and room: "0 \<le> linear ranks bsize g + n" "linear ranks bsize g + n < cyclic_space ranks bsize"
  shows "\<exists>a. gpa_add_cyclic debug ranks g n bsize = Ret a \<and> gpa_ok ranks bsize a \<and>
    linear ranks bsize a = linear ranks bsize g + n"
proof -
  obtain a where a: "add_cyclic_raw debug ranks g n bsize = Ret a" "gpa_ok ranks bsize a"
    "linear ranks bsize a = linear ranks bsize g + n"
    using add_cyclic_raw_linear [OF assms] by blast
  have "- 8589934592 \<le> n" using n(1) gpa_ok_ints [OF g] by linarith
  then have "sub_cyclic_raw ranks a g bsize = Ret n"
    using sub_cyclic_raw_linear [OF a(2) g] a(3) n(2) by simp
  then show ?thesis using a g by (auto simp: gpa_add_cyclic_def gpa_ok_def)
qed

section \<open>Properties of cyclic arithmetic\<close>

text \<open>
  C10: Adding to a cyclic address a displacement that goes back by at most one block beyond its phase, and that
  ends inside the cyclic space, moves its linear position (cycle, rank, phase) by exactly that
  displacement, and the sanity checks of the debug build pass. Larger moves back, which the header allows, are not covered: there the
  code rounds the wrong way.
\<close>
theorem gpa_add_cyclic_moves:
  assumes "gpa_ok ranks bsize g"
    and "0 \<le> int (phase_nat g bsize) + n + uint bsize" "n < 2 ^ 62"
    and "0 \<le> linear ranks bsize g + n" "linear ranks bsize g + n < cyclic_space ranks bsize"
  shows "\<exists>a. gpa_add_cyclic debug ranks g n bsize = Ret a \<and> gpa_ok ranks bsize a \<and>
    linear ranks bsize a = linear ranks bsize g + n"
  using assms by (rule gpa_add_cyclic_linear)

lemma ceil_log2_10: "ceil_log2 (10 :: u32) = 4"
  by code_simp

theorem gpa_add_cyclic_moves_witness:
  "\<exists>a. gpa_add_cyclic True 2 19 (- 5) 10 = Ret a \<and> gpa_ok 2 10 a \<and>
    linear 2 10 a = linear 2 10 19 + (- 5)"
  by (rule gpa_add_cyclic_moves)
    (simp_all add: gpa_ok_def phase_nat_def rank_nat_def block_nat_def linear_def cyclic_space_def ceil_log2_10)

text \<open>
  The cyclic difference of two addresses is the difference of their linear
  positions, and adding it back to the right operand gives the left operand
  when that operand is not more than one block behind.
\<close>
lemma gpa_sub_add_cyclic:
  assumes l: "gpa_ok ranks bsize lhs" and r: "gpa_ok ranks bsize rhs"
    and d: "0 \<le> int (phase_nat rhs bsize) + (linear ranks bsize lhs - linear ranks bsize rhs) + uint bsize"
      "linear ranks bsize lhs - linear ranks bsize rhs < 2 ^ 62"
      "linear ranks bsize lhs < cyclic_space ranks bsize"
  shows "gpa_sub_cyclic debug ranks lhs rhs bsize = Ret (linear ranks bsize lhs - linear ranks bsize rhs) \<and>
    gpa_add_cyclic debug ranks rhs (linear ranks bsize lhs - linear ranks bsize rhs) bsize = Ret lhs"
proof -
  let ?d = "linear ranks bsize lhs - linear ranks bsize rhs"
  have nn: "0 \<le> linear ranks bsize a" for a by (simp add: linear_def)
  have room: "0 \<le> linear ranks bsize rhs + ?d" "linear ranks bsize rhs + ?d < cyclic_space ranks bsize"
    using d(3) nn [of lhs] by simp_all
  have lo: "- 8589934592 \<le> ?d" using d(1) gpa_ok_ints [OF r] by linarith
  have sub: "sub_cyclic_raw ranks lhs rhs bsize = Ret ?d"
    using sub_cyclic_raw_linear [OF l r] lo d(2) by simp
  obtain a where a: "add_cyclic_raw debug ranks rhs ?d bsize = Ret a" "gpa_ok ranks bsize a"
    "linear ranks bsize a = linear ranks bsize rhs + ?d"
    using add_cyclic_raw_linear [OF r d(1,2) room] by blast
  then have "a = lhs" using linear_inject [OF a(2) l] by simp
  with a obtain b where b: "gpa_add_cyclic debug ranks rhs ?d bsize = Ret b" "gpa_ok ranks bsize b"
    "linear ranks bsize b = linear ranks bsize rhs + ?d"
    using gpa_add_cyclic_linear [OF r d(1,2) room] by blast
  then have "b = lhs" using linear_inject [OF b(2) l] by simp
  with b(1) sub a(1) \<open>a = lhs\<close> show ?thesis by (cases debug) (simp_all add: gpa_sub_cyclic_def)
qed

text \<open>
  The comment in \<^verbatim>\<open>_add_cyclic\<close> claims that adding one block size before the
  division deals with every negative displacement; it does not. Going back
  15 bytes over blocks of 10 lands 5 bytes before the start: the release build
  returns that address and the debug build stops in its sanity check.
\<close>
lemma gpa_add_cyclic_far_back:
  "gpa_add_cyclic False 2 16 (- 15) 10 = Ret (2 ^ 48 + 5) \<and>
   linear 2 10 (2 ^ 48 + 5) = linear 2 10 16 - 5 \<and>
   gpa_add_cyclic True 2 16 (- 15) 10 = Fault Assert_failed"
proof (intro conjI)
  show "gpa_add_cyclic False 2 16 (- 15) 10 = Ret (2 ^ 48 + 5)" by code_simp
  show "linear 2 10 (2 ^ 48 + 5) = linear 2 10 16 - 5"
    by (simp add: linear_def phase_nat_def rank_nat_def block_nat_def ceil_log2_10)
  show "gpa_add_cyclic True 2 16 (- 15) 10 = Fault Assert_failed" by code_simp
qed

section \<open>Virtual addresses inside one locality\<close>

lemma gva_size_nat: "gva_size a = (unat a div 2 ^ 42) mod 2 ^ 5"
  by (simp only: gva_size_def unat_mod_pow unat_div_pow)

lemma gva_size_less: "gva_size a < 32"
  by (simp add: gva_size_nat)

lemma gva_cyclic_nat: "gva_cyclic a \<longleftrightarrow> odd (unat a div 2 ^ 42 div 2 ^ 5)"
proof -
  have "gva_cyclic a \<longleftrightarrow> bit (unat a) 47" by (simp add: gva_cyclic_def bit_unsigned_iff)
  also have "\<dots> \<longleftrightarrow> odd (unat a div 2 ^ (42 + 5))" by (simp add: bit_iff_odd)
  also have "\<dots> \<longleftrightarrow> odd (unat a div 2 ^ 42 div 2 ^ 5)" by (simp only: div_mult2_eq power_add)
  finally show ?thesis .
qed

lemma gva_home_nat: "unat (gva_home a) = unat a div 2 ^ 42 div 2 ^ 6"
proof -
  have "unat (gva_home a) = unat a div 2 ^ (42 + 6)" unfolding gva_home_def unat_div_pow by simp
  then show ?thesis by (simp only: div_mult2_eq power_add)
qed

lemma gva_same_header:
  assumes "unat a div 2 ^ 42 = unat b div 2 ^ 42"
  shows "gva_size a = gva_size b" "gva_cyclic a = gva_cyclic b" "gva_home a = gva_home b"
proof -
  show "gva_size a = gva_size b" "gva_cyclic a = gva_cyclic b"
    unfolding gva_size_nat gva_cyclic_nat assms by (rule refl)+
  show "gva_home a = gva_home b"
    unfolding word_unat_eq_iff gva_home_nat assms by (rule refl)
qed

lemma gva_addLocal_pow2:
  "gva_addLocal a n (2 ^ gva_size a) = Ret (a + of_int n)"
proof -
  let ?s = "gva_size a" and ?n = "of_int n :: u64"
  have k: "?s < LENGTH(64)" using gva_size_less [of a] by simp
  have "a + ?n div 2 ^ ?s * 2 ^ ?s + ?n mod 2 ^ ?s = a + ?n"
    by (simp only: add.assoc div_mult_mod_eq)
  moreover have "w AND (2 ^ ?s - 1) < 2 ^ ?s" for w :: u64
    unfolding word_less_nat_alt and_pred_pow2_mod [OF k] unat_pow2 [OF k] by simp
  ultimately show ?thesis
    by (simp add: gva_addLocal_def push_bit_eq_mult Let_def assertO_def)
qed

lemma word_add_int_nat:
  fixes a :: u64
  assumes "int (unat a) + n = int m" "m < 2 ^ 64"
  shows "unat (a + of_int n) = m"
proof -
  have "a + of_int n = of_int (int (unat a) + n)" by simp
  also have "\<dots> = of_int (int m)" unfolding assms(1) ..
  finally show ?thesis using assms(2) by (simp only: len64 unat_of_int_nat)
qed

lemma gva_subLocal_pow2:
  assumes "gva_size b = gva_size a"
  shows "gva_subLocal b a (2 ^ gva_size b) = i64 (uint (gva_offset b - gva_offset a))"
proof -
  let ?s = "gva_size b"
  have w: "(x AND (2 ^ ?s - 1)) + drop_bit ?s x * 2 ^ ?s = x" for x :: u64
  proof -
    have "x AND (2 ^ ?s - 1) = take_bit ?s x" by (simp add: take_bit_eq_mask mask_eq_exp_minus_1)
    then show ?thesis
      using bits_ident [of ?s x] by (simp only: push_bit_eq_mult add.commute)
  qed
  have "(p - q) + (x - y) * z = (p + x * z) - (q + y * z)" for p q x y z :: u64
    by (simp add: algebra_simps)
  then show ?thesis
    unfolding gva_subLocal_def Let_def push_bit_eq_mult mult_1 by (simp only: w)
qed

text \<open>
  For a power-of-two block size, adding a displacement to a non-cyclic
  virtual address that stays inside the offset field keeps its home, size and
  cyclic bits, and subtracting the original address gives the displacement back,
  negative displacements included.
\<close>
lemma gva_local_roundtrip:
  assumes "\<not> gva_cyclic a" "0 \<le> uint (gva_offset a) + n" "uint (gva_offset a) + n < 2 ^ 42"
  shows "\<exists>b. gva_add debug ranks a n (2 ^ gva_size a) = Ret b \<and>
    gva_home b = gva_home a \<and> gva_size b = gva_size a \<and> \<not> gva_cyclic b \<and>
    gva_sub debug ranks b a (2 ^ gva_size a) = Ret n"
proof -
  let ?b = "a + of_int n" and ?h = "unat a div 2 ^ 42"
  have off: "unat (gva_offset c) = unat c mod 2 ^ 42" for c
    by (simp only: gva_offset_def unat_mod_pow)
  define m where "m = nat (uint (gva_offset a) + n)"
  have m: "int m = int (unat a mod 2 ^ 42) + n" "m < 2 ^ 42"
    using assms(2,3) int_less_powD [of m 42] unfolding m_def uint_nat off by auto
  have au: "int (unat a) = int (2 ^ 42 * ?h) + int (unat a mod 2 ^ 42)"
    unfolding of_nat_add [symmetric] by simp
  have h: "?h < 2 ^ 22"
    using unat_less_pow [of a] by (intro less_mult_imp_div_less) simp
  have "(?h + 1) * 2 ^ 42 \<le> 2 ^ 22 * 2 ^ 42" using h by (intro mult_right_mono) auto
  then have "2 ^ 42 * ?h + m < 2 ^ 64" using m(2) by simp
  then have b: "unat ?b = 2 ^ 42 * ?h + m"
    by (intro word_add_int_nat) (simp only: au m(1) of_nat_add)+
  have hdr: "unat ?b div 2 ^ 42 = ?h" unfolding b using m(2) by simp
  note same = gva_same_header [OF hdr]
  have "unat (gva_offset ?b) = m" unfolding off b using m(2) by simp
  moreover have "unat (gva_offset a) < 2 ^ 63" "m < 2 ^ 63" unfolding off using m(2) by auto
  ultimately have "i64 (uint (gva_offset ?b - gva_offset a)) = int m - int (unat a mod 2 ^ 42)"
    using i64_uint_diff [of "gva_offset ?b" "gva_offset a"] off [of a] by simp
  then have "gva_subLocal ?b a (2 ^ gva_size a) = n"
    using gva_subLocal_pow2 [of ?b a] same(1) m(1) by simp
  moreover have "gva_size a < LENGTH(64)" using gva_size_less [of a] by simp
  ultimately show ?thesis
    using assms(1) same gva_addLocal_pow2 [of a n]
    by (simp add: gva_add_def gva_sub_def ceil_log2_pow2)
qed

text \<open>
  For other block sizes \<^verbatim>\<open>addLocal\<close> adds the remainder to the phase without
  carrying into the next block: seven bytes from phase 5 of a 10-byte block
  leave the block and fail the assertion, although the displacement reaches
  the second byte of the next block.
\<close>
lemma gva_addLocal_no_carry:
  "gva_add False 1 (gva_make 5 4 False 0) 7 10 = Fault Assert_failed \<and>
   gva_sub False 1 (gva_make 18 4 False 0) (gva_make 5 4 False 0) 10 = Ret 7"
  by code_simp

text \<open>
  The key and the block offset of a virtual address split it: together they
  are the address, the key has no offset, and the offset is smaller than the
  block size.
\<close>
lemma gva_key_offset_split:
  "gva_toKey a OR gva_toBlockOffset a = a \<and> gva_toKey a AND gva_toBlockOffset a = 0 \<and>
   gva_toBlockOffset (gva_toKey a) = 0 \<and> gva_toKey (gva_toKey a) = gva_toKey a \<and>
   gva_toBlockOffset a < gva_getBlockSize a"
proof -
  let ?s = "gva_size a"
  have k: "?s < LENGTH(64)" using gva_size_less [of a] by simp
  have m: "push_bit ?s 1 - 1 = (mask ?s :: u64)" by (simp add: push_bit_eq_mult mask_eq_exp_minus_1)
  have key: "bit (gva_toKey a) i \<longleftrightarrow> bit a i \<and> ?s \<le> i" for i
    unfolding gva_toKey_def m by (auto simp: bit_simps dest: bit_imp_le_length)
  have "gva_size (gva_toKey a) = ?s"
    unfolding gva_size_def
    by (rule arg_cong [of _ _ unat], rule bit_word_eqI)
      (use gva_size_less [of a] in \<open>auto simp: bit_simps key gva_size_def\<close>)
  then have s2: "push_bit (gva_size (gva_toKey a)) 1 - 1 = (mask ?s :: u64)" using m by simp
  have "gva_toBlockOffset a < gva_getBlockSize a"
    unfolding gva_toBlockOffset_def gva_getBlockSize_def word_less_nat_alt push_bit_eq_mult mult_1
      and_pred_pow2_mod [OF k] unat_pow2 [OF k] by simp
  moreover have "gva_toBlockOffset (gva_toKey a) = 0" "gva_toKey (gva_toKey a) = gva_toKey a"
    unfolding gva_toBlockOffset_def [of "gva_toKey a"] gva_toKey_def [of "gva_toKey a"] s2
    by (rule bit_word_eqI; auto simp: bit_simps key)+
  moreover have "gva_toKey a OR gva_toBlockOffset a = a" "gva_toKey a AND gva_toBlockOffset a = 0"
    unfolding gva_toBlockOffset_def m by (rule bit_word_eqI; auto simp: bit_simps key)+
  ultimately show ?thesis by blast
qed

end
