(* ===== verification/Hpx_Ring.thy ===== *)
theory Hpx_Ring
  imports Hpx_Math
begin

text \<open>
  Ring buffers that double in place. Both the circular buffer of the
  put-with-completion network and the send buffer of the MPI network keep
  their elements at the abstract index modulo a power-of-two capacity, and
  after doubling copy either the wrapped suffix or the prefix to its new place.
  This theory has the copy, the ring view of a slot array, the two cases of
  the copy, and the interface of a first-in first-out buffer.
\<close>

definition copy_range :: "'a list \<Rightarrow> nat \<Rightarrow> nat \<Rightarrow> nat \<Rightarrow> 'a list outcome" where
  "copy_range xs src dst n =
    (if src + n \<le> length xs \<and> dst + n \<le> length xs
     then Ret (map (\<lambda>i. if dst \<le> i \<and> i < dst + n then xs ! (src + (i - dst)) else xs ! i) [0..<length xs])
     else Fault Out_of_bounds)"

text \<open>A \<^verbatim>\<open>realloc\<close> of an array: slots beyond the old end have never been written.\<close>

definition resize :: "'a option list \<Rightarrow> nat \<Rightarrow> 'a option list" where
  "resize xs n = take n (xs @ replicate n None)"

definition mask_index :: "nat \<Rightarrow> nat \<Rightarrow> nat" where
  "mask_index i capacity = unat ((of_nat i :: u32) AND (of_nat capacity - 1))"

definition pow2 :: "nat \<Rightarrow> bool" where
  "pow2 c = (\<exists>k < 32. c = 2 ^ k)"

definition ring :: "'a list \<Rightarrow> nat \<Rightarrow> nat \<Rightarrow> nat \<Rightarrow> 'a list" where
  "ring xs cap lo hi = map (\<lambda>i. xs ! (i mod cap)) [lo..<hi]"

lemma mask_index_mod:
  assumes "pow2 c"
  shows "mask_index i c = i mod c"
proof -
  obtain k where k: "k < 32" "c = 2 ^ k" using assms by (auto simp: pow2_def)
  have "unat ((of_nat i :: u32) AND (2 ^ k - 1)) = unat (of_nat i :: u32) mod 2 ^ k"
    using k by (intro and_pred_pow2_mod) simp
  also have "unat (of_nat i :: u32) = i mod 2 ^ 32"
    by (simp add: unsigned_of_nat take_bit_eq_mod)
  also have "i mod 2 ^ 32 mod 2 ^ k = i mod 2 ^ k"
    using k by (intro mod_mod_cancel le_imp_power_dvd) simp
  finally show ?thesis by (simp add: mask_index_def k(2))
qed

lemma pow2_pos: "pow2 c \<Longrightarrow> 0 < c"
  by (auto simp: pow2_def)

lemma pow2_less: "pow2 c \<Longrightarrow> c < 2 ^ 32"
proof -
  assume "pow2 c"
  then obtain k where "k < 32" "c = 2 ^ k" by (auto simp: pow2_def)
  then show ?thesis using power_strict_increasing [of k 32 "2::nat"] by simp
qed

lemma pow2_double:
  assumes "pow2 c" "c < 2 ^ 31"
  shows "pow2 (2 * c)"
proof -
  obtain k where k: "c = 2 ^ k" using assms(1) by (auto simp: pow2_def)
  have "k < 31" using assms(2) unfolding k by (rule power_less_imp_less_exp [rotated]) simp
  then show ?thesis unfolding pow2_def k by (intro exI [of _ "Suc k"] conjI) (linarith, rule power_Suc [symmetric])
qed

text \<open>Rounding a capacity up to a power of two stays within 32 bits up to \<open>2\<^sup>31\<close>.\<close>

lemma ceil_log2_u32:
  assumes "0 < c" "c \<le> 2 ^ 31"
  shows "ceil_log2 (of_nat c :: u32) < 32" "unat (push_bit (ceil_log2 (of_nat c :: u32)) (1 :: u32)) = 2 ^ ceil_log2 (of_nat c :: u32)"
proof -
  let ?k = "ceil_log2 (of_nat c :: u32)"
  have u: "unat (of_nat c :: u32) = c" using assms(2) by (intro unat_of_nat_small) simp
  then have nz: "(of_nat c :: u32) \<noteq> 0" using assms(1) by (metis less_irrefl unsigned_0)
  show k: "?k < 32"
  proof (rule ccontr)
    assume "\<not> ?k < 32"
    then have "(2::nat) ^ 31 \<le> 2 ^ (?k - 1)" by (intro power_increasing) auto
    moreover have "2 ^ (?k - 1) < c" using ceil_log2_bounds(2) [OF nz] u \<open>\<not> ?k < 32\<close> by simp
    ultimately show False using assms(2) by linarith
  qed
  show "unat (push_bit ?k (1 :: u32)) = 2 ^ ?k" using k by (simp add: push_bit_eq_mult)
qed

lemma pow2_ceil2: "0 < c \<Longrightarrow> c \<le> 2 ^ 31 \<Longrightarrow> pow2 (unat (ceil2 (of_nat c :: u32)))"
  using ceil_log2_u32 by (auto simp: pow2_def ceil2_def)

lemma mod_double: "lo mod (2 * c) = lo mod c \<or> lo mod (2 * c) = lo mod c + c" for c :: nat
proof (cases "c = 0")
  case False
  have "lo mod (2 * c) = c * (lo div c mod 2) + lo mod c"
    using mod_mult2_eq [of lo c 2] by (simp add: mult.commute)
  moreover have "lo div c mod 2 = 0 \<or> lo div c mod 2 = 1" by presburger
  ultimately show ?thesis by auto
qed simp

lemma copy_range_nth:
  assumes "src + n \<le> length xs" "dst + n \<le> length xs"
  shows "\<exists>ys. copy_range xs src dst n = Ret ys \<and> length ys = length xs \<and>
    (\<forall>i < length xs. ys ! i = (if dst \<le> i \<and> i < dst + n then xs ! (src + (i - dst)) else xs ! i))"
  using assms unfolding copy_range_def by simp

text \<open>
  Slot positions before and after doubling, for the indices of a full window.
\<close>

lemma mod_window:
  fixes c lo i :: nat
  assumes "0 < c" "lo \<le> i" "i < lo + c"
  shows "i mod c = (if lo mod c + (i - lo) < c then lo mod c + (i - lo) else lo mod c + (i - lo) - c)"
proof -
  have "i mod c = (lo mod c + (i - lo)) mod c"
    using assms(2) by (metis le_add_diff_inverse mod_add_left_eq)
  moreover have "lo mod c + (i - lo) < 2 * c" using assms mod_less_divisor [OF assms(1), of lo] by linarith
  ultimately show ?thesis by (cases "lo mod c + (i - lo) < c") (simp_all add: le_mod_geq)
qed

lemma reflow_low:
  assumes "0 < c" "length xs = 2 * c" "lo mod (2 * c) = lo mod c"
  shows "\<exists>ys. copy_range xs 0 c (lo mod c) = Ret ys \<and> length ys = 2 * c \<and>
    (\<forall>i. lo \<le> i \<longrightarrow> i < lo + c \<longrightarrow> ys ! (i mod (2 * c)) = xs ! (i mod c))"
proof -
  let ?o = "lo mod c"
  have o: "?o < c" using assms(1) by simp
  then obtain ys where ys: "copy_range xs 0 c ?o = Ret ys" "length ys = 2 * c"
    "\<And>i. i < 2 * c \<Longrightarrow> ys ! i = (if c \<le> i \<and> i < c + ?o then xs ! (i - c) else xs ! i)"
    using copy_range_nth [of 0 ?o xs c] assms(2) by auto
  have "ys ! (i mod (2 * c)) = xs ! (i mod c)" if "lo \<le> i" "i < lo + c" for i
  proof -
    have lt: "?o + (i - lo) < 2 * c" using o that by linarith
    have m: "i mod (2 * c) = ?o + (i - lo)"
      using mod_window [of "2 * c" lo i] assms(1) that lt unfolding assms(3) by simp
    show ?thesis
    proof (cases "?o + (i - lo) < c")
      case True
      then show ?thesis unfolding m mod_window [OF assms(1) that] using ys(3) [OF lt] by simp
    next
      case False
      moreover have "?o + (i - lo) < c + ?o" using that by linarith
      ultimately show ?thesis unfolding m mod_window [OF assms(1) that] using ys(3) [OF lt] by simp
    qed
  qed
  with ys show ?thesis by blast
qed

lemma reflow_high:
  assumes "0 < c" "length xs = 2 * c" "lo mod (2 * c) = lo mod c + c"
  shows "\<exists>ys. copy_range xs (lo mod c) (lo mod c + c) (c - lo mod c) = Ret ys \<and> length ys = 2 * c \<and>
    (\<forall>i. lo \<le> i \<longrightarrow> i < lo + c \<longrightarrow> ys ! (i mod (2 * c)) = xs ! (i mod c))"
proof -
  let ?o = "lo mod c"
  have o: "?o < c" using assms(1) by simp
  then obtain ys where ys: "copy_range xs ?o (?o + c) (c - ?o) = Ret ys" "length ys = 2 * c"
    "\<And>i. i < 2 * c \<Longrightarrow> ys ! i = (if ?o + c \<le> i \<and> i < ?o + c + (c - ?o) then xs ! (?o + (i - (?o + c))) else xs ! i)"
    using copy_range_nth [of ?o "c - ?o" xs "?o + c"] assms(2) by auto
  have "ys ! (i mod (2 * c)) = xs ! (i mod c)" if "lo \<le> i" "i < lo + c" for i
  proof -
    let ?j = "?o + (i - lo)"
    have m: "i mod (2 * c) = (if ?j < c then ?j + c else ?j - c)"
    proof -
      have "?o + c + (i - lo) < 2 * c \<longleftrightarrow> ?j < c" "?o + c + (i - lo) = ?j + c" "?j + c - 2 * c = ?j - c"
        by linarith+
      then show ?thesis
        using mod_window [of "2 * c" lo i] assms(1) that unfolding assms(3) by (simp only:)
    qed
    show ?thesis
    proof (cases "?j < c")
      case True
      then have "?o + (?j + c - (?o + c)) = ?j" "?o + c \<le> ?j + c" by simp_all
      then have "ys ! (?j + c) = xs ! ?j" using ys(3) [of "?j + c"] True by simp
      then show ?thesis unfolding m mod_window [OF assms(1) that] if_P [OF True] .
    next
      case False
      then have "?j - c < ?o" using that by linarith
      then have "ys ! (?j - c) = xs ! (?j - c)" using ys(3) [of "?j - c"] o by simp
      then show ?thesis unfolding m mod_window [OF assms(1) that] if_not_P [OF False] .
    qed
  qed
  with ys show ?thesis by blast
qed

lemma mod_window_inj:
  fixes c i j :: nat
  assumes "i < j" "j < i + c"
  shows "i mod c \<noteq> j mod c"
proof
  assume "i mod c = j mod c"
  then have "c dvd j - i" using assms(1) by (metis less_imp_le mod_eq_dvd_iff_nat)
  then have "c \<le> j - i" using assms(1) by (intro dvd_imp_le) auto
  then show False using assms by linarith
qed

lemma ring_snoc:
  assumes "lo \<le> hi" "hi < lo + cap" "length xs = cap"
  shows "ring (xs[hi mod cap := x]) cap lo (Suc hi) = ring xs cap lo hi @ [x]"
proof -
  have "hi mod cap < length xs" using assms by (intro mod_less_divisor [THEN less_le_trans]) auto
  moreover have "(xs[hi mod cap := x]) ! (i mod cap) = xs ! (i mod cap)" if "lo \<le> i" "i < hi" for i
    using mod_window_inj [of i hi cap] assms(2) that by simp
  ultimately show ?thesis using assms(1) by (simp add: ring_def)
qed

lemma ring_cong:
  assumes "\<And>i. lo \<le> i \<Longrightarrow> i < hi \<Longrightarrow> ys ! (i mod d) = xs ! (i mod c)"
  shows "ring ys d lo hi = ring xs c lo hi"
  using assms by (auto simp: ring_def)

lemma ring_Cons: "lo < hi \<Longrightarrow> ring xs cap lo hi = xs ! (lo mod cap) # ring xs cap (Suc lo) hi"
  by (simp add: ring_def upt_conv_Cons)

section \<open>First-in first-out buffers\<close>

locale fifo =
  fixes inv :: "'s \<Rightarrow> bool" and items :: "'s \<Rightarrow> 'a list" and ready :: "nat \<Rightarrow> 's \<Rightarrow> bool"
    and put :: "'s \<Rightarrow> 'a \<Rightarrow> 's outcome"
  assumes put_law: "\<lbrakk> inv s; ready (Suc n) s \<rbrakk> \<Longrightarrow>
    \<exists>s'. put s x = Ret s' \<and> inv s' \<and> ready n s' \<and> items s' = items s @ [x]"
begin

fun put_all :: "'s \<Rightarrow> 'a list \<Rightarrow> 's outcome" where
  "put_all s [] = Ret s"
| "put_all s (x # xs) = bindO (put s x) (\<lambda>s'. put_all s' xs)"

lemma put_all_law:
  assumes "inv s" "ready (length xs) s"
  shows "\<exists>s'. put_all s xs = Ret s' \<and> inv s' \<and> items s' = items s @ xs"
  using assms
proof (induction xs arbitrary: s)
  case (Cons x xs)
  obtain s1 where s1: "put s x = Ret s1" "inv s1" "ready (length xs) s1" "items s1 = items s @ [x]"
    using put_law [of s "length xs" x] Cons.prems by auto
  with Cons.IH [of s1] show ?case by auto
qed simp

end

end
