(* ===== verification/Hpx_CircularBuffer.thy ===== *)
theory Hpx_CircularBuffer
  imports Hpx_Ring
begin

text \<open>
  The growing circular buffer of \<^verbatim>\<open>libhpx/network/pwc/CircularBuffer.h\<close> and
  \<^verbatim>\<open>CircularBuffer.cpp\<close>. A record slot that was never written is
  \<^const>\<open>None\<close>. Byte addresses are kept, because the byte counts are 32-bit
  products; the outcome of \<^verbatim>\<open>realloc\<close> is an argument. The callback of
  \<^verbatim>\<open>progress\<close> is a state transformer that returns a status.
\<close>

section \<open>Model\<close>

record 'a cbuf =
  cb_capacity :: nat
  cb_elementSize :: nat
  cb_max :: nat
  cb_min :: nat
  cb_records :: "'a option list"

definition cb_size :: "'a cbuf \<Rightarrow> nat outcome" where
  "cb_size b = (let size = (if cb_min b \<le> cb_max b then cb_max b - cb_min b
                            else cb_max b + 2 ^ 64 - cb_min b)
                in assertO (size < 2 ^ 32 - 1) (Ret size))"

definition cb_getIndexOf :: "bool \<Rightarrow> nat \<Rightarrow> nat \<Rightarrow> nat outcome" where
  "cb_getIndexOf debug i capacity =
    (if debug \<and> of_nat capacity \<noteq> push_bit (ceil_log2 (of_nat capacity :: u32)) (1 :: u32)
     then Fault Dbg_error
     else Ret (mask_index i capacity))"

definition cb_getAddressOf :: "'a cbuf \<Rightarrow> nat \<Rightarrow> nat" where
  "cb_getAddressOf b i = u32wrap (i * cb_elementSize b)"

text \<open>The slot at a byte offset of the record array.\<close>

definition cb_slot :: "'a cbuf \<Rightarrow> nat \<Rightarrow> nat outcome" where
  "cb_slot b bytes =
    (if bytes mod cb_elementSize b = 0 \<and> bytes div cb_elementSize b < length (cb_records b)
     then Ret (bytes div cb_elementSize b) else Fault Out_of_bounds)"

definition cb_memcpy :: "'a cbuf \<Rightarrow> nat \<Rightarrow> nat \<Rightarrow> nat \<Rightarrow> 'a cbuf outcome" where
  "cb_memcpy b dst src bytes =
    bindO (copy_range (cb_records b) (src div cb_elementSize b) (dst div cb_elementSize b)
             (bytes div cb_elementSize b))
      (\<lambda>rs. Ret (b\<lparr>cb_records := rs\<rparr>))"

definition cb_reflow :: "bool \<Rightarrow> 'a cbuf \<Rightarrow> nat \<Rightarrow> 'a cbuf outcome" where
  "cb_reflow debug b oldCapacity =
    (if oldCapacity = 0 then Ret b
     else
       bindO (cb_getIndexOf debug (cb_min b) oldCapacity) (\<lambda>oldMin.
       bindO (cb_getIndexOf debug (cb_max b) oldCapacity) (\<lambda>oldMax.
       let pfx = (if oldMin < oldMax then oldMax - oldMin else oldCapacity - oldMin);
           sfx = (if oldMin < oldMax then 0 else oldMax)
       in
       bindO (cb_getIndexOf debug (cb_min b) (cb_capacity b)) (\<lambda>newMin.
       bindO (cb_getIndexOf debug (cb_max b) (cb_capacity b)) (\<lambda>newMax.
       if oldMin = newMin then
         assertO (oldMax \<noteq> newMax)
         (assertO (int (oldMin + pfx) = int newMax - int sfx)
           (cb_memcpy b (cb_getAddressOf b (oldMin + pfx)) (cb_getAddressOf b 0)
              (u32wrap (sfx * cb_elementSize b))))
       else if oldMax = newMax then
         assertO (0 < pfx \<and> newMin + pfx \<le> 2 ^ 31 - 1 \<and> newMin + pfx \<le> cb_capacity b)
           (cb_memcpy b (cb_getAddressOf b newMin) (cb_getAddressOf b oldMin)
              (u32wrap (pfx * cb_elementSize b)))
       else Ret b)))))"

definition cb_expand :: "bool \<Rightarrow> (nat \<Rightarrow> bool) \<Rightarrow> 'a cbuf \<Rightarrow> nat \<Rightarrow> 'a cbuf outcome" where
  "cb_expand debug realloc_ok b capacity =
    assertO (capacity \<noteq> 0)
    (if capacity < cb_capacity b then Ret b
     else if cb_capacity b = capacity then Ret b
     else let oldCapacity = cb_capacity b;
              bytes = u32wrap (capacity * cb_elementSize b)
          in if \<not> realloc_ok bytes then Ret (b\<lparr>cb_capacity := capacity, cb_records := []\<rparr>)
             else let n = bytes div cb_elementSize b
                  in cb_reflow debug
                       (b\<lparr>cb_capacity := capacity,
                          cb_records := take n (cb_records b @ replicate n None)\<rparr>)
                       oldCapacity)"

definition cb_new :: "bool \<Rightarrow> (nat \<Rightarrow> bool) \<Rightarrow> nat \<Rightarrow> nat \<Rightarrow> 'a cbuf outcome" where
  "cb_new debug realloc_ok elementSize capacity =
    cb_expand debug realloc_ok
      \<lparr> cb_capacity = 0, cb_elementSize = elementSize, cb_max = 0, cb_min = 0, cb_records = [] \<rparr>
      (unat (push_bit (ceil_log2 (of_nat capacity :: u32)) (1 :: u32)))"

definition cb_append :: "bool \<Rightarrow> (nat \<Rightarrow> bool) \<Rightarrow> 'a cbuf \<Rightarrow> ('a cbuf \<times> nat) outcome" where
  "cb_append debug realloc_ok b =
    (let next = cb_max b; b1 = b\<lparr>cb_max := u64wrap (next + 1)\<rparr> in
     bindO (cb_size b1) (\<lambda>size.
     bindO (if size \<ge> cb_capacity b1
            then cb_expand debug realloc_ok b1 (u32wrap (cb_capacity b1 * 2)) else Ret b1) (\<lambda>b2.
     bindO (cb_getIndexOf debug next (cb_capacity b2)) (\<lambda>i.
     Ret (b2, cb_getAddressOf b2 i)))))"

definition cb_push :: "bool \<Rightarrow> (nat \<Rightarrow> bool) \<Rightarrow> 'a cbuf \<Rightarrow> 'a \<Rightarrow> 'a cbuf outcome" where
  "cb_push debug realloc_ok b x =
    bindO (cb_append debug realloc_ok b) (\<lambda>(b', addr).
    bindO (cb_slot b' addr) (\<lambda>k.
    Ret (b'\<lparr>cb_records := (cb_records b')[k := Some x]\<rparr>)))"

text \<open>
  The head of the buffer: \<^verbatim>\<open>getAddressOf(getIndexOf(min_))\<close>. Reading a slot that
  was never written is an access to uninitialised memory.
\<close>

definition cb_head :: "bool \<Rightarrow> 'a cbuf \<Rightarrow> 'a outcome" where
  "cb_head debug b =
    bindO (cb_getIndexOf debug (cb_min b) (cb_capacity b)) (\<lambda>i.
    bindO (cb_slot b (cb_getAddressOf b i)) (\<lambda>k.
    case cb_records b ! k of Some x \<Rightarrow> Ret x | None \<Rightarrow> Fault Out_of_bounds))"

function cb_progress ::
  "bool \<Rightarrow> ('s \<Rightarrow> 'a \<Rightarrow> status \<times> 's) \<Rightarrow> 's \<Rightarrow> 'a cbuf \<Rightarrow> (nat \<times> 's \<times> 'a cbuf) outcome" where
  "cb_progress debug f s b =
    (if cb_min b < cb_max b then
       case cb_head debug b of
         Inl e \<Rightarrow> Inl e
       | Inr x \<Rightarrow>
           (case f s x of (e, s') \<Rightarrow>
              if e = LIBHPX_RETRY then bindO (cb_size b) (\<lambda>n. Ret (n, s', b))
              else if e = LIBHPX_OK then cb_progress debug f s' (b\<lparr>cb_min := cb_min b + 1\<rparr>)
              else Fault Dbg_error)
     else Ret (0, s, b))"
  by pat_completeness auto
termination
  by (relation "measure (\<lambda>(d, f, s, b). cb_max b - cb_min b)") auto

declare cb_progress.simps [simp del]

section \<open>Invariant and abstraction\<close>

definition cb_inv :: "'a cbuf \<Rightarrow> bool" where
  "cb_inv b = (pow2 (cb_capacity b) \<and> 0 < cb_elementSize b \<and>
    cb_capacity b * cb_elementSize b < 2 ^ 32 \<and> length (cb_records b) = cb_capacity b \<and>
    cb_min b \<le> cb_max b \<and> cb_max b - cb_min b < cb_capacity b \<and> cb_max b < 2 ^ 64 \<and>
    None \<notin> set (ring (cb_records b) (cb_capacity b) (cb_min b) (cb_max b)))"

definition cb_items :: "'a cbuf \<Rightarrow> 'a list" where
  "cb_items b = map the (ring (cb_records b) (cb_capacity b) (cb_min b) (cb_max b))"

text \<open>Room for \<^term>\<open>n\<close> more records without overflow of a 32-bit byte count.\<close>

definition cb_ready :: "(nat \<Rightarrow> bool) \<Rightarrow> nat \<Rightarrow> 'a cbuf \<Rightarrow> bool" where
  "cb_ready realloc_ok n b = ((\<forall>m. realloc_ok m) \<and> cb_max b + n < 2 ^ 64 \<and>
    2 * (cb_max b - cb_min b + n) < 2 ^ 31 \<and>
    2 * (cb_max b - cb_min b + n) * cb_elementSize b < 2 ^ 32)"

lemma cb_getIndexOf_mod:
  assumes "pow2 c"
  shows "cb_getIndexOf debug i c = Ret (i mod c)"
proof -
  obtain k where k: "k < 32" "c = 2 ^ k" using assms by (auto simp: pow2_def)
  have "(of_nat c :: u32) = push_bit (ceil_log2 (of_nat c :: u32)) 1"
    using ceil_log2_pow2 [of k, where 'a=32] k by (simp add: push_bit_eq_mult)
  then show ?thesis using mask_index_mod [OF assms] by (simp add: cb_getIndexOf_def)
qed

lemma cb_size_inv:
  assumes "cb_min b \<le> cb_max b" "cb_max b - cb_min b < 2 ^ 32 - 1"
  shows "cb_size b = Ret (cb_max b - cb_min b)"
  using assms by (simp add: cb_size_def)

lemma cb_slot_address:
  assumes "i < cb_capacity b" "0 < cb_elementSize b" "cb_capacity b * cb_elementSize b < 2 ^ 32"
    "length (cb_records b) = cb_capacity b"
  shows "cb_slot b (cb_getAddressOf b i) = Ret i"
proof -
  have "i * cb_elementSize b < cb_capacity b * cb_elementSize b" using assms by simp
  then have "u32wrap (i * cb_elementSize b) = i * cb_elementSize b" using assms by (intro u32wrap_small) linarith
  then show ?thesis using assms by (simp add: cb_slot_def cb_getAddressOf_def)
qed

text \<open>Reflow after doubling keeps the whole window readable at its new slots.\<close>

lemma cb_reflow_double:
  assumes c: "pow2 c" "pow2 (2 * c)" "2 * c < 2 ^ 31"
    and b: "cb_capacity b = 2 * c" "length (cb_records b) = 2 * c" "cb_max b = cb_min b + c"
      "0 < cb_elementSize b" "2 * c * cb_elementSize b < 2 ^ 32"
  shows "\<exists>ys. cb_reflow debug b c = Ret (b\<lparr>cb_records := ys\<rparr>) \<and> length ys = 2 * c \<and>
    (\<forall>i. cb_min b \<le> i \<longrightarrow> i < cb_min b + c \<longrightarrow> ys ! (i mod (2 * c)) = cb_records b ! (i mod c))"
proof -
  let ?lo = "cb_min b" and ?es = "cb_elementSize b" and ?o = "cb_min b mod c"
  have c0: "0 < c" by (rule pow2_pos [OF c(1)])
  have o: "?o < c" using c0 by simp
  have om: "cb_max b mod c = ?o" unfolding b(3) by simp
  have wrap: "u32wrap (k * ?es) = k * ?es" if "k \<le> 2 * c" for k
  proof -
    have "k * ?es \<le> 2 * c * ?es" using that by simp
    then show ?thesis using b(5) by (intro u32wrap_small) linarith
  qed
  have cpy: "cb_memcpy b (cb_getAddressOf b dst) (cb_getAddressOf b src) (u32wrap (n * ?es)) =
      bindO (copy_range (cb_records b) src dst n) (\<lambda>rs. Ret (b\<lparr>cb_records := rs\<rparr>))"
    if "dst \<le> 2 * c" "src \<le> 2 * c" "n \<le> 2 * c" for dst src n
    using b(4) that by (simp add: cb_memcpy_def cb_getAddressOf_def wrap)
  note idx = cb_getIndexOf_mod [OF c(1)] cb_getIndexOf_mod [OF c(2)]
  consider (low) "?lo mod (2 * c) = ?o" | (high) "?lo mod (2 * c) = ?o + c"
    using mod_double [of ?lo c] by blast
  then show ?thesis
  proof cases
    case low
    have mx: "cb_max b mod (2 * c) = ?o + c"
      using mod_window [of "2 * c" ?lo "cb_max b"] c0 o low by (simp add: b(3))
    have "cb_reflow debug b c = bindO (copy_range (cb_records b) 0 c ?o) (\<lambda>rs. Ret (b\<lparr>cb_records := rs\<rparr>))"
      using c0 o cpy [of c 0 ?o] by (simp add: cb_reflow_def b(1) idx om low mx Let_def)
    then show ?thesis using reflow_low [OF c0 b(2) low] by auto
  next
    case high
    have mx: "cb_max b mod (2 * c) = ?o"
      using mod_window [of "2 * c" ?lo "cb_max b"] c0 o high by (simp add: b(3))
    have "cb_reflow debug b c =
        bindO (copy_range (cb_records b) ?o (?o + c) (c - ?o)) (\<lambda>rs. Ret (b\<lparr>cb_records := rs\<rparr>))"
      using c0 c(3) o cpy [of "?o + c" ?o "c - ?o"]
      by (simp add: cb_reflow_def b(1) idx om high mx Let_def)
    then show ?thesis using reflow_high [OF c0 b(2) high] by auto
  qed
qed

lemma cb_expand_double:
  assumes inv: "cb_inv b0" and b: "b = b0\<lparr>cb_max := cb_max b0 + 1\<rparr>"
    and full: "cb_max b0 + 1 - cb_min b0 = cb_capacity b0"
    and ok: "\<And>m. realloc_ok m" "2 * cb_capacity b0 < 2 ^ 31" "2 * cb_capacity b0 * cb_elementSize b0 < 2 ^ 32"
  shows "\<exists>ys. cb_expand debug realloc_ok b (u32wrap (cb_capacity b * 2)) =
      Ret (b\<lparr>cb_capacity := 2 * cb_capacity b0, cb_records := ys\<rparr>) \<and>
    length ys = 2 * cb_capacity b0 \<and>
    ring ys (2 * cb_capacity b0) (cb_min b0) (cb_max b0) =
    ring (cb_records b0) (cb_capacity b0) (cb_min b0) (cb_max b0)"
proof -
  let ?c = "cb_capacity b0" and ?es = "cb_elementSize b0"
  have c: "pow2 ?c" "0 < ?es" "length (cb_records b0) = ?c" "cb_min b0 \<le> cb_max b0"
    using inv by (auto simp: cb_inv_def)
  have c0: "0 < ?c" by (rule pow2_pos [OF c(1)])
  have c2: "pow2 (2 * ?c)" using ok(2) by (intro pow2_double [OF c(1)]) simp
  have wraps: "u32wrap (?c * 2) = 2 * ?c" "u32wrap (2 * ?c * ?es) = 2 * ?c * ?es"
    using ok(2,3) by (simp_all add: mult.commute)
  let ?xs = "cb_records b0 @ replicate ?c None"
  let ?b = "b\<lparr>cb_capacity := 2 * ?c, cb_records := ?xs\<rparr>"
  have mx: "cb_max b = cb_min b0 + ?c" using full c(4) b by simp
  have tk: "take (2 * ?c) (cb_records b0 @ replicate (2 * ?c) None) = ?xs"
    using c(3) by (simp add: take_append min_def)
  have ex: "cb_expand debug realloc_ok b (u32wrap (cb_capacity b * 2)) = cb_reflow debug ?b ?c"
    using c0 c(2,3) ok(1) by (simp add: cb_expand_def b wraps Let_def)
  have "\<exists>ys. cb_reflow debug ?b ?c = Ret (?b\<lparr>cb_records := ys\<rparr>) \<and> length ys = 2 * ?c \<and>
    (\<forall>i. cb_min ?b \<le> i \<longrightarrow> i < cb_min ?b + ?c \<longrightarrow> ys ! (i mod (2 * ?c)) = cb_records ?b ! (i mod ?c))"
    by (rule cb_reflow_double [OF c(1) c2 ok(2)]) (use c mx ok(3) in \<open>simp_all add: b\<close>)
  then obtain ys where ys: "cb_reflow debug ?b ?c = Ret (?b\<lparr>cb_records := ys\<rparr>)" "length ys = 2 * ?c"
    "\<And>i. cb_min b0 \<le> i \<Longrightarrow> i < cb_min b0 + ?c \<Longrightarrow> ys ! (i mod (2 * ?c)) = ?xs ! (i mod ?c)"
    by (auto simp: b)
  have "ring ys (2 * ?c) (cb_min b0) (cb_max b0) = ring (cb_records b0) ?c (cb_min b0) (cb_max b0)"
  proof (rule ring_cong)
    fix i assume "cb_min b0 \<le> i" "i < cb_max b0"
    then have "ys ! (i mod (2 * ?c)) = ?xs ! (i mod ?c)" using full by (intro ys(3)) auto
    also have "\<dots> = cb_records b0 ! (i mod ?c)" using c0 c(3) by (simp add: nth_append)
    finally show "ys ! (i mod (2 * ?c)) = cb_records b0 ! (i mod ?c)" .
  qed
  with ys ex show ?thesis by auto
qed

lemma cb_append_correct:
  assumes inv: "cb_inv b" and rdy: "cb_ready realloc_ok (Suc n) b"
  shows "\<exists>c ys. cb_append debug realloc_ok b =
      Ret (b\<lparr>cb_max := cb_max b + 1, cb_capacity := c, cb_records := ys\<rparr>,
           u32wrap (cb_max b mod c * cb_elementSize b)) \<and>
    pow2 c \<and> c * cb_elementSize b < 2 ^ 32 \<and> length ys = c \<and> cb_max b + 1 - cb_min b < c \<and>
    ring ys c (cb_min b) (cb_max b) = ring (cb_records b) (cb_capacity b) (cb_min b) (cb_max b)"
proof -
  let ?b = "b\<lparr>cb_max := cb_max b + 1\<rparr>" and ?c = "cb_capacity b"
  have i: "pow2 ?c" "0 < cb_elementSize b" "?c * cb_elementSize b < 2 ^ 32" "length (cb_records b) = ?c"
    "cb_min b \<le> cb_max b" "cb_max b - cb_min b < ?c"
    using inv by (auto simp: cb_inv_def)
  have r: "\<And>m. realloc_ok m" "cb_max b + 1 < 2 ^ 64" "2 * (cb_max b - cb_min b + 1) < 2 ^ 31"
    using rdy by (auto simp: cb_ready_def)
  have es: "2 * (cb_max b - cb_min b + 1) * cb_elementSize b < 2 ^ 32"
  proof -
    have "2 * (cb_max b - cb_min b + 1) * cb_elementSize b \<le> 2 * (cb_max b - cb_min b + Suc n) * cb_elementSize b"
      by (intro mult_right_mono mult_left_mono) auto
    then show ?thesis using rdy unfolding cb_ready_def by linarith
  qed
  have sz: "cb_size ?b = Ret (cb_max b + 1 - cb_min b)"
    using cb_size_inv [of ?b] i(5) r(3) by simp
  have wrap: "u64wrap (cb_max b + 1) = cb_max b + 1" using r(2) by simp
  show ?thesis
  proof (cases "cb_max b + 1 - cb_min b \<ge> ?c")
    case False
    then have "cb_append debug realloc_ok b =
      Ret (?b\<lparr>cb_capacity := ?c, cb_records := cb_records b\<rparr>, u32wrap (cb_max b mod ?c * cb_elementSize b))"
      using wrap sz cb_getIndexOf_mod [OF i(1)] by (simp add: cb_append_def Let_def cb_getAddressOf_def)
    with False i show ?thesis by (intro exI [of _ ?c] exI [of _ "cb_records b"]) simp
  next
    case True
    then have full: "cb_max b + 1 - cb_min b = ?c" using i(5,6) by linarith
    then have cc: "2 * ?c = 2 * (cb_max b - cb_min b + 1)" using i(5) by (simp add: Suc_diff_le)
    obtain ys where ys: "cb_expand debug realloc_ok ?b (u32wrap (cb_capacity ?b * 2)) =
        Ret (?b\<lparr>cb_capacity := 2 * ?c, cb_records := ys\<rparr>)" "length ys = 2 * ?c"
      "ring ys (2 * ?c) (cb_min b) (cb_max b) = ring (cb_records b) ?c (cb_min b) (cb_max b)"
      using cb_expand_double [OF inv refl full, where realloc_ok = realloc_ok and debug = debug] r(1,3) es
      unfolding cc by blast
    have c2: "pow2 (2 * ?c)" using r(3) cc by (intro pow2_double [OF i(1)]) simp
    have "cb_append debug realloc_ok b =
      Ret (?b\<lparr>cb_capacity := 2 * ?c, cb_records := ys\<rparr>, u32wrap (cb_max b mod (2 * ?c) * cb_elementSize b))"
      using True wrap sz ys(1) cb_getIndexOf_mod [OF c2] by (simp add: cb_append_def Let_def cb_getAddressOf_def)
    with ys c2 es cc full i show ?thesis by (intro exI [of _ "2 * ?c"] exI [of _ ys]) simp
  qed
qed

lemma cb_push_correct:
  assumes inv: "cb_inv b" and rdy: "cb_ready realloc_ok (Suc n) b"
  shows "\<exists>b'. cb_push debug realloc_ok b x = Ret b' \<and> cb_inv b' \<and> cb_ready realloc_ok n b' \<and>
    cb_items b' = cb_items b @ [x]"
proof -
  obtain c ys where a: "cb_append debug realloc_ok b =
      Ret (b\<lparr>cb_max := cb_max b + 1, cb_capacity := c, cb_records := ys\<rparr>,
           u32wrap (cb_max b mod c * cb_elementSize b))"
    "pow2 c" "c * cb_elementSize b < 2 ^ 32" "length ys = c" "cb_max b + 1 - cb_min b < c"
    "ring ys c (cb_min b) (cb_max b) = ring (cb_records b) (cb_capacity b) (cb_min b) (cb_max b)"
    using cb_append_correct [OF assms] by blast
  let ?b = "b\<lparr>cb_max := cb_max b + 1, cb_capacity := c, cb_records := ys\<rparr>"
  let ?b' = "?b\<lparr>cb_records := ys[cb_max b mod c := Some x]\<rparr>"
  have i: "0 < cb_elementSize b" "cb_min b \<le> cb_max b"
    "None \<notin> set (ring (cb_records b) (cb_capacity b) (cb_min b) (cb_max b))"
    using inv by (auto simp: cb_inv_def)
  have "cb_slot ?b (cb_getAddressOf ?b (cb_max b mod c)) = Ret (cb_max b mod c)"
    by (rule cb_slot_address) (use a i pow2_pos [OF a(2)] in simp_all)
  then have push: "cb_push debug realloc_ok b x = Ret ?b'"
    using a(1) by (simp add: cb_push_def cb_getAddressOf_def)
  have rs: "ring (ys[cb_max b mod c := Some x]) c (cb_min b) (Suc (cb_max b)) =
      ring (cb_records b) (cb_capacity b) (cb_min b) (cb_max b) @ [Some x]"
    using ring_snoc [of "cb_min b" "cb_max b" c ys "Some x"] i(2) a(4-6) by simp
  have mx: "cb_max b + 1 < 2 ^ 64" using rdy by (simp add: cb_ready_def)
  have "cb_inv ?b'" using a i mx rs by (simp add: cb_inv_def)
  moreover have "cb_items ?b' = cb_items b @ [x]" using rs by (simp add: cb_items_def)
  moreover have "cb_ready realloc_ok n ?b'"
    using rdy i(2) by (simp add: cb_ready_def Suc_diff_le algebra_simps)
  ultimately show ?thesis using push by blast
qed

interpretation cbq: fifo cb_inv cb_items "cb_ready realloc_ok" "cb_push debug realloc_ok"
  for debug realloc_ok
  by unfold_locales (rule cb_push_correct)

section \<open>Draining\<close>

lemma cb_head_correct:
  assumes "cb_inv b" "cb_min b < cb_max b"
  shows "cb_head debug b = Ret (hd (cb_items b))"
    "cb_items b = hd (cb_items b) # cb_items (b\<lparr>cb_min := cb_min b + 1\<rparr>)"
    "cb_inv (b\<lparr>cb_min := cb_min b + 1\<rparr>)"
proof -
  let ?c = "cb_capacity b"
  have i: "pow2 ?c" "0 < cb_elementSize b" "?c * cb_elementSize b < 2 ^ 32" "length (cb_records b) = ?c"
    using assms(1) by (auto simp: cb_inv_def)
  have r: "ring (cb_records b) ?c (cb_min b) (cb_max b) =
      cb_records b ! (cb_min b mod ?c) # ring (cb_records b) ?c (Suc (cb_min b)) (cb_max b)"
    using assms(2) by (rule ring_Cons)
  have nn: "cb_records b ! (cb_min b mod ?c) \<noteq> None"
    using assms(1) by (cases "cb_records b ! (cb_min b mod ?c)") (auto simp: cb_inv_def r)
  show "cb_items b = hd (cb_items b) # cb_items (b\<lparr>cb_min := cb_min b + 1\<rparr>)"
    by (simp add: cb_items_def r)
  show "cb_inv (b\<lparr>cb_min := cb_min b + 1\<rparr>)"
    using assms by (auto simp: cb_inv_def r)
  have "cb_slot b (cb_getAddressOf b (cb_min b mod ?c)) = Ret (cb_min b mod ?c)"
    by (rule cb_slot_address) (use i pow2_pos [OF i(1)] in simp_all)
  then show "cb_head debug b = Ret (hd (cb_items b))"
    using nn by (auto simp: cb_head_def cb_getIndexOf_mod [OF i(1)] cb_items_def r)
qed

text \<open>What the callback sees: the records in order until it asks to retry.\<close>

fun drain :: "('s \<Rightarrow> 'a \<Rightarrow> status \<times> 's) \<Rightarrow> 's \<Rightarrow> 'a list \<Rightarrow> (nat \<times> 's \<times> 'a list) outcome" where
  "drain f s [] = Ret (0, s, [])"
| "drain f s (x # xs) =
    (case f s x of (e, s') \<Rightarrow>
       if e = LIBHPX_RETRY then Ret (length (x # xs), s', x # xs)
       else if e = LIBHPX_OK then drain f s' xs
       else Fault Dbg_error)"

lemma cb_progress_drain:
  assumes "cb_inv b"
  shows "case drain f s (cb_items b) of
      Inl e \<Rightarrow> cb_progress debug f s b = Fault e
    | Inr (n, s', xs) \<Rightarrow> \<exists>b'. cb_progress debug f s b = Ret (n, s', b') \<and> cb_inv b' \<and> cb_items b' = xs"
  using assms
proof (induction "cb_max b - cb_min b" arbitrary: b s)
  case 0
  then have "\<not> cb_min b < cb_max b" "cb_items b = []" by (simp_all add: cb_items_def ring_def)
  with 0 show ?case by (simp add: cb_progress.simps [of debug f s b])
next
  case (Suc d)
  then have lt: "cb_min b < cb_max b" by simp
  note h = cb_head_correct [OF Suc.prems lt]
  define x where "x = hd (cb_items b)"
  let ?b = "b\<lparr>cb_min := cb_min b + 1\<rparr>"
  have items: "cb_items b = x # cb_items ?b" using h(2) by (simp add: x_def)
  obtain e s' where fx: "f s x = (e, s')" by (cases "f s x")
  have len: "length (cb_items b) = cb_max b - cb_min b" by (simp add: cb_items_def ring_def)
  have "pow2 (cb_capacity b)" "cb_max b - cb_min b < cb_capacity b" using Suc.prems by (auto simp: cb_inv_def)
  then have "cb_max b - cb_min b < 2 ^ 32 - 1"
    using pow2_less [of "cb_capacity b"] by linarith
  then have sz: "cb_size b = Ret (cb_max b - cb_min b)" using lt by (intro cb_size_inv) auto
  have step: "cb_progress debug f s b =
      (if e = LIBHPX_RETRY then Ret (cb_max b - cb_min b, s', b)
       else if e = LIBHPX_OK then cb_progress debug f s' ?b else Fault Dbg_error)"
    using lt h(1) fx sz by (subst cb_progress.simps) (simp flip: x_def)
  have IH: "case drain f s' (cb_items ?b) of
      Inl e \<Rightarrow> cb_progress debug f s' ?b = Fault e
    | Inr (n, s'', xs) \<Rightarrow> \<exists>b'. cb_progress debug f s' ?b = Ret (n, s'', b') \<and> cb_inv b' \<and> cb_items b' = xs"
    by (rule Suc.hyps(1)) (use Suc.hyps(2) h(3) in simp_all)
  show ?case
    using IH len Suc.prems fx items unfolding step by auto
qed

lemma cb_new_correct:
  assumes "0 < c" "c \<le> 2 ^ 31" "0 < es" "2 ^ ceil_log2 (of_nat c :: u32) * es < 2 ^ 32" "\<And>m. realloc_ok m"
  shows "\<exists>b :: 'a cbuf. cb_new debug realloc_ok es c = Ret b \<and> cb_inv b \<and> cb_items b = []"
proof -
  let ?k = "ceil_log2 (of_nat c :: u32)"
  note k = ceil_log2_u32 [OF assms(1,2)]
  have p2: "pow2 (2 ^ ?k)" using k(1) by (auto simp: pow2_def)
  have "(cb_new debug realloc_ok es c :: 'a cbuf outcome) =
      Ret \<lparr> cb_capacity = 2 ^ ?k, cb_elementSize = es, cb_max = 0, cb_min = 0,
            cb_records = replicate (2 ^ ?k) None \<rparr>"
    using assms(3-5) unfolding cb_new_def k(2) by (simp add: cb_expand_def cb_reflow_def Let_def)
  then show ?thesis
    by (intro exI conjI, assumption)
      (use p2 assms(3,4) in \<open>simp_all add: cb_inv_def cb_items_def ring_def\<close>)
qed

text \<open>A wrapped buffer and a callback on which the properties are exercised.\<close>

definition small_cbuf :: "nat cbuf" where
  "small_cbuf = \<lparr> cb_capacity = 4, cb_elementSize = 8, cb_max = 9, cb_min = 7,
     cb_records = [Some 8, None, None, Some 7] \<rparr>"

definition accept_small :: "nat list \<Rightarrow> nat \<Rightarrow> status \<times> nat list" where
  "accept_small s x = (if x < 8 then LIBHPX_OK else LIBHPX_RETRY, x # s)"

lemma small_cbuf_inv: "cb_inv small_cbuf"
proof -
  have "pow2 4" unfolding pow2_def by (rule exI [of _ 2]) simp
  then show ?thesis by (simp add: cb_inv_def small_cbuf_def ring_def upt_rec)
qed

section \<open>Properties\<close>

text \<open>
  C11: The circular buffer is a first-in first-out queue: pushing a list of
  records onto a well-formed buffer with room for them succeeds, growing the
  buffer as often as needed, and its contents are the old contents followed by
  the new records.
\<close>
theorem circular_buffer_fifo:
  assumes "cb_inv b" "cb_ready realloc_ok (length xs) b"
  shows "\<exists>b'. cbq.put_all debug realloc_ok b xs = Ret b' \<and> cb_inv b' \<and> cb_items b' = cb_items b @ xs"
  using assms by (rule cbq.put_all_law)

theorem circular_buffer_fifo_witness:
  "\<exists>b'. cbq.put_all True (\<lambda>_. True) small_cbuf [1, 2, 3, 4, 5] = Ret b' \<and> cb_inv b' \<and>
    cb_items b' = cb_items small_cbuf @ [1, 2, 3, 4, 5]"
  by (rule circular_buffer_fifo [OF small_cbuf_inv]) (simp add: small_cbuf_def cb_ready_def)

text \<open>
  Progress offers the records to the callback in the order they were pushed,
  removes exactly those the callback accepts, stops at the first one it wants to
  retry and returns the number left; it always terminates.
\<close>
lemma circular_buffer_progress:
  assumes "cb_inv b"
  shows "case drain f s (cb_items b) of
      Inl e \<Rightarrow> cb_progress debug f s b = Fault e
    | Inr (n, s', xs) \<Rightarrow> \<exists>b'. cb_progress debug f s b = Ret (n, s', b') \<and> cb_inv b' \<and> cb_items b' = xs"
  using assms by (rule cb_progress_drain)

end
