(* ===== verification/Hpx_Parcel.thy ===== *)
theory Hpx_Parcel
  imports Hpx_Address
begin

text \<open>
  Parcels: the structure and state bits of \<^verbatim>\<open>include/libhpx/parcel.h\<close>, the
  intrusive stacks, the life cycle of \<^verbatim>\<open>libhpx/network/parcel.cpp\<close>, the accessors
  of \<^verbatim>\<open>hpx_parcel_glue.cpp\<close> and the size arithmetic of
  \<^verbatim>\<open>isir/parcel_utils.h\<close>. Parcels live in an explicit store from addresses to
  parcels; application buffers live in a store of byte lists. The rank of this
  locality, the owner lookup and the addresses returned by the registered
  allocator are arguments. Sends and spawns are recorded as events.
\<close>

section \<open>Data\<close>

type_synonym ptr = u64
type_synonym byte = "8 word"

datatype buffer = Inline "byte list" | Pointer ptr

record hpx_parcel =
  p_thread :: ptr
  p_next :: ptr
  p_src :: u32
  p_size :: u32
  p_state :: u16
  p_offset :: u16
  p_action :: u16
  p_c_action :: u16
  p_target :: addr
  p_c_target :: addr
  p_pid :: addr
  p_credit :: u64
  p_buffer :: buffer

type_synonym pheap = "ptr \<rightharpoonup> hpx_parcel"
type_synonym bytes_mem = "ptr \<rightharpoonup> byte list"

definition PARCEL_SERIALIZED :: u16 where "PARCEL_SERIALIZED = push_bit 1 1"
definition PARCEL_RETAINED :: u16 where "PARCEL_RETAINED = push_bit 2 1"
definition PARCEL_NESTED :: u16 where "PARCEL_NESTED = push_bit 3 1"
definition PARCEL_BLOCK_ALLOCATED :: u16 where "PARCEL_BLOCK_ALLOCATED = push_bit 4 1"
definition PARCEL_PINNED :: u16 where "PARCEL_PINNED = push_bit 5 1"

lemmas parcel_bits = PARCEL_SERIALIZED_def PARCEL_RETAINED_def PARCEL_NESTED_def
  PARCEL_BLOCK_ALLOCATED_def PARCEL_PINNED_def

definition parcel_serialized :: "u16 \<Rightarrow> bool" where
  "parcel_serialized state = (state AND PARCEL_SERIALIZED \<noteq> 0)"

definition parcel_retained :: "u16 \<Rightarrow> bool" where
  "parcel_retained state = (state AND PARCEL_RETAINED \<noteq> 0)"

definition parcel_nested :: "u16 \<Rightarrow> bool" where
  "parcel_nested state = (state AND PARCEL_NESTED \<noteq> 0)"

definition parcel_block_allocated :: "u16 \<Rightarrow> bool" where
  "parcel_block_allocated state = (state AND PARCEL_BLOCK_ALLOCATED \<noteq> 0)"

definition parcel_pinned :: "u16 \<Rightarrow> bool" where
  "parcel_pinned state = (state AND PARCEL_PINNED \<noteq> 0)"

definition sizeof_parcel :: nat where
  "sizeof_parcel = 64"

section \<open>Stacks\<close>

definition parcel_stack_pop :: "pheap \<Rightarrow> ptr \<Rightarrow> (pheap \<times> ptr \<times> ptr) outcome" where
  "parcel_stack_pop h stack =
    (if stack \<noteq> 0 then
       case h stack of
         None \<Rightarrow> Fault Out_of_bounds
       | Some q \<Rightarrow> Ret (h(stack \<mapsto> q\<lparr>p_next := 0\<rparr>), p_next q, stack)
     else Ret (h, stack, 0))"

definition parcel_stack_push :: "pheap \<Rightarrow> ptr \<Rightarrow> ptr \<Rightarrow> (pheap \<times> ptr) outcome" where
  "parcel_stack_push h stack p =
    (case h p of
       None \<Rightarrow> Fault Out_of_bounds
     | Some q \<Rightarrow> Ret (h(p \<mapsto> q\<lparr>p_next := stack\<rparr>), p))"

definition parcel_size :: "hpx_parcel \<Rightarrow> u32" where
  "parcel_size p = of_nat sizeof_parcel + p_size p"

definition parcel_payload_size :: "hpx_parcel \<Rightarrow> u32" where
  "parcel_payload_size p = p_size p"

section \<open>State transitions\<close>

definition update_state :: "pheap \<Rightarrow> ptr \<Rightarrow> (u16 \<Rightarrow> bool) \<Rightarrow> (u16 \<Rightarrow> u16) \<Rightarrow> pheap outcome" where
  "update_state h p ok f =
    (case h p of
       None \<Rightarrow> Fault Out_of_bounds
     | Some q \<Rightarrow> assertO (ok (p_state q)) (Ret (h(p \<mapsto> q\<lparr>p_state := f (p_state q)\<rparr>))))"

definition parcel_pin :: "pheap \<Rightarrow> ptr \<Rightarrow> pheap outcome" where
  "parcel_pin h p = update_state h p
    (\<lambda>s. parcel_serialized s \<and> \<not> parcel_nested s \<and> \<not> parcel_retained s) (\<lambda>s. s OR PARCEL_PINNED)"

definition parcel_nest :: "pheap \<Rightarrow> ptr \<Rightarrow> pheap outcome" where
  "parcel_nest h p = update_state h p
    (\<lambda>s. parcel_serialized s \<and> \<not> parcel_pinned s \<and> \<not> parcel_retained s) (\<lambda>s. s OR PARCEL_NESTED)"

definition parcel_retain :: "pheap \<Rightarrow> ptr \<Rightarrow> pheap outcome" where
  "parcel_retain h p = update_state h p
    (\<lambda>s. parcel_serialized s \<and> \<not> parcel_pinned s \<and> \<not> parcel_nested s) (\<lambda>s. s OR PARCEL_RETAINED)"

definition parcel_release :: "pheap \<Rightarrow> ptr \<Rightarrow> pheap outcome" where
  "parcel_release h p = update_state h p parcel_retained (\<lambda>s. s AND NOT PARCEL_RETAINED)"

section \<open>Creation and serialization\<close>

definition parcel_init ::
  "u32 \<Rightarrow> addr \<Rightarrow> u16 \<Rightarrow> addr \<Rightarrow> u16 \<Rightarrow> addr \<Rightarrow> ptr \<Rightarrow> u64 \<Rightarrow> hpx_parcel \<Rightarrow> hpx_parcel" where
  "parcel_init rank target action c_target c_action pid data len p =
    p\<lparr> p_thread := 0, p_next := 0, p_src := rank, p_size := ucast len, p_offset := 0,
       p_action := action, p_c_action := c_action, p_target := target, p_c_target := c_target,
       p_pid := pid, p_credit := 0,
       p_buffer := (if data \<noteq> 0 \<and> len \<noteq> 0 then Pointer data else p_buffer p),
       p_state := (if data \<noteq> 0 \<and> len \<noteq> 0 then 0 else PARCEL_SERIALIZED) \<rparr>"

text \<open>The allocation size: payload rounded up, with room for a pointer.\<close>

definition parcel_alloc_size :: "nat \<Rightarrow> nat" where
  "parcel_alloc_size payload =
    (if payload \<noteq> 0 then
       let size = sizeof_parcel + max 8 payload in size + (8 - size mod 8)
     else sizeof_parcel)"

definition hpx_parcel_get_data :: "bytes_mem \<Rightarrow> hpx_parcel \<Rightarrow> byte list option" where
  "hpx_parcel_get_data mem p =
    (if p_size p = 0 then None
     else case p_buffer p of
         Inline bs \<Rightarrow> if parcel_serialized (p_state p) then Some bs else None
       | Pointer a \<Rightarrow> if parcel_serialized (p_state p) then None else mem a)"

text \<open>The two halves of \<^verbatim>\<open>parcel_prepare\<close>: serialization, then credit from the parent.\<close>

definition parcel_serialize :: "bytes_mem \<Rightarrow> pheap \<Rightarrow> ptr \<Rightarrow> pheap outcome" where
  "parcel_serialize mem h p =
    (case h p of
       None \<Rightarrow> Fault Out_of_bounds
     | Some q \<Rightarrow>
         if \<not> parcel_serialized (p_state q) \<and> p_size q \<noteq> 0 then
           (case hpx_parcel_get_data mem q of
              None \<Rightarrow> Fault Out_of_bounds
            | Some bs \<Rightarrow>
                if unat (p_size q) \<le> length bs
                then Ret (h(p \<mapsto> q\<lparr>p_buffer := Inline (take (unat (p_size q)) bs),
                                   p_state := p_state q OR PARCEL_SERIALIZED\<rparr>))
                else Fault Out_of_bounds)
         else Ret h)"

definition parcel_take_credit :: "ptr \<Rightarrow> pheap \<Rightarrow> ptr \<Rightarrow> pheap outcome" where
  "parcel_take_credit parent h p =
    (case h p of
       None \<Rightarrow> Fault Out_of_bounds
     | Some q \<Rightarrow>
         if p_pid q \<noteq> 0 \<and> p_credit q = 0 then
           (case h parent of
              None \<Rightarrow> Fault Out_of_bounds
            | Some par \<Rightarrow> assertO (p_pid par = p_pid q)
                (let c = p_credit par + 1;
                     h' = h(parent \<mapsto> par\<lparr>p_credit := c\<rparr>)
                 in case h' p of
                      None \<Rightarrow> Fault Out_of_bounds
                    | Some q' \<Rightarrow> Ret (h'(p \<mapsto> q'\<lparr>p_credit := c\<rparr>))))
         else Ret h)"

definition parcel_prepare :: "bytes_mem \<Rightarrow> ptr \<Rightarrow> pheap \<Rightarrow> ptr \<Rightarrow> pheap outcome" where
  "parcel_prepare mem parent h p =
    bindO (parcel_serialize mem h p) (\<lambda>h1. parcel_take_credit parent h1 p)"

definition parcel_clone :: "pheap \<Rightarrow> ptr \<Rightarrow> ptr \<Rightarrow> pheap outcome" where
  "parcel_clone h p fresh =
    (case h p of
       None \<Rightarrow> Fault Out_of_bounds
     | Some q \<Rightarrow> assertO (parcel_serialized (p_state q) \<or> p_size q = 0)
         (Ret (h(fresh \<mapsto> q\<lparr>p_thread := 0, p_next := 0, p_state := PARCEL_SERIALIZED\<rparr>))))"

section \<open>Launch and deletion\<close>

datatype parcel_event = Spawn ptr | Net_send ptr | Net_deallocate ptr | As_free ptr

definition parcel_launch ::
  "bytes_mem \<Rightarrow> (addr \<Rightarrow> u32) \<Rightarrow> u32 \<Rightarrow> ptr \<Rightarrow> pheap \<Rightarrow> ptr \<Rightarrow> (pheap \<times> parcel_event) outcome" where
  "parcel_launch mem ownerOf rank parent h p =
    (case h p of
       None \<Rightarrow> Fault Out_of_bounds
     | Some q \<Rightarrow> assertO (p_action q \<noteq> 0)
         (bindO (parcel_prepare mem parent h p) (\<lambda>h'.
            Ret (h', if ownerOf (p_target q) = rank then Spawn p else Net_send p))))"

function parcel_delete :: "pheap \<Rightarrow> ptr \<Rightarrow> (pheap \<times> parcel_event list) outcome" where
  "parcel_delete h p =
    (if p = 0 then Ret (h, [])
     else case h p of
         None \<Rightarrow> Fault Out_of_bounds
       | Some q \<Rightarrow>
           let state = p_state q in
           if parcel_retained state then Ret (h, [])
           else if parcel_nested state then
             (if unat p < sizeof_parcel then Fault Out_of_bounds
              else case h (p - of_nat sizeof_parcel) of
                  None \<Rightarrow> Fault Out_of_bounds
                | Some parent \<Rightarrow>
                    if parcel_size q \<noteq> p_size parent then Fault Dbg_error
                    else parcel_delete h (p - of_nat sizeof_parcel))
           else if parcel_pinned state then
             Ret (h(p \<mapsto> q\<lparr>p_state := state AND NOT PARCEL_PINNED\<rparr>), [])
           else if parcel_block_allocated state then
             assertO (parcel_serialized state) (Ret (h(p := None), [Net_deallocate p]))
           else Ret (h(p := None), [As_free p]))"
  by pat_completeness auto
termination
proof (relation "measure (\<lambda>(h, p). unat p)")
  fix h :: pheap and p :: ptr
  assume "\<not> unat p < sizeof_parcel"
  then have "unat (p - of_nat sizeof_parcel) = unat p - 64"
    by (simp add: sizeof_parcel_def unat_sub word_le_nat_alt)
  with \<open>\<not> unat p < sizeof_parcel\<close>
  show "((h, p - of_nat sizeof_parcel), h, p) \<in> measure (\<lambda>(h, p). unat p)"
    by (simp add: sizeof_parcel_def)
qed simp

declare parcel_delete.simps [simp del]

section \<open>Sizes on the MPI network\<close>

definition isir_prefix_size :: nat where
  "isir_prefix_size = 28"

definition isir_network_size :: "hpx_parcel \<Rightarrow> u32" where
  "isir_network_size p = parcel_size p - of_nat isir_prefix_size"

definition payload_size_to_isir_bytes :: "nat \<Rightarrow> int" where
  "payload_size_to_isir_bytes payload = s32wrap (int (payload + sizeof_parcel - isir_prefix_size))"

definition isir_bytes_to_payload_size :: "int \<Rightarrow> nat outcome" where
  "isir_bytes_to_payload_size bytes =
    assertO (bytes > 0) (Ret (nat ((bytes + int isir_prefix_size - int sizeof_parcel) mod 2 ^ 32)))"

definition tag_to_payload_size :: "nat \<Rightarrow> nat" where
  "tag_to_payload_size tag = u32sub (u32wrap (tag * 64)) sizeof_parcel"

definition tag_to_isir_bytes :: "nat \<Rightarrow> nat" where
  "tag_to_isir_bytes tag = u32sub (u32wrap (tag * 64)) isir_prefix_size"

definition PayloadSizeToTag :: "nat \<Rightarrow> nat" where
  "PayloadSizeToTag payload = ceil_div (u32wrap (payload + sizeof_parcel)) 64"

definition serialized_parcel :: hpx_parcel where
  "serialized_parcel = \<lparr> p_thread = 0, p_next = 0, p_src = 0, p_size = 0, p_state = PARCEL_SERIALIZED,
     p_offset = 0, p_action = 7, p_c_action = 0, p_target = 0, p_c_target = 0, p_pid = 0,
     p_credit = 0, p_buffer = Inline [] \<rparr>"

section \<open>Stacks as lists\<close>

fun stack_of :: "pheap \<Rightarrow> ptr \<Rightarrow> ptr list \<Rightarrow> bool" where
  "stack_of h tp [] = (tp = 0)"
| "stack_of h tp (p # ps) = (tp = p \<and> p \<noteq> 0 \<and> p \<notin> set ps \<and>
    (case h p of None \<Rightarrow> False | Some q \<Rightarrow> stack_of h (p_next q) ps))"

lemma stack_of_distinct: "stack_of h tp ps \<Longrightarrow> distinct ps"
  by (induction ps arbitrary: tp) (auto split: option.splits)

lemma stack_of_nonzero: "stack_of h tp ps \<Longrightarrow> 0 \<notin> set ps"
  by (induction ps arbitrary: tp) (auto split: option.splits)

lemma stack_of_dom: "stack_of h tp ps \<Longrightarrow> set ps \<subseteq> dom h"
  by (induction ps arbitrary: tp) (auto split: option.splits)

lemma stack_of_unique: "stack_of h tp ps \<Longrightarrow> stack_of h tp qs \<Longrightarrow> ps = qs"
proof (induction ps arbitrary: tp qs)
  case Nil
  then show ?case by (cases qs) auto
next
  case (Cons p ps)
  then show ?case by (cases qs) (auto split: option.splits)
qed

lemma stack_of_frame:
  assumes "\<And>p. p \<in> set ps \<Longrightarrow> map_option p_next (h' p) = map_option p_next (h p)"
  shows "stack_of h' tp ps = stack_of h tp ps"
  using assms
proof (induction ps arbitrary: tp)
  case (Cons p ps)
  have IH: "stack_of h' t ps = stack_of h t ps" for t using Cons by simp
  have "map_option p_next (h' p) = map_option p_next (h p)" using Cons.prems by simp
  then show ?case by (cases "h p"; cases "h' p") (auto simp: IH)
qed simp

lemma stack_of_upd: "p \<notin> set ps \<Longrightarrow> stack_of (h(p \<mapsto> q)) tp ps = stack_of h tp ps"
  by (rule stack_of_frame) auto

lemma parcel_stack_push_list:
  assumes "stack_of h tp ps" "p \<noteq> 0" "p \<notin> set ps" "p \<in> dom h"
  shows "\<exists>h'. parcel_stack_push h tp p = Ret (h', p) \<and> stack_of h' p (p # ps) \<and>
    (\<forall>r. r \<noteq> p \<longrightarrow> h' r = h r) \<and> dom h' = dom h"
  using assms by (auto simp: parcel_stack_push_def stack_of_upd split: option.splits)

lemma parcel_stack_pop_list:
  assumes "stack_of h tp (p # ps)"
  shows "\<exists>h' rest. parcel_stack_pop h tp = Ret (h', rest, p) \<and> stack_of h' rest ps \<and>
    (\<forall>r. r \<noteq> p \<longrightarrow> h' r = h r) \<and> dom h' = dom h \<and> map_option p_next (h' p) = Some 0"
  using assms by (auto simp: parcel_stack_pop_def stack_of_upd split: option.splits)

lemma parcel_stack_pop_empty: "stack_of h tp [] \<Longrightarrow> parcel_stack_pop h tp = Ret (h, 0, 0)"
  by (simp add: parcel_stack_pop_def)

section \<open>Ownership flags\<close>

lemma flag_tests [simp]:
  "parcel_serialized s \<longleftrightarrow> bit s 1" "parcel_retained s \<longleftrightarrow> bit s 2" "parcel_nested s \<longleftrightarrow> bit s 3"
  "parcel_block_allocated s \<longleftrightarrow> bit s 4" "parcel_pinned s \<longleftrightarrow> bit s 5"
proof -
  have *: "s AND push_bit k 1 \<noteq> 0 \<longleftrightarrow> bit s k" if "k < 16" for k and s :: u16
  proof
    assume "s AND push_bit k 1 \<noteq> 0"
    then obtain i where "bit (s AND push_bit k 1) i" using bit_exists_nonzero by blast
    then show "bit s k" by (auto simp: bit_simps)
  next
    assume "bit s k"
    then have "bit (s AND push_bit k 1) k" using that by (simp add: bit_simps)
    then show "s AND push_bit k 1 \<noteq> 0" by auto
  qed
  show "parcel_serialized s \<longleftrightarrow> bit s 1" "parcel_retained s \<longleftrightarrow> bit s 2" "parcel_nested s \<longleftrightarrow> bit s 3"
    "parcel_block_allocated s \<longleftrightarrow> bit s 4" "parcel_pinned s \<longleftrightarrow> bit s 5"
    unfolding parcel_serialized_def parcel_retained_def parcel_nested_def parcel_block_allocated_def
      parcel_pinned_def parcel_bits by (subst *; simp)+
qed

text \<open>
  A parcel is held in at most one special way, and only in serialized form.
\<close>

definition flags_ok :: "u16 \<Rightarrow> bool" where
  "flags_ok s = (\<not> (parcel_retained s \<and> parcel_nested s) \<and> \<not> (parcel_retained s \<and> parcel_pinned s) \<and>
    \<not> (parcel_nested s \<and> parcel_pinned s) \<and>
    (parcel_retained s \<or> parcel_nested s \<or> parcel_pinned s \<longrightarrow> parcel_serialized s))"

definition heap_ok :: "pheap \<Rightarrow> bool" where
  "heap_ok h = (\<forall>p \<in> dom h. flags_ok (p_state (the (h p))))"

lemma heap_okD: "heap_ok h \<Longrightarrow> h p = Some q \<Longrightarrow> flags_ok (p_state q)"
  by (force simp: heap_ok_def)

lemma heap_ok_upd: "heap_ok h \<Longrightarrow> flags_ok (p_state q) \<Longrightarrow> heap_ok (h(p \<mapsto> q))"
  by (auto simp: heap_ok_def)

lemma heap_ok_del: "heap_ok h \<Longrightarrow> heap_ok (h(p := None))"
  by (auto simp: heap_ok_def)

lemma update_state_ok:
  assumes "heap_ok h" "update_state h p ok f = Ret h'" "\<And>s. flags_ok s \<Longrightarrow> ok s \<Longrightarrow> flags_ok (f s)"
  shows "heap_ok h'"
  using assms by (auto simp: update_state_def outcome_simps split: option.splits
      intro!: heap_ok_upd dest: heap_okD)

lemma flag_bits:
  "bit PARCEL_SERIALIZED k \<longleftrightarrow> k = 1" "bit PARCEL_RETAINED k \<longleftrightarrow> k = 2" "bit PARCEL_NESTED k \<longleftrightarrow> k = 3"
  "bit PARCEL_BLOCK_ALLOCATED k \<longleftrightarrow> k = 4" "bit PARCEL_PINNED k \<longleftrightarrow> k = 5"
proof -
  have *: "bit (push_bit i 1 :: u16) k \<longleftrightarrow> k = i" if "i < 16" for i using that by (auto simp: bit_simps)
  show "bit PARCEL_SERIALIZED k \<longleftrightarrow> k = 1" "bit PARCEL_RETAINED k \<longleftrightarrow> k = 2" "bit PARCEL_NESTED k \<longleftrightarrow> k = 3"
    "bit PARCEL_BLOCK_ALLOCATED k \<longleftrightarrow> k = 4" "bit PARCEL_PINNED k \<longleftrightarrow> k = 5"
    unfolding parcel_bits by (rule *, simp)+
qed

lemma parcel_pin_ok: "heap_ok h \<Longrightarrow> parcel_pin h p = Ret h' \<Longrightarrow> heap_ok h'"
  unfolding parcel_pin_def by (erule (1) update_state_ok) (auto simp: flags_ok_def bit_simps flag_bits)

lemma parcel_nest_ok: "heap_ok h \<Longrightarrow> parcel_nest h p = Ret h' \<Longrightarrow> heap_ok h'"
  unfolding parcel_nest_def by (erule (1) update_state_ok) (auto simp: flags_ok_def bit_simps flag_bits)

lemma parcel_retain_ok: "heap_ok h \<Longrightarrow> parcel_retain h p = Ret h' \<Longrightarrow> heap_ok h'"
  unfolding parcel_retain_def by (erule (1) update_state_ok) (auto simp: flags_ok_def bit_simps flag_bits)

lemma parcel_release_ok: "heap_ok h \<Longrightarrow> parcel_release h p = Ret h' \<Longrightarrow> heap_ok h'"
  unfolding parcel_release_def by (erule (1) update_state_ok) (auto simp: flags_ok_def bit_simps flag_bits)

lemma flags_ok_init: "flags_ok 0" "flags_ok PARCEL_SERIALIZED"
  by (auto simp: flags_ok_def flag_bits)

lemma flags_ok_serialize: "flags_ok s \<Longrightarrow> flags_ok (s OR PARCEL_SERIALIZED)"
  by (auto simp: flags_ok_def bit_simps flag_bits)

lemma parcel_init_ok: "flags_ok (p_state (parcel_init rank t a ct ca pid data len q))"
  by (simp add: parcel_init_def flags_ok_init)

lemma parcel_clone_ok: "heap_ok h \<Longrightarrow> parcel_clone h p fresh = Ret h' \<Longrightarrow> heap_ok h'"
  by (auto simp: parcel_clone_def outcome_simps flags_ok_init split: option.splits intro!: heap_ok_upd)

lemma parcel_serialize_ok: "heap_ok h \<Longrightarrow> parcel_serialize mem h p = Ret h' \<Longrightarrow> heap_ok h'"
  by (auto simp: parcel_serialize_def flags_ok_serialize split: option.splits if_splits
      intro!: heap_ok_upd dest: heap_okD)

lemma parcel_take_credit_ok:
  assumes "heap_ok h" "parcel_take_credit parent h p = Ret h'"
  shows "heap_ok h'"
proof (cases "h p")
  case (Some q)
  have fq: "flags_ok (p_state q)" using heap_okD [OF assms(1) Some] .
  show ?thesis
  proof (cases "h parent")
    case None
    with Some assms show ?thesis by (auto simp: parcel_take_credit_def split: if_splits)
  next
    case (Some par)
    have fp: "flags_ok (p_state par)" using heap_okD [OF assms(1) Some] .
    show ?thesis
      using assms \<open>h p = Some q\<close> Some fq fp
      by (cases "p = parent")
        (auto simp: parcel_take_credit_def outcome_simps Let_def split: if_splits intro!: heap_ok_upd)
  qed
qed (use assms in \<open>simp add: parcel_take_credit_def\<close>)

lemma parcel_prepare_ok: "heap_ok h \<Longrightarrow> parcel_prepare mem parent h p = Ret h' \<Longrightarrow> heap_ok h'"
  by (auto simp: parcel_prepare_def outcome_simps intro: parcel_serialize_ok parcel_take_credit_ok)

lemma parcel_delete_ok:
  assumes "heap_ok h" "parcel_delete h p = Ret (h', ev)"
  shows "heap_ok h'"
  using assms
proof (induction h p arbitrary: h' ev rule: parcel_delete.induct)
  case (1 h p)
  note IH = 1(1) and hyps = 1(2,3)
  show ?case
  proof (cases "p = 0 \<or> h p = None")
    case True
    then show ?thesis using hyps by (auto simp: parcel_delete.simps [of h p] split: if_splits)
  next
    case False
    then obtain q where q: "p \<noteq> 0" "h p = Some q" by auto
    have fq: "flags_ok (p_state q)" using heap_okD [OF hyps(1) q(2)] .
    have unp: "flags_ok (p_state q AND NOT PARCEL_PINNED)"
      using fq by (auto simp: flags_ok_def bit_simps flag_bits)
    show ?thesis
      using IH [OF q refl] hyps q fq unp
      by (auto simp: parcel_delete.simps [of h p] outcome_simps Let_def
          split: option.splits if_splits intro: heap_ok_upd heap_ok_del)
  qed
qed

section \<open>Life cycle\<close>

inductive parcel_step :: "bytes_mem \<Rightarrow> u32 \<Rightarrow> pheap \<Rightarrow> pheap \<Rightarrow> bool" for mem rank where
  step_new: "h p = None \<Longrightarrow>
    parcel_step mem rank h (h(p \<mapsto> parcel_init rank t a ct ca pid data len q))"
| step_pin: "parcel_pin h p = Ret h' \<Longrightarrow> parcel_step mem rank h h'"
| step_nest: "parcel_nest h p = Ret h' \<Longrightarrow> parcel_step mem rank h h'"
| step_retain: "parcel_retain h p = Ret h' \<Longrightarrow> parcel_step mem rank h h'"
| step_release: "parcel_release h p = Ret h' \<Longrightarrow> parcel_step mem rank h h'"
| step_prepare: "parcel_prepare mem parent h p = Ret h' \<Longrightarrow> parcel_step mem rank h h'"
| step_clone: "h fresh = None \<Longrightarrow> parcel_clone h p fresh = Ret h' \<Longrightarrow> parcel_step mem rank h h'"
| step_delete: "parcel_delete h p = Ret (h', ev) \<Longrightarrow> parcel_step mem rank h h'"

lemma parcel_step_ok: "parcel_step mem rank h h' \<Longrightarrow> heap_ok h \<Longrightarrow> heap_ok h'"
  by (induction rule: parcel_step.induct)
    (auto intro: heap_ok_upd parcel_init_ok parcel_pin_ok parcel_nest_ok parcel_retain_ok
      parcel_release_ok parcel_prepare_ok parcel_clone_ok parcel_delete_ok)

lemma parcel_steps_ok: "(parcel_step mem rank)\<^sup>*\<^sup>* h h' \<Longrightarrow> heap_ok h \<Longrightarrow> heap_ok h'"
  by (induction rule: rtranclp_induct) (auto intro: parcel_step_ok)

section \<open>Properties\<close>

text \<open>
  In every store reachable from the empty one by the parcel operations, a
  parcel is retained, nested or pinned in at most one of these ways, and only
  when it is serialized.
\<close>
lemma parcel_flags_exclusive:
  assumes "(parcel_step mem rank)\<^sup>*\<^sup>* Map.empty h" "h p = Some q"
  shows "flags_ok (p_state q)"
  using heap_okD [OF parcel_steps_ok [OF assms(1)] assms(2)] by (simp add: heap_ok_def)

text \<open>
  Serializing a parcel moves the application's bytes into the parcel and
  changes neither what its accessor returns nor any other parcel; serializing
  again changes nothing.
\<close>
lemma parcel_serialize_keeps_data:
  assumes "h p = Some q" "\<not> parcel_serialized (p_state q)" "p_size q \<noteq> 0"
    and "hpx_parcel_get_data mem q = Some bs" "length bs = unat (p_size q)"
  shows "\<exists>h' q'. parcel_serialize mem h p = Ret h' \<and> h' p = Some q' \<and> parcel_serialized (p_state q') \<and>
    hpx_parcel_get_data mem q' = Some bs \<and> (\<forall>r. r \<noteq> p \<longrightarrow> h' r = h r) \<and>
    parcel_serialize mem h' p = Ret h'"
  using assms
  by (auto simp: parcel_serialize_def hpx_parcel_get_data_def bit_simps flag_bits split: buffer.splits)

text \<open>How a parcel that nothing holds is freed, and when nothing holds it.\<close>

definition parcel_freed :: "hpx_parcel \<Rightarrow> ptr \<Rightarrow> parcel_event" where
  "parcel_freed q p = (if parcel_block_allocated (p_state q) then Net_deallocate p else As_free p)"

definition parcel_unheld :: "hpx_parcel \<Rightarrow> bool" where
  "parcel_unheld q = (parcel_serialized (p_state q) \<and> \<not> parcel_retained (p_state q) \<and>
    \<not> parcel_nested (p_state q) \<and> \<not> parcel_pinned (p_state q))"

lemma parcel_unheld_bits:
  "parcel_unheld q = (bit (p_state q) 1 \<and> \<not> bit (p_state q) 2 \<and> \<not> bit (p_state q) 3 \<and> \<not> bit (p_state q) 5)"
  by (simp add: parcel_unheld_def flag_bits)

lemma parcel_hold_release:
  assumes "parcel_unheld q"
  shows "(p_state q OR PARCEL_PINNED) AND NOT PARCEL_PINNED = p_state q"
    "(p_state q OR PARCEL_RETAINED) AND NOT PARCEL_RETAINED = p_state q"
  using assms unfolding parcel_unheld_bits
  by (auto intro!: bit_eqI simp: bit_simps flag_bits)

lemma parcel_delete_unheld:
  assumes "p \<noteq> 0" "h p = Some q" "parcel_unheld q"
  shows "parcel_delete h p = Ret (h(p := None), [parcel_freed q p])"
  using assms by (simp add: parcel_delete.simps [of h p] parcel_unheld_def parcel_freed_def Let_def)

lemma parcel_hold_cases:
  assumes "p \<noteq> 0" "h p = Some q" "parcel_unheld q"
  shows "parcel_pin h p = Ret (h(p \<mapsto> q\<lparr>p_state := p_state q OR PARCEL_PINNED\<rparr>))"
    "parcel_retain h p = Ret (h(p \<mapsto> q\<lparr>p_state := p_state q OR PARCEL_RETAINED\<rparr>))"
    "parcel_nest h p = Ret (h(p \<mapsto> q\<lparr>p_state := p_state q OR PARCEL_NESTED\<rparr>))"
  using assms by (simp_all add: parcel_pin_def parcel_retain_def parcel_nest_def update_state_def parcel_unheld_def)

text \<open>
  C26: A serialized parcel that nothing holds can be pinned, retained or nested, each of which excludes
  the others: the assertion of every other hold fails. Deleting it pinned only unpins it, so that the store is as
  it was; deleting it retained does nothing, until the release restores the store; deleting it nested frees in its
  place the enclosing parcel one header below it, if that holds exactly this parcel and nothing holds it, and is
  a reported error if the sizes disagree; and deleting it unheld frees it, to the network's allocator or to the
  address space by its allocation bit.
\<close>
theorem parcel_delete_lifecycle:
  assumes "p \<noteq> 0" "h p = Some q" "parcel_unheld q"
  shows "(\<exists>h1. parcel_pin h p = Ret h1 \<and> parcel_nest h1 p = Fault Assert_failed \<and> parcel_retain h1 p = Fault Assert_failed \<and>
      parcel_delete h1 p = Ret (h, [])) \<and>
    (\<exists>h1. parcel_retain h p = Ret h1 \<and> parcel_nest h1 p = Fault Assert_failed \<and> parcel_pin h1 p = Fault Assert_failed \<and>
      parcel_delete h1 p = Ret (h1, []) \<and> parcel_release h1 p = Ret h) \<and>
    (\<exists>h1. parcel_nest h p = Ret h1 \<and> parcel_pin h1 p = Fault Assert_failed \<and> parcel_retain h1 p = Fault Assert_failed \<and>
      (\<forall>parent. 64 < p \<and> h (p - 64) = Some parent \<and> parcel_unheld parent \<longrightarrow>
        parcel_delete h1 p = (if p_size parent = parcel_size q then Ret (h1(p - 64 := None), [parcel_freed parent (p - 64)])
          else Fault Dbg_error))) \<and>
    parcel_delete h p = Ret (h(p := None), [parcel_freed q p])"
proof -
  note hold = parcel_hold_cases [of p h q, OF assms] and rel = parcel_hold_release [OF assms(3)]
  note b = assms(3) [unfolded parcel_unheld_bits]
  let ?n = "h(p \<mapsto> q\<lparr>p_state := p_state q OR PARCEL_NESTED\<rparr>)"
  have upd: "h(p \<mapsto> q) = h" using assms(2) by auto
  have "(\<exists>h1. parcel_pin h p = Ret h1 \<and> parcel_nest h1 p = Fault Assert_failed \<and> parcel_retain h1 p = Fault Assert_failed \<and>
      parcel_delete h1 p = Ret (h, []))"
    unfolding hold(1) using assms(1) b
    by (simp add: assertO_def parcel_nest_def parcel_retain_def update_state_def bit_simps flag_bits
        parcel_delete.simps [of _ p] Let_def rel upd)
  moreover have "(\<exists>h1. parcel_retain h p = Ret h1 \<and> parcel_nest h1 p = Fault Assert_failed \<and> parcel_pin h1 p = Fault Assert_failed \<and>
      parcel_delete h1 p = Ret (h1, []) \<and> parcel_release h1 p = Ret h)"
    unfolding hold(2) using assms(1) b
    by (simp add: assertO_def parcel_nest_def parcel_pin_def parcel_release_def update_state_def bit_simps flag_bits
        parcel_delete.simps [of _ p] Let_def rel upd)
  moreover have "parcel_delete ?n p = (if p_size parent = parcel_size q then Ret (?n(p - 64 := None), [parcel_freed parent (p - 64)])
      else Fault Dbg_error)" if "64 < p" "h (p - 64) = Some parent" "parcel_unheld parent" for parent
  proof -
    have ne: "p - 64 \<noteq> 0" "p - 64 \<noteq> p" "\<not> unat p < 64" using that(1) by (auto simp: word_less_nat_alt)
    have "parcel_size (q\<lparr>p_state := p_state q OR PARCEL_NESTED\<rparr>) = parcel_size q" by (simp add: parcel_size_def)
    then show ?thesis using parcel_delete_unheld [of "p - 64" ?n parent] that ne assms(1) b
      by (simp add: parcel_delete.simps [of ?n p] Let_def bit_simps flag_bits sizeof_parcel_def)
  qed
  then have "(\<exists>h1. parcel_nest h p = Ret h1 \<and> parcel_pin h1 p = Fault Assert_failed \<and> parcel_retain h1 p = Fault Assert_failed \<and>
      (\<forall>parent. 64 < p \<and> h (p - 64) = Some parent \<and> parcel_unheld parent \<longrightarrow>
        parcel_delete h1 p = (if p_size parent = parcel_size q then Ret (h1(p - 64 := None), [parcel_freed parent (p - 64)])
          else Fault Dbg_error)))"
    unfolding hold(3) using b
    by (simp add: assertO_def parcel_pin_def parcel_retain_def update_state_def bit_simps flag_bits)
  ultimately show ?thesis using parcel_delete_unheld [of p h q, OF assms] by blast
qed

theorem parcel_delete_lifecycle_witness:
  "let q = \<lparr> p_thread = 0, p_next = 0, p_src = 0, p_size = 8, p_state = PARCEL_SERIALIZED, p_offset = 0, p_action = 7,
      p_c_action = 0, p_target = 64, p_c_target = 0, p_pid = 0, p_credit = 0, p_buffer = Inline [] \<rparr>;
    h = [128 \<mapsto> q\<lparr>p_size := 72\<rparr>, 192 \<mapsto> q] in
    parcel_unheld q \<and>
    (\<exists>h1. parcel_pin h 192 = Ret h1 \<and> parcel_retain h1 192 = Fault Assert_failed \<and> parcel_delete h1 192 = Ret (h, [])) \<and>
    (\<exists>h1. parcel_retain h 192 = Ret h1 \<and> parcel_delete h1 192 = Ret (h1, []) \<and> parcel_release h1 192 = Ret h) \<and>
    (\<exists>h1. parcel_nest h 192 = Ret h1 \<and> parcel_delete h1 192 = Ret (h1(128 := None), [As_free 128]))"
proof -
  let ?q = "\<lparr> p_thread = 0, p_next = 0, p_src = 0, p_size = 8, p_state = PARCEL_SERIALIZED, p_offset = 0, p_action = 7,
      p_c_action = 0, p_target = 64, p_c_target = 0, p_pid = 0, p_credit = 0, p_buffer = Inline [] \<rparr>"
  let ?p = "?q\<lparr>p_size := 72\<rparr>"
  let ?h = "[128 \<mapsto> ?p, 192 \<mapsto> ?q] :: pheap"
  have u: "parcel_unheld ?q" "parcel_unheld ?p" by (simp_all add: parcel_unheld_bits flag_bits)
  have z: "parcel_size ?q = p_size ?p" "parcel_freed ?p 128 = As_free 128"
    by (simp_all add: parcel_size_def sizeof_parcel_def parcel_freed_def flag_bits)
  have h: "?h 192 = Some ?q" "?h (192 - 64) = Some ?p" "64 < (192 :: ptr)" "(192 :: ptr) - 64 = 128" "(192 :: ptr) \<noteq> 0" by simp_all
  note life = parcel_delete_lifecycle [of 192 ?h ?q, OF h(5,1) u(1)]
  show ?thesis unfolding Let_def using life u h(2,3) z unfolding h(4) by metis
qed

lemma isir_bytes_small:
  assumes "n + 36 < 2 ^ 31"
  shows "payload_size_to_isir_bytes n = int n + 36"
  using assms by (simp add: payload_size_to_isir_bytes_def sizeof_parcel_def isir_prefix_size_def s32wrap_id)

lemma isir_payload_small:
  assumes "36 \<le> bytes" "bytes < 2 ^ 31"
  shows "isir_bytes_to_payload_size bytes = Ret (nat (bytes - 36))"
  using assms by (simp add: isir_bytes_to_payload_size_def sizeof_parcel_def isir_prefix_size_def)

lemma isir_tag_size:
  assumes "0 < t" "t < 2 ^ 25"
  shows "tag_to_payload_size t = t * 64 - 64" "tag_to_isir_bytes t = t * 64 - 28"
    "payload_size_to_isir_bytes (tag_to_payload_size t) = int (t * 64 - 28)"
proof -
  have w: "u32wrap (t * 64) = t * 64" using assms by (intro u32wrap_small) simp
  show p: "tag_to_payload_size t = t * 64 - 64" "tag_to_isir_bytes t = t * 64 - 28"
    using assms by (simp_all add: tag_to_payload_size_def tag_to_isir_bytes_def w sizeof_parcel_def isir_prefix_size_def)
  have "t * 64 - 64 + 36 < 2 ^ 31" using assms by simp
  from isir_bytes_small [OF this] show "payload_size_to_isir_bytes (tag_to_payload_size t) = int (t * 64 - 28)"
    unfolding p using assms by simp
qed

text \<open>
  The message tag of the MPI network tells the receiver enough: a receive
  buffer posted for the tag of a payload holds that payload with less than a
  cache line to spare, and the byte count of a message gives the payload size
  back.
\<close>
lemma isir_tag_sizes:
  assumes "n + 128 \<le> 2 ^ 31"
  shows "n \<le> tag_to_payload_size (PayloadSizeToTag n) \<and> tag_to_payload_size (PayloadSizeToTag n) < n + 64 \<and>
    0 < PayloadSizeToTag n \<and> PayloadSizeToTag n < 2 ^ 25 \<and>
    payload_size_to_isir_bytes n \<le> payload_size_to_isir_bytes (tag_to_payload_size (PayloadSizeToTag n)) \<and>
    0 < payload_size_to_isir_bytes n \<and>
    isir_bytes_to_payload_size (payload_size_to_isir_bytes n) = Ret n"
proof -
  define t where "t = ceil_div (n + 64) 64"
  have t: "n + 64 \<le> 64 * t" "64 * t < n + 128"
    using ceil_div_bounds [of 64 "n + 64"] by (simp_all add: t_def)
  have tag: "PayloadSizeToTag n = t" using assms by (simp add: PayloadSizeToTag_def sizeof_parcel_def t_def)
  have small: "0 < t" "t < 2 ^ 25" using t assms by auto
  note z = isir_tag_size [OF small]
  have b: "payload_size_to_isir_bytes n = int n + 36" using assms by (intro isir_bytes_small) simp
  have "isir_bytes_to_payload_size (int n + 36) = Ret n" using assms by (simp add: isir_payload_small)
  then show ?thesis unfolding tag b z(3) unfolding z(1) using t small by auto
qed

end
