(* ===== verification/Hpx_Condition.thy ===== *)
theory Hpx_Condition
  imports Hpx_Parcel
begin

text \<open>
  The condition variable of \<^verbatim>\<open>libhpx/scheduler/Condition.cpp\<close>: one tagged
  pointer that is either a stack of waiting parcels or an error code. The
  abstract condition is a list of waiters or an error; the pointer-level
  operations refine it. The LCO theories use the abstract operations.
\<close>

section \<open>Pointer level\<close>

type_synonym hpx_status = int

definition HPX_SUCCESS :: hpx_status where
  "HPX_SUCCESS = 0"

definition ERROR_MASK :: u64 where
  "ERROR_MASK = 1"

definition CODE_OFFSET :: nat where
  "CODE_OFFSET = 32"

definition cv_hasError :: "ptr \<Rightarrow> bool" where
  "cv_hasError tp = (tp AND ERROR_MASK \<noteq> 0)"

definition cv_getError :: "ptr \<Rightarrow> hpx_status" where
  "cv_getError tp =
    (if cv_hasError tp then sint (ucast (drop_bit CODE_OFFSET tp) :: u32) else HPX_SUCCESS)"

definition cv_setError :: "ptr \<Rightarrow> hpx_status \<Rightarrow> ptr \<times> ptr" where
  "cv_setError tp code =
    (if cv_hasError tp then (tp, 0)
     else (push_bit CODE_OFFSET (of_int code) OR ERROR_MASK, tp))"

definition cv_clearError :: "ptr \<Rightarrow> ptr" where
  "cv_clearError tp = (if cv_hasError tp then 0 else tp)"

definition cv_push :: "pheap \<Rightarrow> ptr \<Rightarrow> ptr \<Rightarrow> (pheap \<times> ptr \<times> hpx_status) outcome" where
  "cv_push h tp parcel =
    (if cv_hasError tp then Ret (h, tp, cv_getError tp)
     else case h parcel of
         None \<Rightarrow> Fault Out_of_bounds
       | Some q \<Rightarrow> Ret (h(parcel \<mapsto> q\<lparr>p_next := tp\<rparr>), parcel, HPX_SUCCESS))"

definition cv_pop :: "pheap \<Rightarrow> ptr \<Rightarrow> (pheap \<times> ptr \<times> ptr) outcome" where
  "cv_pop h tp =
    (if cv_hasError tp then Ret (h, tp, 0)
     else if tp \<noteq> 0 then
       (case h tp of
          None \<Rightarrow> Fault Out_of_bounds
        | Some q \<Rightarrow> Ret (h(tp \<mapsto> q\<lparr>p_next := 0\<rparr>), p_next q, tp))
     else Ret (h, tp, tp))"

definition cv_popAll :: "ptr \<Rightarrow> ptr \<times> ptr" where
  "cv_popAll tp = (if cv_hasError tp then (tp, 0) else (0, tp))"

definition cv_empty :: "ptr \<Rightarrow> bool" where
  "cv_empty tp = (tp = 0)"

definition cv_reset :: "bool \<Rightarrow> ptr \<Rightarrow> ptr outcome" where
  "cv_reset debug tp =
    (if debug \<and> \<not> cv_hasError tp \<and> \<not> cv_empty tp then Fault Dbg_error else Ret 0)"

text \<open>
  \<^verbatim>\<open>parcel_launch_all\<close> drains a stack and launches each parcel; the model returns the
  launched parcels in order. The loop is partial: a cyclic stack would never end.
\<close>

partial_function (option) parcel_launch_all ::
  "pheap \<Rightarrow> ptr \<Rightarrow> (pheap \<times> ptr list) outcome option" where
  "parcel_launch_all h stack =
    (case parcel_stack_pop h stack of
       Fault e \<Rightarrow> Some (Fault e)
     | Ret (h', rest, p) \<Rightarrow>
         if p = 0 then Some (Ret (h', []))
         else Option.bind (parcel_launch_all h' rest)
                (\<lambda>r. Some (bindO r (\<lambda>(h'', ps). Ret (h'', p # ps)))))"

definition cv_signal :: "pheap \<Rightarrow> ptr \<Rightarrow> (pheap \<times> ptr \<times> ptr list) outcome option" where
  "cv_signal h tp =
    (case cv_pop h tp of
       Fault e \<Rightarrow> Some (Fault e)
     | Ret (h', tp', p) \<Rightarrow>
         map_option (\<lambda>r. bindO r (\<lambda>(h'', ps). Ret (h'', tp', ps))) (parcel_launch_all h' p))"

definition cv_signalAll :: "pheap \<Rightarrow> ptr \<Rightarrow> (pheap \<times> ptr \<times> ptr list) outcome option" where
  "cv_signalAll h tp =
    (case cv_popAll tp of (tp', p) \<Rightarrow>
       map_option (\<lambda>r. bindO r (\<lambda>(h'', ps). Ret (h'', tp', ps))) (parcel_launch_all h p))"

definition cv_signalError ::
  "pheap \<Rightarrow> ptr \<Rightarrow> hpx_status \<Rightarrow> (pheap \<times> ptr \<times> ptr list) outcome option" where
  "cv_signalError h tp code =
    (case cv_setError tp code of (tp', p) \<Rightarrow>
       map_option (\<lambda>r. bindO r (\<lambda>(h'', ps). Ret (h'', tp', ps))) (parcel_launch_all h p))"

section \<open>Abstract conditions\<close>

datatype cond = Waiting "ptr list" | Failed hpx_status

fun c_getError :: "cond \<Rightarrow> hpx_status" where
  "c_getError (Waiting ps) = HPX_SUCCESS"
| "c_getError (Failed e) = e"

fun c_push :: "cond \<Rightarrow> ptr \<Rightarrow> cond \<times> hpx_status" where
  "c_push (Waiting ps) p = (Waiting (p # ps), HPX_SUCCESS)"
| "c_push (Failed e) p = (Failed e, e)"

fun c_pop :: "cond \<Rightarrow> cond \<times> ptr list" where
  "c_pop (Waiting []) = (Waiting [], [])"
| "c_pop (Waiting (p # ps)) = (Waiting ps, [p])"
| "c_pop (Failed e) = (Failed e, [])"

fun c_popAll :: "cond \<Rightarrow> cond \<times> ptr list" where
  "c_popAll (Waiting ps) = (Waiting [], ps)"
| "c_popAll (Failed e) = (Failed e, [])"

fun c_setError :: "cond \<Rightarrow> hpx_status \<Rightarrow> cond \<times> ptr list" where
  "c_setError (Waiting ps) e = (Failed e, ps)"
| "c_setError (Failed e') e = (Failed e', [])"

fun c_clearError :: "cond \<Rightarrow> cond" where
  "c_clearError (Waiting ps) = Waiting ps"
| "c_clearError (Failed e) = Waiting []"

fun c_reset :: "bool \<Rightarrow> cond \<Rightarrow> cond outcome" where
  "c_reset debug (Waiting ps) = (if debug \<and> ps \<noteq> [] then Fault Dbg_error else Ret (Waiting []))"
| "c_reset debug (Failed e) = Ret (Waiting [])"

section \<open>Refinement\<close>

definition status_ok :: "hpx_status \<Rightarrow> bool" where
  "status_ok e = (- (2 ^ 31) \<le> e \<and> e < 2 ^ 31)"

fun cv_rep :: "pheap \<Rightarrow> ptr \<Rightarrow> cond \<Rightarrow> bool" where
  "cv_rep h tp (Waiting ps) = (stack_of h tp ps \<and> (\<forall>p \<in> set ps. even p))"
| "cv_rep h tp (Failed e) = (status_ok e \<and> tp = push_bit CODE_OFFSET (of_int e) OR ERROR_MASK)"

lemma and_one_odd: "(w :: u64) AND 1 \<noteq> 0 \<longleftrightarrow> odd w"
  by (simp add: and_one_eq mod_2_eq_odd)

lemma cv_hasError_rep: "cv_rep h tp c \<Longrightarrow> cv_hasError tp \<longleftrightarrow> (\<exists>e. c = Failed e)"
proof (cases c)
  case (Waiting ps)
  assume "cv_rep h tp c"
  then have "even tp" using Waiting by (cases ps) auto
  then show ?thesis using Waiting by (simp add: cv_hasError_def ERROR_MASK_def and_one_odd)
next
  case (Failed e)
  assume "cv_rep h tp c"
  then have "tp = push_bit 32 (of_int e) OR 1" using Failed by (simp add: CODE_OFFSET_def ERROR_MASK_def)
  then have "bit tp 0" by (simp add: bit_simps)
  then have "odd tp" by (simp add: bit_0)
  then show ?thesis using Failed by (simp add: cv_hasError_def ERROR_MASK_def and_one_odd)
qed

lemma error_code_roundtrip:
  assumes "status_ok e"
  shows "sint (ucast (drop_bit 32 (push_bit 32 (of_int e) OR 1 :: u64)) :: u32) = e"
proof -
  have "(ucast (drop_bit 32 (push_bit 32 (of_int e) OR 1 :: u64)) :: u32) = of_int e"
    by (rule bit_word_eqI) (auto simp: bit_simps)
  moreover have "sint (of_int e :: u32) = e"
    using assms by (simp add: status_ok_def sint_sbintrunc' signed_take_bit_int_eq_self)
  ultimately show ?thesis by simp
qed


lemma cv_getError_rep: "cv_rep h tp c \<Longrightarrow> cv_getError tp = c_getError c"
  using cv_hasError_rep [of h tp c] error_code_roundtrip
  by (cases c) (simp_all add: cv_getError_def CODE_OFFSET_def ERROR_MASK_def del: drop_bit_or)

lemma launch_all_list:
  assumes "stack_of h tp ps"
  shows "\<exists>h'. parcel_launch_all h tp = Some (Ret (h', ps)) \<and> dom h' = dom h \<and>
    (\<forall>r. r \<notin> set ps \<longrightarrow> h' r = h r)"
  using assms
proof (induction ps arbitrary: h tp)
  case Nil
  then show ?case by (subst parcel_launch_all.simps) (simp add: parcel_stack_pop_empty)
next
  case (Cons p ps)
  from parcel_stack_pop_list [OF Cons.prems] obtain h1 rest where
    1: "parcel_stack_pop h tp = Ret (h1, rest, p)" "stack_of h1 rest ps" "dom h1 = dom h"
      "\<forall>r. r \<noteq> p \<longrightarrow> h1 r = h r"
    by blast
  from Cons.IH [OF 1(2)] obtain h2 where
    "parcel_launch_all h1 rest = Some (Ret (h2, ps))" "dom h2 = dom h1"
    "\<forall>r. r \<notin> set ps \<longrightarrow> h2 r = h1 r" by blast
  moreover have "p \<noteq> 0" using Cons.prems by simp
  ultimately show ?case using 1 by (subst parcel_launch_all.simps) simp
qed

text \<open>Launching a detached stack leaves a condition with other waiters intact.\<close>

lemma launch_detached:
  assumes "cv_rep h tp c" "stack_of h p ps" "\<forall>qs. c = Waiting qs \<longrightarrow> set qs \<inter> set ps = {}"
  shows "\<exists>h'. parcel_launch_all h p = Some (Ret (h', ps)) \<and> cv_rep h' tp c \<and> dom h' = dom h"
proof -
  from launch_all_list [OF assms(2)] obtain h' where
    h': "parcel_launch_all h p = Some (Ret (h', ps))" "dom h' = dom h"
      "\<forall>r. r \<notin> set ps \<longrightarrow> h' r = h r" by blast
  have "cv_rep h' tp c"
  proof (cases c)
    case (Waiting qs)
    then have "stack_of h' tp qs = stack_of h tp qs"
      using assms(3) h'(3) by (intro stack_of_frame) auto
    then show ?thesis using assms(1) Waiting by simp
  qed (use assms(1) in simp)
  with h' show ?thesis by blast
qed

lemma cv_push_rep:
  assumes "cv_rep h tp c" "p \<noteq> 0" "even p" "p \<in> dom h" "\<forall>ps. c = Waiting ps \<longrightarrow> p \<notin> set ps"
  shows "\<exists>h' tp'. cv_push h tp p = Ret (h', tp', snd (c_push c p)) \<and>
    cv_rep h' tp' (fst (c_push c p)) \<and> dom h' = dom h"
  using assms cv_hasError_rep [OF assms(1)] cv_getError_rep [OF assms(1)]
  by (cases c) (auto simp: cv_push_def stack_of_upd)

lemma cv_pop_rep:
  assumes "cv_rep h tp c"
  shows "\<exists>h' tp' p. cv_pop h tp = Ret (h', tp', p) \<and> cv_rep h' tp' (fst (c_pop c)) \<and>
    stack_of h' p (snd (c_pop c)) \<and> dom h' = dom h"
proof (cases c)
  case (Waiting ps)
  then show ?thesis using assms cv_hasError_rep [OF assms]
    by (cases ps) (auto simp: cv_pop_def stack_of_upd split: option.splits)
next
  case (Failed e)
  then show ?thesis using assms cv_hasError_rep [OF assms] by (auto simp: cv_pop_def)
qed

lemma cv_popAll_rep:
  assumes "cv_rep h tp c"
  shows "\<exists>tp' p. cv_popAll tp = (tp', p) \<and> cv_rep h tp' (fst (c_popAll c)) \<and>
    stack_of h p (snd (c_popAll c))"
  using assms cv_hasError_rep [OF assms] by (cases c) (auto simp: cv_popAll_def)

lemma cv_setError_rep:
  assumes "cv_rep h tp c" "status_ok e"
  shows "\<exists>tp' p. cv_setError tp e = (tp', p) \<and> cv_rep h tp' (fst (c_setError c e)) \<and>
    stack_of h p (snd (c_setError c e))"
  using assms cv_hasError_rep [OF assms(1)] by (cases c) (auto simp: cv_setError_def)

lemma cv_clearError_rep: "cv_rep h tp c \<Longrightarrow> cv_rep h (cv_clearError tp) (c_clearError c)"
  using cv_hasError_rep [of h tp c] by (cases c) (auto simp: cv_clearError_def)

lemma stack_of_zero_iff: "stack_of h tp ps \<Longrightarrow> tp = 0 \<longleftrightarrow> ps = []"
  by (cases ps) auto

lemma cv_reset_rep:
  assumes "cv_rep h tp c"
  shows "(\<exists>e. cv_reset debug tp = Fault e \<and> c_reset debug c = Fault e) \<or>
    (cv_reset debug tp = Ret 0 \<and> c_reset debug c = Ret (Waiting []))"
  using assms cv_hasError_rep [OF assms]
  by (cases c) (auto simp: cv_reset_def cv_empty_def dest: stack_of_zero_iff)


section \<open>Sequences of operations\<close>

datatype cond_op =
  Op_push ptr | Op_signal | Op_signalAll | Op_signalError hpx_status | Op_clearError | Op_reset

text \<open>Each operation reports a status and the parcels it launched.\<close>

fun c_exec :: "bool \<Rightarrow> cond_op \<Rightarrow> cond \<Rightarrow> (cond \<times> hpx_status \<times> ptr list) outcome" where
  "c_exec debug (Op_push p) c = (case c_push c p of (c', st) \<Rightarrow> Ret (c', st, []))"
| "c_exec debug Op_signal c = (case c_pop c of (c', ps) \<Rightarrow> Ret (c', HPX_SUCCESS, ps))"
| "c_exec debug Op_signalAll c = (case c_popAll c of (c', ps) \<Rightarrow> Ret (c', HPX_SUCCESS, ps))"
| "c_exec debug (Op_signalError e) c = (case c_setError c e of (c', ps) \<Rightarrow> Ret (c', HPX_SUCCESS, ps))"
| "c_exec debug Op_clearError c = Ret (c_clearError c, HPX_SUCCESS, [])"
| "c_exec debug Op_reset c = bindO (c_reset debug c) (\<lambda>c'. Ret (c', HPX_SUCCESS, []))"

definition cv_signalled ::
  "(pheap \<times> ptr \<times> ptr list) outcome option \<Rightarrow> ((pheap \<times> ptr) \<times> hpx_status \<times> ptr list) outcome option" where
  "cv_signalled r = map_option (\<lambda>o'. bindO o' (\<lambda>(h, tp, ps). Ret ((h, tp), HPX_SUCCESS, ps))) r"

fun cv_exec ::
  "bool \<Rightarrow> cond_op \<Rightarrow> pheap \<times> ptr \<Rightarrow> ((pheap \<times> ptr) \<times> hpx_status \<times> ptr list) outcome option" where
  "cv_exec debug (Op_push p) (h, tp) =
     Some (bindO (cv_push h tp p) (\<lambda>(h', tp', st). Ret ((h', tp'), st, [])))"
| "cv_exec debug Op_signal (h, tp) = cv_signalled (cv_signal h tp)"
| "cv_exec debug Op_signalAll (h, tp) = cv_signalled (cv_signalAll h tp)"
| "cv_exec debug (Op_signalError e) (h, tp) = cv_signalled (cv_signalError h tp e)"
| "cv_exec debug Op_clearError (h, tp) = Some (Ret ((h, cv_clearError tp), HPX_SUCCESS, []))"
| "cv_exec debug Op_reset (h, tp) =
     Some (bindO (cv_reset debug tp) (\<lambda>tp'. Ret ((h, tp'), HPX_SUCCESS, [])))"

text \<open>A caller pushes parcels it owns, each while it is not already queued, and status codes fit an int.\<close>

fun c_valid :: "ptr set \<Rightarrow> cond_op \<Rightarrow> cond \<Rightarrow> bool" where
  "c_valid P (Op_push p) c = (p \<in> P \<and> (case c of Waiting ps \<Rightarrow> p \<notin> set ps | Failed _ \<Rightarrow> True))"
| "c_valid P (Op_signalError e) c = status_ok e"
| "c_valid P op c = True"

fun exec_all :: "(cond_op \<Rightarrow> 's \<Rightarrow> ('s \<times> hpx_status \<times> ptr list) outcome option) \<Rightarrow> cond_op list \<Rightarrow> 's \<Rightarrow>
    ('s \<times> (hpx_status \<times> ptr list) list) outcome option" where
  "exec_all f [] s = Some (Ret (s, []))"
| "exec_all f (a # as) s =
    (case f a s of
       None \<Rightarrow> None
     | Some (Fault e) \<Rightarrow> Some (Fault e)
     | Some (Ret (s', st, ps)) \<Rightarrow>
         map_option (\<lambda>r. bindO r (\<lambda>(s'', obs). Ret (s'', (st, ps) # obs))) (exec_all f as s'))"

fun valid_all :: "bool \<Rightarrow> ptr set \<Rightarrow> cond_op list \<Rightarrow> cond \<Rightarrow> bool" where
  "valid_all debug P [] c = True"
| "valid_all debug P (a # as) c =
    (c_valid P a c \<and> (case c_exec debug a c of Fault _ \<Rightarrow> True | Ret (c', _) \<Rightarrow> valid_all debug P as c'))"

definition observed :: "('s \<times> 'o) outcome option \<Rightarrow> 'o outcome option" where
  "observed r = map_option (\<lambda>x. bindO x (\<lambda>(s, obs). Ret obs)) r"

locale condition_contract =
  fixes debug :: bool
    and P :: "ptr set"
    and rep :: "'s \<Rightarrow> cond \<Rightarrow> bool"
    and exec :: "cond_op \<Rightarrow> 's \<Rightarrow> ('s \<times> hpx_status \<times> ptr list) outcome option"
  assumes exec_fault: "rep s c \<Longrightarrow> c_valid P a c \<Longrightarrow> c_exec debug a c = Fault e \<Longrightarrow>
      exec a s = Some (Fault e)"
    and exec_ret: "rep s c \<Longrightarrow> c_valid P a c \<Longrightarrow> c_exec debug a c = Ret (c', st, ps) \<Longrightarrow>
      \<exists>s'. exec a s = Some (Ret (s', st, ps)) \<and> rep s' c'"
begin

lemma exec_all_observed:
  assumes "rep s c" "valid_all debug P as c"
  shows "observed (exec_all exec as s) = observed (exec_all (\<lambda>a c. Some (c_exec debug a c)) as c)"
  using assms
proof (induction as arbitrary: s c)
  case Nil
  then show ?case by (simp add: observed_def)
next
  case (Cons a as)
  show ?case
  proof (cases "c_exec debug a c")
    case (Inl e)
    with exec_fault [OF Cons.prems(1)] Cons.prems(2) show ?thesis by (simp add: observed_def)
  next
    case (Inr r)
    then obtain c' st ps where r: "c_exec debug a c = Ret (c', st, ps)" by (cases r) auto
    from exec_ret [OF Cons.prems(1) _ r] Cons.prems(2) obtain s' where
      s': "exec a s = Some (Ret (s', st, ps))" "rep s' c'" by auto
    have "observed (exec_all exec as s') = observed (exec_all (\<lambda>a c. Some (c_exec debug a c)) as c')"
      using Cons.IH [OF s'(2)] Cons.prems(2) r by simp
    then show ?thesis
      by (cases "exec_all exec as s'"; cases "exec_all (\<lambda>a c. Some (c_exec debug a c)) as c'")
        (auto simp: observed_def s' r bindO_def split: sum.splits)
  qed
qed

end

definition cv_owned :: "ptr set \<Rightarrow> pheap \<times> ptr \<Rightarrow> cond \<Rightarrow> bool" where
  "cv_owned P s c = (P \<subseteq> dom (fst s) \<and> (\<forall>p \<in> P. p \<noteq> 0 \<and> even p) \<and> cv_rep (fst s) (snd s) c)"

lemma cv_signal_sim:
  assumes "cv_rep h tp c"
  shows "\<exists>h' tp'. cv_signal h tp = Some (Ret (h', tp', snd (c_pop c))) \<and>
    cv_rep h' tp' (fst (c_pop c)) \<and> dom h' = dom h"
proof -
  from cv_pop_rep [OF assms] obtain h1 tp1 p where
    1: "cv_pop h tp = Ret (h1, tp1, p)" "cv_rep h1 tp1 (fst (c_pop c))"
      "stack_of h1 p (snd (c_pop c))" "dom h1 = dom h" by blast
  have "\<forall>qs. fst (c_pop c) = Waiting qs \<longrightarrow> set qs \<inter> set (snd (c_pop c)) = {}"
    using assms by (cases c rule: c_pop.cases) auto
  from launch_detached [OF 1(2,3) this] 1 show ?thesis by (auto simp: cv_signal_def)
qed

lemma cv_signalAll_sim:
  assumes "cv_rep h tp c"
  shows "\<exists>h' tp'. cv_signalAll h tp = Some (Ret (h', tp', snd (c_popAll c))) \<and>
    cv_rep h' tp' (fst (c_popAll c)) \<and> dom h' = dom h"
proof -
  from cv_popAll_rep [OF assms] obtain tp1 p where
    1: "cv_popAll tp = (tp1, p)" "cv_rep h tp1 (fst (c_popAll c))" "stack_of h p (snd (c_popAll c))"
    by blast
  have "\<forall>qs. fst (c_popAll c) = Waiting qs \<longrightarrow> set qs \<inter> set (snd (c_popAll c)) = {}"
    by (cases c) auto
  from launch_detached [OF 1(2,3) this] 1 show ?thesis by (auto simp: cv_signalAll_def)
qed

lemma cv_signalError_sim:
  assumes "cv_rep h tp c" "status_ok e"
  shows "\<exists>h' tp'. cv_signalError h tp e = Some (Ret (h', tp', snd (c_setError c e))) \<and>
    cv_rep h' tp' (fst (c_setError c e)) \<and> dom h' = dom h"
proof -
  from cv_setError_rep [OF assms] obtain tp1 p where
    1: "cv_setError tp e = (tp1, p)" "cv_rep h tp1 (fst (c_setError c e))"
      "stack_of h p (snd (c_setError c e))"
    by blast
  have "\<forall>qs. fst (c_setError c e) = Waiting qs \<longrightarrow> set qs \<inter> set (snd (c_setError c e)) = {}"
    by (cases c) auto
  from launch_detached [OF 1(2,3) this] 1 show ?thesis by (auto simp: cv_signalError_def)
qed

lemma cv_exec_sim:
  assumes "cv_owned P s c" "c_valid P a c" "c_exec debug a c = Ret (c', st, ps)"
  shows "\<exists>s'. cv_exec debug a s = Some (Ret (s', st, ps)) \<and> cv_owned P s' c'"
proof -
  obtain h tp where s: "s = (h, tp)" by (cases s)
  have rep: "cv_rep h tp c" and P: "P \<subseteq> dom h" "\<forall>p \<in> P. p \<noteq> 0 \<and> even p"
    using assms(1) by (auto simp: cv_owned_def s)
  show ?thesis
  proof (cases a)
    case (Op_push p)
    have "p \<in> P" "\<forall>ps. c = Waiting ps \<longrightarrow> p \<notin> set ps" using assms(2) Op_push by auto
    moreover have "p \<in> dom h" using \<open>p \<in> P\<close> P by blast
    ultimately have "\<exists>h' tp'. cv_push h tp p = Ret (h', tp', st) \<and> cv_rep h' tp' c' \<and> dom h' = dom h"
      using cv_push_rep [OF rep, of p] P assms(3) Op_push by (auto split: prod.splits)
    then show ?thesis using assms(3) Op_push P by (fastforce simp: s cv_owned_def split: prod.splits)
  next
    case (Op_signalError e)
    then have "\<exists>h' tp'. cv_signalError h tp e = Some (Ret (h', tp', ps)) \<and> cv_rep h' tp' c' \<and> dom h' = dom h"
      using cv_signalError_sim [OF rep, of e] assms(2,3) by (auto split: prod.splits)
    then show ?thesis using assms(3) Op_signalError P
      by (fastforce simp: s cv_owned_def cv_signalled_def split: prod.splits)
  next
    case Op_reset
    with cv_reset_rep [OF rep, of debug] show ?thesis using assms(3) P
      by (auto simp: s cv_owned_def)
  qed (use cv_signal_sim [OF rep] cv_signalAll_sim [OF rep]
      cv_clearError_rep [OF rep] assms(2,3) P in
      \<open>auto simp: s cv_owned_def cv_signalled_def split: prod.splits\<close>)
qed

interpretation cvq: condition_contract debug P "cv_owned P" "cv_exec debug" for debug P
proof
  fix s c a e
  assume "cv_owned P s c" "c_valid P a c" "c_exec debug a c = Fault e"
  then show "cv_exec debug a s = Some (Fault e)"
    using cv_reset_rep [of "fst s" "snd s" c debug]
    by (cases a; cases s) (auto simp: cv_owned_def split: prod.splits)
qed (rule cv_exec_sim)

text \<open>
  C21: Every sequence of operations on a condition that owns its parcels behaves
  as the abstract wait queue: the tagged pointer and the intrusive list return the
  same statuses, launch the same parcels in the same order, report the same
  errors, and every launch loop ends.
\<close>
theorem condition_refines_queue:
  assumes "P \<subseteq> dom h" "\<forall>p \<in> P. p \<noteq> 0 \<and> even p" "valid_all debug P as (Waiting [])"
  shows "observed (exec_all (cv_exec debug) as (h, 0)) =
    observed (exec_all (\<lambda>a c. Some (c_exec debug a c)) as (Waiting []))"
  by (rule cvq.exec_all_observed [OF _ assms(3)]) (use assms(1,2) in \<open>simp add: cv_owned_def\<close>)

theorem condition_refines_queue_witness:
  "observed (exec_all (cv_exec True)
      [Op_push 64, Op_push 128, Op_signal, Op_push 128, Op_signalAll, Op_push 64, Op_signalError 5, Op_push 128]
      ([64 \<mapsto> serialized_parcel, 128 \<mapsto> serialized_parcel], 0)) =
    Some (Ret [(0, []), (0, []), (0, [128]), (0, []), (0, [128, 64]), (0, []), (0, [64]), (5, [])])"
  by (subst condition_refines_queue [where P = "{64, 128}"])
    (simp_all add: observed_def HPX_SUCCESS_def status_ok_def)

end
