(* ===== verification/Hpx_Monitor.thy ===== *)
theory Hpx_Monitor
  imports Hpx_Condition "HOL-Library.Multiset"
begin

text \<open>
  The base of the local control objects (\<^verbatim>\<open>libhpx/scheduler/lco/LCO.cpp\<close>) and of
  \<^verbatim>\<open>Worker::wait\<close>. An LCO is a monitor: each operation runs under the LCO's lock, and
  \<^verbatim>\<open>waitFor\<close> gives the lock up in the middle of it. An operation is therefore a chain of
  critical sections, each named by a program point; a section ends by returning, by
  parking the thread on a condition, to resume at another program point, or (where an
  operation releases and takes the lock itself) by going on at another program point.
  The step relation interleaves the sections of any number of threads.
\<close>

section \<open>State bits of an LCO\<close>

definition TRIGGERED_MASK :: u16 where
  "TRIGGERED_MASK = 2"

definition USER_MASK :: u16 where
  "USER_MASK = 4"

definition getTriggered :: "u16 \<Rightarrow> bool" where
  "getTriggered state = (state AND TRIGGERED_MASK \<noteq> 0)"

definition setTriggered :: "u16 \<Rightarrow> u16 \<times> bool" where
  "setTriggered state = (state OR TRIGGERED_MASK, state AND TRIGGERED_MASK \<noteq> 0)"

definition resetTriggered :: "u16 \<Rightarrow> u16" where
  "resetTriggered state = state AND NOT TRIGGERED_MASK"

definition setUser :: "u16 \<Rightarrow> u16" where
  "setUser state = state OR USER_MASK"

definition getUser :: "u16 \<Rightarrow> bool" where
  "getUser state = (state AND USER_MASK \<noteq> 0)"

section \<open>Waiting\<close>

text \<open>
  \<^verbatim>\<open>Worker::wait\<close> in two halves: up to the release of the lock, and from the moment
  the thread holds it again.
\<close>

definition waitFor :: "cond \<Rightarrow> ptr \<Rightarrow> cond \<times> hpx_status" where
  "waitFor c t = c_push c t"

definition waitFor_resume :: "cond \<Rightarrow> hpx_status" where
  "waitFor_resume c = c_getError c"

section \<open>Threads in a monitor\<close>

datatype ('pc, 'r) act = Return 'r | Wait 'pc | Goto 'pc

datatype ('pc, 'r) tstate = Idle | Ready 'pc | Blocked 'pc | Done 'r

text \<open>What an LCO operation returns to its caller.\<close>

datatype 'v lres = RStatus hpx_status | RSet int | RValue 'v | RVoid | RLaunched

record ('s, 'pc, 'r) mon =
  m_obj :: 's
  m_thr :: "ptr \<Rightarrow> ('pc, 'r) tstate"
  m_hist :: "(ptr \<times> 'pc \<times> ('pc, 'r) act) list"

type_synonym ('s, 'pc, 'r) section_result = "('s \<times> ('pc, 'r) act \<times> ptr list) outcome"

definition wake :: "ptr list \<Rightarrow> (ptr \<Rightarrow> ('pc, 'r) tstate) \<Rightarrow> ptr \<Rightarrow> ('pc, 'r) tstate" where
  "wake ws thr u = (if u \<in> set ws then (case thr u of Blocked pc \<Rightarrow> Ready pc | x \<Rightarrow> x) else thr u)"

fun after :: "('pc, 'r) act \<Rightarrow> ('pc, 'r) tstate" where
  "after (Return r) = Done r"
| "after (Wait pc) = Blocked pc"
| "after (Goto pc) = Ready pc"

inductive mon_step ::
  "('pc \<Rightarrow> ptr \<Rightarrow> 's \<Rightarrow> ('s, 'pc, 'r) section_result) \<Rightarrow> ('pc \<Rightarrow> bool) \<Rightarrow>
   ('s, 'pc, 'r) mon \<Rightarrow> ('s, 'pc, 'r) mon \<Rightarrow> bool"
  for run entry where
  mon_call: "m_thr m t = Idle \<or> m_thr m t = Done r \<Longrightarrow> entry pc \<Longrightarrow>
    mon_step run entry m (m\<lparr>m_thr := (m_thr m)(t := Ready pc)\<rparr>)"
| mon_exec: "m_thr m t = Ready pc \<Longrightarrow> run pc t (m_obj m) = Ret (s', a, ws) \<Longrightarrow>
    mon_step run entry m
      \<lparr> m_obj = s', m_thr = (wake ws (m_thr m))(t := after a), m_hist = (t, pc, a) # m_hist m \<rparr>"

inductive_cases mon_stepE: "mon_step run entry m m'"

definition mon_init :: "'s \<Rightarrow> ('s, 'pc, 'r) mon" where
  "mon_init s = \<lparr> m_obj = s, m_thr = \<lambda>_. Idle, m_hist = [] \<rparr>"

definition mon_reach ::
  "('pc \<Rightarrow> ptr \<Rightarrow> 's \<Rightarrow> ('s, 'pc, 'r) section_result) \<Rightarrow> ('pc \<Rightarrow> bool) \<Rightarrow> 's \<Rightarrow>
   ('s, 'pc, 'r) mon \<Rightarrow> bool" where
  "mon_reach run entry s m = (mon_step run entry)\<^sup>*\<^sup>* (mon_init s) m"

text \<open>
  The parcel of an \<^verbatim>\<open>attach\<close> is a thread of the monitor. The operation's status and the
  parcels it launched say which way it went: refused, launched, or parked.
\<close>

definition attach_section ::
  "'pc \<Rightarrow> ptr \<Rightarrow> 's \<times> hpx_status \<times> ptr list \<Rightarrow> ('s, 'pc, 'v lres) section_result" where
  "attach_section pc p r =
    (case r of (s', status, launched) \<Rightarrow>
       if status \<noteq> HPX_SUCCESS then Ret (s', Return (RStatus status), remove1 p launched)
       else if p \<in> set launched then Ret (s', Return RLaunched, remove1 p launched)
       else Ret (s', Wait pc, launched))"

text \<open>A schedule replayed as a function, for concrete runs.\<close>

datatype 'pc sched = Call ptr 'pc | Exec ptr

fun mon_play ::
  "('pc \<Rightarrow> ptr \<Rightarrow> 's \<Rightarrow> ('s, 'pc, 'r) section_result) \<Rightarrow> ('pc \<Rightarrow> bool) \<Rightarrow> 'pc sched list \<Rightarrow>
   ('s, 'pc, 'r) mon \<Rightarrow> ('s, 'pc, 'r) mon option" where
  "mon_play run entry [] m = Some m"
| "mon_play run entry (Call t pc # as) m =
    (case m_thr m t of
       Ready _ \<Rightarrow> None
     | Blocked _ \<Rightarrow> None
     | _ \<Rightarrow> if entry pc then mon_play run entry as (m\<lparr>m_thr := (m_thr m)(t := Ready pc)\<rparr>) else None)"
| "mon_play run entry (Exec t # as) m =
    (case m_thr m t of
       Ready pc \<Rightarrow>
         (case run pc t (m_obj m) of
            Fault _ \<Rightarrow> None
          | Ret (s', a, ws) \<Rightarrow> mon_play run entry as
              \<lparr> m_obj = s', m_thr = (wake ws (m_thr m))(t := after a), m_hist = (t, pc, a) # m_hist m \<rparr>)
     | _ \<Rightarrow> None)"

section \<open>Facts on state bits\<close>

lemma trig_bits: "getTriggered s \<longleftrightarrow> bit s 1" "getUser s \<longleftrightarrow> bit s 2"
proof -
  have 1: "getTriggered s \<longleftrightarrow> s AND push_bit 1 1 \<noteq> 0" "getUser s \<longleftrightarrow> s AND push_bit 2 1 \<noteq> 0"
    by (simp_all add: getTriggered_def getUser_def TRIGGERED_MASK_def USER_MASK_def)
  have 2: "(s AND push_bit k 1 \<noteq> 0) \<longleftrightarrow> bit s k" for k and s :: u16
    by (cases "k < 16") (auto simp: and_exp_eq_0_iff_not_bit [of s k] push_bit_eq_mult bit_word_iff_drop_bit_and)
  show "getTriggered s \<longleftrightarrow> bit s 1" "getUser s \<longleftrightarrow> bit s 2" by (simp_all only: 1 2)
qed


lemma trig_simps [simp]:
  "getTriggered (fst (setTriggered s))" "snd (setTriggered s) = getTriggered s"
  "\<not> getTriggered (resetTriggered s)" "getTriggered (setUser s) = getTriggered s" "\<not> getTriggered 0"
  "getUser (setUser s)" "getUser (fst (setTriggered s)) = getUser s"
  "getUser (resetTriggered s) = getUser s" "\<not> getUser 0"
proof -
  have b: "bit TRIGGERED_MASK k \<longleftrightarrow> k = 1" "bit USER_MASK k \<longleftrightarrow> k = 2" for k
  proof -
    have *: "TRIGGERED_MASK = push_bit 1 1" "USER_MASK = push_bit 2 1"
      by (simp_all add: TRIGGERED_MASK_def USER_MASK_def)
    show "bit TRIGGERED_MASK k \<longleftrightarrow> k = 1" "bit USER_MASK k \<longleftrightarrow> k = 2"
      by (auto simp: * bit_simps simp del: push_bit_of_1)
  qed
  show "snd (setTriggered s) = getTriggered s" by (simp add: setTriggered_def getTriggered_def)
  show "getTriggered (fst (setTriggered s))"
    "\<not> getTriggered (resetTriggered s)" "getTriggered (setUser s) = getTriggered s" "\<not> getTriggered 0"
    "getUser (setUser s)" "getUser (fst (setTriggered s)) = getUser s"
    "getUser (resetTriggered s) = getUser s" "\<not> getUser 0"
    by (simp_all add: trig_bits setTriggered_def resetTriggered_def setUser_def bit_simps b)
qed

section \<open>Waiters of a condition\<close>

fun cond_waiters :: "cond \<Rightarrow> ptr list" where
  "cond_waiters (Waiting ps) = ps"
| "cond_waiters (Failed e) = []"

text \<open>A condition holds a real error code, never a success code.\<close>

fun cond_ok :: "cond \<Rightarrow> bool" where
  "cond_ok (Waiting ps) = True"
| "cond_ok (Failed e) = (e \<noteq> HPX_SUCCESS)"

lemma waitFor_cases:
  assumes "waitFor c t = (c', st)" "cond_ok c"
  shows "(\<exists>ps. c = Waiting ps \<and> c' = Waiting (t # ps) \<and> st = HPX_SUCCESS) \<or>
    (\<exists>e. c = Failed e \<and> c' = c \<and> st = e \<and> e \<noteq> HPX_SUCCESS)"
  using assms by (cases c) (auto simp: waitFor_def)

lemma c_popAll_waiters [simp]:
  "cond_waiters (fst (c_popAll c)) = []" "snd (c_popAll c) = cond_waiters c" "cond_ok (fst (c_popAll c)) = cond_ok c"
  by (cases c; simp)+

lemma c_setError_waiters [simp]:
  "cond_waiters (fst (c_setError c e)) = []" "snd (c_setError c e) = cond_waiters c"
  "cond_ok c \<Longrightarrow> e \<noteq> HPX_SUCCESS \<Longrightarrow> cond_ok (fst (c_setError c e))"
  by (cases c; simp)+

section \<open>What every monitor promises\<close>

lemma wake_cases: "wake ws thr u = thr u \<or> (\<exists>pc. u \<in> set ws \<and> thr u = Blocked pc \<and> wake ws thr u = Ready pc)"
  by (auto simp: wake_def split: tstate.splits)

lemma wake_Blocked [simp]: "wake ws thr u = Blocked pc \<longleftrightarrow> u \<notin> set ws \<and> thr u = Blocked pc"
  by (auto simp: wake_def split: tstate.splits)

lemma wake_Done [simp]: "wake ws thr u = Done r \<longleftrightarrow> thr u = Done r"
  by (auto simp: wake_def split: tstate.splits)

lemma wake_Idle [simp]: "wake ws thr u = Idle \<longleftrightarrow> thr u = Idle"
  by (auto simp: wake_def split: tstate.splits)

lemma wake_Ready [simp]:
  "wake ws thr u = Ready pc \<longleftrightarrow> thr u = Ready pc \<or> (u \<in> set ws \<and> thr u = Blocked pc)"
  by (auto simp: wake_def split: tstate.splits)

text \<open>Induction over reachable states, with the two kinds of step as cases.\<close>

lemma mon_reach_induct:
  assumes "mon_reach run entry s0 m"
    and "Inv (mon_init s0)"
    and "\<And>m t pc. Inv m \<Longrightarrow> (\<forall>pc. m_thr m t \<noteq> Ready pc \<and> m_thr m t \<noteq> Blocked pc) \<Longrightarrow> entry pc \<Longrightarrow>
      Inv (m\<lparr>m_thr := (m_thr m)(t := Ready pc)\<rparr>)"
    and "\<And>m t pc s' a ws. Inv m \<Longrightarrow> m_thr m t = Ready pc \<Longrightarrow> run pc t (m_obj m) = Ret (s', a, ws) \<Longrightarrow>
      Inv \<lparr> m_obj = s', m_thr = (wake ws (m_thr m))(t := after a), m_hist = (t, pc, a) # m_hist m \<rparr>"
  shows "Inv m"
  using assms(1) unfolding mon_reach_def
proof (induction rule: rtranclp_induct)
  case base
  show ?case by (rule assms(2))
next
  case (step y z)
  from step.hyps(2) show ?case
  proof (cases rule: mon_step.cases)
    case (mon_call t r pc)
    then show ?thesis using assms(3) [OF step.IH, of t pc] by auto
  next
    case (mon_exec t pc s' a ws)
    then show ?thesis using assms(4) [OF step.IH, of t pc s' a ws] by simp
  qed
qed

text \<open>
  Invariants in two parts: \<^verbatim>\<open>G\<close> of the object and the history, and \<^verbatim>\<open>L\<close> of each thread,
  which a step of another thread keeps or, when it wakes the thread, carries over.
\<close>

lemma mon_local_induct:
  assumes reach: "mon_reach run entry s0 m"
    and init: "G s0 []" "\<And>t. L t s0 [] Idle"
    and call: "\<And>t s h x pc. G s h \<Longrightarrow> L t s h x \<Longrightarrow> x = Idle \<or> (\<exists>r. x = Done r) \<Longrightarrow> entry pc \<Longrightarrow>
      L t s h (Ready pc)"
    and glob: "\<And>t s h pc s' a ws. G s h \<Longrightarrow> L t s h (Ready pc) \<Longrightarrow> run pc t s = Ret (s', a, ws) \<Longrightarrow>
      G s' ((t, pc, a) # h)"
    and self: "\<And>t s h pc s' a ws. G s h \<Longrightarrow> L t s h (Ready pc) \<Longrightarrow> run pc t s = Ret (s', a, ws) \<Longrightarrow>
      L t s' ((t, pc, a) # h) (after a)"
    and other: "\<And>t s h pc s' a ws u x. G s h \<Longrightarrow> L t s h (Ready pc) \<Longrightarrow> run pc t s = Ret (s', a, ws) \<Longrightarrow>
      u \<noteq> t \<Longrightarrow> L u s h x \<Longrightarrow> L u s' ((t, pc, a) # h) x"
    and woken: "\<And>t s h pc s' a ws u pc'. G s h \<Longrightarrow> L t s h (Ready pc) \<Longrightarrow> run pc t s = Ret (s', a, ws) \<Longrightarrow>
      u \<noteq> t \<Longrightarrow> u \<in> set ws \<Longrightarrow> L u s h (Blocked pc') \<Longrightarrow> L u s' ((t, pc, a) # h) (Ready pc')"
  shows "G (m_obj m) (m_hist m) \<and> (\<forall>t. L t (m_obj m) (m_hist m) (m_thr m t))"
  using reach
proof (rule mon_reach_induct [where Inv = "\<lambda>m. G (m_obj m) (m_hist m) \<and> (\<forall>t. L t (m_obj m) (m_hist m) (m_thr m t))"],
    goal_cases)
  case 1
  then show ?case using init by (simp add: mon_init_def)
next
  case (2 m t pc)
  then have "m_thr m t = Idle \<or> (\<exists>r. m_thr m t = Done r)" by (cases "m_thr m t") auto
  then have "L t (m_obj m) (m_hist m) (Ready pc)"
    using call [of "m_obj m" "m_hist m" t "m_thr m t" pc] 2 by blast
  then show ?case using 2 by auto
next
  case (3 m t pc s' a ws)
  have Lt: "L t (m_obj m) (m_hist m) (Ready pc)" using 3(1,2) by (metis (full_types))
  have "L u s' ((t, pc, a) # m_hist m) (wake ws (m_thr m) u)" if "u \<noteq> t" for u
    using wake_cases [of ws "m_thr m" u] other [OF _ Lt 3(3) that] woken [OF _ Lt 3(3) that] 3(1) by metis
  then show ?case using 3 glob [OF _ Lt 3(3)] self [OF _ Lt 3(3)] by auto
qed

lemma mon_reach_play:
  assumes "mon_play run entry as (mon_init s0) = Some m"
  shows "mon_reach run entry s0 m"
proof -
  have "mon_play run entry as m1 = Some m \<Longrightarrow> (mon_step run entry)\<^sup>*\<^sup>* m1 m" for m1
  proof (induction run entry as m1 rule: mon_play.induct)
    case (2 run entry t pc as m1)
    then have e: "m_thr m1 t = Idle \<or> (\<exists>r. m_thr m1 t = Done r)" "entry pc"
      by (auto split: tstate.splits if_splits)
    then have "mon_step run entry m1 (m1\<lparr>m_thr := (m_thr m1)(t := Ready pc)\<rparr>)"
      using mon_call by fastforce
    moreover have "(mon_step run entry)\<^sup>*\<^sup>* (m1\<lparr>m_thr := (m_thr m1)(t := Ready pc)\<rparr>) m"
      using 2 e by (auto split: tstate.splits)
    ultimately show ?case by (rule converse_rtranclp_into_rtranclp)
  next
    case (3 run entry t as m1)
    then obtain pc s' a ws where e: "m_thr m1 t = Ready pc" "run pc t (m_obj m1) = Ret (s', a, ws)"
      by (auto split: tstate.splits sum.splits)
    let ?m2 = "\<lparr> m_obj = s', m_thr = (wake ws (m_thr m1))(t := after a), m_hist = (t, pc, a) # m_hist m1 \<rparr>"
    have "mon_step run entry m1 ?m2" using e by (rule mon_exec)
    moreover have "(mon_step run entry)\<^sup>*\<^sup>* ?m2 m" using 3 e by auto
    ultimately show ?case by (rule converse_rtranclp_into_rtranclp)
  qed auto
  then show ?thesis using assms by (simp add: mon_reach_def)
qed

fun sched_thread :: "'pc sched \<Rightarrow> ptr" where
  "sched_thread (Call t pc) = t"
| "sched_thread (Exec t) = t"

lemma mon_play_idle:
  assumes "mon_play run entry as m1 = Some m" "t \<notin> sched_thread ` set as" "m_thr m1 t = Idle"
  shows "m_thr m t = Idle"
  using assms
proof (induction run entry as m1 rule: mon_play.induct)
  case (2 run entry u pc as m1)
  then show ?case by (auto split: tstate.splits if_splits)
next
  case (3 run entry u as m1)
  then show ?case by (auto split: tstate.splits sum.splits)
qed simp

text \<open>A run ends stuck when none of its threads can go on.\<close>

lemma mon_play_stuck:
  assumes "mon_play run entry as (mon_init s0) = Some m" "\<forall>t \<in> sched_thread ` set as. \<forall>pc. m_thr m t \<noteq> Ready pc"
  shows "\<forall>t pc. m_thr m t \<noteq> Ready pc"
proof (intro allI)
  fix t pc
  show "m_thr m t \<noteq> Ready pc"
    using mon_play_idle [OF assms(1), of t] assms(2) by (cases "t \<in> sched_thread ` set as") (auto simp: mon_init_def)
qed

text \<open>
  The contract of an LCO as a monitor. \<^verbatim>\<open>legal\<close> restricts the program points (an error is
  never raised with a success code), \<^verbatim>\<open>waiters\<close> lists the parcels on the LCO's
  conditions, and \<^verbatim>\<open>parked s t pc\<close> says that \<^verbatim>\<open>t\<close> is queued where a wake-up
  for \<^verbatim>\<open>pc\<close> will find it and still has a reason to wait.
\<close>

locale lco_monitor =
  fixes run :: "'pc \<Rightarrow> ptr \<Rightarrow> 's \<Rightarrow> ('s, 'pc, 'r) section_result"
    and legal :: "'pc \<Rightarrow> bool"
    and ok :: "'s \<Rightarrow> bool"
    and waiters :: "'s \<Rightarrow> ptr list"
    and parked :: "'s \<Rightarrow> ptr \<Rightarrow> 'pc \<Rightarrow> bool"
  assumes ok_step: "ok s \<Longrightarrow> legal pc \<Longrightarrow> run pc t s = Ret (s', a, ws) \<Longrightarrow> ok s'"
    and return_waiters: "ok s \<Longrightarrow> legal pc \<Longrightarrow> run pc t s = Ret (s', a, ws) \<Longrightarrow> (\<forall>pc'. a \<noteq> Wait pc') \<Longrightarrow>
      mset (waiters s') + mset ws = mset (waiters s)"
    and wait_waiters: "ok s \<Longrightarrow> legal pc \<Longrightarrow> run pc t s = Ret (s', Wait pc', ws) \<Longrightarrow>
      mset (waiters s') + mset ws = add_mset t (mset (waiters s))"
    and wait_parked: "ok s \<Longrightarrow> legal pc \<Longrightarrow> run pc t s = Ret (s', Wait pc', ws) \<Longrightarrow>
      legal pc' \<and> parked s' t pc'"
    and goto_legal: "ok s \<Longrightarrow> legal pc \<Longrightarrow> run pc t s = Ret (s', Goto pc', ws) \<Longrightarrow> legal pc'"
    and keep_parked: "ok s \<Longrightarrow> legal pc \<Longrightarrow> run pc t s = Ret (s', a, ws) \<Longrightarrow> parked s u pc' \<Longrightarrow>
      u \<noteq> t \<Longrightarrow> u \<notin> set ws \<Longrightarrow> parked s' u pc'"
    and parked_waits: "ok s \<Longrightarrow> parked s u pc \<Longrightarrow> u \<in> set (waiters s)"
begin

definition wf :: "('s, 'pc, 'r) mon \<Rightarrow> bool" where
  "wf m = (ok (m_obj m) \<and> distinct (waiters (m_obj m)) \<and>
    (\<forall>t pc. m_thr m t = Ready pc \<or> m_thr m t = Blocked pc \<longrightarrow> legal pc) \<and>
    (\<forall>t. t \<in> set (waiters (m_obj m)) \<longleftrightarrow> (\<exists>pc. m_thr m t = Blocked pc)) \<and>
    (\<forall>t pc. m_thr m t = Blocked pc \<longrightarrow> parked (m_obj m) t pc))"

lemma waiters_step:
  assumes "ok s" "legal pc" "distinct (waiters s)" "t \<notin> set (waiters s)" "run pc t s = Ret (s', a, ws)"
  shows "distinct (waiters s')" "set ws \<subseteq> set (waiters s)"
    "set (waiters s') = (set (waiters s) - set ws) \<union> (if \<exists>pc'. a = Wait pc' then {t} else {})"
proof -
  let ?W = "if \<exists>pc'. a = Wait pc' then [t] else []"
  have m: "mset (waiters s' @ ws) = mset (?W @ waiters s)"
    using assms return_waiters wait_waiters by (cases a) auto
  have d: "distinct (?W @ waiters s)" using assms by auto
  have d': "distinct (waiters s' @ ws)" using d mset_eq_imp_distinct_iff [OF m] by blast
  have e: "set (waiters s' @ ws) = set (?W @ waiters s)" using mset_eq_setD [OF m] .
  show "distinct (waiters s')" using d' by simp
  have "t \<notin> set ws" if w: "a = Wait pc'" for pc'
  proof -
    have "t \<in> set (waiters s')"
      using wait_parked assms w parked_waits ok_step by blast
    then show ?thesis using d' by auto
  qed
  then show "set ws \<subseteq> set (waiters s)" using e assms(4) by (cases a) auto
  then show "set (waiters s') = (set (waiters s) - set ws) \<union> (if \<exists>pc'. a = Wait pc' then {t} else {})"
    using e d' assms(4) by (cases a) auto
qed

lemma wf_exec:
  assumes "wf m" "m_thr m t = Ready pc" "run pc t (m_obj m) = Ret (s', a, ws)"
  shows "wf \<lparr> m_obj = s', m_thr = (wake ws (m_thr m))(t := after a), m_hist = h \<rparr>"
proof -
  let ?s = "m_obj m"
  have ok: "ok ?s" "legal pc" and dis: "distinct (waiters ?s)" using assms unfolding wf_def by auto
  have t: "t \<notin> set (waiters ?s)" using assms unfolding wf_def by auto
  note w = waiters_step [OF ok dis t assms(3)]
  have "ok s'" using ok_step [OF ok assms(3)] .
  moreover have "legal pc'" if "((wake ws (m_thr m))(t := after a)) u = Ready pc' \<or>
      ((wake ws (m_thr m))(t := after a)) u = Blocked pc'" for u pc'
    using that assms(1) wait_parked [OF ok] goto_legal [OF ok] assms(3) unfolding wf_def
    by (cases "u = t"; cases a) auto
  moreover have "u \<in> set (waiters s') \<longleftrightarrow> (\<exists>pc. ((wake ws (m_thr m))(t := after a)) u = Blocked pc)" for u
    using w assms(1) t unfolding wf_def by (cases "u = t"; cases a) auto
  moreover have "parked s' u pc'" if "((wake ws (m_thr m))(t := after a)) u = Blocked pc'" for u pc'
  proof (cases "u = t")
    case True
    then have "a = Wait pc'" using that by (cases a) auto
    then show ?thesis using wait_parked [OF ok] assms(3) True by simp
  next
    case False
    then show ?thesis using that assms(1) keep_parked [OF ok assms(3)] unfolding wf_def by auto
  qed
  ultimately show ?thesis using w(1) unfolding wf_def by simp
qed

lemma reach_wf:
  assumes "mon_reach run entry s0 m" "ok s0" "waiters s0 = []" "\<And>pc. entry pc \<Longrightarrow> legal pc"
  shows "wf m"
  using assms(1)
proof (rule mon_reach_induct)
  show "wf (mon_init s0)" using assms(2,3) by (simp add: wf_def mon_init_def)
next
  fix m t pc
  assume "wf m" "\<forall>pc. m_thr m t \<noteq> Ready pc \<and> m_thr m t \<noteq> Blocked pc" "entry pc"
  then show "wf (m\<lparr>m_thr := (m_thr m)(t := Ready pc)\<rparr>)"
    using assms(4) unfolding wf_def by auto
qed (rule wf_exec)

text \<open>Every parked thread is queued exactly once, where its wake-up will find it.\<close>

lemma blocked_parked:
  assumes "mon_reach run entry s0 m" "ok s0" "waiters s0 = []" "\<And>pc. entry pc \<Longrightarrow> legal pc"
    and "m_thr m t = Blocked pc"
  shows "count (mset (waiters (m_obj m))) t = 1 \<and> parked (m_obj m) t pc"
  using reach_wf [OF assms(1-4)] assms(5) unfolding wf_def
  by (auto simp: distinct_count_atmost_1)

end

text \<open>The contract from one statement about a section.\<close>

definition lco_law :: "('pc \<Rightarrow> bool) \<Rightarrow> ('s \<Rightarrow> bool) \<Rightarrow> ('s \<Rightarrow> ptr list) \<Rightarrow> ('s \<Rightarrow> ptr \<Rightarrow> 'pc \<Rightarrow> bool) \<Rightarrow>
    's \<Rightarrow> ptr \<Rightarrow> 's \<Rightarrow> ('pc, 'r) act \<Rightarrow> ptr list \<Rightarrow> bool" where
  "lco_law legal ok waiters parked s t s' a ws =
    (ok s' \<and>
     mset (waiters s') + mset ws = (if \<exists>pc'. a = Wait pc' then {#t#} else {#}) + mset (waiters s) \<and>
     (\<forall>pc'. a = Wait pc' \<longrightarrow> legal pc' \<and> parked s' t pc') \<and>
     (\<forall>pc'. a = Goto pc' \<longrightarrow> legal pc') \<and>
     (\<forall>u pc'. parked s u pc' \<longrightarrow> u \<notin> set ws \<longrightarrow> parked s' u pc'))"

lemma lco_law_trans:
  assumes "lco_law legal ok waiters parked s t s1 (Return r) ws1" "lco_law legal ok waiters parked s1 t s' a ws2"
  shows "lco_law legal ok waiters parked s t s' a (ws1 @ ws2)"
proof -
  have "mset (waiters s1) + mset ws1 = mset (waiters s)" using assms(1) by (simp add: lco_law_def)
  moreover have "mset (waiters s') + mset ws2 = (if \<exists>pc'. a = Wait pc' then {#t#} else {#}) + mset (waiters s1)"
    using assms(2) by (simp add: lco_law_def)
  ultimately have "mset (waiters s') + mset (ws1 @ ws2) = (if \<exists>pc'. a = Wait pc' then {#t#} else {#}) + mset (waiters s)"
    by (simp add: ac_simps)
  then show ?thesis using assms unfolding lco_law_def by simp
qed

lemma lco_monitorI:
  assumes law: "\<And>s pc t s' a ws. ok s \<Longrightarrow> legal pc \<Longrightarrow> run pc t s = Ret (s', a, ws) \<Longrightarrow>
      lco_law legal ok waiters parked s t s' a ws"
    and waits: "\<And>s u pc. parked s u pc \<Longrightarrow> u \<in> set (waiters s)"
  shows "lco_monitor run legal ok waiters parked"
proof (unfold_locales, goal_cases)
  case (2 s pc t s' a ws)
  then show ?case using law [OF 2(1-3)] by (auto simp: lco_law_def)
next
  case (3 s pc t s' pc' ws)
  then show ?case using law [OF 3] by (auto simp: lco_law_def)
next
  case (7 s u pc)
  then show ?case using waits by blast
qed (use law in \<open>unfold lco_law_def, blast\<close>)+

text \<open>
  The laws of an LCO with one condition, by what a section does to that condition: nothing,
  parking the thread, being refused, waking everybody, failing, resetting.
\<close>

definition cond_parked :: "('s \<Rightarrow> cond) \<Rightarrow> ('s \<Rightarrow> 'pc \<Rightarrow> bool) \<Rightarrow> 's \<Rightarrow> ptr \<Rightarrow> 'pc \<Rightarrow> bool" where
  "cond_parked cnd blocks s t pc = (t \<in> set (cond_waiters (cnd s)) \<and> blocks s pc)"

abbreviation cond_law :: "('pc \<Rightarrow> bool) \<Rightarrow> ('s \<Rightarrow> cond) \<Rightarrow> ('s \<Rightarrow> 'pc \<Rightarrow> bool) \<Rightarrow>
    's \<Rightarrow> ptr \<Rightarrow> 's \<Rightarrow> ('pc, 'r) act \<Rightarrow> ptr list \<Rightarrow> bool" where
  "cond_law legal cnd blocks \<equiv>
    lco_law legal (\<lambda>s. cond_ok (cnd s)) (\<lambda>s. cond_waiters (cnd s)) (cond_parked cnd blocks)"

lemma law_quiet:
  assumes "cond_ok (cnd s)" "cnd s' = cnd s" "\<And>pc'. blocks s pc' \<Longrightarrow> blocks s' pc'"
  shows "cond_law legal cnd blocks s t s' (Return r) []"
  using assms by (simp add: lco_law_def cond_parked_def)

lemma law_park:
  assumes "cond_ok (cnd s)" "waitFor (cnd s) t = (c, HPX_SUCCESS)" "cnd s' = c" "legal pc" "blocks s' pc"
    "\<And>pc'. blocks s pc' \<Longrightarrow> blocks s' pc'"
  shows "cond_law legal cnd blocks s t s' (Wait pc) []"
proof -
  obtain ps where "cnd s = Waiting ps" "c = Waiting (t # ps)" using waitFor_cases [OF assms(2,1)] by auto
  then show ?thesis using assms(3-6) by (simp add: lco_law_def cond_parked_def)
qed

lemma law_refuse:
  assumes "cond_ok (cnd s)" "waitFor (cnd s) t = (c, status)" "status \<noteq> HPX_SUCCESS" "cnd s' = c"
    "\<And>pc'. blocks s pc' \<Longrightarrow> blocks s' pc'"
  shows "cond_law legal cnd blocks s t s' (Return r) []"
proof -
  have "c = cnd s" using waitFor_cases [OF assms(2,1)] assms(3) by auto
  then show ?thesis using assms by (intro law_quiet) simp_all
qed

lemma law_wake:
  assumes "cond_ok (cnd s)" "cnd s' = fst (c_popAll (cnd s))" "ws = snd (c_popAll (cnd s))"
  shows "cond_law legal cnd blocks s t s' (Return r) ws"
  using assms by (auto simp: lco_law_def cond_parked_def)

lemma law_fail:
  assumes "cond_ok (cnd s)" "e \<noteq> HPX_SUCCESS" "cnd s' = fst (c_setError (cnd s) e)" "ws = snd (c_setError (cnd s) e)"
  shows "cond_law legal cnd blocks s t s' (Return r) ws"
  using assms by (auto simp: lco_law_def cond_parked_def)

lemma law_reset:
  assumes "c_reset True (cnd s) = Ret c" "cnd s' = c"
  shows "cond_law legal cnd blocks s t s' (Return r) []"
proof -
  have "c = Waiting []" "cond_waiters (cnd s) = []" using assms(1) by (cases "cnd s"; auto split: if_splits)+
  then show ?thesis using assms(2) by (simp add: lco_law_def cond_parked_def)
qed

text \<open>
  The common shape of a wait in a loop: park the thread at \<^verbatim>\<open>pc\<close>, or return the error the
  condition already has; and of the return from it.
\<close>

definition wait_at :: "('s \<Rightarrow> cond) \<Rightarrow> (cond \<Rightarrow> 's \<Rightarrow> 's) \<Rightarrow> 'pc \<Rightarrow> ptr \<Rightarrow> 's \<Rightarrow> ('s, 'pc, 'v lres) section_result" where
  "wait_at cnd put pc t s =
    (case waitFor (cnd s) t of (c, status) \<Rightarrow>
       if status \<noteq> HPX_SUCCESS then Ret (put c s, Return (RStatus status), []) else Ret (put c s, Wait pc, []))"

definition resume_at :: "cond \<Rightarrow> 's \<Rightarrow> ('s, 'pc, 'v lres) section_result \<Rightarrow> ('s, 'pc, 'v lres) section_result" where
  "resume_at c s r =
    (let status = waitFor_resume c in if status \<noteq> HPX_SUCCESS then Ret (s, Return (RStatus status), []) else r)"

lemma law_wait_at:
  assumes "wait_at cnd put pc t s = Ret (s', a, ws)" "cond_ok (cnd s)" "\<And>c. cnd (put c s) = c" "legal pc"
    "\<And>c. blocks (put c s) pc" "\<And>c pc'. blocks s pc' \<Longrightarrow> blocks (put c s) pc'"
  shows "cond_law legal cnd blocks s t s' a ws"
proof -
  obtain c status where c: "waitFor (cnd s) t = (c, status)" by (cases "waitFor (cnd s) t")
  show ?thesis
  proof (cases "status = HPX_SUCCESS")
    case True
    then have "s' = put c s" "a = Wait pc" "ws = []" using assms(1) c by (simp_all add: wait_at_def)
    then show ?thesis using law_park [of cnd s t c s' legal pc blocks] c True assms by simp
  next
    case False
    then have "s' = put c s" "a = Return (RStatus status)" "ws = []" using assms(1) c by (simp_all add: wait_at_def)
    then show ?thesis using law_refuse [of cnd s t c status s' blocks legal] c False assms by simp
  qed
qed

lemma law_resume_at:
  assumes "resume_at c s r = Ret (s', a, ws)" "cond_ok (cnd s)"
    "r = Ret (s', a, ws) \<Longrightarrow> cond_law legal cnd blocks s t s' a ws"
  shows "cond_law legal cnd blocks s t s' a ws"
proof (cases "waitFor_resume c = HPX_SUCCESS")
  case True
  then show ?thesis using assms(1,3) by (simp add: resume_at_def)
next
  case False
  then have "s' = s" "a = Return (RStatus (waitFor_resume c))" "ws = []"
    using assms(1) by (auto simp: resume_at_def Let_def)
  then show ?thesis using law_quiet [of cnd s s] assms(2) by simp
qed

end
