(* ===== verification/Hpx_And.thy ===== *)
theory Hpx_And
  imports Hpx_Monitor
begin

text \<open>
  The and-gate LCO of \<^verbatim>\<open>libhpx/scheduler/lco/And.cpp\<close>: a count of inputs, decremented
  without the lock, and a barrier that the last input opens.
\<close>

record and_lco =
  and_state :: u16
  and_barrier :: cond
  and_count :: int
  and_value :: int

datatype and_pc =
  ASet int | ATrigger | AWait bool | AWaitResume bool | AError hpx_status | AReset | AAttach | ALaunch

definition And_new :: "int \<Rightarrow> and_lco" where
  "And_new inputs =
    \<lparr> and_state = (if inputs = 0 then fst (setTriggered 0) else 0), and_barrier = Waiting [],
      and_count = inputs, and_value = inputs \<rparr>"

definition And_unlockedReset :: "bool \<Rightarrow> and_lco \<Rightarrow> and_lco outcome" where
  "And_unlockedReset debug s =
    bindO (c_reset debug (and_barrier s)) (\<lambda>b.
      let st = resetTriggered (and_state s) in
      Ret (s\<lparr>and_count := and_value s, and_barrier := b,
             and_state := (if and_value s = 0 then fst (setTriggered st) else st)\<rparr>))"

definition And_wait_finish ::
  "bool \<Rightarrow> bool \<Rightarrow> hpx_status \<Rightarrow> and_lco \<Rightarrow> (and_lco, and_pc, 'v lres) section_result" where
  "And_wait_finish debug reset status s =
    (if reset \<and> status = HPX_SUCCESS
     then bindO (And_unlockedReset debug s) (\<lambda>s'. Ret (s', Return (RStatus status), []))
     else Ret (s, Return (RStatus status), []))"

definition And_wait :: "bool \<Rightarrow> bool \<Rightarrow> ptr \<Rightarrow> and_lco \<Rightarrow> (and_lco, and_pc, 'v lres) section_result" where
  "And_wait debug reset t s =
    (let status = c_getError (and_barrier s) in
     if status \<noteq> HPX_SUCCESS then Ret (s, Return (RStatus status), [])
     else if \<not> getTriggered (and_state s) then
       (case waitFor (and_barrier s) t of (b, status') \<Rightarrow>
          if status' \<noteq> HPX_SUCCESS then And_wait_finish debug reset status' (s\<lparr>and_barrier := b\<rparr>)
          else Ret (s\<lparr>and_barrier := b\<rparr>, Wait (AWaitResume reset), []))
     else And_wait_finish debug reset status s)"

definition And_wait_resume :: "bool \<Rightarrow> bool \<Rightarrow> and_lco \<Rightarrow> (and_lco, and_pc, 'v lres) section_result" where
  "And_wait_resume debug reset s = And_wait_finish debug reset (waitFor_resume (and_barrier s)) s"

definition And_attach :: "and_lco \<Rightarrow> ptr \<Rightarrow> and_lco \<times> hpx_status \<times> ptr list" where
  "And_attach s p =
    (let status = c_getError (and_barrier s) in
     if status \<noteq> HPX_SUCCESS then (s, status, [])
     else if getTriggered (and_state s) then (s, HPX_SUCCESS, [p])
     else case c_push (and_barrier s) p of (b, status') \<Rightarrow> (s\<lparr>and_barrier := b\<rparr>, status', []))"

definition And_set :: "int \<Rightarrow> and_lco \<Rightarrow> (and_lco, and_pc, 'v lres) section_result" where
  "And_set n s =
    (let c = and_count s; s' = s\<lparr>and_count := s32wrap (c - n)\<rparr> in
     if c > n then Ret (s', Return (RSet 0), [])
     else if c = n then Ret (s', Goto ATrigger, [])
     else Fault Dbg_error)"

definition And_set_trigger :: "and_lco \<Rightarrow> (and_lco, and_pc, 'v lres) section_result" where
  "And_set_trigger s =
    assertO (\<not> getTriggered (and_state s))
      (case c_popAll (and_barrier s) of (b, ws) \<Rightarrow>
        Ret (s\<lparr>and_state := fst (setTriggered (and_state s)), and_barrier := b\<rparr>, Return (RSet 1), ws))"

definition And_error :: "hpx_status \<Rightarrow> and_lco \<Rightarrow> and_lco \<times> ptr list" where
  "And_error code s =
    (case c_setError (and_barrier s) code of (b, ws) \<Rightarrow> (s\<lparr>and_barrier := b\<rparr>, ws))"

definition And_reset :: "bool \<Rightarrow> and_lco \<Rightarrow> and_lco outcome" where
  "And_reset debug s = And_unlockedReset debug s"

text \<open>
  An attached parcel is a thread of the model: it is launched at once, refused with a
  status, or parked until a wake-up launches it.
\<close>

fun and_run :: "bool \<Rightarrow> and_pc \<Rightarrow> ptr \<Rightarrow> and_lco \<Rightarrow> (and_lco, and_pc, 'v lres) section_result" where
  "and_run debug (ASet n) t s = And_set n s"
| "and_run debug ATrigger t s = And_set_trigger s"
| "and_run debug (AWait reset) t s = And_wait debug reset t s"
| "and_run debug (AWaitResume reset) t s = And_wait_resume debug reset s"
| "and_run debug (AError code) t s = (case And_error code s of (s', ws) \<Rightarrow> Ret (s', Return RVoid, ws))"
| "and_run debug AReset t s = bindO (And_reset debug s) (\<lambda>s'. Ret (s', Return RVoid, []))"
| "and_run debug AAttach t s = attach_section ALaunch t (And_attach s t)"
| "and_run debug ALaunch t s = Ret (s, Return RLaunched, [])"

fun and_entry :: "and_pc \<Rightarrow> bool" where
  "and_entry (ASet n) = (n > 0)"
| "and_entry (AWait r) = True"
| "and_entry (AError e) = (e \<noteq> HPX_SUCCESS)"
| "and_entry AReset = True"
| "and_entry AAttach = True"
| "and_entry pc = False"

fun and_legal :: "and_pc \<Rightarrow> bool" where
  "and_legal (AError e) = (e \<noteq> HPX_SUCCESS)"
| "and_legal pc = True"

definition and_parked :: "and_lco \<Rightarrow> ptr \<Rightarrow> and_pc \<Rightarrow> bool" where
  "and_parked s t pc = (t \<in> set (cond_waiters (and_barrier s)) \<and> \<not> getTriggered (and_state s) \<and>
    (pc = ALaunch \<or> (\<exists>r. pc = AWaitResume r)))"

lemmas and_ops = And_set_def And_set_trigger_def And_wait_def And_wait_resume_def And_wait_finish_def
  And_unlockedReset_def And_error_def And_reset_def And_attach_def attach_section_def waitFor_def
  waitFor_resume_def Let_def

lemma and_law:
  assumes "cond_ok (and_barrier s)" "and_legal pc" "and_run True pc t s = Ret (s', a, ws)"
  shows "lco_law and_legal (\<lambda>s. cond_ok (and_barrier s)) (\<lambda>s. cond_waiters (and_barrier s)) and_parked s t s' a ws"
  using assms
  by (cases pc; cases "and_barrier s")
    (auto simp: and_ops outcome_simps lco_law_def and_parked_def split: if_splits)

interpretation andm: lco_monitor "and_run True" and_legal "\<lambda>s. cond_ok (and_barrier s)"
  "\<lambda>s. cond_waiters (and_barrier s)" and_parked
  by (rule lco_monitorI) (fact and_law, simp add: and_parked_def)

section \<open>The gate opens exactly when its inputs are in\<close>

text \<open>One generation of the gate: no operation resets it.\<close>

fun and_once :: "and_pc \<Rightarrow> bool" where
  "and_once (ASet n) = (n > 0)"
| "and_once (AWait r) = (\<not> r)"
| "and_once (AError e) = (e \<noteq> HPX_SUCCESS)"
| "and_once AAttach = True"
| "and_once pc = False"

lemma and_once_legal: "and_once pc \<Longrightarrow> and_legal pc"
  by (cases pc) auto

fun and_inputs :: "(ptr \<times> and_pc \<times> (and_pc, 'v lres) act) list \<Rightarrow> int" where
  "and_inputs [] = 0"
| "and_inputs ((t, ASet n, a) # h) = n + and_inputs h"
| "and_inputs ((t, pc, a) # h) = and_inputs h"

fun and_opener :: "(ptr \<times> and_pc \<times> (and_pc, 'v lres) act) list \<Rightarrow> ptr option" where
  "and_opener [] = None"
| "and_opener ((t, pc, a) # h) = (if a = Goto ATrigger then Some t else and_opener h)"

definition and_open :: "and_lco \<Rightarrow> bool" where
  "and_open s = (getTriggered (and_state s) \<or> c_getError (and_barrier s) \<noteq> HPX_SUCCESS)"

definition and_G :: "int \<Rightarrow> and_lco \<Rightarrow> (ptr \<times> and_pc \<times> (and_pc, 'v lres) act) list \<Rightarrow> bool" where
  "and_G v s h = (cond_ok (and_barrier s) \<and> 0 \<le> and_count s \<and> and_count s \<le> v \<and>
    v = and_count s + and_inputs h \<and> (and_opener h \<noteq> None \<longrightarrow> and_count s = 0) \<and>
    (getTriggered (and_state s) \<longrightarrow> and_count s = 0) \<and>
    (and_count s = 0 \<and> \<not> getTriggered (and_state s) \<longrightarrow> and_opener h \<noteq> None))"

definition and_L :: "ptr \<Rightarrow> and_lco \<Rightarrow> (ptr \<times> and_pc \<times> (and_pc, 'v lres) act) list \<Rightarrow>
    (and_pc, 'v lres) tstate \<Rightarrow> bool" where
  "and_L t s h x =
    ((x = Ready ATrigger \<longleftrightarrow> and_opener h = Some t \<and> \<not> getTriggered (and_state s)) \<and>
     (case x of
        Ready pc \<Rightarrow> and_once pc \<or> pc = ATrigger \<or> ((pc = ALaunch \<or> pc = AWaitResume False) \<and> and_open s)
      | Blocked pc \<Rightarrow> pc = ALaunch \<or> pc = AWaitResume False
      | Done r \<Rightarrow> r = RStatus HPX_SUCCESS \<longrightarrow> getTriggered (and_state s)
      | Idle \<Rightarrow> True))"

text \<open>What a section of a one-generation gate does, by kind.\<close>

definition and_quiet :: "and_lco \<Rightarrow> and_lco \<Rightarrow> (and_pc, 'v lres) act \<Rightarrow> ptr list \<Rightarrow> bool" where
  "and_quiet s s' a ws = (and_count s' = and_count s \<and> getTriggered (and_state s') = getTriggered (and_state s) \<and>
    (c_getError (and_barrier s) \<noteq> HPX_SUCCESS \<longrightarrow> c_getError (and_barrier s') \<noteq> HPX_SUCCESS) \<and>
    (ws \<noteq> [] \<longrightarrow> c_getError (and_barrier s') \<noteq> HPX_SUCCESS) \<and>
    (a = Wait ALaunch \<or> a = Wait (AWaitResume False) \<or>
      (\<exists>r. a = Return r \<and> (r = RStatus HPX_SUCCESS \<longrightarrow> getTriggered (and_state s)))))"

lemma and_run_effect:
  assumes "and_run debug pc t s = Ret (s', a, ws)" "cond_ok (and_barrier s)"
    "and_once pc \<or> pc = ATrigger \<or> ((pc = ALaunch \<or> pc = AWaitResume False) \<and> and_open s)"
  shows "cond_ok (and_barrier s')"
    "(\<exists>n. pc = ASet n \<and> 0 < n \<and> n \<le> and_count s \<and> s' = s\<lparr>and_count := s32wrap (and_count s - n)\<rparr> \<and> ws = [] \<and>
        a = (if n < and_count s then Return (RSet 0) else Goto ATrigger)) \<or>
     (pc = ATrigger \<and> \<not> getTriggered (and_state s) \<and> getTriggered (and_state s') \<and> and_count s' = and_count s \<and>
        c_getError (and_barrier s') = c_getError (and_barrier s) \<and> a = Return (RSet 1)) \<or>
     (pc \<noteq> ATrigger \<and> (\<forall>n. pc \<noteq> ASet n) \<and> and_quiet s s' a ws)"
  using assms
  by (cases pc; cases "and_barrier s"; auto simp: and_ops and_quiet_def and_open_def outcome_simps split: if_splits)+

lemma and_L_legal: "and_L t s h (Ready pc) \<Longrightarrow>
    and_once pc \<or> pc = ATrigger \<or> ((pc = ALaunch \<or> pc = AWaitResume False) \<and> and_open s)"
  by (auto simp: and_L_def)

lemma and_inputs_skip: "(\<forall>n. pc \<noteq> ASet n) \<Longrightarrow> and_inputs ((t, pc, a) # h) = and_inputs h"
  by (cases pc) auto

text \<open>The three kinds of step, as a rule for case analysis.\<close>

lemma and_step_cases:
  assumes "and_G v s h" "and_L t s h (Ready pc)" "and_run debug pc t s = Ret (s', a, ws)" "v < 2 ^ 31"
  obtains (set) n where "pc = ASet n" "0 < n" "n \<le> and_count s" "s' = s\<lparr>and_count := and_count s - n\<rparr>" "ws = []"
      "a = (if n < and_count s then Return (RSet 0) else Goto ATrigger)"
    | (trigger) "pc = ATrigger" "\<not> getTriggered (and_state s)" "and_opener h = Some t"
      "getTriggered (and_state s')" "and_count s' = and_count s" "a = Return (RSet 1)"
    | (quiet) "pc \<noteq> ATrigger" "\<forall>n. pc \<noteq> ASet n" "and_quiet s s' a ws"
proof -
  have ok: "cond_ok (and_barrier s)" and c: "and_count s \<le> v" using assms(1) by (simp_all add: and_G_def)
  have "s32wrap (and_count s - n) = and_count s - n" if "n \<le> and_count s" "0 < n" for n
    using that c assms(4) by (intro s32wrap_id) auto
  note w = this
  have o: "pc = ATrigger \<Longrightarrow> and_opener h = Some t" using assms(2) by (simp add: and_L_def)
  from and_run_effect(2) [OF assms(3) ok and_L_legal [OF assms(2)]] show thesis
  proof (elim disjE exE conjE)
    fix n
    assume "pc = ASet n" "0 < n" "n \<le> and_count s" "s' = s\<lparr>and_count := s32wrap (and_count s - n)\<rparr>" "ws = []"
      "a = (if n < and_count s then Return (RSet 0) else Goto ATrigger)"
    then show thesis using w by (intro set [of n]) simp_all
  next
    assume "pc = ATrigger" "\<not> getTriggered (and_state s)" "getTriggered (and_state s')"
      "and_count s' = and_count s" "a = Return (RSet 1)"
    then show thesis using o by (intro trigger) simp_all
  qed (rule quiet)
qed

lemma and_inv_global:
  assumes "and_G v s h" "and_L t s h (Ready pc)" "and_run debug pc t s = Ret (s', a, ws)" "v < 2 ^ 31"
  shows "and_G v s' ((t, pc, a) # h)"
proof -
  have ok: "cond_ok (and_barrier s')"
    using and_run_effect(1) [OF assms(3) _ and_L_legal [OF assms(2)]] assms(1) by (simp add: and_G_def)
  from assms show ?thesis
  proof (cases rule: and_step_cases)
    case (set n)
    then show ?thesis using assms(1) by (auto simp: and_G_def)
  next
    case trigger
    then show ?thesis using assms(1) ok by (simp add: and_G_def)
  next
    case quiet
    then show ?thesis using assms(1) ok by (auto simp: and_G_def and_quiet_def and_inputs_skip)
  qed
qed

lemma and_inv_self:
  assumes "and_G v s h" "and_L t s h (Ready pc)" "and_run debug pc t s = Ret (s', a, ws)" "v < 2 ^ 31"
  shows "and_L t s' ((t, pc, a) # h) (after a)"
  using assms
proof (cases rule: and_step_cases)
  case (set n)
  then show ?thesis using assms(1,2) by (auto simp: and_L_def and_G_def)
next
  case trigger
  then show ?thesis by (simp add: and_L_def)
next
  case quiet
  then show ?thesis using assms(2) by (auto simp: and_L_def and_quiet_def)
qed

lemma and_inv_other:
  assumes "and_G v s h" "and_L t s h (Ready pc)" "and_run debug pc t s = Ret (s', a, ws)" "v < 2 ^ 31"
    and "u \<noteq> t" "and_L u s h x"
  shows "and_L u s' ((t, pc, a) # h) x"
  using assms(1-4)
proof (cases rule: and_step_cases)
  case (set n)
  have "and_opener h = None \<or> and_count s = 0" using assms(1) by (auto simp: and_G_def)
  then show ?thesis using set assms(5,6) by (cases x) (auto simp: and_L_def and_open_def)
next
  case trigger
  then show ?thesis using assms(5,6) by (cases x) (auto simp: and_L_def and_open_def)
next
  case quiet
  then show ?thesis using assms(6)
    by (cases x) (auto simp: and_L_def and_open_def and_quiet_def split: if_splits)
qed

lemma and_inv_woken:
  assumes "and_G v s h" "and_L t s h (Ready pc)" "and_run debug pc t s = Ret (s', a, ws)" "v < 2 ^ 31"
    and "u \<noteq> t" "u \<in> set ws" "and_L u s h (Blocked pc')"
  shows "and_L u s' ((t, pc, a) # h) (Ready pc')"
  using assms(1-4)
proof (cases rule: and_step_cases)
  case (set n)
  then show ?thesis using assms(6) by simp
next
  case trigger
  then show ?thesis using assms(5,7) by (auto simp: and_L_def and_open_def)
next
  case quiet
  then show ?thesis using assms(6,7)
    by (auto simp: and_L_def and_open_def and_quiet_def split: if_splits)
qed

lemma and_reach_inv:
  assumes "mon_reach (and_run debug) and_once (And_new v) m" "0 \<le> v" "v < 2 ^ 31"
  shows "and_G v (m_obj m) (m_hist m) \<and> (\<forall>t. and_L t (m_obj m) (m_hist m) (m_thr m t))"
proof (rule mon_local_induct [OF assms(1)])
  show "and_G v (And_new v) []" using assms(2) by (simp add: and_G_def And_new_def)
  show "and_L t (And_new v) [] Idle" for t by (simp add: and_L_def)
  show "and_L t s h (Ready pc)" if "and_L t s h x" "x = Idle \<or> (\<exists>r. x = Done r)" "and_once pc" for t s h x pc
    using that by (cases pc) (auto simp: and_L_def)
qed (use assms(3) in \<open>auto intro: and_inv_global and_inv_self and_inv_other and_inv_woken\<close>)

text \<open>
  C23: In every interleaving of sets, waits, attaches and errors on an and-gate with \<open>v\<close>
  inputs, the count is what the executed sets left of \<open>v\<close> and never negative; a wait returns
  success only after inputs of \<open>v\<close> in all arrived; and once they have arrived and the
  last set has run its trigger, nobody is left blocked.
\<close>
theorem and_gate_opens_at_zero:
  assumes "mon_reach (and_run True) and_once (And_new v) m" "0 \<le> v" "v < 2 ^ 31"
  shows "0 \<le> and_count (m_obj m) \<and> v = and_count (m_obj m) + and_inputs (m_hist m) \<and>
    (m_thr m t = Done (RStatus HPX_SUCCESS) \<longrightarrow> and_inputs (m_hist m) = v) \<and>
    (and_inputs (m_hist m) = v \<and> (\<forall>u. m_thr m u \<noteq> Ready ATrigger) \<longrightarrow> m_thr m t \<noteq> Blocked pc)"
proof -
  have G: "and_G v (m_obj m) (m_hist m)" and L: "\<And>t. and_L t (m_obj m) (m_hist m) (m_thr m t)"
    using and_reach_inv [OF assms] by blast+
  have "and_inputs (m_hist m) = v" if "m_thr m t = Done (RStatus HPX_SUCCESS)"
    using G L [of t] that by (simp add: and_G_def and_L_def)
  moreover have "m_thr m t \<noteq> Blocked pc"
    if full: "and_inputs (m_hist m) = v" and no: "\<forall>u. m_thr m u \<noteq> Ready ATrigger"
  proof
    assume "m_thr m t = Blocked pc"
    then have "and_parked (m_obj m) t pc"
      using andm.blocked_parked [OF assms(1) _ _ and_once_legal] by (simp add: And_new_def)
    then have "\<not> getTriggered (and_state (m_obj m))" by (simp add: and_parked_def)
    then obtain u where "and_opener (m_hist m) = Some u" using G full by (auto simp: and_G_def)
    then show False using L [of u] no \<open>\<not> getTriggered (and_state (m_obj m))\<close> by (simp add: and_L_def)
  qed
  ultimately show ?thesis using G unfolding and_G_def by blast
qed

theorem and_gate_opens_at_zero_witness:
  "\<exists>m :: (and_lco, and_pc, unit lres) mon. mon_reach (and_run True) and_once (And_new 2) m \<and>
    m_thr m 1 = Done (RStatus HPX_SUCCESS) \<and> and_inputs (m_hist m) = 2"
proof -
  let ?r = "mon_play (and_run True) and_once
    [Call 1 (AWait False), Exec 1, Call 2 (ASet 1), Exec 2, Call 3 (ASet 1), Exec 3, Exec 3, Exec 1]
    (mon_init (And_new 2)) :: (and_lco, and_pc, unit lres) mon option"
  have "\<exists>m. ?r = Some m \<and> m_thr m 1 = Done (RStatus HPX_SUCCESS)"
    by (simp add: mon_init_def And_new_def and_ops wake_def s32wrap_def HPX_SUCCESS_def)
  then obtain m where m: "?r = Some m" "m_thr m 1 = Done (RStatus HPX_SUCCESS)" by blast
  have r: "mon_reach (and_run True) and_once (And_new 2) m" using m(1) by (rule mon_reach_play)
  have "and_inputs (m_hist m) = 2" using and_gate_opens_at_zero [OF r, of 1] m(2) by simp
  then show ?thesis using r m(2) by blast
qed

end
