(* ===== verification/Hpx_Future.thy ===== *)
theory Hpx_Future
  imports Hpx_Monitor
begin

text \<open>
  The future LCO of \<^verbatim>\<open>libhpx/scheduler/lco/Future.cpp\<close>: a buffer that is written once,
  and a condition that the write signals. \<^verbatim>\<open>getRef\<close> hands out the buffer itself; its
  caller \<^verbatim>\<open>LCO::GetHandler\<close> reads it later, without the lock.
\<close>

record future =
  fut_state :: u16
  fut_full :: cond
  fut_value :: "byte list"

datatype future_pc =
  FSet nat "byte list option" | FGet nat bool bool | FGetResume nat bool bool |
  FGetRef nat | FGetRefResume nat | FReadRef nat | FError hpx_status | FReset | FAttach | FLaunch

type_synonym fres = "byte list lres"

definition Future_new :: "bool \<Rightarrow> nat \<Rightarrow> future" where
  "Future_new debug n =
    \<lparr> fut_state = (if n \<noteq> 0 \<and> debug then setUser 0 else 0), fut_full = Waiting [],
      fut_value = replicate n 0 \<rparr>"

definition Future_resetFull :: "bool \<Rightarrow> future \<Rightarrow> future outcome" where
  "Future_resetFull debug s =
    bindO (c_reset debug (fut_full s)) (\<lambda>c. Ret (s\<lparr>fut_state := resetTriggered (fut_state s), fut_full := c\<rparr>))"

definition lco_memcpy :: "byte list \<Rightarrow> byte list \<Rightarrow> nat \<Rightarrow> byte list outcome" where
  "lco_memcpy dst src n =
    (if n \<le> length src \<and> n \<le> length dst then Ret (take n src @ drop n dst) else Fault Out_of_bounds)"

definition Future_set :: "bool \<Rightarrow> nat \<Rightarrow> byte list option \<Rightarrow> future \<Rightarrow> (future \<times> int \<times> ptr list) outcome" where
  "Future_set debug n from s =
    (if debug \<and> n \<noteq> 0 \<and> \<not> getUser (fut_state s) then Fault Dbg_error
     else if snd (setTriggered (fut_state s)) then Fault Dbg_error
     else bindO (case from of Some d \<Rightarrow> if n \<noteq> 0 then lco_memcpy (fut_value s) d n else Ret (fut_value s)
                              | None \<Rightarrow> Ret (fut_value s)) (\<lambda>v.
         case c_popAll (fut_full s) of (c, ws) \<Rightarrow>
           Ret (s\<lparr>fut_state := fst (setTriggered (fut_state s)), fut_full := c, fut_value := v\<rparr>, 1, ws)))"

text \<open>\<^verbatim>\<open>get\<close> after \<^verbatim>\<open>waitFull\<close> returned \<^verbatim>\<open>status\<close>.\<close>

definition Future_get_finish ::
  "bool \<Rightarrow> nat \<Rightarrow> bool \<Rightarrow> bool \<Rightarrow> hpx_status \<Rightarrow> future \<Rightarrow> (future \<times> fres) outcome" where
  "Future_get_finish debug n out reset status s =
    (if status \<noteq> HPX_SUCCESS then Ret (s, RStatus status)
     else bindO
       (if n \<noteq> 0 \<and> out then (if n \<le> length (fut_value s) then Ret (RValue (take n (fut_value s))) else Fault Out_of_bounds)
        else assertO (n = 0 \<and> \<not> out) (Ret (RStatus HPX_SUCCESS)))
       (\<lambda>r. if reset then bindO (Future_resetFull debug s) (\<lambda>s'. Ret (s', r)) else Ret (s, r)))"

definition Future_waitFull :: "ptr \<Rightarrow> future \<Rightarrow> future \<times> hpx_status \<times> bool" where
  "Future_waitFull t s =
    (if getTriggered (fut_state s) then (s, c_getError (fut_full s), False)
     else case waitFor (fut_full s) t of (c, status) \<Rightarrow>
       (s\<lparr>fut_full := c\<rparr>, status, status = HPX_SUCCESS))"

definition Future_get ::
  "bool \<Rightarrow> nat \<Rightarrow> bool \<Rightarrow> bool \<Rightarrow> ptr \<Rightarrow> future \<Rightarrow> (future, future_pc, fres) section_result" where
  "Future_get debug n out reset t s =
    (if debug \<and> n \<noteq> 0 \<and> \<not> getUser (fut_state s) then Fault Dbg_error
     else case Future_waitFull t s of (s', status, waits) \<Rightarrow>
       if waits then Ret (s', Wait (FGetResume n out reset), [])
       else bindO (Future_get_finish debug n out reset status s') (\<lambda>(s'', r). Ret (s'', Return r, [])))"

definition Future_get_resume ::
  "bool \<Rightarrow> nat \<Rightarrow> bool \<Rightarrow> bool \<Rightarrow> future \<Rightarrow> (future, future_pc, fres) section_result" where
  "Future_get_resume debug n out reset s =
    bindO (Future_get_finish debug n out reset (waitFor_resume (fut_full s)) s) (\<lambda>(s', r). Ret (s', Return r, []))"

text \<open>\<^verbatim>\<open>getRef\<close> is \<^verbatim>\<open>wait(0)\<close>, which is \<^verbatim>\<open>get(0, NULL, 0)\<close>; on success the buffer is read afterwards.\<close>

definition Future_getRef_finish :: "nat \<Rightarrow> future \<times> fres \<Rightarrow> (future, future_pc, fres) section_result" where
  "Future_getRef_finish n r =
    (case r of (s, r') \<Rightarrow> if r' = RStatus HPX_SUCCESS then Ret (s, Goto (FReadRef n), []) else Ret (s, Return r', []))"

definition Future_getRef :: "bool \<Rightarrow> nat \<Rightarrow> ptr \<Rightarrow> future \<Rightarrow> (future, future_pc, fres) section_result" where
  "Future_getRef debug n t s =
    assertO (n \<noteq> 0)
     (case Future_waitFull t s of (s', status, waits) \<Rightarrow>
       if waits then Ret (s', Wait (FGetRefResume n), [])
       else bindO (Future_get_finish debug 0 False False status s') (Future_getRef_finish n))"

definition Future_getRef_resume :: "bool \<Rightarrow> nat \<Rightarrow> future \<Rightarrow> (future, future_pc, fres) section_result" where
  "Future_getRef_resume debug n s =
    bindO (Future_get_finish debug 0 False False (waitFor_resume (fut_full s)) s) (Future_getRef_finish n)"

definition Future_readRef :: "nat \<Rightarrow> future \<Rightarrow> fres outcome" where
  "Future_readRef n s = (if n \<le> length (fut_value s) then Ret (RValue (take n (fut_value s))) else Fault Out_of_bounds)"

definition Future_error :: "hpx_status \<Rightarrow> future \<Rightarrow> future \<times> ptr list" where
  "Future_error code s =
    (case c_setError (fut_full s) code of (c, ws) \<Rightarrow>
      (s\<lparr>fut_state := fst (setTriggered (fut_state s)), fut_full := c\<rparr>, ws))"

definition Future_reset :: "bool \<Rightarrow> future \<Rightarrow> future outcome" where
  "Future_reset debug s = Future_resetFull debug s"

definition Future_attach :: "future \<Rightarrow> ptr \<Rightarrow> future \<times> hpx_status \<times> ptr list" where
  "Future_attach s p =
    (if \<not> getTriggered (fut_state s) then
       (case c_push (fut_full s) p of (c, status) \<Rightarrow> (s\<lparr>fut_full := c\<rparr>, status, []))
     else let status = c_getError (fut_full s) in
       if status \<noteq> HPX_SUCCESS then (s, status, []) else (s, HPX_SUCCESS, [p]))"

fun future_run :: "bool \<Rightarrow> future_pc \<Rightarrow> ptr \<Rightarrow> future \<Rightarrow> (future, future_pc, fres) section_result" where
  "future_run debug (FSet n from) t s = bindO (Future_set debug n from s) (\<lambda>(s', r, ws). Ret (s', Return (RSet r), ws))"
| "future_run debug (FGet n out reset) t s = Future_get debug n out reset t s"
| "future_run debug (FGetResume n out reset) t s = Future_get_resume debug n out reset s"
| "future_run debug (FGetRef n) t s = Future_getRef debug n t s"
| "future_run debug (FGetRefResume n) t s = Future_getRef_resume debug n s"
| "future_run debug (FReadRef n) t s = bindO (Future_readRef n s) (\<lambda>r. Ret (s, Return r, []))"
| "future_run debug (FError code) t s = (case Future_error code s of (s', ws) \<Rightarrow> Ret (s', Return RVoid, ws))"
| "future_run debug FReset t s = bindO (Future_reset debug s) (\<lambda>s'. Ret (s', Return RVoid, []))"
| "future_run debug FAttach t s = attach_section FLaunch t (Future_attach s t)"
| "future_run debug FLaunch t s = Ret (s, Return RLaunched, [])"

fun future_legal :: "future_pc \<Rightarrow> bool" where
  "future_legal (FError e) = (e \<noteq> HPX_SUCCESS)"
| "future_legal pc = True"

definition future_parked :: "future \<Rightarrow> ptr \<Rightarrow> future_pc \<Rightarrow> bool" where
  "future_parked s t pc = (t \<in> set (cond_waiters (fut_full s)) \<and> \<not> getTriggered (fut_state s) \<and>
    (case pc of FGetResume _ _ _ \<Rightarrow> True | FGetRefResume _ \<Rightarrow> True | FLaunch \<Rightarrow> True | _ \<Rightarrow> False))"

lemmas future_ops = Future_set_def Future_get_def Future_get_resume_def Future_get_finish_def
  Future_waitFull_def Future_getRef_def Future_getRef_resume_def Future_getRef_finish_def Future_readRef_def
  Future_error_def Future_reset_def Future_resetFull_def Future_attach_def attach_section_def waitFor_def
  waitFor_resume_def Let_def lco_memcpy_def

lemma future_law:
  assumes "cond_ok (fut_full s)" "future_legal pc" "future_run True pc t s = Ret (s', a, ws)"
  shows "lco_law future_legal (\<lambda>s. cond_ok (fut_full s)) (\<lambda>s. cond_waiters (fut_full s)) future_parked s t s' a ws"
  using assms
  by (cases pc; cases "fut_full s")
    (auto simp: future_ops outcome_simps lco_law_def future_parked_def split: if_splits option.splits)

interpretation futm: lco_monitor "future_run True" future_legal "\<lambda>s. cond_ok (fut_full s)"
  "\<lambda>s. cond_waiters (fut_full s)" future_parked
  by (rule lco_monitorI) (fact future_law, simp add: future_parked_def)

section \<open>A future is written once and read alike by all\<close>

fun future_once :: "future_pc \<Rightarrow> bool" where
  "future_once (FGet n out reset) = (\<not> reset)"
| "future_once (FError e) = (e \<noteq> HPX_SUCCESS)"
| "future_once (FSet n from) = True"
| "future_once (FGetRef n) = True"
| "future_once FAttach = True"
| "future_once pc = False"

lemma future_once_legal: "future_once pc \<Longrightarrow> future_legal pc"
  by (cases pc) auto

text \<open>The writes of a history, newest first.\<close>

fun future_writes :: "(ptr \<times> future_pc \<times> (future_pc, fres) act) list \<Rightarrow> (nat \<times> byte list option) list" where
  "future_writes [] = []"
| "future_writes ((t, FSet n from, a) # h) = (n, from) # future_writes h"
| "future_writes ((t, pc, a) # h) = future_writes h"

fun written :: "nat \<Rightarrow> (nat \<times> byte list option) list \<Rightarrow> byte list" where
  "written sz [(n, Some d)] = take n d @ replicate (sz - n) 0"
| "written sz ws = replicate sz 0"

definition future_G :: "nat \<Rightarrow> future \<Rightarrow> (ptr \<times> future_pc \<times> (future_pc, fres) act) list \<Rightarrow> bool" where
  "future_G sz s h = (cond_ok (fut_full s) \<and> length (future_writes h) \<le> 1 \<and>
    (future_writes h \<noteq> [] \<longrightarrow> getTriggered (fut_state s)) \<and>
    (getTriggered (fut_state s) \<and> c_getError (fut_full s) = HPX_SUCCESS \<longrightarrow> future_writes h \<noteq> []) \<and>
    fut_value s = written sz (future_writes h))"

lemma future_writes_skip: "(\<forall>n from. pc \<noteq> FSet n from) \<Longrightarrow> future_writes ((t, pc, a) # h) = future_writes h"
  by (cases pc) auto

text \<open>What a section does to a one-generation future, unless it is a set.\<close>

definition future_quiet :: "future \<Rightarrow> future \<Rightarrow> future_pc \<Rightarrow> (future_pc, fres) act \<Rightarrow> ptr list \<Rightarrow> bool" where
  "future_quiet s s' pc a ws = (fut_value s' = fut_value s \<and> cond_ok (fut_full s') \<and>
    (getTriggered (fut_state s) \<longrightarrow> getTriggered (fut_state s')) \<and>
    (getTriggered (fut_state s') \<and> c_getError (fut_full s') = HPX_SUCCESS \<longrightarrow>
      getTriggered (fut_state s) \<and> c_getError (fut_full s) = HPX_SUCCESS) \<and>
    (ws \<noteq> [] \<longrightarrow> getTriggered (fut_state s')) \<and>
    (case a of
       Wait pc' \<Rightarrow> (case pc' of FGetResume n out reset \<Rightarrow> \<not> reset | FGetRefResume n \<Rightarrow> True | FLaunch \<Rightarrow> True | _ \<Rightarrow> False)
     | Goto pc' \<Rightarrow> (\<exists>n. pc' = FReadRef n) \<and> getTriggered (fut_state s) \<and> c_getError (fut_full s) = HPX_SUCCESS
     | Return r \<Rightarrow> (\<forall>d. r = RValue d \<longrightarrow> d = take (length d) (fut_value s) \<and>
         ((\<exists>n. pc = FReadRef n) \<or> getTriggered (fut_state s) \<and> c_getError (fut_full s) = HPX_SUCCESS))))"

lemma future_quietD:
  assumes "future_quiet s s' pc a ws"
  shows "fut_value s' = fut_value s" "cond_ok (fut_full s')"
    "getTriggered (fut_state s) \<Longrightarrow> getTriggered (fut_state s')"
    "getTriggered (fut_state s') \<Longrightarrow> c_getError (fut_full s') = HPX_SUCCESS \<Longrightarrow>
      getTriggered (fut_state s) \<and> c_getError (fut_full s) = HPX_SUCCESS"
    "ws \<noteq> [] \<Longrightarrow> getTriggered (fut_state s')"
    "a = Wait pc' \<Longrightarrow> (case pc' of FGetResume n out reset \<Rightarrow> \<not> reset | FGetRefResume n \<Rightarrow> True | FLaunch \<Rightarrow> True | _ \<Rightarrow> False)"
    "a = Return r \<Longrightarrow> r = RValue d \<Longrightarrow> d = take (length d) (fut_value s) \<and>
      ((\<exists>n. pc = FReadRef n) \<or> getTriggered (fut_state s) \<and> c_getError (fut_full s) = HPX_SUCCESS)"
    "a = Goto pc' \<Longrightarrow> (\<exists>n. pc' = FReadRef n) \<and> getTriggered (fut_state s) \<and> c_getError (fut_full s) = HPX_SUCCESS"
  using assms unfolding future_quiet_def by simp_all

definition future_pc_ok :: "future \<Rightarrow> future_pc \<Rightarrow> bool" where
  "future_pc_ok s pc = (case pc of
     FGetResume n out reset \<Rightarrow> getTriggered (fut_state s) \<and> \<not> reset
   | FGetRefResume n \<Rightarrow> getTriggered (fut_state s)
   | FReadRef n \<Rightarrow> True | FLaunch \<Rightarrow> True
   | _ \<Rightarrow> future_once pc)"

lemma future_quiet_run:
  assumes "future_run debug pc t s = Ret (s', a, ws)" "cond_ok (fut_full s)" "future_pc_ok s pc"
    "\<forall>n from. pc \<noteq> FSet n from"
  shows "future_quiet s s' pc a ws"
  using assms
  by (cases pc; cases "fut_full s")
    (auto simp: future_quiet_def future_pc_ok_def future_ops outcome_simps min_absorb2 split: if_splits)

lemma future_set_run:
  assumes "future_run debug (FSet n from) t s = Ret (s', a, ws)" "cond_ok (fut_full s)"
  shows "\<not> getTriggered (fut_state s)" "getTriggered (fut_state s')" "cond_ok (fut_full s')" "a = Return (RSet 1)"
    "c_getError (fut_full s') = c_getError (fut_full s)"
    "fut_value s = replicate sz 0 \<Longrightarrow> fut_value s' = written sz [(n, from)]"
  using assms
  by (cases "fut_full s"; auto simp: future_ops outcome_simps split: if_splits option.splits)+

definition future_L :: "nat \<Rightarrow> ptr \<Rightarrow> future \<Rightarrow> (ptr \<times> future_pc \<times> (future_pc, fres) act) list \<Rightarrow>
    (future_pc, fres) tstate \<Rightarrow> bool" where
  "future_L sz t s h x =
    (case x of
       Idle \<Rightarrow> True
     | Ready pc \<Rightarrow> future_pc_ok s pc \<and> ((\<exists>n. pc = FReadRef n) \<longrightarrow> future_writes h \<noteq> [])
     | Blocked pc \<Rightarrow> (case pc of FGetResume n out reset \<Rightarrow> \<not> reset | FGetRefResume n \<Rightarrow> True | FLaunch \<Rightarrow> True | _ \<Rightarrow> False)
     | Done r \<Rightarrow> (\<forall>d. r = RValue d \<longrightarrow> future_writes h \<noteq> [] \<and> d = take (length d) (written sz (future_writes h))))"

lemma future_step_cases:
  assumes "future_G sz s h" "future_L sz t s h (Ready pc)" "future_run debug pc t s = Ret (s', a, ws)"
  obtains (set) n "from" where "pc = FSet n from" "future_writes h = []" "getTriggered (fut_state s')"
      "\<not> getTriggered (fut_state s)" "cond_ok (fut_full s')" "a = Return (RSet 1)" "fut_value s' = written sz [(n, from)]"
    | (quiet) "\<forall>n from. pc \<noteq> FSet n from" "future_quiet s s' pc a ws" "future_writes ((t, pc, a) # h) = future_writes h"
proof (cases "\<exists>n from. pc = FSet n from")
  case True
  then obtain n "from" where pc: "pc = FSet n from" by blast
  have ok: "cond_ok (fut_full s)" using assms(1) by (simp add: future_G_def)
  note e = future_set_run [OF assms(3) [unfolded pc] ok]
  have "future_writes h = []" using assms(1) e(1) by (auto simp: future_G_def)
  then have "fut_value s = replicate sz 0" using assms(1) by (simp add: future_G_def)
  then show thesis using set [OF pc] e \<open>future_writes h = []\<close> by blast
next
  case False
  then show thesis
    using quiet future_quiet_run [OF assms(3)] assms(1,2) future_writes_skip
    by (auto simp: future_G_def future_L_def)
qed

lemma future_inv_global:
  assumes "future_G sz s h" "future_L sz t s h (Ready pc)" "future_run debug pc t s = Ret (s', a, ws)"
  shows "future_G sz s' ((t, pc, a) # h)"
  using assms
proof (cases rule: future_step_cases)
  case (set n "from")
  then show ?thesis by (simp add: future_G_def)
next
  case quiet
  note q = future_quietD [OF quiet(2)]
  show ?thesis using assms(1) q(2-4) unfolding future_G_def quiet(3) q(1) by blast
qed

lemma future_inv_self:
  assumes "future_G sz s h" "future_L sz t s h (Ready pc)" "future_run debug pc t s = Ret (s', a, ws)"
  shows "future_L sz t s' ((t, pc, a) # h) (after a)"
  using assms
proof (cases rule: future_step_cases)
  case (set n "from")
  then show ?thesis by (simp add: future_L_def)
next
  case quiet
  note q = future_quietD [OF quiet(2)]
  have v: "fut_value s = written sz (future_writes h)"
    and w: "getTriggered (fut_state s) \<and> c_getError (fut_full s) = HPX_SUCCESS \<longrightarrow> future_writes h \<noteq> []"
    using assms(1) by (simp_all add: future_G_def)
  show ?thesis
  proof (cases a)
    case (Return r)
    have "future_writes h \<noteq> [] \<and> d = take (length d) (written sz (future_writes h))" if "r = RValue d" for d
    proof -
      have "d = take (length d) (written sz (future_writes h))" using q(7) [OF Return that] v by argo
      moreover have "future_writes h \<noteq> []" using q(7) [OF Return that] w assms(2) unfolding future_L_def by auto
      ultimately show ?thesis by blast
    qed
    then show ?thesis unfolding future_L_def quiet(3) by (simp add: Return)
  next
    case (Wait pc')
    then show ?thesis using q(6) by (simp add: future_L_def)
  next
    case (Goto pc')
    then show ?thesis using q(8) w unfolding future_L_def quiet(3) by (auto simp: future_pc_ok_def)
  qed
qed

lemma future_inv_other:
  assumes "future_G sz s h" "future_L sz t s h (Ready pc)" "future_run debug pc t s = Ret (s', a, ws)"
    and "future_L sz u s h x"
  shows "future_L sz u s' ((t, pc, a) # h) x"
  using assms(1-3)
proof (cases rule: future_step_cases)
  case (set n "from")
  have "future_pc_ok s pc' \<Longrightarrow> future_pc_ok s' pc'" for pc' using set(3) by (cases pc') (simp_all add: future_pc_ok_def)
  then show ?thesis using assms(4) set(1,2) by (cases x) (auto simp: future_L_def)
next
  case quiet
  have "future_pc_ok s pc' \<Longrightarrow> future_pc_ok s' pc'" for pc'
    using future_quietD(3) [OF quiet(2)] by (cases pc') (simp_all add: future_pc_ok_def)
  then show ?thesis using assms(4) by (cases x) (simp_all add: future_L_def quiet(3))
qed

lemma future_inv_woken:
  assumes "future_G sz s h" "future_L sz t s h (Ready pc)" "future_run debug pc t s = Ret (s', a, ws)"
    and "u \<in> set ws" "future_L sz u s h (Blocked pc')"
  shows "future_L sz u s' ((t, pc, a) # h) (Ready pc')"
  using assms(1-3)
proof (cases rule: future_step_cases)
  case (set n "from")
  then show ?thesis using assms(5) by (cases pc') (simp_all add: future_L_def future_pc_ok_def)
next
  case quiet
  have "ws \<noteq> []" using assms(4) by (cases ws) simp_all
  then have "getTriggered (fut_state s')" by (rule future_quietD(5) [OF quiet(2)])
  then show ?thesis using assms(5) by (cases pc') (simp_all add: future_L_def future_pc_ok_def)
qed

lemma future_reach_inv:
  assumes "mon_reach (future_run debug) future_once (Future_new debug sz) m"
  shows "future_G sz (m_obj m) (m_hist m) \<and> (\<forall>t. future_L sz t (m_obj m) (m_hist m) (m_thr m t))"
proof (rule mon_local_induct [OF assms])
  show "future_G sz (Future_new debug sz) []" by (simp add: future_G_def Future_new_def)
  show "future_L sz t (Future_new debug sz) [] Idle" for t by (simp add: future_L_def)
  show "future_L sz t s h (Ready pc)" if "future_once pc" for t s h pc
    using that by (cases pc) (auto simp: future_L_def future_pc_ok_def)
qed (auto intro: future_inv_global future_inv_self future_inv_other future_inv_woken)

text \<open>
  C6: In every interleaving of sets, gets, reference reads, attaches and errors on a future
  that is not reset, at most one set takes effect; every value read is the prefix of what
  that one set wrote; and once it has taken effect nobody is left blocked.
\<close>
theorem future_write_once:
  assumes "mon_reach (future_run True) future_once (Future_new True sz) m"
  shows "length (future_writes (m_hist m)) \<le> 1 \<and>
    (m_thr m t = Done (RValue d) \<longrightarrow> (\<exists>n from. future_writes (m_hist m) = [(n, from)] \<and>
      d = take (length d) (written sz [(n, from)]))) \<and>
    (future_writes (m_hist m) \<noteq> [] \<longrightarrow> m_thr m t \<noteq> Blocked pc)"
proof -
  have G: "future_G sz (m_obj m) (m_hist m)" and L: "future_L sz t (m_obj m) (m_hist m) (m_thr m t)"
    using future_reach_inv [OF assms] by blast+
  have one: "length (future_writes (m_hist m)) \<le> 1" using G by (simp add: future_G_def)
  have "\<exists>n from. future_writes (m_hist m) = [(n, from)] \<and> d = take (length d) (written sz [(n, from)])"
    if "m_thr m t = Done (RValue d)"
    using L that one by (cases "future_writes (m_hist m)") (auto simp: future_L_def)
  moreover have "m_thr m t \<noteq> Blocked pc" if w: "future_writes (m_hist m) \<noteq> []"
  proof
    assume "m_thr m t = Blocked pc"
    then have "future_parked (m_obj m) t pc"
      using futm.blocked_parked [OF assms _ _ future_once_legal] by (simp add: Future_new_def)
    then show False using G w by (simp add: future_G_def future_parked_def)
  qed
  ultimately show ?thesis using one by blast
qed

theorem future_write_once_witness:
  "\<exists>m. mon_reach (future_run True) future_once (Future_new True 4) m \<and>
    m_thr m 1 = Done (RValue [7, 8, 9]) \<and> m_thr m 3 = Done (RValue [7, 8]) \<and>
    (\<exists>n from. future_writes (m_hist m) = [(n, from)] \<and> [7, 8, 9] = take 3 (written 4 [(n, from)]))"
proof -
  let ?r = "mon_play (future_run True) future_once
    [Call 1 (FGet 3 True False), Exec 1, Call 2 (FSet 3 (Some [7, 8, 9])), Exec 2, Call 3 (FGetRef 2), Exec 3, Exec 3, Exec 1]
    (mon_init (Future_new True 4))"
  have "\<exists>m. ?r = Some m \<and> m_thr m 1 = Done (RValue [7, 8, 9]) \<and> m_thr m 3 = Done (RValue [7, 8])"
    by (simp add: mon_init_def Future_new_def future_ops wake_def HPX_SUCCESS_def)
  then obtain m where m: "?r = Some m" "m_thr m 1 = Done (RValue [7, 8, 9])" "m_thr m 3 = Done (RValue [7, 8])" by blast
  have r: "mon_reach (future_run True) future_once (Future_new True 4) m" using m(1) by (rule mon_reach_play)
  have "\<exists>n from. future_writes (m_hist m) = [(n, from)] \<and> [7, 8, 9] = take 3 (written 4 [(n, from)])"
    using future_write_once [OF r, of 1 "[7, 8, 9]"] m(2) by (simp add: numeral_3_eq_3)
  then show ?thesis using m(2,3) r by blast
qed

end
