(* ===== verification/Hpx_Semaphore.thy ===== *)
theory Hpx_Semaphore
  imports Hpx_Monitor
begin

text \<open>
  The counting semaphore of \<^verbatim>\<open>libhpx/scheduler/lco/Semaphore.cpp\<close>. Its tokens are
  conserved; a run of the model shows that a wake-up can be lost.
\<close>

record sema =
  sm_nonZero :: cond
  sm_count :: nat
  sm_init :: nat

datatype sema_pc = SSet | SWait bool | SWaitResume bool | SError hpx_status | SReset

definition Semaphore_new :: "nat \<Rightarrow> sema" where
  "Semaphore_new n = \<lparr> sm_nonZero = Waiting [], sm_count = n, sm_init = n \<rparr>"

definition Semaphore_set :: "sema \<Rightarrow> sema \<times> int \<times> ptr list" where
  "Semaphore_set s =
    (let s1 = s\<lparr>sm_count := u32wrap (sm_count s + 1)\<rparr> in
     if sm_count s = 0
     then (case c_pop (sm_nonZero s) of (c, ws) \<Rightarrow> (s1\<lparr>sm_nonZero := c\<rparr>, 1, ws))
     else (s1, 1, []))"

definition Semaphore_error :: "hpx_status \<Rightarrow> sema \<Rightarrow> sema \<times> ptr list" where
  "Semaphore_error code s = (case c_setError (sm_nonZero s) code of (c, ws) \<Rightarrow> (s\<lparr>sm_nonZero := c\<rparr>, ws))"

definition Semaphore_resetNonZero :: "bool \<Rightarrow> sema \<Rightarrow> (sema \<times> ptr list) outcome" where
  "Semaphore_resetNonZero debug s =
    (case c_popAll (sm_nonZero s) of (c, ws) \<Rightarrow>
       bindO (c_reset debug c) (\<lambda>c'. Ret (s\<lparr>sm_nonZero := c', sm_count := sm_init s\<rparr>, ws)))"

text \<open>The loop of \<^verbatim>\<open>wait\<close>, entered at the test; a thread that resumes looks at the error first.\<close>

definition Semaphore_wait :: "bool \<Rightarrow> bool \<Rightarrow> ptr \<Rightarrow> sema \<Rightarrow> (sema, sema_pc, unit lres) section_result" where
  "Semaphore_wait debug reset t s =
    (if sm_count s = 0 then
       (case waitFor (sm_nonZero s) t of (c, status) \<Rightarrow>
          if status \<noteq> HPX_SUCCESS then Ret (s\<lparr>sm_nonZero := c\<rparr>, Return (RStatus status), [])
          else Ret (s\<lparr>sm_nonZero := c\<rparr>, Wait (SWaitResume reset), []))
     else let s1 = s\<lparr>sm_count := sm_count s - 1\<rparr> in
       if reset then bindO (Semaphore_resetNonZero debug s1) (\<lambda>(s2, ws). Ret (s2, Return (RStatus HPX_SUCCESS), ws))
       else Ret (s1, Return (RStatus HPX_SUCCESS), []))"

definition Semaphore_wait_resume ::
  "bool \<Rightarrow> bool \<Rightarrow> ptr \<Rightarrow> sema \<Rightarrow> (sema, sema_pc, unit lres) section_result" where
  "Semaphore_wait_resume debug reset t s =
    (let status = waitFor_resume (sm_nonZero s) in
     if status \<noteq> HPX_SUCCESS then Ret (s, Return (RStatus status), []) else Semaphore_wait debug reset t s)"

definition Semaphore_reset :: "bool \<Rightarrow> sema \<Rightarrow> (sema \<times> ptr list) outcome" where
  "Semaphore_reset debug s = Semaphore_resetNonZero debug s"

fun sema_run :: "bool \<Rightarrow> sema_pc \<Rightarrow> ptr \<Rightarrow> sema \<Rightarrow> (sema, sema_pc, unit lres) section_result" where
  "sema_run debug SSet t s = (case Semaphore_set s of (s', r, ws) \<Rightarrow> Ret (s', Return (RSet r), ws))"
| "sema_run debug (SWait reset) t s = Semaphore_wait debug reset t s"
| "sema_run debug (SWaitResume reset) t s = Semaphore_wait_resume debug reset t s"
| "sema_run debug (SError code) t s = (case Semaphore_error code s of (s', ws) \<Rightarrow> Ret (s', Return RVoid, ws))"
| "sema_run debug SReset t s = bindO (Semaphore_reset debug s) (\<lambda>(s', ws). Ret (s', Return RVoid, ws))"

fun sema_legal :: "sema_pc \<Rightarrow> bool" where
  "sema_legal (SError e) = (e \<noteq> HPX_SUCCESS)"
| "sema_legal pc = True"

definition sema_parked :: "sema \<Rightarrow> ptr \<Rightarrow> sema_pc \<Rightarrow> bool" where
  "sema_parked s t pc = (t \<in> set (cond_waiters (sm_nonZero s)) \<and> (\<exists>r. pc = SWaitResume r))"

lemmas sema_ops = Semaphore_set_def Semaphore_error_def Semaphore_resetNonZero_def Semaphore_wait_def
  Semaphore_wait_resume_def Semaphore_reset_def waitFor_def waitFor_resume_def Let_def

lemma c_pop_waiters: "mset (cond_waiters (fst (c_pop c))) + mset (snd (c_pop c)) = mset (cond_waiters c)"
  "cond_ok c \<Longrightarrow> cond_ok (fst (c_pop c))"
  "u \<in> set (cond_waiters c) \<Longrightarrow> u \<notin> set (snd (c_pop c)) \<Longrightarrow> u \<in> set (cond_waiters (fst (c_pop c)))"
  by (cases c rule: c_pop.cases; simp)+

lemma sema_law:
  assumes "cond_ok (sm_nonZero s)" "sema_legal pc" "sema_run debug pc t s = Ret (s', a, ws)"
  shows "lco_law sema_legal (\<lambda>s. cond_ok (sm_nonZero s)) (\<lambda>s. cond_waiters (sm_nonZero s)) sema_parked s t s' a ws"
  using assms c_pop_waiters [where c = "sm_nonZero s"]
  by (cases pc; cases "sm_nonZero s")
    (auto simp: sema_ops outcome_simps lco_law_def sema_parked_def split: if_splits prod.splits)

interpretation semm: lco_monitor "sema_run debug" sema_legal "\<lambda>s. cond_ok (sm_nonZero s)"
  "\<lambda>s. cond_waiters (sm_nonZero s)" sema_parked for debug
  by (rule lco_monitorI) (fact sema_law, simp add: sema_parked_def)

section \<open>Tokens\<close>

fun sema_plain :: "sema_pc \<Rightarrow> bool" where
  "sema_plain SSet = True"
| "sema_plain (SWait reset) = (\<not> reset)"
| "sema_plain (SError e) = (e \<noteq> HPX_SUCCESS)"
| "sema_plain pc = False"

definition sema_posts :: "(ptr \<times> sema_pc \<times> (sema_pc, unit lres) act) list \<Rightarrow> nat" where
  "sema_posts h = length (filter (\<lambda>(t, pc, a). pc = SSet) h)"

definition sema_takes :: "(ptr \<times> sema_pc \<times> (sema_pc, unit lres) act) list \<Rightarrow> nat" where
  "sema_takes h = length (filter (\<lambda>(t, pc, a). a = Return (RStatus HPX_SUCCESS)) h)"

definition sema_L :: "ptr \<Rightarrow> sema \<Rightarrow> (ptr \<times> sema_pc \<times> (sema_pc, unit lres) act) list \<Rightarrow>
    (sema_pc, unit lres) tstate \<Rightarrow> bool" where
  "sema_L t s h x = (case x of
     Ready pc \<Rightarrow> sema_plain pc \<or> pc = SWaitResume False
   | Blocked pc \<Rightarrow> pc = SWaitResume False
   | _ \<Rightarrow> True)"

definition sema_G :: "nat \<Rightarrow> sema \<Rightarrow> (ptr \<times> sema_pc \<times> (sema_pc, unit lres) act) list \<Rightarrow> bool" where
  "sema_G n s h = (cond_ok (sm_nonZero s) \<and>
    (n + sema_posts h < 2 ^ 32 \<longrightarrow> sm_count s + sema_takes h = n + sema_posts h))"

lemma sema_inv_step:
  assumes "sema_G n s h" "sema_L t s h (Ready pc)" "sema_run debug pc t s = Ret (s', a, ws)"
  shows "sema_G n s' ((t, pc, a) # h)" "sema_L t s' ((t, pc, a) # h) (after a)"
proof -
  have ok: "cond_ok (sm_nonZero s)" using assms(1) by (simp add: sema_G_def)
  have ok': "cond_ok (sm_nonZero s')"
    using sema_law [OF ok _ assms(3)] assms(2) by (cases pc) (auto simp: sema_L_def lco_law_def)
  have c: "sm_count s' + (if a = Return (RStatus HPX_SUCCESS) then 1 else 0) = sm_count s" if "pc \<noteq> SSet"
    using assms(2,3) that ok
    by (cases pc; cases "sm_nonZero s") (auto simp: sema_L_def sema_ops outcome_simps split: if_splits)
  have p: "a = Return (RSet 1)" "sm_count s' = u32wrap (sm_count s + 1)" if "pc = SSet"
    using assms(3) that by (auto simp: sema_ops split: if_splits prod.splits)
  show "sema_L t s' ((t, pc, a) # h) (after a)"
    using assms(2,3)
    by (cases pc; cases "sm_nonZero s") (auto simp: sema_L_def sema_ops outcome_simps split: if_splits prod.splits)
  show "sema_G n s' ((t, pc, a) # h)"
  proof (cases "pc = SSet")
    case True
    then show ?thesis using assms(1) ok' p by (auto simp: sema_G_def sema_posts_def sema_takes_def u32wrap_def)
  next
    case False
    then show ?thesis using assms(1) ok' c [OF False] by (auto simp: sema_G_def sema_posts_def sema_takes_def split: if_splits)
  qed
qed

lemma sema_reach_inv:
  assumes "mon_reach (sema_run debug) sema_plain (Semaphore_new n) m"
  shows "sema_G n (m_obj m) (m_hist m) \<and> (\<forall>t. sema_L t (m_obj m) (m_hist m) (m_thr m t))"
proof (rule mon_local_induct [OF assms])
  show "sema_G n (Semaphore_new n) []"
    by (simp add: sema_G_def Semaphore_new_def sema_posts_def sema_takes_def)
qed (blast intro: sema_inv_step | simp add: sema_L_def split: tstate.splits)+

text \<open>
  C27: In every interleaving of sets, waits and errors on a semaphore that is not reset, the
  count plus the successful waits is the initial count plus the sets, as long as that fits
  the 32-bit counter: no token is lost, duplicated or taken when there is none.
\<close>
theorem sema_tokens_conserved:
  assumes "mon_reach (sema_run debug) sema_plain (Semaphore_new n) m" "n + sema_posts (m_hist m) < 2 ^ 32"
  shows "sm_count (m_obj m) + sema_takes (m_hist m) = n + sema_posts (m_hist m)"
  using sema_reach_inv [OF assms(1)] assms(2) by (simp add: sema_G_def)

theorem sema_tokens_conserved_witness:
  "\<exists>m. mon_reach (sema_run True) sema_plain (Semaphore_new 1) m \<and>
    m_thr m 1 = Done (RStatus HPX_SUCCESS) \<and> m_thr m 2 = Done (RStatus HPX_SUCCESS) \<and>
    sm_count (m_obj m) + sema_takes (m_hist m) = 1 + sema_posts (m_hist m)"
proof -
  let ?r = "mon_play (sema_run True) sema_plain
    [Call 1 (SWait False), Exec 1, Call 2 (SWait False), Exec 2, Call 3 SSet, Exec 3, Exec 2]
    (mon_init (Semaphore_new 1))"
  have "\<exists>m. ?r = Some m \<and> m_thr m 1 = Done (RStatus HPX_SUCCESS) \<and> m_thr m 2 = Done (RStatus HPX_SUCCESS) \<and>
      sema_posts (m_hist m) = 1"
    by (simp add: mon_init_def Semaphore_new_def sema_ops wake_def HPX_SUCCESS_def u32wrap_def sema_posts_def)
  then obtain m where m: "?r = Some m" "m_thr m 1 = Done (RStatus HPX_SUCCESS)"
      "m_thr m 2 = Done (RStatus HPX_SUCCESS)" "sema_posts (m_hist m) = 1" by blast
  have r: "mon_reach (sema_run True) sema_plain (Semaphore_new 1) m" using m(1) by (rule mon_reach_play)
  show ?thesis using sema_tokens_conserved [OF r] m r by auto
qed

text \<open>
  C28: A wake-up can be lost. \<^verbatim>\<open>set\<close> signals only when the count was zero, so of two sets that
  run before the first woken waiter resumes only one wakes anybody: the run below ends with
  a token available, a thread blocked on the semaphore, and no thread left to run.
\<close>
theorem sema_lost_wakeup:
  "\<exists>m. mon_reach (sema_run True) sema_plain (Semaphore_new 0) m \<and> sm_count (m_obj m) = 1 \<and>
    m_thr m 1 = Blocked (SWaitResume False) \<and> (\<forall>t pc. m_thr m t \<noteq> Ready pc)"
proof -
  let ?as = "[Call 1 (SWait False), Exec 1, Call 2 (SWait False), Exec 2, Call 3 SSet, Exec 3, Call 4 SSet, Exec 4, Exec 2]"
  have "\<exists>m. mon_play (sema_run True) sema_plain ?as (mon_init (Semaphore_new 0)) = Some m \<and>
      sm_count (m_obj m) = 1 \<and> m_thr m 1 = Blocked (SWaitResume False) \<and>
      m_thr m 2 = Done (RStatus 0) \<and> m_thr m 3 = Done (RSet 1) \<and> m_thr m 4 = Done (RSet 1)"
    by (simp add: mon_init_def Semaphore_new_def sema_ops wake_def HPX_SUCCESS_def u32wrap_def)
  then obtain m where m: "mon_play (sema_run True) sema_plain ?as (mon_init (Semaphore_new 0)) = Some m"
      "sm_count (m_obj m) = 1" "m_thr m 1 = Blocked (SWaitResume False)"
      "m_thr m 2 = Done (RStatus 0)" "m_thr m 3 = Done (RSet 1)" "m_thr m 4 = Done (RSet 1)" by blast
  have "\<forall>t pc. m_thr m t \<noteq> Ready pc" by (rule mon_play_stuck [OF m(1)]) (simp add: m(3-))
  then show ?thesis using mon_reach_play [OF m(1)] m(2,3) by blast
qed

end
