(* ===== verification/Hpx_GenCount.thy ===== *)
theory Hpx_GenCount
  imports Hpx_Monitor
begin

text \<open>
  The generation counter of \<^verbatim>\<open>libhpx/scheduler/lco/GenerationCounter.cpp\<close>. A thread waits
  for a generation on one of a few in-place conditions when the generation is near, and on
  the overflow condition otherwise. The 64-bit generation is a natural number here: it would
  take more than \<open>2\<^sup>6\<^sup>4\<close> sets to wrap.
\<close>

record gencount =
  gc_oflow :: cond
  gc_gen :: nat
  gc_ninplace :: nat
  gc_inplace :: "cond list"

datatype gen_pc =
  GSet | GError hpx_status | GGet nat | GWait | GWaitResume | GAttach | GLaunch | GReset |
  GWaitFor nat | GWaitForResume nat bool

definition GenerationCounter_new :: "nat \<Rightarrow> gencount" where
  "GenerationCounter_new n =
    \<lparr> gc_oflow = Waiting [], gc_gen = 0, gc_ninplace = n, gc_inplace = replicate n (Waiting []) \<rparr>"

definition gc_conditionAt :: "gencount \<Rightarrow> nat \<Rightarrow> cond" where
  "gc_conditionAt s i = gc_inplace s ! i"

definition GenerationCounter_set :: "gencount \<Rightarrow> gencount \<times> int \<times> ptr list" where
  "GenerationCounter_set s =
    (let i = gc_gen s + 1 in
     case c_popAll (gc_oflow s) of (o', ws) \<Rightarrow>
       let s1 = s\<lparr>gc_gen := i, gc_oflow := o'\<rparr> in
       if gc_ninplace s \<noteq> 0 then
         (case c_popAll (gc_conditionAt s (i mod gc_ninplace s)) of (c, ws') \<Rightarrow>
            (s1\<lparr>gc_inplace := (gc_inplace s)[i mod gc_ninplace s := c]\<rparr>, 1, ws @ ws'))
       else (s1, 1, ws))"

definition GenerationCounter_error :: "hpx_status \<Rightarrow> gencount \<Rightarrow> gencount \<times> ptr list" where
  "GenerationCounter_error code s =
    (case c_setError (gc_oflow s) code of (o', ws) \<Rightarrow>
      (s\<lparr>gc_inplace := map (\<lambda>c. fst (c_setError c code)) (gc_inplace s), gc_oflow := o'\<rparr>,
       concat (map (\<lambda>c. snd (c_setError c code)) (gc_inplace s)) @ ws))"

definition GenerationCounter_get :: "nat \<Rightarrow> gencount \<Rightarrow> nat lres" where
  "GenerationCounter_get n s = (if n \<noteq> 0 then RValue (gc_gen s) else RStatus HPX_SUCCESS)"

definition GenerationCounter_wait :: "ptr \<Rightarrow> gencount \<Rightarrow> gencount \<times> hpx_status" where
  "GenerationCounter_wait t s = (case waitFor (gc_oflow s) t of (c, status) \<Rightarrow> (s\<lparr>gc_oflow := c\<rparr>, status))"

definition GenerationCounter_attach :: "gencount \<Rightarrow> ptr \<Rightarrow> gencount \<times> hpx_status \<times> ptr list" where
  "GenerationCounter_attach s p = (case c_push (gc_oflow s) p of (c, status) \<Rightarrow> (s\<lparr>gc_oflow := c\<rparr>, status, []))"

fun reset_conditions :: "bool \<Rightarrow> cond list \<Rightarrow> cond list outcome" where
  "reset_conditions debug [] = Ret []"
| "reset_conditions debug (c # cs) =
    bindO (c_reset debug c) (\<lambda>c'. bindO (reset_conditions debug cs) (\<lambda>cs'. Ret (c' # cs')))"

definition GenerationCounter_reset :: "bool \<Rightarrow> gencount \<Rightarrow> gencount outcome" where
  "GenerationCounter_reset debug s =
    bindO (reset_conditions debug (gc_inplace s)) (\<lambda>cs.
      bindO (c_reset debug (gc_oflow s)) (\<lambda>o'. Ret (s\<lparr>gc_inplace := cs, gc_oflow := o'\<rparr>)))"

text \<open>The loop of \<^verbatim>\<open>waitForGeneration\<close>, entered at the test.\<close>

definition waitForGeneration :: "nat \<Rightarrow> ptr \<Rightarrow> gencount \<Rightarrow> (gencount, gen_pc, nat lres) section_result" where
  "waitForGeneration i t s =
    (if gc_gen s < i then
       let inplace = (i < gc_gen s + gc_ninplace s); k = i mod gc_ninplace s in
       (case waitFor (if inplace then gc_conditionAt s k else gc_oflow s) t of (c, status) \<Rightarrow>
          let s' = (if inplace then s\<lparr>gc_inplace := (gc_inplace s)[k := c]\<rparr> else s\<lparr>gc_oflow := c\<rparr>) in
          if status \<noteq> HPX_SUCCESS then Ret (s', Return (RStatus status), [])
          else Ret (s', Wait (GWaitForResume i inplace), []))
     else Ret (s, Return (RStatus (c_getError (gc_oflow s))), []))"

definition waitForGeneration_resume ::
  "nat \<Rightarrow> bool \<Rightarrow> ptr \<Rightarrow> gencount \<Rightarrow> (gencount, gen_pc, nat lres) section_result" where
  "waitForGeneration_resume i inplace t s =
    (let status = waitFor_resume (if inplace then gc_conditionAt s (i mod gc_ninplace s) else gc_oflow s) in
     if status \<noteq> HPX_SUCCESS then Ret (s, Return (RStatus status), []) else waitForGeneration i t s)"

fun gen_run :: "bool \<Rightarrow> gen_pc \<Rightarrow> ptr \<Rightarrow> gencount \<Rightarrow> (gencount, gen_pc, nat lres) section_result" where
  "gen_run debug GSet t s = (case GenerationCounter_set s of (s', r, ws) \<Rightarrow> Ret (s', Return (RSet r), ws))"
| "gen_run debug (GError code) t s = (case GenerationCounter_error code s of (s', ws) \<Rightarrow> Ret (s', Return RVoid, ws))"
| "gen_run debug (GGet n) t s = Ret (s, Return (GenerationCounter_get n s), [])"
| "gen_run debug GWait t s =
    (case GenerationCounter_wait t s of (s', status) \<Rightarrow>
       if status \<noteq> HPX_SUCCESS then Ret (s', Return (RStatus status), []) else Ret (s', Wait GWaitResume, []))"
| "gen_run debug GWaitResume t s = Ret (s, Return (RStatus (waitFor_resume (gc_oflow s))), [])"
| "gen_run debug GAttach t s = attach_section GLaunch t (GenerationCounter_attach s t)"
| "gen_run debug GLaunch t s = Ret (s, Return RLaunched, [])"
| "gen_run debug GReset t s = bindO (GenerationCounter_reset debug s) (\<lambda>s'. Ret (s', Return RVoid, []))"
| "gen_run debug (GWaitFor i) t s = waitForGeneration i t s"
| "gen_run debug (GWaitForResume i inplace) t s = waitForGeneration_resume i inplace t s"

fun gen_legal :: "gen_pc \<Rightarrow> bool" where
  "gen_legal (GError e) = (e \<noteq> HPX_SUCCESS)"
| "gen_legal pc = True"

definition gen_ok :: "gencount \<Rightarrow> bool" where
  "gen_ok s = (length (gc_inplace s) = gc_ninplace s \<and> cond_ok (gc_oflow s) \<and> list_all cond_ok (gc_inplace s))"

definition gen_waiters :: "gencount \<Rightarrow> ptr list" where
  "gen_waiters s = cond_waiters (gc_oflow s) @ concat (map cond_waiters (gc_inplace s))"

text \<open>
  A thread that waits for generation \<open>i\<close> still has a reason to, and sits where the set that
  reaches \<open>i\<close> (in place) or the next set (overflow) will wake it.
\<close>

fun gen_parked :: "gencount \<Rightarrow> ptr \<Rightarrow> gen_pc \<Rightarrow> bool" where
  "gen_parked s t (GWaitForResume i inplace) = (gc_gen s < i \<and>
     (if inplace then i < gc_gen s + gc_ninplace s \<and> length (gc_inplace s) = gc_ninplace s \<and>
        t \<in> set (cond_waiters (gc_inplace s ! (i mod gc_ninplace s)))
      else t \<in> set (cond_waiters (gc_oflow s))))"
| "gen_parked s t GWaitResume = (t \<in> set (cond_waiters (gc_oflow s)))"
| "gen_parked s t GLaunch = (t \<in> set (cond_waiters (gc_oflow s)))"
| "gen_parked s t pc = False"

lemma gen_parked_waits: "gen_parked s u pc \<Longrightarrow> u \<in> set (gen_waiters s)"
  by (cases "(s, u, pc)" rule: gen_parked.cases) (force simp: gen_waiters_def split: if_splits)+

text \<open>Updating one condition of a list moves waiters only there.\<close>

lemma mset_concat_update:
  assumes "k < length cs"
  shows "mset (concat (map f (cs[k := c]))) + mset (f (cs ! k)) = mset (concat (map f cs)) + mset (f c)"
proof -
  have "cs = take k cs @ cs ! k # drop (Suc k) cs" using assms by (rule id_take_nth_drop)
  then have "mset (concat (map f cs)) = mset (concat (map f (take k cs @ cs ! k # drop (Suc k) cs)))" by simp
  moreover have "cs[k := c] = take k cs @ c # drop (Suc k) cs" using assms by (rule upd_conv_take_nth_drop)
  ultimately show ?thesis by simp
qed

lemma gen_set_law:
  assumes "gen_ok s" "GenerationCounter_set s = (s', r, ws)"
  shows "gen_ok s'" "mset (gen_waiters s') + mset ws = mset (gen_waiters s)"
    "gen_parked s u pc \<Longrightarrow> u \<notin> set ws \<Longrightarrow> gen_parked s' u pc"
proof -
  let ?i = "gc_gen s + 1" and ?n = "gc_ninplace s"
  have n: "length (gc_inplace s) = ?n" "cond_ok (gc_oflow s)" "list_all cond_ok (gc_inplace s)"
    using assms(1) by (simp_all add: gen_ok_def)
  have s': "s' = s\<lparr>gc_gen := ?i, gc_oflow := fst (c_popAll (gc_oflow s)),
      gc_inplace := (gc_inplace s)[?i mod ?n := fst (c_popAll (gc_inplace s ! (?i mod ?n)))]\<rparr>"
    "ws = cond_waiters (gc_oflow s) @ cond_waiters (gc_inplace s ! (?i mod ?n))" if "?n \<noteq> 0"
    using assms(2) that by (auto simp: GenerationCounter_set_def Let_def gc_conditionAt_def case_prod_beta)
  have s0: "s' = s\<lparr>gc_gen := ?i, gc_oflow := fst (c_popAll (gc_oflow s))\<rparr>" "ws = cond_waiters (gc_oflow s)" if "?n = 0"
    using assms(2) that by (auto simp: GenerationCounter_set_def Let_def case_prod_beta)
  have k: "?i mod ?n < length (gc_inplace s)" if "?n \<noteq> 0" using n that by simp
  show "gen_ok s'"
  proof (cases "?n = 0")
    case True
    then show ?thesis using s0 n by (simp add: gen_ok_def)
  next
    case False
    then show ?thesis using s' n k by (auto simp: gen_ok_def list_all_length nth_list_update)
  qed
  show "mset (gen_waiters s') + mset ws = mset (gen_waiters s)"
  proof (cases "?n = 0")
    case True
    then show ?thesis using s0 n by (simp add: gen_waiters_def)
  next
    case False
    then show ?thesis using s' [OF False] mset_concat_update [OF k [OF False], of cond_waiters]
      by (simp add: gen_waiters_def)
  qed
  show "gen_parked s' u pc" if p: "gen_parked s u pc" "u \<notin> set ws"
  proof (cases "\<exists>i. pc = GWaitForResume i True")
    case True
    then obtain i where pc: "pc = GWaitForResume i True" by blast
    then have i: "gc_gen s < i" "i < gc_gen s + ?n" "u \<in> set (cond_waiters (gc_inplace s ! (i mod ?n)))" and "?n \<noteq> 0"
      using p(1) by auto
    have "i \<noteq> ?i" using i(3) p(2) s'(2) [OF \<open>?n \<noteq> 0\<close>] by auto
    then have lt: "?i < i" "i < ?i + ?n" using i by simp_all
    have "i mod ?n \<noteq> ?i mod ?n"
    proof
      assume "i mod ?n = ?i mod ?n"
      then have "?n dvd i - ?i" using lt(1) by (metis less_imp_le mod_eq_dvd_iff_nat)
      then show False using lt by (auto dest: dvd_imp_le)
    qed
    then show ?thesis using s' [OF \<open>?n \<noteq> 0\<close>] lt i(3) n pc by simp
  next
    case False
    then have "u \<in> set (cond_waiters (gc_oflow s))"
      using p(1) by (cases "(s, u, pc)" rule: gen_parked.cases) (auto split: if_splits)
    moreover have "set (cond_waiters (gc_oflow s)) \<subseteq> set ws" using s0(2) s'(2) by (cases "?n = 0") auto
    ultimately show ?thesis using p(2) by blast
  qed
qed

lemma gen_error_law:
  assumes "gen_ok s" "e \<noteq> HPX_SUCCESS" "GenerationCounter_error e s = (s', ws)"
  shows "gen_ok s'" "mset (gen_waiters s') + mset ws = mset (gen_waiters s)"
    "gen_parked s u pc \<Longrightarrow> u \<notin> set ws \<Longrightarrow> gen_parked s' u pc"
proof -
  have s': "s' = s\<lparr>gc_inplace := map (\<lambda>c. fst (c_setError c e)) (gc_inplace s), gc_oflow := fst (c_setError (gc_oflow s) e)\<rparr>"
    "ws = concat (map cond_waiters (gc_inplace s)) @ cond_waiters (gc_oflow s)"
    using assms(3) by (auto simp: GenerationCounter_error_def case_prod_beta)
  show "gen_ok s'" using assms(1,2) by (auto simp: s' gen_ok_def list_all_length)
  have "concat (map (\<lambda>c. []) cs) = []" for cs :: "cond list" by (induction cs) auto
  then show "mset (gen_waiters s') + mset ws = mset (gen_waiters s)" by (simp add: s' gen_waiters_def o_def)
  show "gen_parked s' u pc" if "gen_parked s u pc" "u \<notin> set ws"
    using gen_parked_waits [OF that(1)] that(2) by (auto simp: s' gen_waiters_def)
qed

lemma reset_conditions_ok:
  "reset_conditions True cs = Ret cs' \<Longrightarrow> concat (map cond_waiters cs) = [] \<and> concat (map cond_waiters cs') = [] \<and>
    length cs' = length cs \<and> list_all cond_ok cs'"
proof (induction cs arbitrary: cs')
  case (Cons c cs)
  then show ?case by (cases c) (auto simp: outcome_simps split: if_splits)
qed simp

lemma gen_reset_law:
  assumes "gen_ok s" "GenerationCounter_reset True s = Ret s'"
  shows "gen_ok s'" "gen_waiters s' = []" "gen_waiters s = []"
proof -
  obtain cs c where cs: "reset_conditions True (gc_inplace s) = Ret cs" "c_reset True (gc_oflow s) = Ret c"
      "s' = s\<lparr>gc_inplace := cs, gc_oflow := c\<rparr>"
    using assms(2) by (auto simp: GenerationCounter_reset_def outcome_simps)
  have o: "cond_waiters (gc_oflow s) = []" "cond_waiters c = []" "cond_ok c"
    using cs(2) by (cases "gc_oflow s"; auto split: if_splits)+
  note r = reset_conditions_ok [OF cs(1)]
  show "gen_ok s'" "gen_waiters s' = []" "gen_waiters s = []"
    using r o assms(1) by (simp_all add: cs(3) gen_ok_def gen_waiters_def)
qed

text \<open>A section that waits for a generation: it returns, or parks the thread on one of the conditions.\<close>

lemma waitForGeneration_cases:
  assumes "gen_ok s" "waitForGeneration i t s = Ret (s', a, ws)"
  obtains (return) r where "s' = s" "ws = []" "a = Return r"
    | (inplace) ps where "gc_gen s < i" "i < gc_gen s + gc_ninplace s" "i mod gc_ninplace s < length (gc_inplace s)" "ws = []"
        "a = Wait (GWaitForResume i True)" "gc_inplace s ! (i mod gc_ninplace s) = Waiting ps"
        "s' = s\<lparr>gc_inplace := (gc_inplace s)[i mod gc_ninplace s := Waiting (t # ps)]\<rparr>"
    | (oflow) ps where "gc_gen s < i" "ws = []" "a = Wait (GWaitForResume i False)" "gc_oflow s = Waiting ps"
        "s' = s\<lparr>gc_oflow := Waiting (t # ps)\<rparr>"
proof -
  let ?n = "gc_ninplace s" and ?k = "i mod gc_ninplace s"
  have n: "length (gc_inplace s) = ?n" "cond_ok (gc_oflow s)" "\<forall>j < ?n. cond_ok (gc_inplace s ! j)"
    using assms(1) by (simp_all add: gen_ok_def list_all_length)
  consider "\<not> gc_gen s < i" | "gc_gen s < i" "i < gc_gen s + ?n" | "gc_gen s < i" "\<not> i < gc_gen s + ?n" by blast
  then show thesis
  proof cases
    case 1
    then show thesis using assms(2) return [of "RStatus (c_getError (gc_oflow s))"]
      by (auto simp: waitForGeneration_def)
  next
    case 2
    then have k: "?k < ?n" by simp
    then have "cond_ok (gc_inplace s ! ?k)" using n by blast
    then show thesis
    proof (cases "gc_inplace s ! ?k")
      case (Waiting ps)
      then show thesis using assms(2) 2 k n(1)
        by (intro inplace [of ps]) (auto simp: waitForGeneration_def Let_def gc_conditionAt_def waitFor_def)
    next
      case (Failed e)
      have "(gc_inplace s)[?k := Failed e] = gc_inplace s" using list_update_id [of "gc_inplace s" ?k] Failed by simp
      then have "s' = s" "ws = []" "a = Return (RStatus e)"
        using assms(2) 2 Failed \<open>cond_ok (gc_inplace s ! ?k)\<close>
        by (auto simp: waitForGeneration_def Let_def gc_conditionAt_def waitFor_def)
      then show thesis by (rule return)
    qed
  next
    case 3
    then show thesis using assms(2) n(2) return oflow
      by (cases "gc_oflow s") (auto simp: waitForGeneration_def Let_def waitFor_def)
  qed
qed

lemma gen_parked_oflow:
  assumes "gen_parked s u pc" "set (cond_waiters (gc_oflow s)) \<subseteq> set (cond_waiters c)"
  shows "gen_parked (s\<lparr>gc_oflow := c\<rparr>) u pc"
  using assms by (cases "(s, u, pc)" rule: gen_parked.cases) (auto split: if_splits)

lemma gen_parked_inplace:
  assumes "gen_parked s u pc" "set (cond_waiters (gc_inplace s ! k)) \<subseteq> set (cond_waiters c)"
  shows "gen_parked (s\<lparr>gc_inplace := (gc_inplace s)[k := c]\<rparr>) u pc"
  using assms
  by (cases "(s, u, pc)" rule: gen_parked.cases; cases "k < length (gc_inplace s)")
    (auto simp: nth_list_update list_update_beyond split: if_splits)

lemma gen_wait_law:
  assumes "gen_ok s" "waitForGeneration i t s = Ret (s', a, ws)"
  shows "lco_law gen_legal gen_ok gen_waiters gen_parked s t s' a ws"
  using assms
proof (cases rule: waitForGeneration_cases)
  case (return r)
  then show ?thesis using assms(1) by (simp add: lco_law_def)
next
  case (inplace ps)
  have "gen_ok s'" using assms(1) inplace by (auto simp: gen_ok_def list_all_length nth_list_update)
  moreover have "mset (gen_waiters s') = {#t#} + mset (gen_waiters s)"
    using mset_concat_update [OF inplace(3), of cond_waiters "Waiting (t # ps)"] inplace
    by (simp add: gen_waiters_def)
  moreover have "gen_parked s' t (GWaitForResume i True)" using inplace assms(1) by (simp add: gen_ok_def)
  moreover have "gen_parked s' u pc'" if "gen_parked s u pc'" for u pc'
    unfolding inplace(7) by (rule gen_parked_inplace [OF that]) (use inplace in auto)
  ultimately show ?thesis using inplace by (simp add: lco_law_def)
next
  case (oflow ps)
  have "gen_ok s'" using assms(1) oflow by (simp add: gen_ok_def)
  moreover have "mset (gen_waiters s') = {#t#} + mset (gen_waiters s)" using oflow by (simp add: gen_waiters_def)
  moreover have "gen_parked s' u pc'" if "gen_parked s u pc'" for u pc'
    unfolding oflow(5) by (rule gen_parked_oflow [OF that]) (use oflow in auto)
  ultimately show ?thesis using oflow by (simp add: lco_law_def)
qed

lemma gen_push_law:
  assumes "gen_ok s" "c_push (gc_oflow s) t = (c, status)"
  shows "gen_ok (s\<lparr>gc_oflow := c\<rparr>)"
    "mset (gen_waiters (s\<lparr>gc_oflow := c\<rparr>)) = (if status = HPX_SUCCESS then {#t#} else {#}) + mset (gen_waiters s)"
    "status = HPX_SUCCESS \<Longrightarrow> t \<in> set (cond_waiters c)"
    "gen_parked s u pc \<Longrightarrow> gen_parked (s\<lparr>gc_oflow := c\<rparr>) u pc"
proof -
  have "set (cond_waiters (gc_oflow s)) \<subseteq> set (cond_waiters c)" using assms(2) by (cases "gc_oflow s") auto
  then show "gen_parked s u pc \<Longrightarrow> gen_parked (s\<lparr>gc_oflow := c\<rparr>) u pc" by (rule gen_parked_oflow [rotated])
  show "gen_ok (s\<lparr>gc_oflow := c\<rparr>)"
    "mset (gen_waiters (s\<lparr>gc_oflow := c\<rparr>)) = (if status = HPX_SUCCESS then {#t#} else {#}) + mset (gen_waiters s)"
    "status = HPX_SUCCESS \<Longrightarrow> t \<in> set (cond_waiters c)"
    using assms by (cases "gc_oflow s"; auto simp: gen_ok_def gen_waiters_def)+
qed

lemma gen_law:
  assumes "gen_ok s" "gen_legal pc" "gen_run True pc t s = Ret (s', a, ws)"
  shows "lco_law gen_legal gen_ok gen_waiters gen_parked s t s' a ws"
proof (cases pc)
  case GSet
  then obtain r where r: "GenerationCounter_set s = (s', r, ws)" "a = Return (RSet r)"
    using assms(3) by (auto split: prod.splits)
  then show ?thesis using gen_set_law [OF assms(1) r(1)] by (simp add: lco_law_def)
next
  case (GError e)
  then have "GenerationCounter_error e s = (s', ws)" "a = Return RVoid" using assms(3) by (auto split: prod.splits)
  then show ?thesis using gen_error_law [OF assms(1)] GError assms(2) by (simp add: lco_law_def)
next
  case GReset
  then have r: "GenerationCounter_reset True s = Ret s'" "a = Return RVoid" "ws = []"
    using assms(3) by (auto simp: outcome_simps)
  note l = gen_reset_law [OF assms(1) r(1)]
  have "\<not> gen_parked s u pc'" for u pc' using gen_parked_waits [of s u pc'] l(3) by auto
  then show ?thesis using l r by (simp add: lco_law_def)
next
  case GWait
  then show ?thesis using assms(3) gen_push_law [OF assms(1)]
    by (auto simp: GenerationCounter_wait_def waitFor_def lco_law_def split: prod.splits if_splits)
next
  case GAttach
  then show ?thesis using assms(3) gen_push_law [OF assms(1)]
    by (auto simp: GenerationCounter_attach_def attach_section_def lco_law_def split: prod.splits if_splits)
next
  case (GWaitFor i)
  then show ?thesis using assms(3) gen_wait_law [OF assms(1)] by simp
next
  case (GWaitForResume i b)
  show ?thesis
  proof (cases "waitFor_resume (if b then gc_conditionAt s (i mod gc_ninplace s) else gc_oflow s) = HPX_SUCCESS")
    case True
    then have "waitForGeneration i t s = Ret (s', a, ws)"
      using assms(3) GWaitForResume by (simp add: waitForGeneration_resume_def)
    then show ?thesis by (rule gen_wait_law [OF assms(1)])
  next
    case False
    then show ?thesis using assms GWaitForResume by (auto simp: waitForGeneration_resume_def Let_def lco_law_def)
  qed
qed (use assms in \<open>auto simp: lco_law_def\<close>)

interpretation genm: lco_monitor "gen_run True" gen_legal gen_ok gen_waiters gen_parked
  by (rule lco_monitorI) (fact gen_law, fact gen_parked_waits)

section \<open>Waiting for a generation\<close>

fun gen_entry :: "gen_pc \<Rightarrow> bool" where
  "gen_entry (GError e) = (e \<noteq> HPX_SUCCESS)"
| "gen_entry GWaitResume = False"
| "gen_entry GLaunch = False"
| "gen_entry (GWaitForResume i b) = False"
| "gen_entry pc = True"

lemma gen_entry_legal: "gen_entry pc \<Longrightarrow> gen_legal pc"
  by (cases pc) auto

definition gen_sets :: "(ptr \<times> gen_pc \<times> (gen_pc, nat lres) act) list \<Rightarrow> nat" where
  "gen_sets h = length (filter (\<lambda>(t, pc, a). pc = GSet) h)"

definition gen_waited :: "gen_pc \<Rightarrow> nat \<Rightarrow> bool" where
  "gen_waited pc i = (pc = GWaitFor i \<or> (\<exists>b. pc = GWaitForResume i b))"

definition gen_G :: "gencount \<Rightarrow> (ptr \<times> gen_pc \<times> (gen_pc, nat lres) act) list \<Rightarrow> bool" where
  "gen_G s h = (gc_gen s = gen_sets h \<and>
    (\<forall>t pc i. (t, pc, Return (RStatus HPX_SUCCESS)) \<in> set h \<and> gen_waited pc i \<longrightarrow> i \<le> gc_gen s))"

lemma gen_inv_step:
  assumes "gen_run debug pc t s = Ret (s', a, ws)"
  shows "gc_gen s' = gc_gen s + (if pc = GSet then 1 else 0)"
    "gen_waited pc i \<Longrightarrow> a = Return (RStatus HPX_SUCCESS) \<Longrightarrow> i \<le> gc_gen s"
proof -
  have w: "gc_gen s' = gc_gen s \<and> (a = Return (RStatus HPX_SUCCESS) \<longrightarrow> i \<le> gc_gen s)"
    if "waitForGeneration i t s = Ret (s', a, ws)" for i
    using that by (auto simp: waitForGeneration_def Let_def split: if_splits prod.splits)
  have r: "gc_gen s' = gc_gen s \<and> (a = Return (RStatus HPX_SUCCESS) \<longrightarrow> i \<le> gc_gen s)"
    if "waitForGeneration_resume i b t s = Ret (s', a, ws)" for i b
    using that w by (auto simp: waitForGeneration_resume_def Let_def split: if_splits)
  show "gc_gen s' = gc_gen s + (if pc = GSet then 1 else 0)"
    using assms w r
    by (cases pc) (auto simp: GenerationCounter_set_def GenerationCounter_error_def GenerationCounter_wait_def
        GenerationCounter_attach_def GenerationCounter_reset_def attach_section_def outcome_simps Let_def
        split: if_splits prod.splits)
  show "i \<le> gc_gen s" if "gen_waited pc i" "a = Return (RStatus HPX_SUCCESS)"
    using that assms w r by (auto simp: gen_waited_def)
qed

lemma gen_reach_inv:
  assumes "mon_reach (gen_run debug) gen_entry (GenerationCounter_new n) m"
  shows "gen_G (m_obj m) (m_hist m)"
proof -
  have "gen_G (m_obj m) (m_hist m) \<and> (\<forall>t. (\<lambda>t s h x. True) t (m_obj m) (m_hist m) (m_thr m t))"
  proof (rule mon_local_induct [OF assms, where L = "\<lambda>t s h x. True"])
    show "gen_G (GenerationCounter_new n) []" by (simp add: gen_G_def GenerationCounter_new_def gen_sets_def)
  next
    fix t s h pc s' a ws
    assume G: "gen_G s h" and run: "gen_run debug pc t s = Ret (s', a, ws)"
    note e = gen_inv_step [OF run]
    have "gc_gen s' = gen_sets ((t, pc, a) # h)" using G e(1) by (auto simp: gen_G_def gen_sets_def)
    moreover have "i \<le> gc_gen s'"
      if "(u, pc', Return (RStatus HPX_SUCCESS)) \<in> set ((t, pc, a) # h)" "gen_waited pc' i" for u pc' i
    proof -
      have "i \<le> gc_gen s" using that e(2) G unfolding gen_G_def by auto
      then show ?thesis using e(1) by simp
    qed
    ultimately show "gen_G s' ((t, pc, a) # h)" unfolding gen_G_def by blast
  qed simp_all
  then show ?thesis by simp
qed

text \<open>
  C24: In every interleaving on a generation counter, the generation is the number of sets; a
  wait for generation \<open>i\<close> that returned success returned at generation \<open>i\<close> or later; and a thread
  still blocked waiting for \<open>i\<close> waits for a generation not reached, queued exactly once, on
  the in-place condition that the set reaching \<open>i\<close> signals or on the overflow condition that
  every set signals.
\<close>
theorem gencount_no_lost_wakeup:
  assumes "mon_reach (gen_run True) gen_entry (GenerationCounter_new n) m"
  shows "gc_gen (m_obj m) = gen_sets (m_hist m) \<and>
    ((t, pc, Return (RStatus HPX_SUCCESS)) \<in> set (m_hist m) \<and> gen_waited pc i \<longrightarrow> i \<le> gc_gen (m_obj m)) \<and>
    (m_thr m t = Blocked (GWaitForResume i b) \<longrightarrow> gc_gen (m_obj m) < i \<and>
      count (mset (gen_waiters (m_obj m))) t = 1 \<and> gen_parked (m_obj m) t (GWaitForResume i b))"
proof -
  have "gen_ok (GenerationCounter_new n)" "gen_waiters (GenerationCounter_new n) = []"
    by (induction n) (auto simp: gen_ok_def gen_waiters_def GenerationCounter_new_def)
  then have "count (mset (gen_waiters (m_obj m))) t = 1 \<and> gen_parked (m_obj m) t (GWaitForResume i b)"
    if "m_thr m t = Blocked (GWaitForResume i b)"
    using genm.blocked_parked [OF assms _ _ gen_entry_legal that] by blast
  then show ?thesis using gen_reach_inv [OF assms] unfolding gen_G_def by auto
qed

theorem gencount_no_lost_wakeup_witness:
  "\<exists>m. mon_reach (gen_run True) gen_entry (GenerationCounter_new 2) m \<and> gc_gen (m_obj m) = 1 \<and>
    m_thr m 1 = Done (RStatus HPX_SUCCESS) \<and> m_thr m 2 = Blocked (GWaitForResume 2 True) \<and>
    count (mset (gen_waiters (m_obj m))) 2 = 1"
proof -
  let ?as = "[Call 1 (GWaitFor 1), Exec 1, Call 2 (GWaitFor 2), Exec 2, Call 3 GSet, Exec 3, Exec 1, Exec 2]"
  have "\<exists>m. mon_play (gen_run True) gen_entry ?as (mon_init (GenerationCounter_new 2)) = Some m \<and>
      gc_gen (m_obj m) = 1 \<and> m_thr m 1 = Done (RStatus HPX_SUCCESS) \<and> m_thr m 2 = Blocked (GWaitForResume 2 True)"
    by (simp add: mon_init_def GenerationCounter_new_def waitForGeneration_def waitForGeneration_resume_def
        GenerationCounter_set_def gc_conditionAt_def Let_def wake_def waitFor_def waitFor_resume_def
        HPX_SUCCESS_def numeral_2_eq_2)
  then obtain m where m: "mon_play (gen_run True) gen_entry ?as (mon_init (GenerationCounter_new 2)) = Some m"
      "gc_gen (m_obj m) = 1" "m_thr m 1 = Done (RStatus HPX_SUCCESS)" "m_thr m 2 = Blocked (GWaitForResume 2 True)"
    by blast
  show ?thesis using gencount_no_lost_wakeup [OF mon_reach_play [OF m(1)], of 2] mon_reach_play [OF m(1)] m by blast
qed

end
