(* ===== verification/Hpx_Reduce.thy ===== *)
theory Hpx_Reduce
  imports Hpx_Monitor
begin

text \<open>
  The reduction LCO of \<^verbatim>\<open>libhpx/scheduler/lco/Reduce.cpp\<close>. The user's monoid operation and
  identity are parameters; the buffer is a value of any type.
\<close>

record 'v reduce =
  rd_barrier :: cond
  rd_size :: nat
  rd_inputs :: nat
  rd_remaining :: nat
  rd_value :: 'v

datatype 'v reduce_pc =
  RdSet nat 'v | RdGet nat bool | RdGetResume nat bool | RdError hpx_status | RdReset | RdAttach | RdLaunch

type_synonym 'v monoid_op = "'v \<Rightarrow> 'v \<Rightarrow> 'v"
type_synonym 'v monoid_id = "'v \<Rightarrow> 'v"

definition Reduce_new :: "'v monoid_id \<Rightarrow> nat \<Rightarrow> nat \<Rightarrow> 'v \<Rightarrow> 'v reduce" where
  "Reduce_new idf inputs n mem =
    \<lparr> rd_barrier = Waiting [], rd_size = n, rd_inputs = inputs, rd_remaining = inputs, rd_value = idf mem \<rparr>"

definition Reduce_op :: "'v monoid_op \<Rightarrow> nat \<Rightarrow> 'v \<Rightarrow> 'v reduce \<Rightarrow> 'v reduce outcome" where
  "Reduce_op f n from s =
    (if n \<noteq> 0 then assertO (rd_size s \<noteq> 0) (Ret (s\<lparr>rd_value := f (rd_value s) from\<rparr>)) else Ret s)"

definition Reduce_resetBarrier :: "'v monoid_id \<Rightarrow> bool \<Rightarrow> 'v reduce \<Rightarrow> 'v reduce outcome" where
  "Reduce_resetBarrier idf debug s =
    bindO (c_reset debug (rd_barrier s)) (\<lambda>b.
      Ret (s\<lparr>rd_barrier := b, rd_remaining := rd_inputs s, rd_value := idf (rd_value s)\<rparr>))"

definition Reduce_set :: "'v monoid_op \<Rightarrow> nat \<Rightarrow> 'v \<Rightarrow> 'v reduce \<Rightarrow> ('v reduce \<times> int \<times> ptr list) outcome" where
  "Reduce_set f n from s =
    assertO (n = rd_size s)
      (bindO (Reduce_op f n from s) (\<lambda>s1.
        let left = u32sub (rd_remaining s1) 1; s2 = s1\<lparr>rd_remaining := left\<rparr> in
        if left = 0 then (case c_popAll (rd_barrier s2) of (b, ws) \<Rightarrow> Ret (s2\<lparr>rd_barrier := b\<rparr>, 1, ws))
        else assertO (left > 0) (Ret (s2, 0, []))))"

text \<open>The loop of \<^verbatim>\<open>get\<close>, entered at the test.\<close>

definition Reduce_get_loop :: "'v monoid_id \<Rightarrow> bool \<Rightarrow> nat \<Rightarrow> bool \<Rightarrow> ptr \<Rightarrow> 'v reduce \<Rightarrow>
    ('v reduce, 'v reduce_pc, 'v lres) section_result" where
  "Reduce_get_loop idf debug n reset t s =
    (if rd_remaining s \<noteq> 0 then
       (case waitFor (rd_barrier s) t of (b, status) \<Rightarrow>
          if status \<noteq> HPX_SUCCESS then Ret (s\<lparr>rd_barrier := b\<rparr>, Return (RStatus status), [])
          else Ret (s\<lparr>rd_barrier := b\<rparr>, Wait (RdGetResume n reset), []))
     else let r = (if n \<noteq> 0 then RValue (rd_value s) else RStatus HPX_SUCCESS) in
       if reset then bindO (Reduce_resetBarrier idf debug s) (\<lambda>s'. Ret (s', Return r, []))
       else Ret (s, Return r, []))"

definition Reduce_get :: "'v monoid_id \<Rightarrow> bool \<Rightarrow> nat \<Rightarrow> bool \<Rightarrow> ptr \<Rightarrow> 'v reduce \<Rightarrow>
    ('v reduce, 'v reduce_pc, 'v lres) section_result" where
  "Reduce_get idf debug n reset t s = assertO (n = 0 \<or> n = rd_size s) (Reduce_get_loop idf debug n reset t s)"

definition Reduce_get_resume :: "'v monoid_id \<Rightarrow> bool \<Rightarrow> nat \<Rightarrow> bool \<Rightarrow> ptr \<Rightarrow> 'v reduce \<Rightarrow>
    ('v reduce, 'v reduce_pc, 'v lres) section_result" where
  "Reduce_get_resume idf debug n reset t s =
    (let status = waitFor_resume (rd_barrier s) in
     if status \<noteq> HPX_SUCCESS then Ret (s, Return (RStatus status), []) else Reduce_get_loop idf debug n reset t s)"

definition Reduce_error :: "hpx_status \<Rightarrow> 'v reduce \<Rightarrow> 'v reduce \<times> ptr list" where
  "Reduce_error code s = (case c_setError (rd_barrier s) code of (b, ws) \<Rightarrow> (s\<lparr>rd_barrier := b\<rparr>, ws))"

definition Reduce_reset :: "'v monoid_id \<Rightarrow> bool \<Rightarrow> 'v reduce \<Rightarrow> 'v reduce outcome" where
  "Reduce_reset idf debug s = Reduce_resetBarrier idf debug s"

definition Reduce_attach :: "'v reduce \<Rightarrow> ptr \<Rightarrow> 'v reduce \<times> hpx_status \<times> ptr list" where
  "Reduce_attach s p =
    (if rd_remaining s \<noteq> 0 then
       (case c_push (rd_barrier s) p of (b, status) \<Rightarrow> (s\<lparr>rd_barrier := b\<rparr>, status, []))
     else let status = c_getError (rd_barrier s) in
       if status \<noteq> HPX_SUCCESS then (s, status, []) else (s, HPX_SUCCESS, [p]))"

fun reduce_run :: "'v monoid_op \<Rightarrow> 'v monoid_id \<Rightarrow> bool \<Rightarrow> 'v reduce_pc \<Rightarrow> ptr \<Rightarrow> 'v reduce \<Rightarrow>
    ('v reduce, 'v reduce_pc, 'v lres) section_result" where
  "reduce_run f idf debug (RdSet n from) t s =
    bindO (Reduce_set f n from s) (\<lambda>(s', r, ws). Ret (s', Return (RSet r), ws))"
| "reduce_run f idf debug (RdGet n reset) t s = Reduce_get idf debug n reset t s"
| "reduce_run f idf debug (RdGetResume n reset) t s = Reduce_get_resume idf debug n reset t s"
| "reduce_run f idf debug (RdError code) t s = (case Reduce_error code s of (s', ws) \<Rightarrow> Ret (s', Return RVoid, ws))"
| "reduce_run f idf debug RdReset t s = bindO (Reduce_reset idf debug s) (\<lambda>s'. Ret (s', Return RVoid, []))"
| "reduce_run f idf debug RdAttach t s = attach_section RdLaunch t (Reduce_attach s t)"
| "reduce_run f idf debug RdLaunch t s = Ret (s, Return RLaunched, [])"

fun reduce_legal :: "'v reduce_pc \<Rightarrow> bool" where
  "reduce_legal (RdError e) = (e \<noteq> HPX_SUCCESS)"
| "reduce_legal pc = True"

definition reduce_parked :: "'v reduce \<Rightarrow> ptr \<Rightarrow> 'v reduce_pc \<Rightarrow> bool" where
  "reduce_parked s t pc = (t \<in> set (cond_waiters (rd_barrier s)) \<and> rd_remaining s \<noteq> 0 \<and>
    (case pc of RdGetResume _ _ \<Rightarrow> True | RdLaunch \<Rightarrow> True | _ \<Rightarrow> False))"

lemmas reduce_ops = Reduce_op_def Reduce_resetBarrier_def Reduce_set_def Reduce_get_loop_def Reduce_get_def
  Reduce_get_resume_def Reduce_error_def Reduce_reset_def Reduce_attach_def attach_section_def waitFor_def
  waitFor_resume_def Let_def

lemma reduce_law:
  assumes "cond_ok (rd_barrier s)" "reduce_legal pc" "reduce_run f idf True pc t s = Ret (s', a, ws)"
  shows "lco_law reduce_legal (\<lambda>s. cond_ok (rd_barrier s)) (\<lambda>s. cond_waiters (rd_barrier s)) reduce_parked s t s' a ws"
  using assms
  by (cases pc; cases "rd_barrier s")
    (auto simp: reduce_ops outcome_simps lco_law_def reduce_parked_def split: if_splits)

interpretation redm: lco_monitor "reduce_run f idf True" reduce_legal "\<lambda>s. cond_ok (rd_barrier s)"
  "\<lambda>s. cond_waiters (rd_barrier s)" reduce_parked for f idf
  by (rule lco_monitorI) (fact reduce_law, simp add: reduce_parked_def)

section \<open>The value of a reduction\<close>

fun reduce_once :: "'v reduce_pc \<Rightarrow> bool" where
  "reduce_once (RdGet n reset) = (\<not> reset)"
| "reduce_once (RdError e) = (e \<noteq> HPX_SUCCESS)"
| "reduce_once (RdSet n from) = True"
| "reduce_once RdAttach = True"
| "reduce_once pc = False"

lemma reduce_once_legal: "reduce_once pc \<Longrightarrow> reduce_legal pc"
  by (cases pc) auto

text \<open>The inputs of a history, oldest first.\<close>

fun reduce_args :: "(ptr \<times> 'v reduce_pc \<times> ('v reduce_pc, 'v lres) act) list \<Rightarrow> 'v list" where
  "reduce_args [] = []"
| "reduce_args ((t, RdSet n from, a) # h) = reduce_args h @ [from]"
| "reduce_args ((t, pc, a) # h) = reduce_args h"

lemma reduce_args_skip: "(\<forall>n x. pc \<noteq> RdSet n x) \<Longrightarrow> reduce_args ((t, pc, a) # h) = reduce_args h"
  by (cases pc) auto

definition reduce_G :: "'v monoid_op \<Rightarrow> 'v \<Rightarrow> nat \<Rightarrow> nat \<Rightarrow> 'v reduce \<Rightarrow>
    (ptr \<times> 'v reduce_pc \<times> ('v reduce_pc, 'v lres) act) list \<Rightarrow> bool" where
  "reduce_G f e inputs n s h = (cond_ok (rd_barrier s) \<and> rd_size s = n \<and>
    (length (reduce_args h) \<le> inputs \<longrightarrow>
      rd_remaining s = inputs - length (reduce_args h) \<and> rd_value s = foldl f e (reduce_args h)))"

definition reduce_L :: "'v monoid_op \<Rightarrow> 'v \<Rightarrow> nat \<Rightarrow> ptr \<Rightarrow> 'v reduce \<Rightarrow>
    (ptr \<times> 'v reduce_pc \<times> ('v reduce_pc, 'v lres) act) list \<Rightarrow> ('v reduce_pc, 'v lres) tstate \<Rightarrow> bool" where
  "reduce_L f e inputs t s h x = (case x of
     Idle \<Rightarrow> True
   | Ready pc \<Rightarrow> reduce_once pc \<or> pc = RdLaunch \<or> (\<exists>n. pc = RdGetResume n False)
   | Blocked pc \<Rightarrow> pc = RdLaunch \<or> (\<exists>n. pc = RdGetResume n False)
   | Done r \<Rightarrow> (\<forall>v. r = RValue v \<longrightarrow> length (reduce_args h) \<le> inputs \<longrightarrow>
       length (reduce_args h) = inputs \<and> v = foldl f e (reduce_args h)))"

text \<open>What a section does to a reduction that is not reset.\<close>

lemma reduce_step:
  assumes "reduce_run f idf debug pc t s = Ret (s', a, ws)" "cond_ok (rd_barrier s)"
    "reduce_once pc \<or> pc = RdLaunch \<or> (\<exists>n. pc = RdGetResume n False)"
  shows "cond_ok (rd_barrier s')" "rd_size s' = rd_size s"
    "pc = RdSet n x \<Longrightarrow> n = rd_size s \<and> rd_remaining s' = u32sub (rd_remaining s) 1 \<and>
      (rd_size s \<noteq> 0 \<longrightarrow> rd_value s' = f (rd_value s) x) \<and> (\<exists>r. a = Return (RSet r))"
    "(\<forall>n x. pc \<noteq> RdSet n x) \<Longrightarrow> rd_remaining s' = rd_remaining s \<and> rd_value s' = rd_value s \<and>
      (\<forall>v. a = Return (RValue v) \<longrightarrow> rd_remaining s = 0 \<and> v = rd_value s) \<and>
      (\<forall>pc'. a = Wait pc' \<longrightarrow> pc' = RdLaunch \<or> (\<exists>n. pc' = RdGetResume n False)) \<and> (\<forall>pc'. a \<noteq> Goto pc')"
  using assms
  by (cases pc; cases "rd_barrier s"; auto simp: reduce_ops outcome_simps split: if_splits)+

lemma reduce_inv_step:
  assumes G: "reduce_G f e inputs n s h" and L: "reduce_L f e inputs t s h (Ready pc)" and n: "n \<noteq> 0"
    and run: "reduce_run f idf debug pc t s = Ret (s', a, ws)"
  shows "reduce_G f e inputs n s' ((t, pc, a) # h)" "reduce_L f e inputs t s' ((t, pc, a) # h) (after a)"
    "reduce_L f e inputs u s h x \<Longrightarrow> reduce_L f e inputs u s' ((t, pc, a) # h) x"
proof -
  have ok: "cond_ok (rd_barrier s)" and sz: "rd_size s = n" using G by (simp_all add: reduce_G_def)
  have pc: "reduce_once pc \<or> pc = RdLaunch \<or> (\<exists>n. pc = RdGetResume n False)" using L by (simp add: reduce_L_def)
  note e = reduce_step [OF run ok pc]
  show "reduce_G f e inputs n s' ((t, pc, a) # h)"
  proof (cases "\<exists>k x. pc = RdSet k x")
    case True
    then obtain k x where k: "pc = RdSet k x" by blast
    have "rd_remaining s' = inputs - length (reduce_args h @ [x])" "rd_value s' = foldl f e (reduce_args h @ [x])"
      if "length (reduce_args h @ [x]) \<le> inputs"
      using e(3) [OF k] G n sz that by (auto simp: reduce_G_def)
    then show ?thesis using e(1,2) sz k by (simp add: reduce_G_def)
  next
    case False
    then have q: "reduce_args ((t, pc, a) # h) = reduce_args h" "rd_remaining s' = rd_remaining s" "rd_value s' = rd_value s"
      using reduce_args_skip e(4) by blast+
    show ?thesis using G e(1,2) unfolding reduce_G_def q by simp
  qed
  show "reduce_L f e inputs t s' ((t, pc, a) # h) (after a)"
  proof (cases "\<exists>k x. pc = RdSet k x")
    case True
    then show ?thesis using e(3) by (auto simp: reduce_L_def)
  next
    case False
    then have q: "reduce_args ((t, pc, a) # h) = reduce_args h" using reduce_args_skip by blast
    note e4 = e(4) [OF False [simplified]]
    show ?thesis
    proof (cases a)
      case (Return r)
      have "length (reduce_args h) = inputs \<and> v = foldl f e (reduce_args h)"
        if "r = RValue v" "length (reduce_args h) \<le> inputs" for v
        using e4 Return that G by (auto simp: reduce_G_def)
      then show ?thesis unfolding reduce_L_def q by (simp add: Return)
    next
      case (Wait pc')
      then show ?thesis using e4 by (auto simp: reduce_L_def)
    next
      case (Goto pc')
      then show ?thesis using e4 by blast
    qed
  qed
  show "reduce_L f e inputs u s' ((t, pc, a) # h) x" if Lu: "reduce_L f e inputs u s h x"
  proof (cases "\<exists>k y. pc = RdSet k y")
    case True
    then obtain k y where "pc = RdSet k y" by blast
    then show ?thesis using Lu by (cases x) (auto simp: reduce_L_def)
  next
    case False
    then have q: "reduce_args ((t, pc, a) # h) = reduce_args h" using reduce_args_skip by blast
    show ?thesis using Lu unfolding reduce_L_def q .
  qed
qed

lemma reduce_reach_inv:
  assumes "mon_reach (reduce_run f idf debug) reduce_once (Reduce_new idf inputs n mem) m" "n \<noteq> 0"
  shows "reduce_G f (idf mem) inputs n (m_obj m) (m_hist m) \<and>
    (\<forall>t. reduce_L f (idf mem) inputs t (m_obj m) (m_hist m) (m_thr m t))"
proof (rule mon_local_induct [OF assms(1)])
  show "reduce_G f (idf mem) inputs n (Reduce_new idf inputs n mem) []"
    by (simp add: reduce_G_def Reduce_new_def)
  show "reduce_L f (idf mem) inputs u s' ((t, pc, a) # h) (Ready pc')"
    if "reduce_G f (idf mem) inputs n s h" "reduce_L f (idf mem) inputs t s h (Ready pc)"
      "reduce_run f idf debug pc t s = Ret (s', a, ws)" "reduce_L f (idf mem) inputs u s h (Blocked pc')"
    for t s h pc s' a ws u pc'
    using that(4) by (auto simp: reduce_L_def)
qed (blast intro: reduce_inv_step [OF _ _ assms(2)] | simp add: reduce_L_def)+

text \<open>
  C7: In every interleaving on a reduction of \<open>inputs\<close> values that is not reset and gets no more
  inputs than it has room for, the value is the fold of the inputs so far in the order their
  sets ran; a get returns only after all inputs are in, and returns the fold of all of them;
  and once they are in nobody is left blocked.
\<close>
theorem reduce_is_fold:
  assumes "mon_reach (reduce_run f idf True) reduce_once (Reduce_new idf inputs n mem) m" "n \<noteq> 0"
    and "length (reduce_args (m_hist m)) \<le> inputs"
  shows "rd_value (m_obj m) = foldl f (idf mem) (reduce_args (m_hist m)) \<and>
    (m_thr m t = Done (RValue v) \<longrightarrow> length (reduce_args (m_hist m)) = inputs \<and>
      v = foldl f (idf mem) (reduce_args (m_hist m))) \<and>
    (length (reduce_args (m_hist m)) = inputs \<longrightarrow> m_thr m t \<noteq> Blocked pc)"
proof -
  have G: "reduce_G f (idf mem) inputs n (m_obj m) (m_hist m)"
    and L: "reduce_L f (idf mem) inputs t (m_obj m) (m_hist m) (m_thr m t)"
    using reduce_reach_inv [OF assms(1,2)] by blast+
  have "m_thr m t \<noteq> Blocked pc" if full: "length (reduce_args (m_hist m)) = inputs"
  proof
    assume "m_thr m t = Blocked pc"
    then have "reduce_parked (m_obj m) t pc"
      using redm.blocked_parked [OF assms(1) _ _ reduce_once_legal] by (simp add: Reduce_new_def)
    then show False using G full by (simp add: reduce_G_def reduce_parked_def)
  qed
  then show ?thesis using G L assms(3) by (auto simp: reduce_G_def reduce_L_def)
qed

theorem reduce_is_fold_witness:
  "\<exists>m :: (int reduce, int reduce_pc, int lres) mon.
    mon_reach (reduce_run (+) (\<lambda>_. 0) True) reduce_once (Reduce_new (\<lambda>_. 0) 2 8 99) m \<and>
    m_thr m 1 = Done (RValue 12) \<and> 12 = foldl (+) 0 (reduce_args (m_hist m))"
proof -
  let ?as = "[Call 1 (RdGet 8 False), Exec 1, Call 2 (RdSet 8 (5 :: int)), Exec 2, Call 3 (RdSet 8 7), Exec 3, Exec 1]"
  let ?r = "mon_play (reduce_run (+) (\<lambda>_. 0) True) reduce_once ?as (mon_init (Reduce_new (\<lambda>_. 0) 2 8 99))"
  have "\<exists>m. ?r = Some m \<and> m_thr m 1 = Done (RValue 12) \<and> length (reduce_args (m_hist m)) \<le> 2"
    by (simp add: mon_init_def Reduce_new_def reduce_ops wake_def HPX_SUCCESS_def)
  then obtain m where m: "?r = Some m" "m_thr m 1 = Done (RValue 12)" "length (reduce_args (m_hist m)) \<le> 2" by blast
  show ?thesis using reduce_is_fold [OF mon_reach_play [OF m(1)] _ m(3)] mon_reach_play [OF m(1)] m(2) by auto
qed

text \<open>
  \<^verbatim>\<open>set\<close> tries to detect too many inputs by asserting that the remaining count is
  positive after the decrement, but the count is unsigned: an extra set wraps it to
  \<open>2\<^sup>3\<^sup>2 - 1\<close>, passes the assertion, and the completed reduction is closed again, so that a
  later get blocks with no thread left to wake it.
\<close>
lemma reduce_extra_set_undetected:
  "\<exists>m :: (int reduce, int reduce_pc, int lres) mon.
    mon_reach (reduce_run (+) (\<lambda>_. 0) True) reduce_once (Reduce_new (\<lambda>_. 0) 1 8 0) m \<and>
    m_thr m 1 = Done (RSet 1) \<and> m_thr m 2 = Done (RSet 0) \<and> rd_remaining (m_obj m) = 2 ^ 32 - 1 \<and>
    m_thr m 3 = Blocked (RdGetResume 8 False) \<and> (\<forall>t pc. m_thr m t \<noteq> Ready pc)"
proof -
  let ?as = "[Call 1 (RdSet 8 (5 :: int)), Exec 1, Call 2 (RdSet 8 7), Exec 2, Call 3 (RdGet 8 False), Exec 3]"
  let ?r = "mon_play (reduce_run (+) (\<lambda>_. 0) True) reduce_once ?as (mon_init (Reduce_new (\<lambda>_. 0) 1 8 0))"
  have "\<exists>m. ?r = Some m \<and> m_thr m 1 = Done (RSet 1) \<and> m_thr m 2 = Done (RSet 0) \<and>
      rd_remaining (m_obj m) = 2 ^ 32 - 1 \<and> m_thr m 3 = Blocked (RdGetResume 8 False)"
    by (simp add: mon_init_def Reduce_new_def reduce_ops wake_def HPX_SUCCESS_def u32sub_def)
  then obtain m where m: "?r = Some m" "m_thr m 1 = Done (RSet 1)" "m_thr m 2 = Done (RSet 0)"
      "rd_remaining (m_obj m) = 2 ^ 32 - 1" "m_thr m 3 = Blocked (RdGetResume 8 False)" by blast
  have "\<forall>t pc. m_thr m t \<noteq> Ready pc" by (rule mon_play_stuck [OF m(1)]) (simp add: m(2-))
  then show ?thesis using mon_reach_play [OF m(1)] m(2-) by blast
qed

end
