(* ===== verification/Hpx_AllReduce.thy ===== *)
theory Hpx_AllReduce
  imports Hpx_Monitor
begin

text \<open>
  The allreduce LCO of \<^verbatim>\<open>libhpx/scheduler/lco/AllReduce.cpp\<close>: a reduction that alternates
  between a phase that collects the writers' inputs and a phase in which the readers copy
  the result. The monoid operation and identity are parameters. A get that copied the value
  before the last reader keeps the copy while it waits for the phase to change.
\<close>

datatype ar_phase = REDUCING | READING

record 'v allreduce =
  ar_epoch :: cond
  ar_readers :: nat
  ar_writers :: nat
  ar_count :: nat
  ar_phase :: ar_phase
  ar_value :: 'v

datatype 'v ar_pc =
  ArSet nat 'v | ArSetResume nat 'v | ArGet nat | ArGetResume nat | ArReadResume "'v lres" |
  ArJoin nat 'v | ArJoinResume nat 'v | ArError hpx_status | ArReset | ArAttach | ArLaunch

type_synonym 'v ar_section = "('v allreduce, 'v ar_pc, 'v lres) section_result"

definition AllReduce_new :: "(nat \<Rightarrow> 'v \<Rightarrow> 'v) \<Rightarrow> nat \<Rightarrow> nat \<Rightarrow> nat \<Rightarrow> 'v \<Rightarrow> 'v allreduce" where
  "AllReduce_new idf writers readers n mem =
    \<lparr> ar_epoch = Waiting [], ar_readers = readers, ar_writers = writers, ar_count = writers,
      ar_phase = REDUCING, ar_value = (if n \<noteq> 0 then idf n mem else mem) \<rparr>"

definition AllReduce_op :: "('v \<Rightarrow> 'v \<Rightarrow> 'v) \<Rightarrow> nat \<Rightarrow> 'v \<Rightarrow> 'v allreduce \<Rightarrow> 'v allreduce" where
  "AllReduce_op f n from s = (if n \<noteq> 0 then s\<lparr>ar_value := f (ar_value s) from\<rparr> else s)"

definition AllReduce_id :: "(nat \<Rightarrow> 'v \<Rightarrow> 'v) \<Rightarrow> nat \<Rightarrow> 'v allreduce \<Rightarrow> 'v allreduce" where
  "AllReduce_id idf n s = s\<lparr>ar_value := idf n (ar_value s)\<rparr>"

definition size_dec :: "nat \<Rightarrow> nat" where
  "size_dec k = (if k = 0 then 2 ^ 64 - 1 else k - 1)"

text \<open>The loop of \<^verbatim>\<open>setInner\<close>: \<^verbatim>\<open>None\<close> says that the thread parked itself.\<close>

definition AllReduce_setInner :: "('v \<Rightarrow> 'v \<Rightarrow> 'v) \<Rightarrow> nat \<Rightarrow> 'v \<Rightarrow> ptr \<Rightarrow> 'v allreduce \<Rightarrow>
    ('v allreduce \<times> int option \<times> ptr list) outcome" where
  "AllReduce_setInner f n from t s =
    (if ar_phase s \<noteq> REDUCING then
       (case waitFor (ar_epoch s) t of (c, status) \<Rightarrow>
          if status \<noteq> HPX_SUCCESS then Fault Dbg_error else Ret (s\<lparr>ar_epoch := c\<rparr>, None, []))
     else let s1 = AllReduce_op f n from s; s2 = s1\<lparr>ar_count := size_dec (ar_count s1)\<rparr> in
       if ar_count s2 = 0 then
         (case c_popAll (ar_epoch s2) of (c, ws) \<Rightarrow> Ret (s2\<lparr>ar_phase := READING, ar_epoch := c\<rparr>, Some 1, ws))
       else Ret (s2, Some 0, []))"

text \<open>The second loop of \<^verbatim>\<open>getInner\<close>, which waits for the phase to change back.\<close>

definition AllReduce_leave :: "'v lres \<Rightarrow> ptr \<Rightarrow> 'v allreduce \<Rightarrow> 'v ar_section" where
  "AllReduce_leave r t s =
    (if ar_phase s = READING then wait_at ar_epoch (\<lambda>c s. s\<lparr>ar_epoch := c\<rparr>) (ArReadResume r) t s
     else Ret (s, Return r, []))"

definition AllReduce_leave_resume :: "'v lres \<Rightarrow> ptr \<Rightarrow> 'v allreduce \<Rightarrow> 'v ar_section" where
  "AllReduce_leave_resume r t s = resume_at (ar_epoch s) s (AllReduce_leave r t s)"

text \<open>\<^verbatim>\<open>getInner\<close> from the test of its first loop.\<close>

definition AllReduce_getInner ::
  "(nat \<Rightarrow> 'v \<Rightarrow> 'v) \<Rightarrow> nat \<Rightarrow> ptr \<Rightarrow> 'v allreduce \<Rightarrow> 'v ar_section" where
  "AllReduce_getInner idf n t s =
    (if ar_phase s \<noteq> READING then wait_at ar_epoch (\<lambda>c s. s\<lparr>ar_epoch := c\<rparr>) (ArGetResume n) t s
     else let r = (if n \<noteq> 0 then RValue (ar_value s) else RStatus HPX_SUCCESS);
              s1 = s\<lparr>ar_count := u64wrap (ar_count s + 1)\<rparr> in
       if ar_readers s1 = ar_count s1 then
         let s2 = AllReduce_id idf n (s1\<lparr>ar_count := ar_writers s1, ar_phase := REDUCING\<rparr>) in
         (case c_popAll (ar_epoch s2) of (c, ws) \<Rightarrow> Ret (s2\<lparr>ar_epoch := c\<rparr>, Return r, ws))
       else AllReduce_leave r t s1)"

definition AllReduce_getInner_resume ::
  "(nat \<Rightarrow> 'v \<Rightarrow> 'v) \<Rightarrow> nat \<Rightarrow> ptr \<Rightarrow> 'v allreduce \<Rightarrow> 'v ar_section" where
  "AllReduce_getInner_resume idf n t s = resume_at (ar_epoch s) s (AllReduce_getInner idf n t s)"

definition AllReduce_set :: "('v \<Rightarrow> 'v \<Rightarrow> 'v) \<Rightarrow> nat \<Rightarrow> 'v \<Rightarrow> ptr \<Rightarrow> 'v allreduce \<Rightarrow> 'v ar_section" where
  "AllReduce_set f n from t s =
    bindO (AllReduce_setInner f n from t s) (\<lambda>(s', r, ws).
      case r of None \<Rightarrow> Ret (s', Wait (ArSetResume n from), ws) | Some i \<Rightarrow> Ret (s', Return (RSet i), ws))"

definition AllReduce_join ::
  "('v \<Rightarrow> 'v \<Rightarrow> 'v) \<Rightarrow> (nat \<Rightarrow> 'v \<Rightarrow> 'v) \<Rightarrow> nat \<Rightarrow> 'v \<Rightarrow> ptr \<Rightarrow> 'v allreduce \<Rightarrow> 'v ar_section" where
  "AllReduce_join f idf n from t s =
    bindO (AllReduce_setInner f n from t s) (\<lambda>(s', r, ws).
      case r of
        None \<Rightarrow> Ret (s', Wait (ArJoinResume n from), ws)
      | Some i \<Rightarrow> bindO (AllReduce_getInner idf n t s') (\<lambda>(s'', a, ws'). Ret (s'', a, ws @ ws')))"

text \<open>A set or join that resumes in \<^verbatim>\<open>setInner\<close> fails if the condition has an error.\<close>

definition AllReduce_set_resume :: "'v allreduce \<Rightarrow> 'v ar_section \<Rightarrow> 'v ar_section" where
  "AllReduce_set_resume s r = (if waitFor_resume (ar_epoch s) \<noteq> HPX_SUCCESS then Fault Dbg_error else r)"

definition AllReduce_error :: "hpx_status \<Rightarrow> 'v allreduce \<Rightarrow> 'v allreduce \<times> ptr list" where
  "AllReduce_error code s = (case c_setError (ar_epoch s) code of (c, ws) \<Rightarrow> (s\<lparr>ar_epoch := c\<rparr>, ws))"

definition AllReduce_reset :: "bool \<Rightarrow> 'v allreduce \<Rightarrow> 'v allreduce outcome" where
  "AllReduce_reset debug s = bindO (c_reset debug (ar_epoch s)) (\<lambda>c. Ret (s\<lparr>ar_epoch := c\<rparr>))"

definition AllReduce_attach :: "'v allreduce \<Rightarrow> ptr \<Rightarrow> 'v allreduce \<times> hpx_status \<times> ptr list" where
  "AllReduce_attach s p =
    (if ar_phase s \<noteq> REDUCING then
       (case c_push (ar_epoch s) p of (c, status) \<Rightarrow> (s\<lparr>ar_epoch := c\<rparr>, status, []))
     else let status = c_getError (ar_epoch s) in
       if status \<noteq> HPX_SUCCESS then (s, status, []) else (s, HPX_SUCCESS, [p]))"

fun ar_run :: "('v \<Rightarrow> 'v \<Rightarrow> 'v) \<Rightarrow> (nat \<Rightarrow> 'v \<Rightarrow> 'v) \<Rightarrow> bool \<Rightarrow> 'v ar_pc \<Rightarrow> ptr \<Rightarrow> 'v allreduce \<Rightarrow> 'v ar_section" where
  "ar_run f idf debug (ArSet n v) t s = AllReduce_set f n v t s"
| "ar_run f idf debug (ArSetResume n v) t s = AllReduce_set_resume s (AllReduce_set f n v t s)"
| "ar_run f idf debug (ArGet n) t s = AllReduce_getInner idf n t s"
| "ar_run f idf debug (ArGetResume n) t s = AllReduce_getInner_resume idf n t s"
| "ar_run f idf debug (ArReadResume r) t s = AllReduce_leave_resume r t s"
| "ar_run f idf debug (ArJoin n v) t s = AllReduce_join f idf n v t s"
| "ar_run f idf debug (ArJoinResume n v) t s = AllReduce_set_resume s (AllReduce_join f idf n v t s)"
| "ar_run f idf debug (ArError code) t s = (case AllReduce_error code s of (s', ws) \<Rightarrow> Ret (s', Return RVoid, ws))"
| "ar_run f idf debug ArReset t s = bindO (AllReduce_reset debug s) (\<lambda>s'. Ret (s', Return RVoid, []))"
| "ar_run f idf debug ArAttach t s = attach_section ArLaunch t (AllReduce_attach s t)"
| "ar_run f idf debug ArLaunch t s = Ret (s, Return RLaunched, [])"

fun ar_legal :: "'v ar_pc \<Rightarrow> bool" where
  "ar_legal (ArError e) = (e \<noteq> HPX_SUCCESS)"
| "ar_legal pc = True"

text \<open>A parked thread waits for the phase it needs, which is not the current one.\<close>

fun ar_needs :: "'v ar_pc \<Rightarrow> ar_phase option" where
  "ar_needs (ArSetResume n v) = Some REDUCING"
| "ar_needs (ArJoinResume n v) = Some REDUCING"
| "ar_needs (ArReadResume r) = Some REDUCING"
| "ar_needs ArLaunch = Some REDUCING"
| "ar_needs (ArGetResume n) = Some READING"
| "ar_needs pc = None"

definition ar_blocks :: "'v allreduce \<Rightarrow> 'v ar_pc \<Rightarrow> bool" where
  "ar_blocks s pc = (ar_needs pc \<noteq> None \<and> ar_needs pc \<noteq> Some (ar_phase s))"

abbreviation ar_parked :: "'v allreduce \<Rightarrow> ptr \<Rightarrow> 'v ar_pc \<Rightarrow> bool" where
  "ar_parked \<equiv> cond_parked ar_epoch ar_blocks"

lemmas ar_ops = AllReduce_op_def AllReduce_id_def AllReduce_setInner_def AllReduce_leave_def AllReduce_leave_resume_def
  AllReduce_getInner_def AllReduce_getInner_resume_def AllReduce_set_def AllReduce_join_def AllReduce_set_resume_def
  AllReduce_error_def AllReduce_reset_def AllReduce_attach_def attach_section_def waitFor_def waitFor_resume_def wait_at_def resume_at_def Let_def

abbreviation ar_lawful :: "'v allreduce \<Rightarrow> ptr \<Rightarrow> 'v allreduce \<Rightarrow> ('v ar_pc, 'r) act \<Rightarrow> ptr list \<Rightarrow> bool" where
  "ar_lawful \<equiv> cond_law ar_legal ar_epoch ar_blocks"

lemmas ar_park = law_park [where cnd = ar_epoch and blocks = ar_blocks]
lemmas ar_wake = law_wake [where cnd = ar_epoch and blocks = ar_blocks]
lemmas ar_quiet = law_quiet [where cnd = ar_epoch and blocks = ar_blocks]

lemma ar_setInner_law:
  assumes "cond_ok (ar_epoch s)" "AllReduce_setInner f n from t s = Ret (s', r, ws)"
  shows "r = None \<Longrightarrow> pc = ArSetResume n from \<or> pc = ArJoinResume n from \<Longrightarrow> ar_lawful s t s' (Wait pc) ws"
    "r = Some i \<Longrightarrow> ar_lawful s t s' (Return x) ws"
proof -
  show "ar_lawful s t s' (Wait pc) ws" if r: "r = None" and pc: "pc = ArSetResume n from \<or> pc = ArJoinResume n from"
  proof -
    obtain c where c: "waitFor (ar_epoch s) t = (c, HPX_SUCCESS)" "s' = s\<lparr>ar_epoch := c\<rparr>" "ws = []" "ar_phase s \<noteq> REDUCING"
      using assms(2) r by (auto simp: AllReduce_setInner_def AllReduce_op_def Let_def split: if_splits prod.splits)
    then show ?thesis unfolding c(3) using pc by (intro ar_park [OF assms(1) c(1)]) (auto simp: ar_blocks_def)
  qed
  show "ar_lawful s t s' (Return x) ws" if "r = Some i"
  proof (cases "ws = [] \<and> ar_epoch s' = ar_epoch s \<and> ar_phase s' = ar_phase s")
    case True
    then show ?thesis using ar_quiet [of s s'] assms(1) by (simp add: ar_blocks_def)
  next
    case False
    then have "ar_epoch s' = fst (c_popAll (ar_epoch s))" "ws = snd (c_popAll (ar_epoch s))"
      using assms(2) that by (auto simp: AllReduce_setInner_def AllReduce_op_def Let_def case_prod_beta split: if_splits)
    then show ?thesis by (rule ar_wake [OF assms(1)])
  qed
qed

lemma ar_leave_law:
  assumes "cond_ok (ar_epoch s)" "AllReduce_leave r t s = Ret (s', a, ws)"
  shows "ar_lawful s t s' a ws"
proof (cases "ar_phase s = READING")
  case True
  then have "wait_at ar_epoch (\<lambda>c s. s\<lparr>ar_epoch := c\<rparr>) (ArReadResume r) t s = Ret (s', a, ws)"
    using assms(2) by (simp add: AllReduce_leave_def)
  then show ?thesis using assms(1) by (rule law_wait_at) (simp_all add: ar_blocks_def True)
next
  case False
  then have "s' = s" "a = Return r" "ws = []" using assms(2) by (simp_all add: AllReduce_leave_def)
  then show ?thesis using assms(1) by (auto intro: ar_quiet)
qed

lemma ar_getInner_law:
  assumes "cond_ok (ar_epoch s)" "AllReduce_getInner idf n t s = Ret (s', a, ws)"
  shows "ar_lawful s t s' a ws"
proof (cases "ar_phase s")
  case REDUCING
  then have "wait_at ar_epoch (\<lambda>c s. s\<lparr>ar_epoch := c\<rparr>) (ArGetResume n) t s = Ret (s', a, ws)"
    using assms(2) by (simp add: AllReduce_getInner_def)
  then show ?thesis using assms(1) by (rule law_wait_at) (simp_all add: ar_blocks_def REDUCING)
next
  case READING
  let ?r = "if n \<noteq> 0 then RValue (ar_value s) else RStatus HPX_SUCCESS"
  show ?thesis
  proof (cases "ar_readers s = u64wrap (ar_count s + 1)")
    case True
    have "Ret (s', a, ws) =
      Ret (AllReduce_id idf n (s\<lparr>ar_count := ar_writers s, ar_phase := REDUCING\<rparr>)\<lparr>ar_epoch := fst (c_popAll (ar_epoch s))\<rparr>,
        Return ?r, snd (c_popAll (ar_epoch s)))"
      using assms(2) READING True by (simp add: AllReduce_getInner_def AllReduce_id_def Let_def case_prod_beta)
    then have e: "ar_epoch s' = fst (c_popAll (ar_epoch s))" "ws = snd (c_popAll (ar_epoch s))" "a = Return ?r"
      by simp_all
    show ?thesis unfolding e(3) by (rule ar_wake [OF assms(1) e(1,2)])
  next
    case False
    let ?s1 = "s\<lparr>ar_count := u64wrap (ar_count s + 1)\<rparr>"
    have "AllReduce_leave ?r t ?s1 = Ret (s', a, ws)"
      using assms(2) READING False by (simp add: AllReduce_getInner_def Let_def)
    moreover have "ar_lawful s t ?s1 (Return RVoid) []" using assms(1) by (intro ar_quiet) (simp_all add: ar_blocks_def)
    ultimately show ?thesis using lco_law_trans [OF _ ar_leave_law [of ?s1]] assms(1) by fastforce
  qed
qed

lemma ar_set_law:
  assumes "cond_ok (ar_epoch s)" "AllReduce_set f n from t s = Ret (s', a, ws)"
  shows "ar_lawful s t s' a ws"
proof -
  obtain r where r: "AllReduce_setInner f n from t s = Ret (s', r, ws)"
      "a = (case r of None \<Rightarrow> Wait (ArSetResume n from) | Some i \<Rightarrow> Return (RSet i))"
    using assms(2) by (auto simp: AllReduce_set_def outcome_simps split: option.splits)
  show ?thesis
  proof (cases r)
    case None
    then show ?thesis using ar_setInner_law(1) [OF assms(1) r(1) None, of "ArSetResume n from"] r(2) by simp
  next
    case (Some i)
    then show ?thesis using ar_setInner_law(2) [OF assms(1) r(1) Some] r(2) by simp
  qed
qed

lemma ar_join_law:
  assumes "cond_ok (ar_epoch s)" "AllReduce_join f idf n from t s = Ret (s', a, ws)"
  shows "ar_lawful s t s' a ws"
proof -
  obtain s1 r ws1 where 1: "AllReduce_setInner f n from t s = Ret (s1, r, ws1)"
    using assms(2) by (auto simp: AllReduce_join_def outcome_simps)
  show ?thesis
  proof (cases r)
    case None
    then show ?thesis using ar_setInner_law(1) [OF assms(1) 1] assms(2) 1
      by (auto simp: AllReduce_join_def)
  next
    case (Some i)
    then obtain ws2 where 2: "AllReduce_getInner idf n t s1 = Ret (s', a, ws2)" "ws = ws1 @ ws2"
      using assms(2) 1 by (auto simp: AllReduce_join_def outcome_simps)
    have l: "ar_lawful s t s1 (Return RVoid) ws1" using ar_setInner_law(2) [OF assms(1) 1 Some] .
    then have "cond_ok (ar_epoch s1)" by (simp add: lco_law_def)
    from lco_law_trans [OF l ar_getInner_law [OF this 2(1)]] show ?thesis by (simp add: 2)
  qed
qed

lemma ar_law:
  assumes "cond_ok (ar_epoch s)" "ar_legal pc" "ar_run f idf True pc t s = Ret (s', a, ws)"
  shows "ar_lawful s t s' a ws"
proof (cases pc)
  case (ArSetResume n v)
  then show ?thesis using assms ar_set_law by (auto simp: AllReduce_set_resume_def split: if_splits)
next
  case (ArJoinResume n v)
  then show ?thesis using assms ar_join_law by (auto simp: AllReduce_set_resume_def split: if_splits)
next
  case (ArGetResume n)
  then show ?thesis using assms(3) ar_getInner_law [OF assms(1)]
    by (auto simp: AllReduce_getInner_resume_def intro: law_resume_at [where cnd = ar_epoch, OF _ assms(1)])
next
  case (ArReadResume r)
  then show ?thesis using assms(3) ar_leave_law [OF assms(1)]
    by (auto simp: AllReduce_leave_resume_def intro: law_resume_at [where cnd = ar_epoch, OF _ assms(1)])
next
  case (ArError e)
  then show ?thesis using assms by (auto simp: AllReduce_error_def case_prod_beta intro: law_fail)
next
  case ArReset
  then show ?thesis using assms by (auto simp: AllReduce_reset_def outcome_simps intro: law_reset)
next
  case ArAttach
  then show ?thesis using assms
    by (cases "ar_epoch s"; cases "ar_phase s")
      (auto simp: AllReduce_attach_def attach_section_def Let_def lco_law_def cond_parked_def ar_blocks_def split: if_splits)
next
  case (ArSet n v)
  then show ?thesis using assms ar_set_law by simp
next
  case (ArJoin n v)
  then show ?thesis using assms ar_join_law by simp
next
  case (ArGet n)
  then show ?thesis using assms ar_getInner_law by simp
next
  case ArLaunch
  then show ?thesis using assms by (auto simp: lco_law_def)
qed

interpretation arm: lco_monitor "ar_run f idf True" ar_legal "\<lambda>s. cond_ok (ar_epoch s)"
  "\<lambda>s. cond_waiters (ar_epoch s)" ar_parked for f idf
  by (rule lco_monitorI) (fact ar_law, simp add: cond_parked_def)

section \<open>Epochs\<close>

text \<open>
  The inputs of a history, oldest first: a section of a set or join contributes its input
  unless it parked the thread before using it. Epoch \<open>k\<close> is the \<open>k\<close>-th block of inputs.
\<close>

fun ar_input :: "'v ar_pc \<Rightarrow> 'v list" where
  "ar_input (ArSet n v) = [v]"
| "ar_input (ArSetResume n v) = [v]"
| "ar_input (ArJoin n v) = [v]"
| "ar_input (ArJoinResume n v) = [v]"
| "ar_input pc = []"

fun ar_before_set :: "('v ar_pc, 'v lres) act \<Rightarrow> bool" where
  "ar_before_set (Wait (ArSetResume n v)) = True"
| "ar_before_set (Wait (ArJoinResume n v)) = True"
| "ar_before_set a = False"

fun ar_args :: "(ptr \<times> 'v ar_pc \<times> ('v ar_pc, 'v lres) act) list \<Rightarrow> 'v list" where
  "ar_args [] = []"
| "ar_args ((t, pc, a) # h) = ar_args h @ (if ar_before_set a then [] else ar_input pc)"

definition epoch_value :: "('v \<Rightarrow> 'v \<Rightarrow> 'v) \<Rightarrow> 'v \<Rightarrow> nat \<Rightarrow> 'v list \<Rightarrow> 'v \<Rightarrow> bool" where
  "epoch_value f e W xs v = (\<exists>k. (k + 1) * W \<le> length xs \<and> v = foldl f e (take W (drop (k * W) xs)))"

definition epoch_ok :: "('v \<Rightarrow> 'v \<Rightarrow> 'v) \<Rightarrow> 'v \<Rightarrow> nat \<Rightarrow> nat \<Rightarrow> nat \<Rightarrow> 'v list \<Rightarrow> 'v allreduce \<Rightarrow> bool" where
  "epoch_ok f e W R k xs s = (ar_writers s = W \<and> ar_readers s = R \<and> ar_value s = foldl f e (drop (k * W) xs) \<and>
    (case ar_phase s of
       REDUCING \<Rightarrow> k * W \<le> length xs \<and> length xs < (k + 1) * W \<and> ar_count s = (k + 1) * W - length xs
     | READING \<Rightarrow> length xs = (k + 1) * W \<and> ar_count s < R))"

lemma epoch_value_append: "epoch_value f e W xs v \<Longrightarrow> epoch_value f e W (xs @ ys) v"
proof -
  assume "epoch_value f e W xs v"
  then obtain k where k: "(k + 1) * W \<le> length xs" "v = foldl f e (take W (drop (k * W) xs))"
    unfolding epoch_value_def by blast
  have "W \<le> length (drop (k * W) xs)" using k(1) by simp
  then have "take W (drop (k * W) (xs @ ys)) = take W (drop (k * W) xs)" by simp
  then show ?thesis using k unfolding epoch_value_def by (metis le_add1 le_trans length_append)
qed

text \<open>In the reading phase the stored value is that of the current epoch.\<close>

lemma epoch_ok_reading: "epoch_ok f e W R k xs s \<Longrightarrow> ar_phase s = READING \<Longrightarrow> epoch_value f e W xs (ar_value s)"
  unfolding epoch_ok_def epoch_value_def by (intro exI [of _ k]) (simp add: add.commute)

definition ar_same :: "'v allreduce \<Rightarrow> 'v allreduce \<Rightarrow> bool" where
  "ar_same s s' = (ar_value s' = ar_value s \<and> ar_count s' = ar_count s \<and> ar_phase s' = ar_phase s \<and>
    ar_writers s' = ar_writers s \<and> ar_readers s' = ar_readers s)"

lemma epoch_ok_same: "epoch_ok f e W R k xs s \<Longrightarrow> ar_same s s' \<Longrightarrow> epoch_ok f e W R k xs s'"
  by (cases "ar_phase s") (simp_all add: epoch_ok_def ar_same_def)

lemma setInner_parks: "AllReduce_setInner f n v t s = Ret (s', None, ws) \<Longrightarrow> ar_same s s'"
  by (auto simp: AllReduce_setInner_def ar_same_def Let_def split: if_splits prod.splits)

lemma setInner_epoch:
  assumes "AllReduce_setInner f n v t s = Ret (s', Some i, ws)" "n \<noteq> 0" "epoch_ok f e W R k xs s" "0 < R"
  shows "epoch_ok f e W R k (xs @ [v]) s'"
proof -
  have ph: "ar_phase s = REDUCING"
    using assms(1) by (auto simp: AllReduce_setInner_def split: if_splits prod.splits)
  have k: "k * W \<le> length xs" "length xs < (k + 1) * W" "ar_count s = (k + 1) * W - length xs"
    "ar_value s = foldl f e (drop (k * W) xs)" "ar_writers s = W" "ar_readers s = R"
    using assms(3) ph by (simp_all add: epoch_ok_def)
  have d: "drop (k * W) (xs @ [v]) = drop (k * W) xs @ [v]" using k(1) by simp
  have c: "size_dec (ar_count s) = (k + 1) * W - length (xs @ [v])" using k(2,3) by (simp add: size_dec_def)
  have s': "ar_value s' = f (ar_value s) v" "ar_writers s' = W" "ar_readers s' = R" "ar_count s' = size_dec (ar_count s)"
    "ar_phase s' = (if size_dec (ar_count s) = 0 then READING else REDUCING)"
    using assms(1,2) ph k(5,6) by (auto simp: AllReduce_setInner_def AllReduce_op_def Let_def split: if_splits prod.splits)
  show ?thesis
  proof (cases "size_dec (ar_count s) = 0")
    case True
    then show ?thesis using s' c d k(1,2,4) assms(4) by (simp add: epoch_ok_def)
  next
    case False
    then show ?thesis using s' c d k(1,2,4) by (simp add: epoch_ok_def)
  qed
qed

lemma leave_epoch:
  assumes "AllReduce_leave r t s = Ret (s', a, ws)"
  shows "ar_same s s'" "a = Return r \<or> a = Wait (ArReadResume r) \<or> (\<exists>st. a = Return (RStatus st))"
  using assms by (auto simp: AllReduce_leave_def wait_at_def ar_same_def split: if_splits prod.splits)

text \<open>What a get hands out, now or after it resumes, is the value of a complete epoch.\<close>

definition ar_gives :: "('v \<Rightarrow> bool) \<Rightarrow> ('v ar_pc, 'v lres) act \<Rightarrow> bool" where
  "ar_gives P a = (\<forall>v. a = Return (RValue v) \<or> a = Wait (ArReadResume (RValue v)) \<longrightarrow> P v)"

lemma getInner_epoch:
  assumes "AllReduce_getInner idf n t s = Ret (s', a, ws)" "epoch_ok f e W R k xs s"
    "\<forall>v. idf n v = e" "0 < W" "R < 2 ^ 64"
  shows "\<exists>k'. epoch_ok f e W R k' xs s'" "ar_gives (epoch_value f e W xs) a" "\<not> ar_before_set a"
    "a = Wait pc \<Longrightarrow> pc = ArGetResume n \<or> (\<exists>r. pc = ArReadResume r)" "a \<noteq> Goto pc"
proof -
  let ?r = "if n \<noteq> 0 then RValue (ar_value s) else RStatus HPX_SUCCESS" and ?s1 = "s\<lparr>ar_count := ar_count s + 1\<rparr>"
  have "(\<exists>k'. epoch_ok f e W R k' xs s') \<and> ar_gives (epoch_value f e W xs) a \<and> \<not> ar_before_set a \<and>
    (\<forall>pc. a = Wait pc \<longrightarrow> pc = ArGetResume n \<or> (\<exists>r. pc = ArReadResume r)) \<and> (\<forall>pc. a \<noteq> Goto pc)"
  proof (cases "ar_phase s")
    case REDUCING
    then have "ar_same s s'" "a = Wait (ArGetResume n) \<or> (\<exists>st. a = Return (RStatus st))"
      using assms(1) by (auto simp: AllReduce_getInner_def wait_at_def ar_same_def split: if_splits prod.splits)
    then show ?thesis using epoch_ok_same [OF assms(2)] by (auto simp: ar_gives_def)
  next
    case READING
    then have len: "length xs = (k + 1) * W" "ar_count s < R" "ar_writers s = W" "ar_readers s = R"
      using assms(2) by (simp_all add: epoch_ok_def)
    have w: "u64wrap (ar_count s + 1) = ar_count s + 1" using len(2) assms(5) by simp
    have v: "epoch_value f e W xs (ar_value s)" by (rule epoch_ok_reading [OF assms(2) READING])
    show ?thesis
    proof (cases "ar_count s + 1 = R")
      case True
      then have s': "ar_value s' = e" "ar_count s' = W" "ar_phase s' = REDUCING" "ar_writers s' = W" "ar_readers s' = R"
        "a = Return ?r"
        using assms(1,3) READING len w
        by (auto simp: AllReduce_getInner_def AllReduce_id_def Let_def case_prod_beta)
      have "epoch_ok f e W R (k + 1) xs s'" using s'(1-5) len assms(4) by (simp add: epoch_ok_def)
      then show ?thesis using s'(6) v by (auto simp: ar_gives_def split: if_splits)
    next
      case False
      then have lv: "AllReduce_leave ?r t ?s1 = Ret (s', a, ws)"
        using assms(1) READING len w by (simp add: AllReduce_getInner_def Let_def)
      have "epoch_ok f e W R k xs ?s1" using assms(2) READING False by (simp add: epoch_ok_def)
      then have "epoch_ok f e W R k xs s'" by (rule epoch_ok_same [OF _ leave_epoch(1) [OF lv]])
      then show ?thesis using leave_epoch(2) [OF lv] v by (auto simp: ar_gives_def split: if_splits)
    qed
  qed
  then show "\<exists>k'. epoch_ok f e W R k' xs s'" "ar_gives (epoch_value f e W xs) a" "\<not> ar_before_set a"
    "a = Wait pc \<Longrightarrow> pc = ArGetResume n \<or> (\<exists>r. pc = ArReadResume r)" "a \<noteq> Goto pc"
    by blast+
qed

fun ar_entry :: "'v ar_pc \<Rightarrow> bool" where
  "ar_entry (ArSet n v) = (n \<noteq> 0)"
| "ar_entry (ArJoin n v) = (n \<noteq> 0)"
| "ar_entry (ArGet n) = True"
| "ar_entry (ArError e) = (e \<noteq> HPX_SUCCESS)"
| "ar_entry ArReset = True"
| "ar_entry ArAttach = True"
| "ar_entry pc = False"

text \<open>
  The calls with which an allreduce of \<open>N\<close> bytes is used as documented: every set, join and get passes the
  size it was allocated with.
\<close>

fun ar_sized :: "nat \<Rightarrow> 'v ar_pc \<Rightarrow> bool" where
  "ar_sized N (ArSet n v) = (n = N)"
| "ar_sized N (ArJoin n v) = (n = N)"
| "ar_sized N (ArGet n) = (n = N)"
| "ar_sized N pc = ar_entry pc"

definition ar_pc_ok :: "nat \<Rightarrow> ('v \<Rightarrow> bool) \<Rightarrow> 'v ar_pc \<Rightarrow> bool" where
  "ar_pc_ok N P pc = (case pc of
     ArSetResume n v \<Rightarrow> n = N | ArJoinResume n v \<Rightarrow> n = N | ArGetResume n \<Rightarrow> n = N | ArLaunch \<Rightarrow> True
   | ArReadResume r \<Rightarrow> (\<forall>v. r = RValue v \<longrightarrow> P v) | _ \<Rightarrow> ar_sized N pc)"

definition ar_G :: "('v \<Rightarrow> 'v \<Rightarrow> 'v) \<Rightarrow> 'v \<Rightarrow> nat \<Rightarrow> nat \<Rightarrow> 'v allreduce \<Rightarrow>
    (ptr \<times> 'v ar_pc \<times> ('v ar_pc, 'v lres) act) list \<Rightarrow> bool" where
  "ar_G f e W R s h = (\<exists>k. epoch_ok f e W R k (ar_args h) s)"

definition ar_L :: "nat \<Rightarrow> ('v \<Rightarrow> 'v \<Rightarrow> 'v) \<Rightarrow> 'v \<Rightarrow> nat \<Rightarrow> ptr \<Rightarrow> 'v allreduce \<Rightarrow>
    (ptr \<times> 'v ar_pc \<times> ('v ar_pc, 'v lres) act) list \<Rightarrow> ('v ar_pc, 'v lres) tstate \<Rightarrow> bool" where
  "ar_L N f e W t s h x = (case x of
     Idle \<Rightarrow> True
   | Ready pc \<Rightarrow> ar_pc_ok N (epoch_value f e W (ar_args h)) pc
   | Blocked pc \<Rightarrow> ar_pc_ok N (epoch_value f e W (ar_args h)) pc
   | Done r \<Rightarrow> (\<forall>v. r = RValue v \<longrightarrow> epoch_value f e W (ar_args h) v))"

lemma ar_L_mono: "ar_L N f e W t s h x \<Longrightarrow> ar_L N f e W t s' (y # h) x"
proof (cases y)
  case (fields u pc a)
  assume L: "ar_L N f e W t s h x"
  have m: "epoch_value f e W (ar_args h) v \<Longrightarrow> epoch_value f e W (ar_args (y # h)) v" for v
    unfolding fields by (simp add: epoch_value_append)
  have "ar_pc_ok N (epoch_value f e W (ar_args h)) pc \<Longrightarrow> ar_pc_ok N (epoch_value f e W (ar_args (y # h))) pc" for pc
    using m by (cases pc) (auto simp: ar_pc_ok_def)
  then show ?thesis using L m by (cases x) (auto simp: ar_L_def)
qed

text \<open>A section keeps the epoch invariant and hands out only values of complete epochs.\<close>

definition ar_keeps :: "nat \<Rightarrow> ('v \<Rightarrow> 'v \<Rightarrow> 'v) \<Rightarrow> 'v \<Rightarrow> nat \<Rightarrow> nat \<Rightarrow> 'v list \<Rightarrow> 'v allreduce \<Rightarrow> ('v ar_pc, 'v lres) act \<Rightarrow> bool" where
  "ar_keeps N f e W R xs s' a = ((\<exists>k. epoch_ok f e W R k xs s') \<and>
    (case a of Return r \<Rightarrow> (\<forall>v. r = RValue v \<longrightarrow> epoch_value f e W xs v)
     | Wait pc \<Rightarrow> ar_pc_ok N (epoch_value f e W xs) pc | Goto pc \<Rightarrow> False))"

lemma ar_keeps_getInner:
  assumes "AllReduce_getInner idf n t s = Ret (s', a, ws)" "epoch_ok f e W R k xs s"
    "\<forall>v. idf n v = e" "0 < W" "R < 2 ^ 64"
  shows "ar_keeps n f e W R xs s' a \<and> \<not> ar_before_set a"
proof (cases a)
  case (Return r)
  then show ?thesis using getInner_epoch(1-3) [OF assms] by (auto simp: ar_keeps_def ar_gives_def)
next
  case (Wait pc)
  have "pc = ArGetResume n \<or> (\<exists>r. pc = ArReadResume r)" using getInner_epoch(4) [OF assms] Wait by simp
  then show ?thesis using getInner_epoch(1-3) [OF assms] Wait by (auto simp: ar_keeps_def ar_gives_def ar_pc_ok_def)
next
  case (Goto pc)
  then show ?thesis using getInner_epoch(5) [OF assms] by simp
qed

lemma ar_keeps_set:
  assumes "AllReduce_set f n v t s = Ret (s', a, ws)" "epoch_ok f e W R k xs s" "n \<noteq> 0" "0 < R"
  shows "ar_keeps n f e W R (xs @ (if ar_before_set a then [] else [v])) s' a"
proof -
  obtain r where r: "AllReduce_setInner f n v t s = Ret (s', r, ws)"
      "a = (case r of None \<Rightarrow> Wait (ArSetResume n v) | Some i \<Rightarrow> Return (RSet i))"
    using assms(1) by (auto simp: AllReduce_set_def outcome_simps split: option.splits)
  show ?thesis
  proof (cases r)
    case None
    then have "epoch_ok f e W R k xs s'" using epoch_ok_same [OF assms(2) setInner_parks] r(1) by simp
    then show ?thesis using r(2) None assms(3) by (auto simp: ar_keeps_def ar_pc_ok_def)
  next
    case (Some i)
    then have "epoch_ok f e W R k (xs @ [v]) s'" using setInner_epoch [OF _ assms(3,2,4)] r by simp
    then show ?thesis using r Some by (auto simp: ar_keeps_def)
  qed
qed

lemma ar_keeps_join:
  assumes "AllReduce_join f idf n v t s = Ret (s', a, ws)" "epoch_ok f e W R k xs s" "n \<noteq> 0" "0 < R"
    "\<forall>v. idf n v = e" "0 < W" "R < 2 ^ 64"
  shows "ar_keeps n f e W R (xs @ (if ar_before_set a then [] else [v])) s' a"
proof -
  obtain s1 r ws1 where r: "AllReduce_setInner f n v t s = Ret (s1, r, ws1)"
    using assms(1) by (auto simp: AllReduce_join_def outcome_simps)
  show ?thesis
  proof (cases r)
    case None
    then have "s' = s1" "a = Wait (ArJoinResume n v)" using assms(1) r by (simp_all add: AllReduce_join_def)
    moreover have "epoch_ok f e W R k xs s1" using epoch_ok_same [OF assms(2) setInner_parks] r None by simp
    ultimately show ?thesis using assms(3) by (auto simp: ar_keeps_def ar_pc_ok_def)
  next
    case (Some i)
    then obtain ws2 where g: "AllReduce_getInner idf n t s1 = Ret (s', a, ws2)"
      using assms(1) r by (auto simp: AllReduce_join_def outcome_simps)
    have "epoch_ok f e W R k (xs @ [v]) s1" using setInner_epoch [OF _ assms(3,2,4)] r Some by blast
    from ar_keeps_getInner [OF g this assms(5-7)] show ?thesis by simp
  qed
qed

lemma ar_keeps_run:
  assumes "ar_run f idf debug pc t s = Ret (s', a, ws)" "epoch_ok f e W R k xs s" "ar_pc_ok N (epoch_value f e W xs) pc"
    "\<forall>v. idf N v = e" "0 < W" "0 < R" "R < 2 ^ 64" "N \<noteq> 0"
  shows "ar_keeps N f e W R (xs @ (if ar_before_set a then [] else ar_input pc)) s' a"
proof -
  have quiet: "ar_keeps N f e W R xs s' (Return (RStatus st))" "ar_keeps N f e W R xs s' (Return RVoid)"
    "ar_keeps N f e W R xs s' (Return RLaunched)" "ar_keeps N f e W R xs s' (Wait ArLaunch)" if "ar_same s s'" for st
    using epoch_ok_same [OF assms(2) that] by (auto simp: ar_keeps_def ar_pc_ok_def)
  show ?thesis
  proof (cases pc)
    case (ArSet n v)
    then have n: "n = N" using assms(3) by (simp add: ar_pc_ok_def)
    have inp: "ar_input pc = [v]" using ArSet by simp
    show ?thesis unfolding inp n [symmetric]
      by (rule ar_keeps_set [OF _ assms(2) _ assms(6)]) (use assms(1,4,8) n ArSet in \<open>auto simp: ar_pc_ok_def \<close>)
  next
    case (ArSetResume n v)
    then have n: "n = N" using assms(3) by (simp add: ar_pc_ok_def)
    have inp: "ar_input pc = [v]" using ArSetResume by simp
    show ?thesis unfolding inp n [symmetric]
      by (rule ar_keeps_set [OF _ assms(2) _ assms(6)]) (use assms(1,4,8) n ArSetResume in \<open>auto simp: ar_pc_ok_def AllReduce_set_resume_def split: if_splits\<close>)
  next
    case (ArGet n)
    then have n: "n = N" using assms(3) by (simp add: ar_pc_ok_def)
    show ?thesis using ar_keeps_getInner [OF _ assms(2) _ assms(5,7), of idf N t s' a ws] assms(1,4) n ArGet by simp
  next
    case (ArGetResume n)
    then have n: "n = N" using assms(3) by (simp add: ar_pc_ok_def)
    show ?thesis
    proof (cases "waitFor_resume (ar_epoch s) = HPX_SUCCESS")
      case True
      then show ?thesis using ar_keeps_getInner [OF _ assms(2) _ assms(5,7), of idf N t s' a ws] assms(1,4) n ArGetResume
        by (simp add: AllReduce_getInner_resume_def resume_at_def)
    next
      case False
      then have "s' = s" "a = Return (RStatus (waitFor_resume (ar_epoch s)))"
        using assms(1) ArGetResume by (auto simp: AllReduce_getInner_resume_def resume_at_def Let_def)
      then show ?thesis using quiet(1) ArGetResume by (simp add: ar_same_def)
    qed
  next
    case (ArReadResume r)
    show ?thesis
    proof (cases "waitFor_resume (ar_epoch s) = HPX_SUCCESS")
      case True
      then have l: "AllReduce_leave r t s = Ret (s', a, ws)"
        using assms(1) ArReadResume by (simp add: AllReduce_leave_resume_def resume_at_def)
      have "\<forall>v. r = RValue v \<longrightarrow> epoch_value f e W xs v" using assms(3) ArReadResume by (simp add: ar_pc_ok_def)
      then show ?thesis using leave_epoch [OF l] epoch_ok_same [OF assms(2)] ArReadResume
        by (auto simp: ar_keeps_def ar_pc_ok_def)
    next
      case False
      then have "s' = s" "a = Return (RStatus (waitFor_resume (ar_epoch s)))"
        using assms(1) ArReadResume by (auto simp: AllReduce_leave_resume_def resume_at_def Let_def)
      then show ?thesis using quiet(1) ArReadResume by (simp add: ar_same_def)
    qed
  next
    case (ArJoin n v)
    then have n: "n = N" using assms(3) by (simp add: ar_pc_ok_def)
    have inp: "ar_input pc = [v]" using ArJoin by simp
    show ?thesis unfolding inp n [symmetric]
      by (rule ar_keeps_join [OF _ assms(2) _ assms(6) _ assms(5,7)]) (use assms(1,4,8) n ArJoin in \<open>auto simp: ar_pc_ok_def \<close>)
  next
    case (ArJoinResume n v)
    then have n: "n = N" using assms(3) by (simp add: ar_pc_ok_def)
    have inp: "ar_input pc = [v]" using ArJoinResume by simp
    show ?thesis unfolding inp n [symmetric]
      by (rule ar_keeps_join [OF _ assms(2) _ assms(6) _ assms(5,7)]) (use assms(1,4,8) n ArJoinResume in \<open>auto simp: ar_pc_ok_def AllReduce_set_resume_def split: if_splits\<close>)
  next
    case (ArError c)
    then have "ar_same s s'" "a = Return RVoid"
      using assms(1) by (auto simp: AllReduce_error_def ar_same_def split: prod.splits)
    then show ?thesis using quiet(2) ArError by simp
  next
    case ArReset
    then have "ar_same s s'" "a = Return RVoid"
      using assms(1) by (auto simp: AllReduce_reset_def outcome_simps ar_same_def)
    then show ?thesis using quiet(2) ArReset by simp
  next
    case ArAttach
    then have "ar_same s s'" "a = Return RLaunched \<or> (\<exists>st. a = Return (RStatus st)) \<or> a = Wait ArLaunch"
      using assms(1)
      by (auto simp: AllReduce_attach_def attach_section_def ar_same_def Let_def split: if_splits prod.splits)
    then show ?thesis using quiet ArAttach by auto
  next
    case ArLaunch
    then have "s' = s" "a = Return RLaunched" using assms(1) by auto
    then show ?thesis using quiet(3) ArLaunch by (simp add: ar_same_def)
  qed
qed

lemma ar_reach_inv:
  assumes "mon_reach (ar_run f idf debug) (ar_sized N) (AllReduce_new idf W R N mem) m"
    "\<forall>v. idf N v = e" "N \<noteq> 0" "0 < W" "0 < R" "R < 2 ^ 64"
  shows "ar_G f e W R (m_obj m) (m_hist m) \<and> (\<forall>t. ar_L N f e W t (m_obj m) (m_hist m) (m_thr m t))"
proof (rule mon_local_induct [OF assms(1)], goal_cases)
  case 1
  have "epoch_ok f e W R 0 [] (AllReduce_new idf W R N mem)"
    using assms(2-4) by (simp add: epoch_ok_def AllReduce_new_def)
  then show ?case by (auto simp: ar_G_def)
next
  case (2 t)
  then show ?case by (simp add: ar_L_def)
next
  case (3 t s h x pc)
  then show ?case by (cases pc) (auto simp: ar_L_def ar_pc_ok_def)
next
  case (4 t s h pc s' a ws)
  then obtain k where k: "epoch_ok f e W R k (ar_args h) s" by (auto simp: ar_G_def)
  from ar_keeps_run [OF 4(3) k _ assms(2,4-6,3)] 4(2) show ?case by (simp add: ar_G_def ar_L_def ar_keeps_def)
next
  case (5 t s h pc s' a ws)
  then obtain k where k: "epoch_ok f e W R k (ar_args h) s" by (auto simp: ar_G_def)
  from ar_keeps_run [OF 5(3) k _ assms(2,4-6,3)] 5(2) show ?case
    by (cases a) (simp_all add: ar_L_def ar_keeps_def)
next
  case (6 t s h pc s' a ws u x)
  then show ?case by (intro ar_L_mono)
next
  case (7 t s h pc s' a ws u pc')
  have "ar_L N f e W u s h (Ready pc')" using 7(6) by (simp add: ar_L_def)
  then show ?case by (rule ar_L_mono)
qed

text \<open>
  C8: In every interleaving of sets, gets, joins, attaches, errors and resets on an allreduce
  with \<open>W\<close> writers, in which each set, get and join passes the \<open>N\<close> bytes the allreduce was allocated with and the identity,
  given \<open>N\<close> bytes, writes \<open>e\<close>, the inputs in the order they were reduced fall into epochs of \<open>W\<close>, the
  stored value is the fold of the current epoch's inputs so far, and every value a get or join
  returns is the fold of all the inputs of one complete epoch.
\<close>
theorem allreduce_epoch_values:
  assumes "mon_reach (ar_run f idf debug) (ar_sized N) (AllReduce_new idf W R N mem) m"
    "\<forall>v. idf N v = e" "N \<noteq> 0" "0 < W" "0 < R" "R < 2 ^ 64"
  shows "(\<exists>k. epoch_ok f e W R k (ar_args (m_hist m)) (m_obj m)) \<and>
    (m_thr m t = Done (RValue v) \<longrightarrow> epoch_value f e W (ar_args (m_hist m)) v)"
proof -
  have "ar_G f e W R (m_obj m) (m_hist m)" "ar_L N f e W t (m_obj m) (m_hist m) (m_thr m t)"
    using ar_reach_inv [OF assms] by blast+
  then show ?thesis by (auto simp: ar_G_def ar_L_def)
qed

theorem allreduce_epoch_values_witness:
  "\<exists>m :: (int allreduce, int ar_pc, int lres) mon.
    mon_reach (ar_run (+) (\<lambda>n v. if n = 8 then 0 else v) True) (ar_sized 8) (AllReduce_new (\<lambda>n v. if n = 8 then 0 else v) 2 2 8 99) m \<and>
    m_thr m 1 = Done (RValue 12) \<and> m_thr m 2 = Done (RValue 12) \<and> epoch_value (+) 0 2 (ar_args (m_hist m)) 12"
proof -
  let ?as = "[Call 1 (ArJoin 8 (5 :: int)), Exec 1, Call 2 (ArJoin 8 7), Exec 2, Exec 1, Exec 2]"
  let ?r = "mon_play (ar_run (+) (\<lambda>n v. if n = 8 then 0 else v) True) (ar_sized 8) ?as (mon_init (AllReduce_new (\<lambda>n v. if n = 8 then 0 else v) 2 2 8 99))"
  have "\<exists>m. ?r = Some m \<and> m_thr m 1 = Done (RValue 12) \<and> m_thr m 2 = Done (RValue 12)"
    by (simp add: mon_init_def AllReduce_new_def ar_ops size_dec_def wake_def HPX_SUCCESS_def)
  then obtain m where m: "?r = Some m" "m_thr m 1 = Done (RValue 12)" "m_thr m 2 = Done (RValue 12)" by blast
  have r: "mon_reach (ar_run (+) (\<lambda>n v. if n = 8 then 0 else v) True) (ar_sized 8) (AllReduce_new (\<lambda>n v. if n = 8 then 0 else v) 2 2 8 99) m"
    using m(1) by (rule mon_reach_play)
  have "epoch_value (+) 0 2 (ar_args (m_hist m)) 12" using allreduce_epoch_values [OF r, of 0 1 12] m(2) by simp
  then show ?thesis using r m(2,3) by blast
qed

text \<open>
  The size matters: the last reader of an epoch runs the identity on the size it passed itself, not on the
  allocated one, and a wait passes 0. With an identity that writes the bytes it is given, the value of the epoch that
  a wait ends is not reset but reduced into the next: the second get below returns 12, not 7.
\<close>
lemma allreduce_wait_keeps_value:
  "\<exists>m :: (int allreduce, int ar_pc, int lres) mon.
    mon_reach (ar_run (+) (\<lambda>n v. if n = 8 then 0 else v) True) ar_entry (AllReduce_new (\<lambda>n v. if n = 8 then 0 else v) 1 1 8 99) m \<and>
    ar_args (m_hist m) = [5, 7] \<and> m_thr m 2 = Done (RValue 12)"
proof -
  let ?as = "[Call 1 (ArSet 8 (5 :: int)), Exec 1, Call 2 (ArGet 0), Exec 2, Call 1 (ArSet 8 7), Exec 1, Call 2 (ArGet 8), Exec 2]"
  let ?r = "mon_play (ar_run (+) (\<lambda>n v. if n = 8 then 0 else v) True) ar_entry ?as
    (mon_init (AllReduce_new (\<lambda>n v. if n = 8 then 0 else v) 1 1 8 99))"
  have "\<exists>m. ?r = Some m \<and> ar_args (m_hist m) = [5, 7] \<and> m_thr m 2 = Done (RValue 12)"
    by (simp add: mon_init_def AllReduce_new_def ar_ops size_dec_def wake_def HPX_SUCCESS_def)
  then obtain m where "?r = Some m" "ar_args (m_hist m) = [5, 7]" "m_thr m 2 = Done (RValue 12)" by blast
  then show ?thesis using mon_reach_play by metis
qed

text \<open>
  C29: A reader can sleep through an epoch. A get that is not the last waits for the phase to
  change back, but tests only the phase: if the writers finish the next epoch before it
  resumes, it finds the reading phase again and waits on. In the run below (one writer, two
  readers, two epochs) both readers end up blocked and no thread is left to run.
\<close>
theorem allreduce_reader_misses_epoch:
  "\<exists>m :: (int allreduce, int ar_pc, int lres) mon.
    mon_reach (ar_run (+) (\<lambda>_ _. 0) True) ar_entry (AllReduce_new (\<lambda>_ _. 0) 1 2 8 0) m \<and>
    m_thr m 1 = Blocked (ArReadResume (RValue 5)) \<and> m_thr m 2 = Blocked (ArReadResume (RValue 7)) \<and>
    (\<forall>t pc. m_thr m t \<noteq> Ready pc)"
proof -
  let ?as = "[Call 3 (ArSet 8 (5 :: int)), Exec 3, Call 1 (ArGet 8), Exec 1, Call 2 (ArGet 8), Exec 2,
    Call 3 (ArSet 8 7), Exec 3, Call 2 (ArGet 8), Exec 2, Exec 1]"
  let ?r = "mon_play (ar_run (+) (\<lambda>_ _. 0) True) ar_entry ?as (mon_init (AllReduce_new (\<lambda>_ _. 0) 1 2 8 0))"
  have "\<exists>m. ?r = Some m \<and> m_thr m 1 = Blocked (ArReadResume (RValue 5)) \<and>
      m_thr m 2 = Blocked (ArReadResume (RValue 7)) \<and> m_thr m 3 = Done (RSet 1)"
    by (simp add: mon_init_def AllReduce_new_def ar_ops size_dec_def wake_def HPX_SUCCESS_def)
  then obtain m where m: "?r = Some m" "m_thr m 1 = Blocked (ArReadResume (RValue 5))"
      "m_thr m 2 = Blocked (ArReadResume (RValue 7))" "m_thr m 3 = Done (RSet 1)" by blast
  have "\<forall>t pc. m_thr m t \<noteq> Ready pc" by (rule mon_play_stuck [OF m(1)]) (simp add: m(2-))
  then show ?thesis using mon_reach_play [OF m(1)] m(2,3) by blast
qed

end
