(* ===== verification/Hpx_Buffer.thy ===== *)
theory Hpx_Buffer
  imports Hpx_Prelude
begin

text \<open>
  Byte buffers with bounds: the \<^verbatim>\<open>memcpy\<close> of the runtime into and out of a flexible array, and
  the view of a buffer as consecutive chunks of one size.
\<close>

definition buf_write :: "'a list \<Rightarrow> nat \<Rightarrow> 'a list \<Rightarrow> 'a list outcome" where
  "buf_write dst pos src =
    (if pos + length src \<le> length dst then Ret (take pos dst @ src @ drop (pos + length src) dst)
     else Fault Out_of_bounds)"

definition buf_read :: "'a list \<Rightarrow> nat \<Rightarrow> nat \<Rightarrow> 'a list outcome" where
  "buf_read src pos n = (if pos + n \<le> length src then Ret (take n (drop pos src)) else Fault Out_of_bounds)"

definition chunk :: "nat \<Rightarrow> 'a list \<Rightarrow> nat \<Rightarrow> 'a list" where
  "chunk n v k = take n (drop (k * n) v)"

lemma length_chunk: "(k + 1) * n \<le> length v \<Longrightarrow> length (chunk n v k) = n"
  by (simp add: chunk_def)

lemma concat_chunks:
  assumes "(j + w) * n \<le> length v"
  shows "concat (map (\<lambda>k. chunk n v (j + k)) [0..<w]) = take (w * n) (drop (j * n) v)"
  using assms
proof (induction w)
  case (Suc w)
  have "take (w * n + n) (drop (j * n) v) = take (w * n) (drop (j * n) v) @ take n (drop (w * n) (drop (j * n) v))"
    by (rule take_add)
  also have "drop (w * n) (drop (j * n) v) = drop ((j + w) * n) v" by (simp add: algebra_simps)
  finally show ?case using Suc by (simp add: chunk_def algebra_simps)
qed simp

lemma buf_write_chunk:
  assumes "length v = w * n" "k < w" "length d = n"
  shows "\<exists>v'. buf_write v (k * n) d = Ret v' \<and> length v' = w * n \<and>
    (\<forall>j < w. chunk n v' j = (if j = k then d else chunk n v j))"
proof -
  have le: "k * n + n \<le> w * n" using assms(2) by (metis Suc_leI add.commute mult_Suc mult_le_mono1)
  let ?v = "take (k * n) v @ d @ drop (k * n + n) v"
  have w: "buf_write v (k * n) d = Ret ?v" using le assms by (simp add: buf_write_def)
  have len: "length ?v = w * n" using le assms by simp
  have "chunk n ?v j = (if j = k then d else chunk n v j)" if "j < w" for j
  proof -
    have j: "j * n + n \<le> w * n" using that by (metis Suc_leI add.commute mult_Suc mult_le_mono1)
    consider "j = k" | "j < k" | "k < j" by linarith
    then show ?thesis
    proof cases
      case 1
      then show ?thesis using assms le by (simp add: chunk_def)
    next
      case 2
      then have "j * n + n \<le> k * n" by (metis Suc_leI add.commute mult_Suc mult_le_mono1)
      then have "min n (k * n - j * n) = n" "j * n \<le> k * n" by linarith+
      then show ?thesis using 2 assms le by (simp add: chunk_def drop_take)
    next
      case 3
      then have "k * n + n \<le> j * n" by (metis Suc_leI add.commute mult_Suc mult_le_mono1)
      then have "drop (j * n) ?v = drop (j * n) v" using assms le 3 by simp
      then show ?thesis using 3 by (simp add: chunk_def)
    qed
  qed
  then show ?thesis using w len by blast
qed

end
