(* ===== verification/Hpx_Gather.thy ===== *)
theory Hpx_Gather
  imports Hpx_Monitor Hpx_Buffer
begin

text \<open>
  The gather LCO of \<^verbatim>\<open>libhpx/scheduler/lco/Gather.cpp\<close>: each writer stores one chunk, the last
  one opens the buffer to the readers, and the last reader opens it to the writers again.
\<close>

record gather =
  ga_cvar :: cond
  ga_writers :: nat
  ga_readers :: nat
  ga_wcount :: nat
  ga_rcount :: nat
  ga_value :: "byte list"

datatype gather_pc =
  GaSet nat "byte list" | GaSetResume nat "byte list" | GaGet nat | GaGetResume nat |
  GaError hpx_status | GaReset | GaAttach | GaLaunch

type_synonym gather_section = "(gather, gather_pc, byte list lres) section_result"

definition Gather_new :: "nat \<Rightarrow> nat \<Rightarrow> nat \<Rightarrow> byte list \<Rightarrow> gather" where
  "Gather_new writers readers n mem =
    \<lparr> ga_cvar = Waiting [], ga_writers = writers, ga_readers = readers, ga_wcount = 0, ga_rcount = readers,
      ga_value = replicate n 0 @ drop n mem \<rparr>"

definition ga_put :: "cond \<Rightarrow> gather \<Rightarrow> gather" where
  "ga_put c s = s\<lparr>ga_cvar := c\<rparr>"

text \<open>\<^verbatim>\<open>get\<close> from the test of its loop.\<close>

definition Gather_get :: "nat \<Rightarrow> ptr \<Rightarrow> gather \<Rightarrow> gather_section" where
  "Gather_get n t s =
    (if ga_wcount s < ga_writers s then wait_at ga_cvar ga_put (GaGetResume n) t s
     else bindO (if n \<noteq> 0 then bindO (buf_read (ga_value s) 0 n) (\<lambda>d. Ret (RValue d)) else Ret (RStatus HPX_SUCCESS)) (\<lambda>r.
       let s1 = s\<lparr>ga_rcount := u32sub (ga_rcount s) 1\<rparr> in
       if ga_rcount s1 = 0 then
         (case c_popAll (ga_cvar s1) of (c, ws) \<Rightarrow> Ret (s1\<lparr>ga_wcount := 0, ga_cvar := c\<rparr>, Return r, ws))
       else Ret (s1, Return r, [])))"

text \<open>\<^verbatim>\<open>setId\<close> from the test of its loop.\<close>

definition Gather_setId :: "nat \<Rightarrow> byte list \<Rightarrow> ptr \<Rightarrow> gather \<Rightarrow> gather_section" where
  "Gather_setId offset data t s =
    (if ga_wcount s = ga_writers s then wait_at ga_cvar ga_put (GaSetResume offset data) t s
     else assertO (length data \<noteq> 0)
       (bindO (buf_write (ga_value s) (u64wrap (offset * length data)) data) (\<lambda>v.
         let s1 = s\<lparr>ga_value := v, ga_wcount := u32wrap (ga_wcount s + 1)\<rparr> in
         if ga_wcount s1 = ga_writers s1 then
           (case c_popAll (ga_cvar s1) of (c, ws) \<Rightarrow>
              Ret (s1\<lparr>ga_rcount := ga_readers s1, ga_cvar := c\<rparr>, Return (RStatus HPX_SUCCESS), ws))
         else Ret (s1, Return (RStatus HPX_SUCCESS), []))))"

definition Gather_attach :: "gather \<Rightarrow> ptr \<Rightarrow> gather \<times> hpx_status \<times> ptr list" where
  "Gather_attach s p =
    (if ga_wcount s = ga_writers s then
       (case c_push (ga_cvar s) p of (c, status) \<Rightarrow> (s\<lparr>ga_cvar := c\<rparr>, status, []))
     else let status = c_getError (ga_cvar s) in
       if status \<noteq> HPX_SUCCESS then (s, status, []) else (s, HPX_SUCCESS, [p]))"

definition Gather_error :: "hpx_status \<Rightarrow> gather \<Rightarrow> gather \<times> ptr list" where
  "Gather_error code s = (case c_setError (ga_cvar s) code of (c, ws) \<Rightarrow> (s\<lparr>ga_cvar := c\<rparr>, ws))"

definition Gather_reset :: "bool \<Rightarrow> gather \<Rightarrow> gather outcome" where
  "Gather_reset debug s = bindO (c_reset debug (ga_cvar s)) (\<lambda>c. Ret (s\<lparr>ga_cvar := c\<rparr>))"

fun gather_run :: "bool \<Rightarrow> gather_pc \<Rightarrow> ptr \<Rightarrow> gather \<Rightarrow> gather_section" where
  "gather_run debug (GaSet i d) t s = Gather_setId i d t s"
| "gather_run debug (GaSetResume i d) t s = resume_at (ga_cvar s) s (Gather_setId i d t s)"
| "gather_run debug (GaGet n) t s = Gather_get n t s"
| "gather_run debug (GaGetResume n) t s = resume_at (ga_cvar s) s (Gather_get n t s)"
| "gather_run debug (GaError code) t s = (case Gather_error code s of (s', ws) \<Rightarrow> Ret (s', Return RVoid, ws))"
| "gather_run debug GaReset t s = bindO (Gather_reset debug s) (\<lambda>s'. Ret (s', Return RVoid, []))"
| "gather_run debug GaAttach t s = attach_section GaLaunch t (Gather_attach s t)"
| "gather_run debug GaLaunch t s = Ret (s, Return RLaunched, [])"

fun gather_legal :: "gather_pc \<Rightarrow> bool" where
  "gather_legal (GaError e) = (e \<noteq> HPX_SUCCESS)"
| "gather_legal pc = True"

text \<open>Readers wait while chunks are missing; writers and attached parcels while none is.\<close>

fun gather_blocks :: "gather \<Rightarrow> gather_pc \<Rightarrow> bool" where
  "gather_blocks s (GaGetResume n) = (ga_wcount s < ga_writers s)"
| "gather_blocks s (GaSetResume i d) = (ga_wcount s = ga_writers s)"
| "gather_blocks s GaLaunch = (ga_wcount s = ga_writers s)"
| "gather_blocks s pc = False"

lemma gather_blocks_cong:
  "ga_wcount s' = ga_wcount s \<Longrightarrow> ga_writers s' = ga_writers s \<Longrightarrow> gather_blocks s' pc = gather_blocks s pc"
  by (cases pc) simp_all

lemma gather_put [simp]:
  "gather_blocks (ga_put c s) pc = gather_blocks s pc" "gather_blocks (s\<lparr>ga_cvar := c\<rparr>) pc = gather_blocks s pc" "ga_cvar (ga_put c s) = c"
  "ga_wcount (ga_put c s) = ga_wcount s" "ga_writers (ga_put c s) = ga_writers s"
  by (cases pc; simp add: ga_put_def)+

definition gather_ok :: "gather \<Rightarrow> bool" where
  "gather_ok s = (ga_wcount s \<le> ga_writers s \<and> ga_writers s < 2 ^ 32)"

abbreviation gather_lawful :: "gather \<Rightarrow> ptr \<Rightarrow> gather \<Rightarrow> (gather_pc, 'r) act \<Rightarrow> ptr list \<Rightarrow> bool" where
  "gather_lawful \<equiv> cond_law gather_legal ga_cvar gather_blocks"

lemma gather_get_law:
  assumes "cond_ok (ga_cvar s)" "gather_ok s" "Gather_get n t s = Ret (s', a, ws)"
  shows "gather_lawful s t s' a ws \<and> gather_ok s'"
proof (cases "ga_wcount s < ga_writers s")
  case True
  then have w: "wait_at ga_cvar ga_put (GaGetResume n) t s = Ret (s', a, ws)" using assms(3) by (simp add: Gather_get_def)
  then have "gather_ok s'" using assms(2) by (auto simp: wait_at_def ga_put_def gather_ok_def split: prod.splits if_splits)
  moreover have "gather_lawful s t s' a ws"
    using w assms(1) by (rule law_wait_at) (use True in simp_all)
  ultimately show ?thesis by simp
next
  case False
  then obtain r where r: "a = Return r"
    "(ga_rcount s' = 0 \<and> ga_cvar s' = fst (c_popAll (ga_cvar s)) \<and> ws = snd (c_popAll (ga_cvar s)) \<and> ga_wcount s' = 0) \<or>
     (ga_cvar s' = ga_cvar s \<and> ws = [] \<and> ga_wcount s' = ga_wcount s)" "ga_writers s' = ga_writers s"
    using assms(3) by (auto simp: Gather_get_def Let_def outcome_simps case_prod_beta split: if_splits)
  from r(2) show ?thesis
  proof (elim disjE conjE)
    assume "ga_cvar s' = fst (c_popAll (ga_cvar s))" "ws = snd (c_popAll (ga_cvar s))" "ga_wcount s' = 0"
    then show ?thesis using r assms(1,2) by (simp add: law_wake gather_ok_def)
  next
    assume "ga_cvar s' = ga_cvar s" "ws = []" "ga_wcount s' = ga_wcount s"
    then show ?thesis using r assms(1,2) law_quiet [of ga_cvar s s' gather_blocks]
      by (simp add: gather_ok_def gather_blocks_cong [of s' s])
  qed
qed

lemma gather_setId_law:
  assumes "cond_ok (ga_cvar s)" "gather_ok s" "Gather_setId i d t s = Ret (s', a, ws)"
  shows "gather_lawful s t s' a ws \<and> gather_ok s'"
proof (cases "ga_wcount s = ga_writers s")
  case True
  then have w: "wait_at ga_cvar ga_put (GaSetResume i d) t s = Ret (s', a, ws)" using assms(3) by (simp add: Gather_setId_def)
  then have "gather_ok s'" using assms(2) by (auto simp: wait_at_def ga_put_def gather_ok_def split: prod.splits if_splits)
  moreover have "gather_lawful s t s' a ws"
    using w assms(1) by (rule law_wait_at) (use True in simp_all)
  ultimately show ?thesis by simp
next
  case False
  have lt: "ga_wcount s < ga_writers s" "u32wrap (ga_wcount s + 1) = ga_wcount s + 1"
    using False assms(2) by (simp_all add: gather_ok_def)
  obtain v where v: "d \<noteq> []" "buf_write (ga_value s) (u64wrap (i * length d)) d = Ret v"
    using assms(3) False by (auto simp: Gather_setId_def outcome_simps)
  let ?s1 = "s\<lparr>ga_value := v, ga_wcount := ga_wcount s + 1\<rparr>"
  have "Gather_setId i d t s = (if ga_wcount s + 1 = ga_writers s
      then Ret (?s1\<lparr>ga_rcount := ga_readers s, ga_cvar := fst (c_popAll (ga_cvar s))\<rparr>, Return (RStatus HPX_SUCCESS), snd (c_popAll (ga_cvar s)))
      else Ret (?s1, Return (RStatus HPX_SUCCESS), []))"
    using False lt(2) v
    by (cases "ga_wcount s + 1 = ga_writers s") (simp_all add: Gather_setId_def Let_def case_prod_beta)
  then have r: "a = Return (RStatus HPX_SUCCESS)" "ga_wcount s' = ga_wcount s + 1" "ga_writers s' = ga_writers s"
    "if ga_wcount s + 1 = ga_writers s then ga_cvar s' = fst (c_popAll (ga_cvar s)) \<and> ws = snd (c_popAll (ga_cvar s))
     else ga_cvar s' = ga_cvar s \<and> ws = []"
    using assms(3) by (cases "ga_wcount s + 1 = ga_writers s"; auto)+
  have ok: "gather_ok s'" using r(2,3) lt(1) assms(2) by (simp add: gather_ok_def)
  show ?thesis
  proof (cases "ga_wcount s + 1 = ga_writers s")
    case True
    then show ?thesis using r assms(1) ok by (simp add: law_wake)
  next
    case more: False
    have "gather_blocks s pc \<Longrightarrow> gather_blocks s' pc" for pc using r(2,3) lt(1) more by (cases pc) auto
    then show ?thesis using law_quiet [of ga_cvar s s' gather_blocks] r more assms(1) ok by simp
  qed
qed

lemma gather_resume_law:
  assumes "resume_at (ga_cvar s) s r = Ret (s', a, ws)" "cond_ok (ga_cvar s)" "gather_ok s"
    "r = Ret (s', a, ws) \<Longrightarrow> gather_lawful s t s' a ws \<and> gather_ok s'"
  shows "gather_lawful s t s' a ws \<and> gather_ok s'"
proof (cases "waitFor_resume (ga_cvar s) = HPX_SUCCESS")
  case True
  then show ?thesis using assms(1,4) by (simp add: resume_at_def)
next
  case False
  then have "s' = s" "a = Return (RStatus (waitFor_resume (ga_cvar s)))" "ws = []"
    using assms(1) by (auto simp: resume_at_def Let_def)
  then show ?thesis using assms(2,3) law_quiet [of ga_cvar s s' gather_blocks] by simp
qed

lemma gather_law:
  assumes "cond_ok (ga_cvar s) \<and> gather_ok s" "gather_legal pc" "gather_run True pc t s = Ret (s', a, ws)"
  shows "gather_lawful s t s' a ws \<and> gather_ok s'"
proof (cases pc)
  case (GaSetResume i d)
  show ?thesis by (rule gather_resume_law [of s "Gather_setId i d t s"]) (use assms gather_setId_law [of s i d t s' a ws] GaSetResume in simp_all)
next
  case (GaGetResume n)
  show ?thesis by (rule gather_resume_law [of s "Gather_get n t s"]) (use assms gather_get_law [of s n t s' a ws] GaGetResume in simp_all)
next
  case (GaError e)
  then show ?thesis using assms by (auto simp: Gather_error_def case_prod_beta gather_ok_def intro: law_fail)
next
  case GaReset
  then show ?thesis using assms by (auto simp: Gather_reset_def outcome_simps gather_ok_def intro: law_reset)
next
  case GaAttach
  then show ?thesis using assms
    by (cases "ga_cvar s")
      (auto simp: Gather_attach_def attach_section_def Let_def lco_law_def cond_parked_def gather_ok_def
        split: if_splits)
next
  case (GaSet i d)
  then show ?thesis using assms gather_setId_law [of s i d t s' a ws] by simp
next
  case (GaGet n)
  then show ?thesis using assms gather_get_law [of s n t s' a ws] by simp
next
  case GaLaunch
  then show ?thesis using assms by (auto simp: lco_law_def)
qed

interpretation gam: lco_monitor "gather_run True" gather_legal "\<lambda>s. cond_ok (ga_cvar s) \<and> gather_ok s"
  "\<lambda>s. cond_waiters (ga_cvar s)" "cond_parked ga_cvar gather_blocks"
proof (rule lco_monitorI)
  fix s s' :: gather and pc t a ws
  assume "cond_ok (ga_cvar s) \<and> gather_ok s" "gather_legal pc" "gather_run True pc t s = Ret (s', a, ws)"
  from gather_law [OF this]
  show "lco_law gather_legal (\<lambda>s. cond_ok (ga_cvar s) \<and> gather_ok s) (\<lambda>s. cond_waiters (ga_cvar s))
      (cond_parked ga_cvar gather_blocks) s t s' a ws"
    by (simp add: lco_law_def)
qed (simp add: cond_parked_def)

section \<open>A round of a gather\<close>

text \<open>The writers of a round, in any order.\<close>

fun gather_round :: "(nat \<Rightarrow> byte list) \<Rightarrow> nat list \<Rightarrow> gather \<Rightarrow> gather outcome" where
  "gather_round b [] s = Ret s"
| "gather_round b (i # is) s = bindO (Gather_setId i (b i) 0 s) (\<lambda>(s', a, ws). gather_round b is s')"

lemma gather_setId_chunk:
  assumes "length (ga_value s) = W * n" "ga_writers s = W" "ga_wcount s < W" "W < 2 ^ 32" "W * n < 2 ^ 64"
    "i < W" "length d = n" "n \<noteq> 0"
  shows "\<exists>s' ws. Gather_setId i d t s = Ret (s', Return (RStatus HPX_SUCCESS), ws) \<and> length (ga_value s') = W * n \<and>
    ga_writers s' = W \<and> ga_readers s' = ga_readers s \<and> ga_wcount s' = ga_wcount s + 1 \<and>
    (ga_wcount s + 1 = W \<longrightarrow> ga_rcount s' = ga_readers s) \<and>
    (\<forall>j < W. chunk n (ga_value s') j = (if j = i then d else chunk n (ga_value s) j))"
proof -
  have "i * n < 2 ^ 64" using assms(5,6) by (metis le_less_trans less_imp_le mult_le_mono1)
  moreover obtain v' where "buf_write (ga_value s) (i * n) d = Ret v'" "length v' = W * n"
      "\<forall>j < W. chunk n v' j = (if j = i then d else chunk n (ga_value s) j)"
    using buf_write_chunk [OF assms(1,6,7)] by blast
  ultimately show ?thesis using assms
    by (auto simp: Gather_setId_def Let_def case_prod_beta assertO_def)
qed

lemma gather_round_chunks:
  assumes "length (ga_value s) = W * n" "ga_writers s = W" "ga_wcount s + length is = W" "W < 2 ^ 32" "W * n < 2 ^ 64"
    "distinct is" "set is \<subseteq> {..<W}" "\<forall>i < W. length (b i) = n" "n \<noteq> 0" "is \<noteq> []"
  shows "\<exists>s'. gather_round b is s = Ret s' \<and> length (ga_value s') = W * n \<and> ga_writers s' = W \<and> ga_wcount s' = W \<and>
    ga_readers s' = ga_readers s \<and> ga_rcount s' = ga_readers s \<and>
    (\<forall>j < W. chunk n (ga_value s') j = (if j \<in> set is then b j else chunk n (ga_value s) j))"
  using assms
proof (induction "is" arbitrary: s)
  case (Cons i "is")
  have i: "i < W" "ga_wcount s < W" "length (b i) = n" using Cons.prems by auto
  from gather_setId_chunk [OF Cons.prems(1,2) i(2) Cons.prems(4,5) i(1,3) Cons.prems(9), of 0] obtain s1 ws where
    1: "Gather_setId i (b i) 0 s = Ret (s1, Return (RStatus HPX_SUCCESS), ws)" "length (ga_value s1) = W * n"
      "ga_writers s1 = W" "ga_readers s1 = ga_readers s" "ga_wcount s1 = ga_wcount s + 1"
      "ga_wcount s + 1 = W \<longrightarrow> ga_rcount s1 = ga_readers s"
      "\<forall>j < W. chunk n (ga_value s1) j = (if j = i then b i else chunk n (ga_value s) j)"
    by blast
  show ?case
  proof (cases "is = []")
    case True
    then show ?thesis using 1 Cons.prems(3) by auto
  next
    case False
    have "ga_wcount s1 + length is = W" "distinct is" "set is \<subseteq> {..<W}" using 1(5) Cons.prems(3,6,7) by auto
    from Cons.IH [OF 1(2,3) this(1) Cons.prems(4,5) this(2,3) Cons.prems(8,9) False] 1(1,4,7) Cons.prems(6)
    show ?thesis by auto
  qed
qed simp

text \<open>
  C14: When every writer of a gather stores its chunk once, in any order, the buffer is the
  concatenation of the chunks by rank; the last writer opens it to the readers, and a get of
  the whole buffer returns exactly that.
\<close>
theorem gather_concatenates:
  assumes "length (ga_value s) = W * n" "ga_writers s = W" "ga_wcount s = 0" "W < 2 ^ 32" "W * n < 2 ^ 64"
    "distinct is" "set is = {..<W}" "\<forall>i < W. length (b i) = n" "n \<noteq> 0" "W \<noteq> 0"
  shows "\<exists>s'. gather_round b is s = Ret s' \<and> ga_value s' = concat (map b [0..<W]) \<and>
    ga_wcount s' = W \<and> ga_rcount s' = ga_readers s \<and>
    (\<exists>s'' ws. Gather_get (W * n) t s' = Ret (s'', Return (RValue (concat (map b [0..<W]))), ws))"
proof -
  have "length is = W" using distinct_card [OF assms(6)] assms(7) by simp
  then have "is \<noteq> []" "ga_wcount s + length is = W" "set is \<subseteq> {..<W}" using assms(3,7,10) by auto
  from gather_round_chunks [OF assms(1,2) this(2) assms(4,5,6) this(3) assms(8,9) this(1)] obtain s' where
    s': "gather_round b is s = Ret s'" "length (ga_value s') = W * n" "ga_writers s' = W" "ga_wcount s' = W"
      "ga_rcount s' = ga_readers s" "\<forall>j < W. chunk n (ga_value s') j = b j"
    using assms(7) by auto
  have "ga_value s' = concat (map (\<lambda>k. chunk n (ga_value s') (0 + k)) [0..<W])"
    by (subst concat_chunks) (simp_all add: s'(2))
  also have "\<dots> = concat (map b [0..<W])" using s'(6) by (auto intro: arg_cong [where f = concat])
  finally have v: "ga_value s' = concat (map b [0..<W])" .
  have "buf_read (ga_value s') 0 (W * n) = Ret (concat (map b [0..<W]))" using s'(2) v by (simp add: buf_read_def)
  then have "\<exists>s'' ws. Gather_get (W * n) t s' = Ret (s'', Return (RValue (concat (map b [0..<W]))), ws)"
    using s'(3,4) assms(9,10) by (auto simp: Gather_get_def Let_def case_prod_beta)
  then show ?thesis using s' v by blast
qed

theorem gather_concatenates_witness:
  "\<exists>s'. gather_round (\<lambda>i. [of_nat i, 7]) [2, 0, 1] (Gather_new 3 1 6 (replicate 6 9)) = Ret s' \<and>
    ga_value s' = [0, 7, 1, 7, 2, 7]"
proof -
  let ?s = "Gather_new 3 1 6 (replicate 6 9)" and ?b = "\<lambda>i. [of_nat i, 7 :: byte]"
  have "length (ga_value ?s) = 3 * 2" "ga_writers ?s = 3" "ga_wcount ?s = 0" by (simp_all add: Gather_new_def)
  moreover have "(3::nat) < 2 ^ 32" "(3::nat) * 2 < 2 ^ 64" "distinct [2, 0, 1 :: nat]" "set [2, 0, 1] = {..<3::nat}"
    "\<forall>i < 3::nat. length (?b i) = 2" "(2::nat) \<noteq> 0" "(3::nat) \<noteq> 0" by auto
  ultimately obtain s' where "gather_round ?b [2, 0, 1] ?s = Ret s'" "ga_value s' = concat (map ?b [0..<3])"
    using gather_concatenates [of ?s 3 2 "[2, 0, 1]" ?b] by metis
  then show ?thesis by (auto simp: upt_conv_Cons numeral_2_eq_2 [symmetric] simp del: gather_round.simps)
qed

end
