(* ===== verification/Hpx_AllToAll.thy ===== *)
theory Hpx_AllToAll
  imports Hpx_Monitor Hpx_Buffer
begin

text \<open>
  The all-to-all LCO of \<^verbatim>\<open>libhpx/scheduler/lco/AllToAll.cpp\<close>: input \<open>k\<close> stores the \<open>N\<close> elements of its
  send buffer into column \<open>k\<close> of an \<open>N \<times> N\<close> matrix of elements, and a reader copies one row.
  The offsets of the stores are 32-bit products. A store of a zero-input object divides by
  zero, modelled as a failed assertion.
\<close>

datatype aa_phase = GATHERING | READING

record alltoall =
  aa_wait :: cond
  aa_inputs :: nat
  aa_count :: nat
  aa_phase :: aa_phase
  aa_value :: "byte list"

datatype aa_pc =
  AaSet nat "byte list" | AaSetResume nat "byte list" | AaGet nat nat | AaGetResume nat nat |
  AaReadResume "byte list lres" | AaWait | AaError hpx_status | AaReset | AaAttach | AaLaunch

type_synonym aa_section = "(alltoall, aa_pc, byte list lres) section_result"

definition AllToAll_new :: "nat \<Rightarrow> byte list \<Rightarrow> alltoall" where
  "AllToAll_new inputs mem =
    \<lparr> aa_wait = Waiting [], aa_inputs = inputs, aa_count = inputs, aa_phase = GATHERING, aa_value = mem \<rparr>"

definition aa_put :: "cond \<Rightarrow> alltoall \<Rightarrow> alltoall" where
  "aa_put c s = s\<lparr>aa_wait := c\<rparr>"

definition AllToAll_attach :: "alltoall \<Rightarrow> ptr \<Rightarrow> alltoall \<times> hpx_status \<times> ptr list" where
  "AllToAll_attach s p =
    (let (s1, status) =
       (if aa_phase s \<noteq> GATHERING then case c_push (aa_wait s) p of (c, st) \<Rightarrow> (aa_put c s, st) else (s, HPX_SUCCESS)) in
     if status \<noteq> HPX_SUCCESS then (s1, status, [])
     else let e = c_getError (aa_wait s1) in
       if e \<noteq> HPX_SUCCESS then (s1, e, []) else (s1, HPX_SUCCESS, [p]))"

text \<open>The second loop of \<^verbatim>\<open>getId\<close>, which waits for the phase to change back.\<close>

definition AllToAll_leave :: "byte list lres \<Rightarrow> ptr \<Rightarrow> alltoall \<Rightarrow> aa_section" where
  "AllToAll_leave r t s =
    (if aa_phase s = READING then wait_at aa_wait aa_put (AaReadResume r) t s else Ret (s, Return r, []))"

definition AllToAll_getId :: "nat \<Rightarrow> nat \<Rightarrow> ptr \<Rightarrow> alltoall \<Rightarrow> aa_section" where
  "AllToAll_getId offset n t s =
    (if aa_phase s \<noteq> READING then wait_at aa_wait aa_put (AaGetResume offset n) t s
     else bindO (if n \<noteq> 0 then bindO (buf_read (aa_value s) (u64wrap (offset * n)) n) (\<lambda>d. Ret (RValue d))
                 else Ret (RStatus HPX_SUCCESS)) (\<lambda>r.
       let s1 = s\<lparr>aa_count := u32wrap (aa_count s + 1)\<rparr> in
       if aa_count s1 = aa_inputs s1 then
         (case c_popAll (aa_wait s1) of (c, ws) \<Rightarrow> Ret (s1\<lparr>aa_phase := GATHERING, aa_wait := c\<rparr>, Return r, ws))
       else AllToAll_leave r t s1))"

text \<open>The copies of \<^verbatim>\<open>setId\<close>, one per row.\<close>

fun aa_rows :: "nat \<Rightarrow> nat \<Rightarrow> byte list \<Rightarrow> nat list \<Rightarrow> byte list \<Rightarrow> byte list outcome" where
  "aa_rows elementSize columnOffset buffer [] value = Ret value"
| "aa_rows elementSize columnOffset buffer (i # is) value =
    (let rowOffset = u32wrap (i * length buffer); destOffset = u32wrap (rowOffset + columnOffset);
         sourceOffset = u32wrap (i * elementSize) in
     bindO (buf_read buffer sourceOffset elementSize) (\<lambda>d.
     bindO (buf_write value destOffset d) (\<lambda>v. aa_rows elementSize columnOffset buffer is v)))"

text \<open>\<^verbatim>\<open>setId\<close> from the test of its loop; the loop index is a signed \<^verbatim>\<open>int\<close>.\<close>

definition AllToAll_set_loop :: "nat \<Rightarrow> byte list \<Rightarrow> ptr \<Rightarrow> alltoall \<Rightarrow> aa_section" where
  "AllToAll_set_loop offset buffer t s =
    (if aa_phase s \<noteq> GATHERING then wait_at aa_wait aa_put (AaSetResume offset buffer) t s
     else assertO (aa_inputs s \<noteq> 0)
       (let elementSize = u32wrap (length buffer div aa_inputs s); columnOffset = u32wrap (offset * elementSize) in
        bindO (aa_rows elementSize columnOffset buffer [0..<(if aa_inputs s < 2 ^ 31 then aa_inputs s else 0)] (aa_value s)) (\<lambda>v.
          let s1 = s\<lparr>aa_value := v, aa_count := u32sub (aa_count s) 1\<rparr> in
          if aa_count s1 = 0 then
            (case c_popAll (aa_wait s1) of (c, ws) \<Rightarrow>
               Ret (s1\<lparr>aa_phase := READING, aa_wait := c\<rparr>, Return (RStatus HPX_SUCCESS), ws))
          else Ret (s1, Return (RStatus HPX_SUCCESS), []))))"

definition AllToAll_setId :: "nat \<Rightarrow> byte list \<Rightarrow> ptr \<Rightarrow> alltoall \<Rightarrow> aa_section" where
  "AllToAll_setId offset buffer t s = assertO (buffer \<noteq> []) (AllToAll_set_loop offset buffer t s)"

definition AllToAll_wait :: "ptr \<Rightarrow> alltoall \<Rightarrow> aa_section" where
  "AllToAll_wait t s = AllToAll_getId 0 0 t s"

definition AllToAll_error :: "hpx_status \<Rightarrow> alltoall \<Rightarrow> alltoall \<times> ptr list" where
  "AllToAll_error code s = (case c_setError (aa_wait s) code of (c, ws) \<Rightarrow> (s\<lparr>aa_wait := c\<rparr>, ws))"

definition AllToAll_reset :: "bool \<Rightarrow> alltoall \<Rightarrow> alltoall outcome" where
  "AllToAll_reset debug s = bindO (c_reset debug (aa_wait s)) (\<lambda>c. Ret (s\<lparr>aa_wait := c\<rparr>))"

fun aa_run :: "bool \<Rightarrow> aa_pc \<Rightarrow> ptr \<Rightarrow> alltoall \<Rightarrow> aa_section" where
  "aa_run debug (AaSet k d) t s = AllToAll_setId k d t s"
| "aa_run debug (AaSetResume k d) t s = resume_at (aa_wait s) s (AllToAll_set_loop k d t s)"
| "aa_run debug (AaGet k n) t s = AllToAll_getId k n t s"
| "aa_run debug (AaGetResume k n) t s = resume_at (aa_wait s) s (AllToAll_getId k n t s)"
| "aa_run debug (AaReadResume r) t s = resume_at (aa_wait s) s (AllToAll_leave r t s)"
| "aa_run debug AaWait t s = AllToAll_wait t s"
| "aa_run debug (AaError code) t s = (case AllToAll_error code s of (s', ws) \<Rightarrow> Ret (s', Return RVoid, ws))"
| "aa_run debug AaReset t s = bindO (AllToAll_reset debug s) (\<lambda>s'. Ret (s', Return RVoid, []))"
| "aa_run debug AaAttach t s = attach_section AaLaunch t (AllToAll_attach s t)"
| "aa_run debug AaLaunch t s = Ret (s, Return RLaunched, [])"

text \<open>An attach may queue a parcel it also launches, so the contract leaves it out.\<close>

fun aa_legal :: "aa_pc \<Rightarrow> bool" where
  "aa_legal (AaError e) = (e \<noteq> HPX_SUCCESS)"
| "aa_legal AaAttach = False"
| "aa_legal pc = True"

fun aa_blocks :: "alltoall \<Rightarrow> aa_pc \<Rightarrow> bool" where
  "aa_blocks s (AaSetResume k d) = (aa_phase s = READING)"
| "aa_blocks s (AaReadResume r) = (aa_phase s = READING)"
| "aa_blocks s (AaGetResume k n) = (aa_phase s = GATHERING)"
| "aa_blocks s pc = False"

lemma aa_put [simp]:
  "aa_blocks (aa_put c s) pc = aa_blocks s pc" "aa_wait (aa_put c s) = c" "aa_phase (aa_put c s) = aa_phase s"
  "aa_blocks (s\<lparr>aa_wait := c\<rparr>) pc = aa_blocks s pc" "aa_blocks (s\<lparr>aa_count := n\<rparr>) pc = aa_blocks s pc"
  "aa_blocks (s\<lparr>aa_value := v\<rparr>) pc = aa_blocks s pc"
  by (cases pc; simp add: aa_put_def)+

abbreviation aa_lawful :: "alltoall \<Rightarrow> ptr \<Rightarrow> alltoall \<Rightarrow> (aa_pc, 'r) act \<Rightarrow> ptr list \<Rightarrow> bool" where
  "aa_lawful \<equiv> cond_law aa_legal aa_wait aa_blocks"

lemmas aa_wake = law_wake [where cnd = aa_wait and blocks = aa_blocks]
lemmas aa_quiet = law_quiet [where cnd = aa_wait and blocks = aa_blocks]
lemmas aa_resume = law_resume_at [where cnd = aa_wait and blocks = aa_blocks]

lemma aa_leave_law:
  assumes "cond_ok (aa_wait s)" "AllToAll_leave r t s = Ret (s', a, ws)"
  shows "aa_lawful s t s' a ws"
proof (cases "aa_phase s = READING")
  case True
  then have "wait_at aa_wait aa_put (AaReadResume r) t s = Ret (s', a, ws)"
    using assms(2) by (simp add: AllToAll_leave_def)
  then show ?thesis using assms(1) by (rule law_wait_at) (use True in simp_all)
next
  case False
  then have "s' = s" "a = Return r" "ws = []" using assms(2) by (simp_all add: AllToAll_leave_def)
  then show ?thesis using assms(1) by (auto intro: aa_quiet)
qed

lemma aa_getId_law:
  assumes "cond_ok (aa_wait s)" "AllToAll_getId k n t s = Ret (s', a, ws)"
  shows "aa_lawful s t s' a ws"
proof (cases "aa_phase s")
  case GATHERING
  then have "wait_at aa_wait aa_put (AaGetResume k n) t s = Ret (s', a, ws)"
    using assms(2) by (simp add: AllToAll_getId_def)
  then show ?thesis using assms(1) by (rule law_wait_at) (use GATHERING in simp_all)
next
  case READING
  let ?s1 = "s\<lparr>aa_count := u32wrap (aa_count s + 1)\<rparr>"
  show ?thesis
  proof (cases "u32wrap (aa_count s + 1) = aa_inputs s")
    case True
    then obtain r where "s' = ?s1\<lparr>aa_phase := GATHERING, aa_wait := fst (c_popAll (aa_wait s))\<rparr>" "a = Return r"
        "ws = snd (c_popAll (aa_wait s))"
      using assms(2) READING by (auto simp: AllToAll_getId_def Let_def outcome_simps case_prod_beta)
    then show ?thesis by (auto intro!: aa_wake [OF assms(1)])
  next
    case False
    then obtain r where "AllToAll_leave r t ?s1 = Ret (s', a, ws)"
      using assms(2) READING by (auto simp: AllToAll_getId_def Let_def outcome_simps)
    moreover have "aa_lawful s t ?s1 (Return RVoid) []"
      using assms(1) by (intro aa_quiet) simp_all
    ultimately show ?thesis using lco_law_trans [OF _ aa_leave_law [of ?s1]] assms(1) by fastforce
  qed
qed

lemma aa_set_loop_law:
  assumes "cond_ok (aa_wait s)" "AllToAll_set_loop k d t s = Ret (s', a, ws)"
  shows "aa_lawful s t s' a ws"
proof (cases "aa_phase s")
  case READING
  then have "wait_at aa_wait aa_put (AaSetResume k d) t s = Ret (s', a, ws)"
    using assms(2) by (simp add: AllToAll_set_loop_def)
  then show ?thesis using assms(1) by (rule law_wait_at) (use READING in simp_all)
next
  case GATHERING
  show ?thesis
  proof (cases "u32sub (aa_count s) 1 = 0")
    case True
    then obtain v where "s' = s\<lparr>aa_value := v, aa_count := 0, aa_phase := READING, aa_wait := fst (c_popAll (aa_wait s))\<rparr>"
        "a = Return (RStatus HPX_SUCCESS)" "ws = snd (c_popAll (aa_wait s))"
      using assms(2) GATHERING by (auto simp: AllToAll_set_loop_def Let_def outcome_simps case_prod_beta)
    then show ?thesis by (auto intro!: aa_wake [OF assms(1)])
  next
    case False
    then obtain v where "s' = s\<lparr>aa_value := v, aa_count := u32sub (aa_count s) 1\<rparr>" "a = Return (RStatus HPX_SUCCESS)" "ws = []"
      using assms(2) GATHERING by (auto simp: AllToAll_set_loop_def Let_def outcome_simps)
    then show ?thesis using assms(1) by (auto intro!: aa_quiet)
  qed
qed

lemma aa_law:
  assumes "cond_ok (aa_wait s)" "aa_legal pc" "aa_run True pc t s = Ret (s', a, ws)"
  shows "aa_lawful s t s' a ws"
proof (cases pc)
  case (AaSet k d)
  then show ?thesis using assms(3) aa_set_loop_law [OF assms(1)] by (auto simp: AllToAll_setId_def outcome_simps)
next
  case (AaSetResume k d)
  then show ?thesis using assms(3) aa_set_loop_law [OF assms(1)] by (auto intro: aa_resume [OF _ assms(1)])
next
  case (AaGetResume k n)
  then show ?thesis using assms(3) aa_getId_law [OF assms(1)] by (auto intro: aa_resume [OF _ assms(1)])
next
  case (AaReadResume r)
  then show ?thesis using assms(3) aa_leave_law [OF assms(1)] by (auto intro: aa_resume [OF _ assms(1)])
next
  case (AaError e)
  then show ?thesis using assms by (auto simp: AllToAll_error_def case_prod_beta intro: law_fail)
next
  case AaReset
  then show ?thesis using assms by (auto simp: AllToAll_reset_def outcome_simps intro: law_reset)
next
  case AaLaunch
  then show ?thesis using assms by (auto intro: aa_quiet)
qed (use assms aa_getId_law [OF assms(1)] in \<open>simp_all add: AllToAll_wait_def\<close>)

interpretation aam: lco_monitor "aa_run True" aa_legal "\<lambda>s. cond_ok (aa_wait s)"
  "\<lambda>s. cond_waiters (aa_wait s)" "cond_parked aa_wait aa_blocks"
  by (rule lco_monitorI) (fact aa_law, simp add: cond_parked_def)

section \<open>A round of the exchange\<close>

fun alltoall_round :: "(nat \<Rightarrow> byte list) \<Rightarrow> nat list \<Rightarrow> alltoall \<Rightarrow> alltoall outcome" where
  "alltoall_round b [] s = Ret s"
| "alltoall_round b (k # ks) s = bindO (AllToAll_setId k (b k) 0 s) (\<lambda>(s', a, ws). alltoall_round b ks s')"

lemma matrix_index:
  assumes "(i::nat) < N" "k < N"
  shows "i * N + k < N * N" "m = i * N + k \<longleftrightarrow> m div N = i \<and> m mod N = k"
proof -
  have "i * N + k < (i + 1) * N" using assms(2) by simp
  also have "\<dots> \<le> N * N" using assms(1) by (intro mult_le_mono1) simp
  finally show "i * N + k < N * N" .
  show "m = i * N + k \<longleftrightarrow> m div N = i \<and> m mod N = k" using assms(2) by (metis div_mult_mod_eq div_mult_self3 div_less add.right_neutral mod_mult_self3 mod_less neq0_conv not_less0)
qed

lemma aa_rows_chunks:
  assumes "length v = N * N * e" "length d = N * e" "k < N" "N * N * e < 2 ^ 32" "set is \<subseteq> {..<N}"
  shows "\<exists>v'. aa_rows e (k * e) d is v = Ret v' \<and> length v' = N * N * e \<and>
    (\<forall>m < N * N. chunk e v' m = (if m mod N = k \<and> m div N \<in> set is then chunk e d (m div N) else chunk e v m))"
  using assms(1,5)
proof (induction "is" arbitrary: v)
  case (Cons i "is")
  have i: "i < N" using Cons.prems by simp
  have le: "(i * N + k) * e \<le> N * N * e" using matrix_index(1) [OF i assms(3)] by (intro mult_le_mono1) simp
  moreover have "i * (N * e) \<le> (i * N + k) * e" "i * e \<le> (i * N + k) * e"
    using i by (auto simp: algebra_simps intro: trans_le_add2)
  ultimately have "i * (N * e) < 2 ^ 32" "i * e < 2 ^ 32" "(i * N + k) * e < 2 ^ 32" using assms(4) by linarith+
  then have off: "u32wrap (u32wrap (i * length d) + k * e) = (i * N + k) * e" "u32wrap (i * e) = i * e"
    using assms(2) by (simp_all add: algebra_simps)
  have "(i + 1) * e \<le> N * e" using i by (intro mult_le_mono1) simp
  then have rd: "buf_read d (i * e) e = Ret (chunk e d i)" "length (chunk e d i) = e"
    using assms(2) by (simp_all add: buf_read_def chunk_def)
  from buf_write_chunk [OF Cons.prems(1) matrix_index(1) [OF i assms(3)] rd(2)] obtain v1 where
    v1: "buf_write v ((i * N + k) * e) (chunk e d i) = Ret v1" "length v1 = N * N * e"
      "\<forall>m < N * N. chunk e v1 m = (if m = i * N + k then chunk e d i else chunk e v m)" by blast
  from Cons.IH [OF v1(2)] Cons.prems(2) obtain v2 where
    v2: "aa_rows e (k * e) d is v1 = Ret v2" "length v2 = N * N * e"
      "\<forall>m < N * N. chunk e v2 m = (if m mod N = k \<and> m div N \<in> set is then chunk e d (m div N) else chunk e v1 m)" by auto
  have "\<forall>m < N * N. chunk e v2 m =
      (if m mod N = k \<and> m div N \<in> set (i # is) then chunk e d (m div N) else chunk e v m)"
    using v2(3) v1(3) matrix_index(2) [OF i assms(3)] by auto
  then show ?case using v1(1) v2(1,2) off rd(1) by (simp add: Let_def)
qed simp

lemma aa_setId_chunks:
  assumes "length (aa_value s) = N * N * e" "aa_inputs s = N" "aa_phase s = GATHERING" "0 < aa_count s" "aa_count s \<le> N"
    "N < 2 ^ 31" "N * N * e < 2 ^ 32" "k < N" "length d = N * e" "e \<noteq> 0"
  shows "\<exists>s' ws. AllToAll_setId k d t s = Ret (s', Return (RStatus HPX_SUCCESS), ws) \<and> length (aa_value s') = N * N * e \<and>
    aa_inputs s' = N \<and> aa_count s' = aa_count s - 1 \<and>
    aa_phase s' = (if aa_count s = 1 then READING else GATHERING) \<and>
    (\<forall>m < N * N. chunk e (aa_value s') m = (if m mod N = k then chunk e d (m div N) else chunk e (aa_value s) m))"
proof -
  have "1 * e \<le> N * N * e" "k * e \<le> N * N * e"
    using assms(8) by (auto intro!: mult_le_mono1 intro: order_trans [OF less_imp_le le_square])
  then have "e < 2 ^ 32" "k * e < 2 ^ 32" using assms(7) by linarith+
  then have e: "u32wrap (length d div N) = e" "u32wrap (k * e) = k * e" using assms(8,9) by simp_all
  have "m div N < N" if "m < N * N" for m using that by (simp add: less_mult_imp_div_less)
  then obtain v where v: "aa_rows e (k * e) d [0..<N] (aa_value s) = Ret v" "length v = N * N * e"
      "\<forall>m < N * N. chunk e v m = (if m mod N = k then chunk e d (m div N) else chunk e (aa_value s) m)"
    using aa_rows_chunks [OF assms(1,9,8,7), of "[0..<N]"] by (auto simp: atLeast0LessThan)
  have "d \<noteq> []" "u32sub (aa_count s) 1 = aa_count s - 1" using assms(4,5,6,8,9,10) by (auto simp: u32sub_def)
  then show ?thesis using assms(2-6,8) v e
    by (cases "aa_count s = 1") (simp_all add: AllToAll_setId_def AllToAll_set_loop_def Let_def case_prod_beta assertO_def)
qed

lemma alltoall_round_chunks:
  assumes "length (aa_value s) = N * N * e" "aa_inputs s = N" "aa_phase s = GATHERING" "aa_count s = length ks"
    "N < 2 ^ 31" "N * N * e < 2 ^ 32" "distinct ks" "set ks \<subseteq> {..<N}" "\<forall>k < N. length (b k) = N * e" "e \<noteq> 0" "ks \<noteq> []"
  shows "\<exists>s'. alltoall_round b ks s = Ret s' \<and> length (aa_value s') = N * N * e \<and> aa_inputs s' = N \<and>
    aa_phase s' = READING \<and> aa_count s' = 0 \<and>
    (\<forall>m < N * N. chunk e (aa_value s') m =
       (if m mod N \<in> set ks then chunk e (b (m mod N)) (m div N) else chunk e (aa_value s) m))"
  using assms
proof (induction ks arbitrary: s)
  case (Cons k ks)
  have k: "k < N" "length (b k) = N * e" "0 < aa_count s" "aa_count s \<le> N"
    using Cons.prems distinct_card [OF Cons.prems(7)] card_mono [OF _ Cons.prems(8)] by auto
  from aa_setId_chunks [OF Cons.prems(1-3) k(3,4) Cons.prems(5,6) k(1,2) Cons.prems(10), of 0] obtain s1 ws where
    1: "AllToAll_setId k (b k) 0 s = Ret (s1, Return (RStatus HPX_SUCCESS), ws)" "length (aa_value s1) = N * N * e"
      "aa_inputs s1 = N" "aa_count s1 = length ks" "aa_phase s1 = (if ks = [] then READING else GATHERING)"
      "\<forall>m < N * N. chunk e (aa_value s1) m = (if m mod N = k then chunk e (b k) (m div N) else chunk e (aa_value s) m)"
    using Cons.prems(4) by auto
  show ?case
  proof (cases "ks = []")
    case True
    then show ?thesis using 1 by auto
  next
    case False
    then have ph: "aa_phase s1 = GATHERING" "distinct ks" "set ks \<subseteq> {..<N}" using 1(5) Cons.prems(7,8) by auto
    from Cons.IH [OF 1(2,3) ph(1) 1(4) Cons.prems(5,6) ph(2,3) Cons.prems(9,10) False] obtain s2 where
      2: "alltoall_round b ks s1 = Ret s2" "length (aa_value s2) = N * N * e" "aa_inputs s2 = N"
        "aa_phase s2 = READING" "aa_count s2 = 0"
        "\<forall>m < N * N. chunk e (aa_value s2) m =
          (if m mod N \<in> set ks then chunk e (b (m mod N)) (m div N) else chunk e (aa_value s1) m)" by blast
    then show ?thesis using 1(1,6) by auto
  qed
qed simp

text \<open>
  C13: When each of the N inputs of an all-to-all stores its send buffer of N elements, in any
  order, reader j receives the j-th element of every send buffer, in the order of the inputs.
\<close>
theorem alltoall_transposes:
  assumes "length (aa_value s) = N * N * e" "aa_inputs s = N" "aa_phase s = GATHERING" "aa_count s = N"
    "N < 2 ^ 31" "N * N * e < 2 ^ 32" "distinct ks" "set ks = {..<N}" "\<forall>k < N. length (b k) = N * e" "e \<noteq> 0" "j < N"
  shows "\<exists>s' r. alltoall_round b ks s = Ret s' \<and> r = RValue (concat (map (\<lambda>k. chunk e (b k) j) [0..<N])) \<and>
    AllToAll_getId j (N * e) t s' =
      (if N = 1 then Ret (s'\<lparr>aa_count := 1, aa_phase := GATHERING, aa_wait := fst (c_popAll (aa_wait s'))\<rparr>, Return r, snd (c_popAll (aa_wait s')))
       else AllToAll_leave r t (s'\<lparr>aa_count := 1\<rparr>))"
proof -
  have len: "length ks = N" using distinct_card [OF assms(7)] assms(8) by simp
  have ks: "ks \<noteq> []" using len assms(11) by auto
  have "aa_count s = length ks" "set ks \<subseteq> {..<N}" using len assms(4,8) by simp_all
  from alltoall_round_chunks [OF assms(1-3) this(1) assms(5-7) this(2) assms(9,10) ks] obtain s' where
    s': "alltoall_round b ks s = Ret s'" "length (aa_value s') = N * N * e" "aa_inputs s' = N" "aa_phase s' = READING"
      "aa_count s' = 0" "\<forall>m < N * N. chunk e (aa_value s') m =
        (if m mod N \<in> set ks then chunk e (b (m mod N)) (m div N) else chunk e (aa_value s) m)"
    by blast
  have row: "chunk e (aa_value s') (j * N + k) = chunk e (b k) j" if "k < N" for k
    using s'(6) matrix_index(1) [OF assms(11) that] matrix_index(2) [OF assms(11) that, of "j * N + k"] that assms(8) by simp
  have le: "(j + 1) * N \<le> N * N" using assms(11) by (intro mult_le_mono1) simp
  then have fit: "(j * N + N) * e \<le> length (aa_value s')" using s'(2) by (simp add: add.commute)
  have "concat (map (\<lambda>k. chunk e (b k) j) [0..<N]) = concat (map (\<lambda>k. chunk e (aa_value s') (j * N + k)) [0..<N])"
    using row by (auto intro!: arg_cong [where f = concat])
  also have "\<dots> = take (N * e) (drop (j * N * e) (aa_value s'))" by (rule concat_chunks [OF fit])
  finally have rd: "buf_read (aa_value s') (j * (N * e)) (N * e) = Ret (concat (map (\<lambda>k. chunk e (b k) j) [0..<N]))"
    using fit by (simp add: buf_read_def algebra_simps)
  have "j * (N * e) < 2 ^ 64" using fit s'(2) assms(6) by (simp add: algebra_simps)
  then have "AllToAll_getId j (N * e) t s' =
      (let r = RValue (concat (map (\<lambda>k. chunk e (b k) j) [0..<N])) in
       if N = 1 then Ret (s'\<lparr>aa_count := 1, aa_phase := GATHERING, aa_wait := fst (c_popAll (aa_wait s'))\<rparr>, Return r, snd (c_popAll (aa_wait s')))
       else AllToAll_leave r t (s'\<lparr>aa_count := 1\<rparr>))"
    using s'(3,4,5) rd assms(10,11) by (cases "N = 1") (simp_all add: AllToAll_getId_def Let_def case_prod_beta)
  then show ?thesis using s'(1) by (auto simp: Let_def)
qed

theorem alltoall_transposes_witness:
  "\<exists>s' r. alltoall_round (\<lambda>k. [10 * of_nat k, 10 * of_nat k + 1]) [1, 0] (AllToAll_new 2 (replicate 4 9)) = Ret s' \<and>
    r = RValue [1, 11] \<and> AllToAll_getId 1 2 5 s' = AllToAll_leave r 5 (s'\<lparr>aa_count := 1\<rparr>)"
proof -
  let ?s = "AllToAll_new 2 (replicate 4 9)" and ?b = "\<lambda>k. [10 * of_nat k, 10 * of_nat k + 1 :: byte]"
  have "length (aa_value ?s) = 2 * 2 * 1" "aa_inputs ?s = 2" "aa_phase ?s = GATHERING" "aa_count ?s = 2"
    by (simp_all add: AllToAll_new_def)
  note s = this
  have n: "(2::nat) < 2 ^ 31" "2 * 2 * 1 < (2::nat) ^ 32" "distinct [1, 0 :: nat]" "set [1, 0] = {..<2::nat}"
    "\<forall>k < 2::nat. length (?b k) = 2 * 1" "(1::nat) \<noteq> 0" "(1::nat) < 2" by auto
  obtain s' r where "alltoall_round ?b [1, 0] ?s = Ret s'"
      "r = RValue (concat (map (\<lambda>k. chunk 1 (?b k) 1) [0..<2]))" "AllToAll_getId 1 (2 * 1) 5 s' =
        (if (2::nat) = 1 then Ret (s'\<lparr>aa_count := 1, aa_phase := GATHERING, aa_wait := fst (c_popAll (aa_wait s'))\<rparr>, Return r, snd (c_popAll (aa_wait s')))
         else AllToAll_leave r 5 (s'\<lparr>aa_count := 1\<rparr>))"
    using alltoall_transposes [OF s n, of 5] by blast
  moreover from this(2) have "r = RValue [1, 11]" by (simp add: chunk_def upt_conv_Cons)
  ultimately show ?thesis by (intro exI [of _ s'] exI [of _ r]) (simp del: alltoall_round.simps)
qed

text \<open>
  Attaching a parcel while an all-to-all is being read both queues the parcel on the
  condition and launches it, so the same parcel is launched again at the next signal.
\<close>
lemma alltoall_attach_launches_twice:
  "\<exists>s'. AllToAll_attach \<lparr>aa_wait = Waiting [], aa_inputs = n, aa_count = m, aa_phase = READING, aa_value = v\<rparr> p =
      (s', HPX_SUCCESS, [p]) \<and> snd (c_popAll (aa_wait s')) = [p]"
  by (simp add: AllToAll_attach_def aa_put_def)

end
