(* ===== verification/Hpx_ISend.thy ===== *)
theory Hpx_ISend
  imports Hpx_Ring Hpx_Parcel "HOL-Library.Multiset"
begin

text \<open>
  The send buffer of the MPI network, \<^verbatim>\<open>libhpx/network/isir/ISendBuffer.cpp\<close>. Sends are appended
  to a doubling ring, started in order, tested with \<^verbatim>\<open>MPI_Testsome\<close>, and the ring is compacted
  after a test. MPI is a parameter: \<open>req j\<close> is the handle of the \<open>j\<close>-th send posted, and
  \<open>some rs\<close> the indices that \<^verbatim>\<open>MPI_Testsome\<close> reports for the request array \<open>rs\<close>. The state
  keeps the sends posted so far and, for each parcel deleted, the request that completed.
  A slot never written, or a request MPI has set to null, is \<^const>\<open>None\<close>. A parcel stack is
  the list of its parcels.
\<close>

section \<open>Model\<close>

type_synonym send_record = "ptr \<times> ptr list"

record 'r isend =
  is_limit :: nat
  is_twin :: nat
  is_size :: nat
  is_min :: nat
  is_active :: nat
  is_max :: nat
  is_requests :: "'r option list"
  is_records :: "send_record option list"
  is_sent :: "(nat \<times> ptr \<times> int \<times> nat) list"
  is_done :: "('r option \<times> send_record) list"

definition ISIR_TWIN_INC :: nat where
  "ISIR_TWIN_INC = 10"

definition isend_index :: "nat \<Rightarrow> nat \<Rightarrow> nat" where
  "isend_index i n = mask_index i n"

definition isend_copy :: "'r isend \<Rightarrow> nat \<Rightarrow> nat \<Rightarrow> nat \<Rightarrow> 'r isend outcome" where
  "isend_copy s src dst n =
    bindO (copy_range (is_requests s) src dst n) (\<lambda>rq.
    bindO (copy_range (is_records s) src dst n) (\<lambda>rc.
    Ret (s\<lparr>is_requests := rq, is_records := rc\<rparr>)))"

definition isend_reserve :: "(nat \<Rightarrow> bool) \<Rightarrow> nat \<Rightarrow> 'r isend \<Rightarrow> 'r isend outcome" where
  "isend_reserve realloc_ok n s =
    assertO (n \<ge> is_size s)
    (if n = is_size s then Ret s
     else let oldsize = is_size s;
              s1 = s\<lparr>is_size := n, is_requests := resize (is_requests s) n, is_records := resize (is_records s) n\<rparr>
     in if \<not> realloc_ok n then Fault Thrown
     else if is_max s1 = is_min s1 then Ret s1
     else let lo = isend_index (is_min s1) oldsize; hi = isend_index (is_max s1) oldsize;
              pfx = (if lo < hi then hi - lo else oldsize - lo);
              sfx = (if lo < hi then 0 else hi);
              nmin = isend_index (is_min s1) n; nmax = isend_index (is_max s1) n
     in if lo = nmin then
          assertO (hi \<noteq> nmax) (assertO (u32wrap (lo + pfx) = u32sub nmax sfx)
            (isend_copy s1 0 (lo + pfx) sfx))
        else if hi = nmax then
          assertO (0 < pfx) (assertO (u32wrap (nmin + pfx) \<le> n) (isend_copy s1 lo nmin pfx))
        else Fault Thrown)"

definition isend_new :: "(nat \<Rightarrow> bool) \<Rightarrow> nat \<Rightarrow> nat \<Rightarrow> 'r isend outcome" where
  "isend_new realloc_ok limit twin =
    isend_reserve realloc_ok 64
      \<lparr> is_limit = limit, is_twin = twin, is_size = 0, is_min = 0, is_active = 0, is_max = 0,
        is_requests = [], is_records = [], is_sent = [], is_done = [] \<rparr>"

definition isend_append :: "(nat \<Rightarrow> bool) \<Rightarrow> ptr \<Rightarrow> ptr list \<Rightarrow> 'r isend \<Rightarrow> 'r isend outcome" where
  "isend_append realloc_ok p ssync s =
    (let i = isend_index (is_max s) (is_size s) in
     if \<not> i < length (is_records s) then Fault Out_of_bounds
     else let s1 = s\<lparr>is_max := u64wrap (is_max s + 1), is_records := (is_records s)[i := Some (p, ssync)]\<rparr> in
       if is_size s1 \<le> is_max s1 - is_min s1 then isend_reserve realloc_ok (u32wrap (2 * is_size s1)) s1 else Ret s1)"

text \<open>
  \<open>owner\<close> and \<open>psize\<close> are the owner of a parcel's target and its payload size. MPI rejects a negative count,
  on which the transport throws.
\<close>

definition isend_start ::
  "(ptr \<Rightarrow> nat) \<Rightarrow> (ptr \<Rightarrow> nat) \<Rightarrow> (nat \<Rightarrow> 'r) \<Rightarrow> nat \<Rightarrow> 'r isend \<Rightarrow> 'r isend outcome" where
  "isend_start owner psize req i s =
    (let k = isend_index i (is_size s) in
     if k < length (is_records s) \<and> k < length (is_requests s) then
       (case is_records s ! k of
          None \<Rightarrow> Fault Out_of_bounds
        | Some (p, ssync) \<Rightarrow>
            let n = payload_size_to_isir_bytes (psize p) in
            if n < 0 then Fault Thrown
            else Ret (s\<lparr>is_requests := (is_requests s)[k := Some (req (length (is_sent s)))],
                        is_sent := is_sent s @ [(owner p, p, n, PayloadSizeToTag (psize p))]\<rparr>))
     else Fault Out_of_bounds)"

function isend_startLoop ::
  "(ptr \<Rightarrow> nat) \<Rightarrow> (ptr \<Rightarrow> nat) \<Rightarrow> (nat \<Rightarrow> 'r) \<Rightarrow> nat \<Rightarrow> nat \<Rightarrow> 'r isend \<Rightarrow> 'r isend outcome" where
  "isend_startLoop owner psize req active stop s =
    (if active < stop then
       (case isend_start owner psize req active (s\<lparr>is_active := active + 1\<rparr>) of
          Inl e \<Rightarrow> Inl e | Inr s' \<Rightarrow> isend_startLoop owner psize req (active + 1) stop s')
     else Ret s)"
  by pat_completeness auto
termination
  by (relation "measure (\<lambda>(w, z, q, active, stop, s). stop - active)") auto

definition isend_startAll ::
  "(ptr \<Rightarrow> nat) \<Rightarrow> (ptr \<Rightarrow> nat) \<Rightarrow> (nat \<Rightarrow> 'r) \<Rightarrow> 'r isend \<Rightarrow> ('r isend \<times> nat) outcome" where
  "isend_startAll owner psize req s =
    (let stop = (if is_limit s \<noteq> 0 then min (u64wrap (is_min s + is_limit s)) (is_max s) else is_max s) in
     bindO (isend_startLoop owner psize req (is_active s) stop s) (\<lambda>s'. Ret (s', is_max s' - is_active s')))"

text \<open>
  \<^verbatim>\<open>Testsome\<close> of the transport throws when MPI finds no active request in the range. The loop over the
  completed requests of a range: each parcel is deleted and its
  synchronization parcels are popped one by one onto \<open>ssync\<close>.
\<close>

fun isend_finish :: "nat \<Rightarrow> nat \<Rightarrow> nat list \<Rightarrow> ptr list \<Rightarrow> 'r isend \<Rightarrow> ('r isend \<times> ptr list \<times> nat list) outcome" where
  "isend_finish i n [] ssync s = Ret (s, ssync, [])"
| "isend_finish i n (o' # os) ssync s =
    (let k = o' + i in
     assertO (i \<le> k \<and> k < i + n)
     (if \<not> k < length (is_records s) \<or> \<not> k < length (is_requests s) then Fault Out_of_bounds
      else case is_records s ! k of
        None \<Rightarrow> Fault Out_of_bounds
      | Some (p, ss) \<Rightarrow>
          bindO (isend_finish i n os (rev ss @ ssync)
             (s\<lparr>is_requests := (is_requests s)[k := None], is_records := (is_records s)[k := Some (p, [])],
                is_done := is_done s @ [(is_requests s ! k, p, ss)]\<rparr>)) (\<lambda>(s', ssync', ks).
          Ret (s', ssync', k # ks))))"

definition isend_testRange ::
  "('r option list \<Rightarrow> nat list) \<Rightarrow> nat \<Rightarrow> nat \<Rightarrow> ptr list \<Rightarrow> 'r isend \<Rightarrow> ('r isend \<times> ptr list \<times> nat list) outcome" where
  "isend_testRange some i n ssync s =
    assertO (u32wrap (i + n) \<le> is_size s)
    (if n = 0 then Ret (s, ssync, [])
     else let rs = take n (drop i (is_requests s)) in
       if list_all (\<lambda>r. r = None) rs then Fault Thrown else isend_finish i n (some rs) ssync s)"

fun isend_compactLoop :: "nat list \<Rightarrow> 'r isend \<Rightarrow> 'r isend outcome" where
  "isend_compactLoop [] s = Ret s"
| "isend_compactLoop (k # ks) s =
    (let i = isend_index (is_min s) (is_size s) in
     if i < length (is_records s) \<and> k < length (is_records s) \<and> i < length (is_requests s) \<and> k < length (is_requests s) then
       isend_compactLoop ks (s\<lparr>is_min := is_min s + 1,
         is_requests := (is_requests s)[k := is_requests s ! i], is_records := (is_records s)[k := is_records s ! i]\<rparr>)
     else Fault Out_of_bounds)"

definition isend_compact :: "nat \<Rightarrow> nat list \<Rightarrow> 'r isend \<Rightarrow> 'r isend outcome" where
  "isend_compact n out s =
    (let m = is_active s - is_min s in
     if n = m then Ret (s\<lparr>is_min := is_min s + n\<rparr>)
     else assertO (n < (2 ^ 31 - 1) div 2) (isend_compactLoop out s))"

definition isend_window :: "nat \<Rightarrow> nat \<Rightarrow> nat" where
  "isend_window cnt twin =
    (if cnt \<ge> twin then u32wrap (twin + ISIR_TWIN_INC)
     else if twin - cnt > ISIR_TWIN_INC then twin - ISIR_TWIN_INC else twin)"

definition isend_testAll ::
  "('r option list \<Rightarrow> nat list) \<Rightarrow> ptr list \<Rightarrow> 'r isend \<Rightarrow> ('r isend \<times> ptr list \<times> nat) outcome" where
  "isend_testAll some ssync s =
    (let i = isend_index (is_min s) (is_size s); j = isend_index (is_active s) (is_size s);
         wrapped = (j < i);
         n = min (if wrapped then is_size s - i else j - i) (is_twin s);
         m = min (if wrapped then j else 0) (is_twin s - n)
     in bindO (isend_testRange some i n ssync s) (\<lambda>(s1, ssync1, out1).
        bindO (isend_testRange some 0 m ssync1 s1) (\<lambda>(s2, ssync2, out2).
        let cnt = length out1 + length out2 in
        bindO (if cnt \<noteq> 0 then isend_compact cnt (out1 @ out2) s2 else Ret s2) (\<lambda>s3.
        Ret (s3\<lparr>is_twin := isend_window cnt (is_twin s3)\<rparr>, ssync2, cnt)))))"

definition isend_progress ::
  "(ptr \<Rightarrow> nat) \<Rightarrow> (ptr \<Rightarrow> nat) \<Rightarrow> (nat \<Rightarrow> 'r) \<Rightarrow> ('r option list \<Rightarrow> nat list) \<Rightarrow> ptr list \<Rightarrow> 'r isend \<Rightarrow>
    ('r isend \<times> ptr list \<times> nat) outcome" where
  "isend_progress owner psize req some ssync s =
    bindO (isend_testAll some ssync s) (\<lambda>(s1, ssync1, m).
    bindO (isend_startAll owner psize req s1) (\<lambda>(s2, n). Ret (s2, ssync1, m)))"

text \<open>\<open>some k\<close> is what MPI answers in the \<open>k\<close>-th round of the loop.\<close>

partial_function (option) isend_flush ::
  "(ptr \<Rightarrow> nat) \<Rightarrow> (ptr \<Rightarrow> nat) \<Rightarrow> (nat \<Rightarrow> 'r) \<Rightarrow> (nat \<Rightarrow> 'r option list \<Rightarrow> nat list) \<Rightarrow> nat \<Rightarrow> nat \<Rightarrow> ptr list \<Rightarrow> 'r isend \<Rightarrow>
    ('r isend \<times> ptr list \<times> nat) outcome option" where
  "isend_flush owner psize req some k cnt ssync s =
    (if is_min s \<noteq> is_max s then
       (case isend_progress owner psize req (some k) ssync s of
          Inl e \<Rightarrow> Some (Inl e)
        | Inr r \<Rightarrow> isend_flush owner psize req some (k + 1) (cnt + snd (snd r)) (fst (snd r)) (fst r))
     else Some (Ret (s, ssync, cnt)))"

definition isend_cancel :: "nat \<Rightarrow> ptr list \<Rightarrow> 'r isend \<Rightarrow> ('r isend \<times> ptr list) outcome" where
  "isend_cancel i parcels s =
    (let k = isend_index i (is_size s) in
     if k < length (is_records s) \<and> k < length (is_requests s) then
       (case is_records s ! k of
          None \<Rightarrow> Fault Out_of_bounds
        | Some (p, ss) \<Rightarrow>
            Ret (s\<lparr>is_requests := (is_requests s)[k := None], is_records := (is_records s)[k := Some (p, [])]\<rparr>,
                 rev ss @ p # parcels))
     else Fault Out_of_bounds)"

fun isend_cancelLoop :: "nat list \<Rightarrow> ptr list \<Rightarrow> 'r isend \<Rightarrow> ('r isend \<times> ptr list) outcome" where
  "isend_cancelLoop [] parcels s = Ret (s, parcels)"
| "isend_cancelLoop (i # is) parcels s =
    bindO (isend_cancel i parcels s) (\<lambda>(s', parcels'). isend_cancelLoop is parcels' s')"

definition isend_cancelAll :: "'r isend \<Rightarrow> ('r isend \<times> ptr list) outcome" where
  "isend_cancelAll s = isend_cancelLoop [is_min s..<is_active s] [] s"

declare isend_startLoop.simps [simp del]

section \<open>Windows of a ring as multisets\<close>

lemma window_split:
  assumes "distinct ps" "set ps \<subseteq> {lo..<hi}"
  shows "mset (map f [lo..<hi]) = mset (map f ps) + mset (map f (filter (\<lambda>i. i \<notin> set ps) [lo..<hi]))"
proof -
  have "mset [lo..<hi] = mset (filter (\<lambda>i. i \<in> set ps) [lo..<hi]) + mset (filter (\<lambda>i. i \<notin> set ps) [lo..<hi])"
    unfolding mset_filter by (rule multiset_partition)
  also have "mset (filter (\<lambda>i. i \<in> set ps) [lo..<hi]) = mset ps"
    using assms by (intro set_eq_iff_mset_eq_distinct [THEN iffD1]) auto
  finally show ?thesis unfolding mset_map by simp
qed

lemma window_swap:
  assumes "distinct ps" "set ps \<subseteq> {lo..<hi}" "\<And>q. lo \<le> q \<Longrightarrow> q < hi \<Longrightarrow> q \<notin> set ps \<Longrightarrow> f q = g q"
  shows "mset (map f [lo..<hi]) + mset (map g ps) = mset (map g [lo..<hi]) + mset (map f ps)"
proof -
  have "map f (filter (\<lambda>i. i \<notin> set ps) [lo..<hi]) = map g (filter (\<lambda>i. i \<notin> set ps) [lo..<hi])"
    using assms(3) by (auto intro: map_cong)
  then show ?thesis unfolding window_split [OF assms(1,2)] by (simp only: ac_simps)
qed

lemma mset_exchange:
  fixes A :: "'a multiset"
  assumes "A + Y = R" "R + X = Q + Y"
  shows "A + X = Q"
  using assms(2) unfolding assms(1) [symmetric] by (simp add: add.commute)

lemma ring_nth: "i < hi - lo \<Longrightarrow> ring xs cap lo hi ! i = xs ! ((lo + i) mod cap)"
  by (simp add: ring_def)

lemma length_ring [simp]: "length (ring xs cap lo hi) = hi - lo"
  by (simp add: ring_def)

lemma ring_map_snd: "length vs = c \<Longrightarrow> 0 < c \<Longrightarrow> ring (map snd vs) c lo hi = map snd (ring vs c lo hi)"
  by (simp add: ring_def)

lemma ring_outside:
  assumes "\<And>i. lo \<le> i \<Longrightarrow> i < hi \<Longrightarrow> i mod cap \<noteq> k"
  shows "ring (xs[k := d]) cap lo hi = ring xs cap lo hi"
  by (rule ring_cong) (use assms in \<open>metis nth_list_update_neq\<close>)

lemma ring_update:
  assumes "lo \<le> p" "p < hi" "hi \<le> lo + cap" "length xs = cap"
  shows "ring (xs[p mod cap := d]) cap lo hi = (ring xs cap lo hi)[p - lo := d]"
proof (rule nth_equalityI)
  fix i assume "i < length (ring (xs[p mod cap := d]) cap lo hi)"
  then have i: "i < hi - lo" by simp
  have "p < lo + i + cap" "lo + i < p + cap" using assms(1-3) i by linarith+
  then have "(lo + i) mod cap = p mod cap \<longleftrightarrow> lo + i = p"
    using mod_window_inj [of "lo + i" p cap] mod_window_inj [of p "lo + i" cap]
    by (cases "lo + i" p rule: linorder_cases) auto
  moreover have "p mod cap < cap" using assms by (intro mod_less_divisor) linarith
  ultimately show "ring (xs[p mod cap := d]) cap lo hi ! i = (ring xs cap lo hi)[p - lo := d] ! i"
    using assms i by (auto simp: ring_nth nth_list_update)
qed simp

fun ring_compact :: "nat \<Rightarrow> nat list \<Rightarrow> nat \<Rightarrow> 'a list \<Rightarrow> 'a list" where
  "ring_compact cap [] lo xs = xs"
| "ring_compact cap (p # ps) lo xs = ring_compact cap ps (Suc lo) (xs[p mod cap := xs ! (lo mod cap)])"

lemma length_ring_compact [simp]: "length (ring_compact cap ps lo xs) = length xs"
  by (induction ps arbitrary: lo xs) simp_all

lemma ring_compact_window:
  assumes "sorted_wrt (<) ps" "set ps \<subseteq> {lo..<act}" "act \<le> lo + cap" "length xs = cap"
  shows "mset (ring (ring_compact cap ps lo xs) cap (lo + length ps) act) + mset (map (\<lambda>p. xs ! (p mod cap)) ps) =
    mset (ring xs cap lo act)"
  using assms
proof (induction ps arbitrary: lo xs)
  case (Cons p ps)
  let ?v = "xs ! (lo mod cap)" and ?xs = "xs[p mod cap := xs ! (lo mod cap)]"
  have p: "lo \<le> p" "p < act" "lo < act" using Cons.prems(2) by auto
  have ps: "set ps \<subseteq> {Suc lo..<act}" using Cons.prems(1,2) p(1) by fastforce
  have same: "map (\<lambda>q. ?xs ! (q mod cap)) ps = map (\<lambda>q. xs ! (q mod cap)) ps"
  proof (rule map_cong [OF refl])
    fix q assume q: "q \<in> set ps"
    then have "p < q" "q < act" using Cons.prems(1,2) by auto
    then have "p mod cap \<noteq> q mod cap" using mod_window_inj [of p q cap] p(1) Cons.prems(3) by linarith
    then show "?xs ! (q mod cap) = xs ! (q mod cap)" by simp
  qed
  have "mset (ring ?xs cap lo act) + {#xs ! (p mod cap)#} = mset (ring xs cap lo act) + {#?v#}"
  proof -
    have "p - lo < length (ring xs cap lo act)" "ring xs cap lo act ! (p - lo) = xs ! (p mod cap)"
      using p by (simp_all add: ring_nth)
    moreover from this have "xs ! (p mod cap) \<in># mset (ring xs cap lo act)" by (metis nth_mem_mset)
    ultimately show ?thesis unfolding ring_update [OF p(1,2) Cons.prems(3,4)]
      by (simp add: mset_update del: length_ring)
  qed
  moreover have "ring ?xs cap lo act = ?xs ! (lo mod cap) # ring ?xs cap (Suc lo) act" by (rule ring_Cons [OF p(3)])
  moreover have "?xs ! (lo mod cap) = ?v" by (cases "p mod cap = lo mod cap") (use Cons.prems(3,4) p in \<open>auto simp: nth_list_update\<close>)
  ultimately have win: "mset (ring ?xs cap (Suc lo) act) + {#xs ! (p mod cap)#} = mset (ring xs cap lo act)" by simp
  have "mset (ring (ring_compact cap ps (Suc lo) ?xs) cap (Suc lo + length ps) act) + mset (map (\<lambda>q. ?xs ! (q mod cap)) ps) =
      mset (ring ?xs cap (Suc lo) act)"
    by (rule Cons.IH) (use Cons.prems ps in auto)
  then show ?case using win same by simp
qed simp

text \<open>In whatever order slots are overwritten, the window is left with some of what it had.\<close>

lemma ring_compact_sub:
  assumes "set ps \<subseteq> {base..<act}" "base \<le> lo" "lo + length ps \<le> act" "act \<le> base + cap" "length xs = cap"
  shows "mset (ring (ring_compact cap ps lo xs) cap (lo + length ps) act) \<subseteq># mset (ring xs cap lo act)"
  using assms
proof (induction ps arbitrary: lo xs)
  case (Cons p ps)
  let ?v = "xs ! (lo mod cap)" and ?xs = "xs[p mod cap := xs ! (lo mod cap)]"
  have p: "base \<le> p" "p < act" "lo < act" using Cons.prems(1,3) by auto
  have "mset (ring (ring_compact cap ps (Suc lo) ?xs) cap (Suc lo + length ps) act) \<subseteq># mset (ring ?xs cap (Suc lo) act)"
    by (rule Cons.IH) (use Cons.prems in auto)
  moreover have "mset (ring ?xs cap (Suc lo) act) \<subseteq># mset (ring xs cap lo act)"
  proof (cases "Suc lo \<le> p")
    case True
    let ?r = "ring xs cap (Suc lo) act"
    have "ring ?xs cap (Suc lo) act = ?r[p - Suc lo := ?v]"
      by (rule ring_update) (use True p Cons.prems in auto)
    moreover have "p - Suc lo < length ?r" using True p by simp
    then have "mset (?r[p - Suc lo := ?v]) \<subseteq># add_mset ?v (mset ?r)" by (simp add: mset_update del: length_ring)
    ultimately show ?thesis unfolding ring_Cons [OF p(3)] by simp
  next
    case False
    have "ring ?xs cap (Suc lo) act = ring xs cap (Suc lo) act"
    proof (rule ring_outside)
      fix i assume "Suc lo \<le> i" "i < act"
      then show "i mod cap \<noteq> p mod cap" using mod_window_inj [of p i cap] False p Cons.prems(2,4) by auto
    qed
    then show ?thesis unfolding ring_Cons [OF p(3)] by simp
  qed
  ultimately show ?case by simp
qed simp

lemma ring_compact_outside:
  assumes "set ps \<subseteq> {lo..<act}" "hi \<le> lo + cap"
  shows "ring (ring_compact cap ps lo' xs) cap act hi = ring xs cap act hi"
  using assms(1)
proof (induction ps arbitrary: lo' xs)
  case (Cons p ps)
  have "ring (xs[p mod cap := d]) cap act hi = ring xs cap act hi" for d
  proof (rule ring_outside)
    fix i assume "act \<le> i" "i < hi"
    then show "i mod cap \<noteq> p mod cap" using mod_window_inj [of p i cap] Cons.prems assms(2) by auto
  qed
  then show ?case using Cons by simp
qed simp

section \<open>Invariant\<close>

definition isend_slots :: "'r isend \<Rightarrow> ('r option \<times> send_record option) list" where
  "isend_slots s = zip (is_requests s) (is_records s)"

definition isend_inv :: "'r isend \<Rightarrow> bool" where
  "isend_inv s = (pow2 (is_size s) \<and> length (is_requests s) = is_size s \<and> length (is_records s) = is_size s \<and>
    is_min s \<le> is_active s \<and> is_active s \<le> is_max s \<and> is_max s - is_min s < is_size s \<and> is_max s < 2 ^ 64 \<and>
    (\<forall>i. is_min s \<le> i \<longrightarrow> i < is_max s \<longrightarrow> is_records s ! (i mod is_size s) \<noteq> None))"

text \<open>
  What the buffer has done with the sends \<open>xs\<close> appended so far, the oldest first: a prefix has
  been posted in order, the rest waits in order, and the posted sends with their own
  requests are those completed, those still in the active window, and those \<open>lost\<close>; \<open>dead\<close> are
  slots of the window or of \<open>lost\<close> whose request is no longer active. Nothing is lost or dead
  unless completions have been compacted in the wrong order.
\<close>

definition isend_hist ::
  "(ptr \<Rightarrow> nat) \<Rightarrow> (ptr \<Rightarrow> nat) \<Rightarrow> (nat \<Rightarrow> 'r) \<Rightarrow> ('r option \<times> send_record option) multiset \<Rightarrow> ('r option \<times> send_record option) multiset \<Rightarrow>
    send_record list \<Rightarrow> 'r isend \<Rightarrow> bool" where
  "isend_hist owner psize req dead lost xs s = (is_max s = length xs \<and>
    is_sent s = map (\<lambda>(p, ss). (owner p, p, payload_size_to_isir_bytes (psize p), PayloadSizeToTag (psize p))) (take (is_active s) xs) \<and>
    ring (is_records s) (is_size s) (is_active s) (is_max s) = map Some (drop (is_active s) xs) \<and>
    mset (zip (map (\<lambda>j. Some (req j)) [0..<is_active s]) (map Some (take (is_active s) xs))) + dead =
      mset (map (\<lambda>(r, x). (r, Some x)) (is_done s)) + mset (ring (isend_slots s) (is_size s) (is_min s) (is_active s)) + lost \<and>
    (\<forall>x. x \<in># dead \<longrightarrow> fst x = None) \<and> (\<forall>x\<in>set (is_done s). fst x \<noteq> None) \<and>
    (\<forall>x\<in>set xs. 0 \<le> payload_size_to_isir_bytes (psize (fst x))))"

lemma isend_histD:
  assumes "isend_hist owner psize req dead lost xs s"
  shows "is_max s = length xs"
    "is_sent s = map (\<lambda>(p, ss). (owner p, p, payload_size_to_isir_bytes (psize p), PayloadSizeToTag (psize p))) (take (is_active s) xs)"
    "ring (is_records s) (is_size s) (is_active s) (length xs) = map Some (drop (is_active s) xs)"
    "mset (zip (map (\<lambda>j. Some (req j)) [0..<is_active s]) (map Some (take (is_active s) xs))) + dead =
      mset (map (\<lambda>(r, x). (r, Some x)) (is_done s)) + mset (ring (isend_slots s) (is_size s) (is_min s) (is_active s)) + lost"
    "\<forall>x. x \<in># dead \<longrightarrow> fst x = None" "\<forall>x\<in>set (is_done s). fst x \<noteq> None"
    "\<forall>x\<in>set xs. 0 \<le> payload_size_to_isir_bytes (psize (fst x))"
  using assms unfolding isend_hist_def by auto

lemma isend_twin [simp]:
  "isend_inv (s\<lparr>is_twin := w\<rparr>) = isend_inv s"
  "isend_hist owner psize req dead lost xs (s\<lparr>is_twin := w\<rparr>) = isend_hist owner psize req dead lost xs s"
  by (simp_all add: isend_inv_def isend_hist_def isend_slots_def)

lemma isend_index_mod: "pow2 n \<Longrightarrow> isend_index i n = i mod n"
  by (simp add: isend_index_def mask_index_mod)

lemma isend_invD:
  assumes "isend_inv s"
  shows "pow2 (is_size s)" "length (is_requests s) = is_size s" "length (is_records s) = is_size s"
    "is_min s \<le> is_active s" "is_active s \<le> is_max s" "is_max s - is_min s < is_size s" "is_max s < 2 ^ 64"
    "0 < is_size s" "is_max s < is_min s + is_size s"
    "\<And>i. is_min s \<le> i \<Longrightarrow> i < is_max s \<Longrightarrow> is_records s ! (i mod is_size s) \<noteq> None"
  using assms pow2_pos [of "is_size s"] unfolding isend_inv_def by auto

lemma slots_nth: "length (is_requests s) = n \<Longrightarrow> length (is_records s) = n \<Longrightarrow> k < n \<Longrightarrow>
    isend_slots s ! k = (is_requests s ! k, is_records s ! k)"
  by (simp add: isend_slots_def)

lemma reserve_double:
  assumes c: "pow2 c" "2 * c < 2 ^ 31" and s: "is_size s = c" "length (is_requests s) = c" "length (is_records s) = c"
      "is_max s = is_min s + c" and ok: "\<And>m. realloc_ok m"
  shows "\<exists>rq rc. isend_reserve realloc_ok (2 * c) s = Ret (s\<lparr>is_size := 2 * c, is_requests := rq, is_records := rc\<rparr>) \<and>
    length rq = 2 * c \<and> length rc = 2 * c \<and>
    (\<forall>i. is_min s \<le> i \<longrightarrow> i < is_min s + c \<longrightarrow>
      rq ! (i mod (2 * c)) = is_requests s ! (i mod c) \<and> rc ! (i mod (2 * c)) = is_records s ! (i mod c))"
proof -
  let ?lo = "is_min s" and ?o = "is_min s mod c"
  let ?rq = "is_requests s @ replicate c None" and ?rc = "is_records s @ replicate c None"
  let ?s1 = "s\<lparr>is_size := 2 * c, is_requests := ?rq, is_records := ?rc\<rparr>"
  have c0: "0 < c" by (rule pow2_pos [OF c(1)])
  have c2: "pow2 (2 * c)" using c by (intro pow2_double) auto
  have o: "?o < c" using c0 by simp
  have om: "is_max s mod c = ?o" by (simp add: s(4))
  have rs: "resize (is_requests s) (2 * c) = ?rq" "resize (is_records s) (2 * c) = ?rc"
    using s(2,3) by (simp_all add: resize_def)
  have app: "(xs @ replicate c None) ! (i mod c) = xs ! (i mod c)" if "length xs = c" for xs :: "'x option list" and i
    using that c0 by (simp add: nth_append)
  have moved: ?thesis
    if r: "isend_reserve realloc_ok (2 * c) s = isend_copy ?s1 src dst n"
      and q: "\<exists>ys. copy_range ?rq src dst n = Ret ys \<and> length ys = 2 * c \<and>
        (\<forall>i. ?lo \<le> i \<longrightarrow> i < ?lo + c \<longrightarrow> ys ! (i mod (2 * c)) = ?rq ! (i mod c))"
      and t: "\<exists>ys. copy_range ?rc src dst n = Ret ys \<and> length ys = 2 * c \<and>
        (\<forall>i. ?lo \<le> i \<longrightarrow> i < ?lo + c \<longrightarrow> ys ! (i mod (2 * c)) = ?rc ! (i mod c))" for src dst n
  proof -
    from q obtain rq where rq: "copy_range ?rq src dst n = Ret rq" "length rq = 2 * c"
      "\<forall>i. ?lo \<le> i \<longrightarrow> i < ?lo + c \<longrightarrow> rq ! (i mod (2 * c)) = is_requests s ! (i mod c)"
      unfolding app [OF s(2)] by blast
    from t obtain rc where rc: "copy_range ?rc src dst n = Ret rc" "length rc = 2 * c"
      "\<forall>i. ?lo \<le> i \<longrightarrow> i < ?lo + c \<longrightarrow> rc ! (i mod (2 * c)) = is_records s ! (i mod c)"
      unfolding app [OF s(3)] by blast
    have "isend_reserve realloc_ok (2 * c) s = Ret (s\<lparr>is_size := 2 * c, is_requests := rq, is_records := rc\<rparr>)"
      using r rq(1) rc(1) by (simp add: isend_copy_def)
    with rq(2,3) rc(2,3) show ?thesis by blast
  qed
  have len: "length ?rq = 2 * c" "length ?rc = 2 * c" using s(2,3) by simp_all
  note idx = isend_index_mod [OF c(1)] isend_index_mod [OF c2]
  consider (low) "?lo mod (2 * c) = ?o" | (high) "?lo mod (2 * c) = ?o + c"
    using mod_double [of ?lo c] by blast
  then show ?thesis
  proof cases
    case low
    have mx: "is_max s mod (2 * c) = ?o + c"
      using mod_window [of "2 * c" ?lo "is_max s"] c0 o low by (simp add: s(4))
    have "isend_reserve realloc_ok (2 * c) s = isend_copy ?s1 0 c ?o"
      using c0 o c(2) ok by (simp add: isend_reserve_def s(1) rs idx om low mx Let_def) (simp add: s(4))
    then show ?thesis using reflow_low [OF c0 len(1) low] reflow_low [OF c0 len(2) low] by (rule moved)
  next
    case high
    have mx: "is_max s mod (2 * c) = ?o"
      using mod_window [of "2 * c" ?lo "is_max s"] c0 o high by (simp add: s(4))
    have "isend_reserve realloc_ok (2 * c) s = isend_copy ?s1 ?o (?o + c) (c - ?o)"
      using c0 o c(2) ok by (simp add: isend_reserve_def s(1) rs idx om high mx Let_def) (simp add: s(4))
    then show ?thesis using reflow_high [OF c0 len(1) high] reflow_high [OF c0 len(2) high] by (rule moved)
  qed
qed

text \<open>The history does not depend on where the window is stored.\<close>

lemma hist_remap:
  assumes h: "isend_hist owner psize req dead lost xs s"
    and s': "is_min s' = is_min s" "is_active s' = is_active s" "is_max s' = is_max s" "is_sent s' = is_sent s" "is_done s' = is_done s"
    and len: "length (is_requests s) = is_size s" "length (is_records s) = is_size s" "0 < is_size s"
      "length (is_requests s') = is_size s'" "length (is_records s') = is_size s'" "0 < is_size s'"
    and le: "is_min s \<le> is_active s" "is_active s \<le> is_max s"
    and same: "\<And>i. is_min s \<le> i \<Longrightarrow> i < is_max s \<Longrightarrow>
      is_requests s' ! (i mod is_size s') = is_requests s ! (i mod is_size s) \<and>
      is_records s' ! (i mod is_size s') = is_records s ! (i mod is_size s)"
  shows "isend_hist owner psize req dead lost xs s'"
proof -
  have e1: "ring (is_records s') (is_size s') (is_active s) (is_max s) = ring (is_records s) (is_size s) (is_active s) (is_max s)"
    using same le by (intro ring_cong) auto
  have e2: "ring (isend_slots s') (is_size s') (is_min s) (is_active s) = ring (isend_slots s) (is_size s) (is_min s) (is_active s)"
    using same le len by (intro ring_cong) (auto simp: slots_nth)
  show ?thesis using h unfolding isend_hist_def s' e1 e2 .
qed

lemma hist_snoc:
  assumes inv: "isend_inv s" and h: "isend_hist owner psize req dead lost xs s"
  and pos: "0 \<le> payload_size_to_isir_bytes (psize (fst x))"
  shows "isend_hist owner psize req dead lost (xs @ [x]) (s\<lparr>is_max := is_max s + 1, is_records := (is_records s)[is_max s mod is_size s := Some x]\<rparr>)"
    (is "isend_hist _ _ _ _ _ _ ?s")
proof -
  note i = isend_invD [OF inv]
  let ?c = "is_size s" and ?k = "is_max s mod is_size s"
  have k: "?k < ?c" using i(8) by simp
  have "ring (is_records ?s) ?c (is_active s) (Suc (is_max s)) = ring (is_records s) ?c (is_active s) (is_max s) @ [Some x]"
    using ring_snoc [of "is_active s" "is_max s" ?c "is_records s" "Some x"] i by simp
  moreover have "isend_slots ?s = (isend_slots s)[?k := (is_requests s ! ?k, Some x)]"
    using update_zip [of "is_requests s" "is_records s" ?k "(is_requests s ! ?k, Some x)"] by (simp add: isend_slots_def)
  moreover have "j mod ?c \<noteq> ?k" if "is_min s \<le> j" "j < is_active s" for j
    using mod_window_inj [of j "is_max s" ?c] that i by linarith
  ultimately show ?thesis using pos isend_histD [OF h] i(5) ring_outside [of "is_min s" "is_active s" ?c ?k "isend_slots s"]
    by (simp add: isend_hist_def)
qed

lemma isend_reserve_keeps:
  assumes "isend_reserve realloc_ok n s = Ret s'"
  shows "is_limit s' = is_limit s \<and> is_done s' = is_done s \<and> is_active s' = is_active s \<and> is_min s' = is_min s"
proof -
  have c: "is_limit s' = is_limit t \<and> is_done s' = is_done t \<and> is_active s' = is_active t \<and> is_min s' = is_min t" if "isend_copy t x y z = Ret s'" for t x y z
    using that by (auto simp: isend_copy_def outcome_simps)
  show ?thesis using assms c by (auto simp: isend_reserve_def Let_def outcome_simps split: if_split_asm)
qed

lemma isend_append_keeps:
  assumes "isend_append realloc_ok p ss s = Ret s'"
  shows "is_limit s' = is_limit s" "is_done s' = is_done s" "is_active s' = is_active s" "is_min s' = is_min s"
  using assms by (auto simp: isend_append_def Let_def split: if_split_asm dest!: isend_reserve_keeps)

definition isend_ready :: "(nat \<Rightarrow> bool) \<Rightarrow> nat \<Rightarrow> 'r isend \<Rightarrow> bool" where
  "isend_ready realloc_ok n s = ((\<forall>m. realloc_ok m) \<and> is_max s + n < 2 ^ 64 \<and> 2 * (is_max s - is_min s + n) < 2 ^ 31)"

lemma isend_append_correct:
  assumes inv: "isend_inv s" and h: "isend_hist owner psize req dead lost xs s" and rdy: "isend_ready realloc_ok (Suc n) s"
    and pos: "0 \<le> payload_size_to_isir_bytes (psize p)"
  shows "\<exists>s'. isend_append realloc_ok p ss s = Ret s' \<and> isend_inv s' \<and> isend_hist owner psize req dead lost (xs @ [(p, ss)]) s' \<and>
    isend_ready realloc_ok n s'"
proof -
  note i = isend_invD [OF inv]
  let ?c = "is_size s" and ?k = "is_max s mod is_size s"
  let ?s = "s\<lparr>is_max := is_max s + 1, is_records := (is_records s)[?k := Some (p, ss)]\<rparr>"
  have r: "\<And>m. realloc_ok m" "is_max s + 1 < 2 ^ 64" "2 * (is_max s - is_min s + 1) < 2 ^ 31"
    using rdy by (auto simp: isend_ready_def)
  have k: "?k < ?c" using i(8) by simp
  have h1: "isend_hist owner psize req dead lost (xs @ [(p, ss)]) ?s" by (rule hist_snoc [OF inv h]) (simp add: pos)
  have rec: "is_records ?s ! (j mod ?c) \<noteq> None" if "is_min s \<le> j" "j < is_max s + 1" for j
  proof (cases "j = is_max s")
    case False
    then show ?thesis using that i(10) mod_window_inj [of j "is_max s" ?c] i(9) by simp
  qed (use k i(3) in simp)
  have rdy': "isend_ready realloc_ok n s'" if "is_max s' = is_max s + 1" "is_min s' = is_min s" for s' :: "'a isend"
    using rdy that i(4,5) by (simp add: isend_ready_def Suc_diff_le)
  have ap: "isend_append realloc_ok p ss s =
      (if ?c \<le> is_max s + 1 - is_min s then isend_reserve realloc_ok (u32wrap (2 * ?c)) ?s else Ret ?s)"
    using k i(3) r(2) by (simp add: isend_append_def isend_index_mod [OF i(1)] Let_def)
  show ?thesis
  proof (cases "?c \<le> is_max s + 1 - is_min s")
    case False
    have "isend_inv ?s" using False i r(2) rec by (simp add: isend_inv_def)
    then show ?thesis using False ap h1 rdy' [of ?s] by simp
  next
    case True
    then have full: "is_max s + 1 = is_min s + ?c" using i(4,5,6) by linarith
    then have c2: "2 * ?c < 2 ^ 31" using r(3) i(4,5) by simp
    obtain rq rc where q: "isend_reserve realloc_ok (2 * ?c) ?s = Ret (?s\<lparr>is_size := 2 * ?c, is_requests := rq, is_records := rc\<rparr>)"
        "length rq = 2 * ?c" "length rc = 2 * ?c"
        "\<forall>j. is_min ?s \<le> j \<longrightarrow> j < is_min ?s + ?c \<longrightarrow>
          rq ! (j mod (2 * ?c)) = is_requests ?s ! (j mod ?c) \<and> rc ! (j mod (2 * ?c)) = is_records ?s ! (j mod ?c)"
      using reserve_double [OF i(1) c2, of ?s realloc_ok] i(2,3) full r(1) by auto
    let ?s' = "?s\<lparr>is_size := 2 * ?c, is_requests := rq, is_records := rc\<rparr>"
    have same: "rq ! (j mod (2 * ?c)) = is_requests ?s ! (j mod ?c) \<and> rc ! (j mod (2 * ?c)) = is_records ?s ! (j mod ?c)"
      if "is_min s \<le> j" "j < is_max s + 1" for j using q(4) that full by simp
    have h2: "isend_hist owner psize req dead lost (xs @ [(p, ss)]) ?s'"
      by (rule hist_remap [OF h1]) (use same q(2,3) i in auto)
    have "rc ! (j mod (2 * ?c)) \<noteq> None" if "is_min s \<le> j" "j < is_max s + 1" for j
      using same [OF that] rec [OF that] by simp
    then have "isend_inv ?s'" using q(2,3) i r(2) full pow2_double [OF i(1)] c2 by (simp add: isend_inv_def)
    moreover have "isend_append realloc_ok p ss s = Ret ?s'" using ap True q(1) c2 by simp
    ultimately show ?thesis using h2 rdy' [of ?s'] by auto
  qed
qed

section \<open>Starting sends\<close>

text \<open>What starting and testing keep of a buffer.\<close>

definition isend_same :: "'r isend \<Rightarrow> 'r isend \<Rightarrow> bool" where
  "isend_same s s' = (is_limit s' = is_limit s \<and> is_twin s' = is_twin s \<and> is_min s' = is_min s \<and> is_max s' = is_max s \<and>
    is_done s' = is_done s)"

lemma isend_start_correct:
  assumes inv: "isend_inv s" and h: "isend_hist owner psize req dead lost xs s" and lt: "is_active s < is_max s"
  shows "\<exists>s'. isend_start owner psize req (is_active s) (s\<lparr>is_active := is_active s + 1\<rparr>) = Ret s' \<and> isend_inv s' \<and>
    isend_hist owner psize req dead lost xs s' \<and> is_active s' = is_active s + 1 \<and> isend_same s s'"
proof -
  note i = isend_invD [OF inv] and hD = isend_histD [OF h]
  let ?a = "is_active s" and ?c = "is_size s" and ?k = "is_active s mod is_size s"
  have k: "?k < ?c" using i(8) by simp
  have a: "?a < length xs" using lt hD(1) by simp
  obtain p ss where x: "xs ! ?a = (p, ss)" by (cases "xs ! ?a")
  have dr: "drop ?a xs = (p, ss) # drop (Suc ?a) xs" using Cons_nth_drop_Suc [OF a] x by simp
  have pend: "is_records s ! ?k = Some (p, ss)" "ring (is_records s) ?c (Suc ?a) (length xs) = map Some (drop (Suc ?a) xs)"
    using hD(3) ring_Cons [OF a, of "is_records s" ?c] dr by simp_all
  have tk: "take (Suc ?a) xs = take ?a xs @ [(p, ss)]" using take_Suc_conv_app_nth [OF a] x by simp
  have sent: "length (is_sent s) = ?a" using hD(2) a by simp
  let ?e = "(owner p, p, payload_size_to_isir_bytes (psize p), PayloadSizeToTag (psize p))"
  let ?s' = "s\<lparr>is_active := ?a + 1, is_requests := (is_requests s)[?k := Some (req ?a)], is_sent := is_sent s @ [?e]\<rparr>"
  have "0 \<le> payload_size_to_isir_bytes (psize p)" using bspec [OF hD(7) nth_mem [OF a]] x by simp
  then have st: "isend_start owner psize req ?a (s\<lparr>is_active := ?a + 1\<rparr>) = Ret ?s'"
    using k i(2,3) pend(1) sent by (simp add: isend_start_def isend_index_mod [OF i(1)])
  have sl: "isend_slots ?s' = (isend_slots s)[?k := (Some (req ?a), Some (p, ss))]"
    using update_zip [of "is_requests s" "is_records s" ?k "(Some (req ?a), Some (p, ss))"] pend(1)
      list_update_id [of "is_records s" ?k] by (simp add: isend_slots_def)
  have win: "ring (isend_slots ?s') ?c (is_min s) (Suc ?a) = ring (isend_slots s) ?c (is_min s) ?a @ [(Some (req ?a), Some (p, ss))]"
    unfolding sl using i lt by (intro ring_snoc) (simp_all add: isend_slots_def)
  have "isend_hist owner psize req dead lost xs ?s'"
    using hD pend(2) tk win a by (simp add: isend_hist_def)
  moreover have "isend_inv ?s'" using inv lt by (simp add: isend_inv_def)
  ultimately show ?thesis using st by (auto simp: isend_same_def)
qed

lemma isend_startLoop_correct:
  assumes "isend_inv s" "isend_hist owner psize req dead lost xs s" "stop \<le> is_max s"
  shows "\<exists>s'. isend_startLoop owner psize req (is_active s) stop s = Ret s' \<and> isend_inv s' \<and>
    isend_hist owner psize req dead lost xs s' \<and> is_active s' = max (is_active s) stop \<and> isend_same s s'"
  using assms
proof (induction "stop - is_active s" arbitrary: s)
  case 0
  then show ?case by (simp add: isend_startLoop.simps isend_same_def)
next
  case (Suc d)
  then have lt: "is_active s < stop" "is_active s < is_max s" by linarith+
  from isend_start_correct [OF Suc.prems(1,2) lt(2)] obtain s1 where
    s1: "isend_start owner psize req (is_active s) (s\<lparr>is_active := is_active s + 1\<rparr>) = Ret s1" "isend_inv s1"
      "isend_hist owner psize req dead lost xs s1" "is_active s1 = is_active s + 1" "isend_same s s1" by blast
  have "\<exists>s'. isend_startLoop owner psize req (is_active s1) stop s1 = Ret s' \<and> isend_inv s' \<and>
    isend_hist owner psize req dead lost xs s' \<and> is_active s' = max (is_active s1) stop \<and> isend_same s1 s'"
    by (rule Suc.hyps(1)) (use Suc.hyps(2) Suc.prems(3) s1 in \<open>auto simp: isend_same_def\<close>)
  then show ?case using lt(1) s1(1,4,5)
    by (subst isend_startLoop.simps) (auto simp: isend_same_def)
qed

lemma isend_startAll_correct:
  assumes "isend_inv s" "isend_hist owner psize req dead lost xs s" "is_limit s + is_max s < 2 ^ 64"
  shows "\<exists>s' n. isend_startAll owner psize req s = Ret (s', n) \<and> isend_inv s' \<and> isend_hist owner psize req dead lost xs s' \<and>
    is_active s' = max (is_active s) (if is_limit s \<noteq> 0 then min (is_min s + is_limit s) (is_max s) else is_max s) \<and> isend_same s s'"
proof -
  note i = isend_invD [OF assms(1)]
  have "u64wrap (is_min s + is_limit s) = is_min s + is_limit s" using assms(3) i(4,5) by simp
  then show ?thesis
    using isend_startLoop_correct [OF assms(1,2), of "if is_limit s \<noteq> 0 then min (is_min s + is_limit s) (is_max s) else is_max s"]
    by (auto simp: isend_startAll_def Let_def)
qed

section \<open>Testing and compaction\<close>

lemma isend_finish_correct:
  assumes "\<forall>o' \<in> set os. o' < n \<and> is_records s ! (o' + i) \<noteq> None" "i + n \<le> c" "distinct os"
    "length (is_requests s) = c" "length (is_records s) = c"
  shows "\<exists>rq rc ssync'. isend_finish i n os ssync s =
      Ret (s\<lparr>is_requests := rq, is_records := rc,
             is_done := is_done s @ map (\<lambda>o'. (is_requests s ! (o' + i), the (is_records s ! (o' + i)))) os\<rparr>,
           ssync', map (\<lambda>o'. o' + i) os) \<and>
    length rq = c \<and> length rc = c \<and>
    mset ssync' = mset ssync + mset (concat (map (\<lambda>o'. snd (the (is_records s ! (o' + i)))) os)) \<and>
    (\<forall>k < c. rq ! k = (if k \<in> (\<lambda>o'. o' + i) ` set os then None else is_requests s ! k) \<and>
      rc ! k = (if k \<in> (\<lambda>o'. o' + i) ` set os then Some (fst (the (is_records s ! k)), []) else is_records s ! k))"
  using assms
proof (induction os arbitrary: ssync s)
  case Nil
  then show ?case by (intro exI [of _ "is_requests s"] exI [of _ "is_records s"] exI [of _ ssync]) simp
next
  case (Cons o' os)
  let ?k = "o' + i"
  have k: "?k < c" "o' < n" using Cons.prems(1,2) by auto
  obtain p ss where x: "is_records s ! ?k = Some (p, ss)" using Cons.prems(1) by force
  let ?s = "s\<lparr>is_requests := (is_requests s)[?k := None], is_records := (is_records s)[?k := Some (p, [])],
    is_done := is_done s @ [(is_requests s ! ?k, p, ss)]\<rparr>"
  have ne: "?k \<noteq> q + i" if "q \<in> set os" for q using Cons.prems(3) that by auto
  then have at: "is_requests ?s ! (q + i) = is_requests s ! (q + i)" "is_records ?s ! (q + i) = is_records s ! (q + i)"
    if "q \<in> set os" for q using that by simp_all
  have pre: "\<forall>q \<in> set os. q < n \<and> is_records ?s ! (q + i) \<noteq> None"
    using Cons.prems(1) at(2) by (metis list.set_intros(2))
  have keep: "map (\<lambda>q. (is_requests ?s ! (q + i), the (is_records ?s ! (q + i)))) os =
      map (\<lambda>q. (is_requests s ! (q + i), the (is_records s ! (q + i)))) os"
    "map (\<lambda>q. snd (the (is_records ?s ! (q + i)))) os = map (\<lambda>q. snd (the (is_records s ! (q + i)))) os"
    using at by (auto intro!: map_cong simp del: isend.simps)
  have "distinct os" "length (is_requests ?s) = c" "length (is_records ?s) = c" using Cons.prems(3-5) by simp_all
  from Cons.IH [OF pre Cons.prems(2) this, of "rev ss @ ssync"] obtain rq rc ssync' where
    r: "isend_finish i n os (rev ss @ ssync) ?s =
        Ret (?s\<lparr>is_requests := rq, is_records := rc,
             is_done := is_done ?s @ map (\<lambda>q. (is_requests s ! (q + i), the (is_records s ! (q + i)))) os\<rparr>,
           ssync', map (\<lambda>q. q + i) os)" "length rq = c" "length rc = c"
      "mset ssync' = mset (rev ss @ ssync) + mset (concat (map (\<lambda>q. snd (the (is_records s ! (q + i)))) os))"
      "\<forall>k < c. rq ! k = (if k \<in> (\<lambda>q. q + i) ` set os then None else is_requests ?s ! k) \<and>
        rc ! k = (if k \<in> (\<lambda>q. q + i) ` set os then Some (fst (the (is_records ?s ! k)), []) else is_records ?s ! k)"
    unfolding keep by blast
  have f: "isend_finish i n (o' # os) ssync s =
      Ret (s\<lparr>is_requests := rq, is_records := rc,
             is_done := is_done s @ map (\<lambda>q. (is_requests s ! (q + i), the (is_records s ! (q + i)))) (o' # os)\<rparr>,
           ssync', map (\<lambda>q. q + i) (o' # os))"
    using k x r(1) Cons.prems(4,5) by (simp add: Let_def)
  have m: "mset ssync' = mset ssync + mset (concat (map (\<lambda>q. snd (the (is_records s ! (q + i)))) (o' # os)))"
    using r(4) x by simp
  have "\<forall>k < c. rq ! k = (if k \<in> (\<lambda>q. q + i) ` set (o' # os) then None else is_requests s ! k) \<and>
      rc ! k = (if k \<in> (\<lambda>q. q + i) ` set (o' # os) then Some (fst (the (is_records s ! k)), []) else is_records s ! k)"
    using r(5) ne k(1) x Cons.prems(4,5) by (auto simp: nth_list_update)
  with f m r(2,3) show ?case by blast
qed

lemma isend_compactLoop_correct:
  assumes "pow2 c" "is_size s = c" "length (is_requests s) = c" "length (is_records s) = c"
  shows "isend_compactLoop (map (\<lambda>p. p mod c) ps) s =
    Ret (s\<lparr>is_min := is_min s + length ps,
      is_requests := map fst (ring_compact c ps (is_min s) (isend_slots s)),
      is_records := map snd (ring_compact c ps (is_min s) (isend_slots s))\<rparr>)"
  using assms
proof (induction ps arbitrary: s)
  case Nil
  then show ?case by (simp add: isend_slots_def)
next
  case (Cons p ps)
  have c0: "0 < c" by (rule pow2_pos [OF Cons.prems(1)])
  let ?i = "is_min s mod c" and ?k = "p mod c"
  let ?s = "s\<lparr>is_min := is_min s + 1, is_requests := (is_requests s)[?k := is_requests s ! ?i],
    is_records := (is_records s)[?k := is_records s ! ?i]\<rparr>"
  have sl: "isend_slots ?s = (isend_slots s)[?k := isend_slots s ! ?i]"
    using update_zip [of "is_requests s" "is_records s" ?k "isend_slots s ! ?i"] Cons.prems(3,4) c0
    by (simp add: isend_slots_def)
  have "isend_compactLoop (map (\<lambda>p. p mod c) (p # ps)) s = isend_compactLoop (map (\<lambda>p. p mod c) ps) ?s"
    using Cons.prems c0 by (simp add: isend_index_mod Let_def)
  also have "\<dots> = Ret (?s\<lparr>is_min := is_min ?s + length ps,
      is_requests := map fst (ring_compact c ps (is_min ?s) (isend_slots ?s)),
      is_records := map snd (ring_compact c ps (is_min ?s) (isend_slots ?s))\<rparr>)"
    by (rule Cons.IH) (use Cons.prems in simp_all)
  finally show ?case using sl by simp
qed

text \<open>
  What MPI documents of \<^verbatim>\<open>MPI_Testsome\<close>: the indices of completed requests, each once, within the
  array, and of active requests only. It does not promise that they ascend, nor that anything has
  completed.
\<close>

definition mpi_testsome :: "('r option list \<Rightarrow> nat list) \<Rightarrow> bool" where
  "mpi_testsome some = (\<forall>rs. distinct (some rs) \<and> (\<forall>o' \<in> set (some rs). o' < length rs \<and> rs ! o' \<noteq> None))"

definition mpi_ascending :: "('r option list \<Rightarrow> nat list) \<Rightarrow> bool" where
  "mpi_ascending some = (\<forall>rs. sorted_wrt (<) (some rs))"

definition mpi_completes :: "('r option list \<Rightarrow> nat list) \<Rightarrow> bool" where
  "mpi_completes some = (\<forall>rs. (\<exists>r\<in>set rs. r \<noteq> None) \<longrightarrow> some rs \<noteq> [])"

text \<open>The slots of the abstract indices \<open>ps\<close> are finished, the others are as they were.\<close>

definition isend_killed :: "nat list \<Rightarrow> 'r isend \<Rightarrow> 'r isend \<Rightarrow> bool" where
  "isend_killed ps s s' = (\<exists>rq rc.
    s' = s\<lparr>is_requests := rq, is_records := rc, is_done := is_done s @
      map (\<lambda>p. (is_requests s ! (p mod is_size s), the (is_records s ! (p mod is_size s)))) ps\<rparr> \<and>
    length rq = is_size s \<and> length rc = is_size s \<and>
    (\<forall>k < is_size s. rq ! k = (if k \<in> (\<lambda>p. p mod is_size s) ` set ps then None else is_requests s ! k) \<and>
      rc ! k = (if k \<in> (\<lambda>p. p mod is_size s) ` set ps then Some (fst (the (is_records s ! k)), []) else is_records s ! k)))"

abbreviation isend_ssync :: "'r isend \<Rightarrow> nat list \<Rightarrow> ptr multiset" where
  "isend_ssync s ps \<equiv> mset (concat (map (\<lambda>p. snd (the (is_records s ! (p mod is_size s)))) ps))"

lemma testRange_killed:
  assumes mpi: "mpi_testsome some" and c: "pow2 (is_size s)" "length (is_requests s) = is_size s" "length (is_records s) = is_size s"
    and b: "\<And>o'. o' < n \<Longrightarrow> (base + o') mod is_size s = o' + i" "i + n \<le> is_size s"
      "\<And>o'. o' < n \<Longrightarrow> is_records s ! ((base + o') mod is_size s) \<noteq> None"
  shows "(\<exists>s' ssync' ps. isend_testRange some i n ssync s = Ret (s', ssync', map (\<lambda>p. p mod is_size s) ps) \<and> isend_killed ps s s' \<and>
      distinct ps \<and> (mpi_ascending some \<longrightarrow> sorted_wrt (<) ps) \<and> set ps \<subseteq> {base..<base + n} \<and>
      (\<forall>p\<in>set ps. is_requests s ! (p mod is_size s) \<noteq> None) \<and> mset ssync' = mset ssync + isend_ssync s ps \<and>
      (mpi_completes some \<and> 0 < n \<longrightarrow> ps \<noteq> []))
    \<or> (isend_testRange some i n ssync s = Fault Thrown \<and> 0 < n \<and> is_requests s ! (base mod is_size s) = None)"
proof (cases "n = 0")
  case True
  have "isend_killed [] s s" unfolding isend_killed_def
    using c by (intro exI [of _ "is_requests s"] exI [of _ "is_records s"]) simp
  then show ?thesis using True b(2) pow2_less [OF c(1)]
    by (intro disjI1 exI [of _ s] exI [of _ ssync] exI [of _ "[]"]) (simp add: isend_testRange_def)
next
  case pos: False
  let ?rs = "take n (drop i (is_requests s))"
  have len: "length ?rs = n" using b(2) c(2) by simp
  have nth: "?rs ! o' = is_requests s ! ((base + o') mod is_size s)" if "o' < n" for o'
    using that b(1) [OF that] b(2) c(2) by (simp add: add.commute)
  have tr: "isend_testRange some i n ssync s = (if list_all (\<lambda>r. r = None) ?rs then Fault Thrown else isend_finish i n (some ?rs) ssync s)"
    using pos b(2) pow2_less [OF c(1)] by (simp add: isend_testRange_def Let_def)
  show ?thesis
  proof (cases "list_all (\<lambda>r. r = None) ?rs")
  case True
  then have "?rs ! 0 = None" using pos len unfolding list_all_length by (metis bot_nat_0.not_eq_extremum)
  then show ?thesis using tr True pos nth [of 0] by simp
  next
  case False
  define os where "os = some ?rs"
  have os: "mpi_ascending some \<longrightarrow> sorted_wrt (<) os" "\<forall>o' \<in> set os. o' < n" "distinct os" "\<forall>o' \<in> set os. ?rs ! o' \<noteq> None"
    using mpi len unfolding mpi_testsome_def mpi_ascending_def os_def by metis+
  note d = os(3)
  let ?ps = "map (\<lambda>o'. base + o') os"
  have pm: "map (\<lambda>o'. o' + i) os = map (\<lambda>p. p mod is_size s) ?ps" "(\<lambda>o'. o' + i) ` set os = (\<lambda>p. p mod is_size s) ` set ?ps"
    using os(2) b(1) by (force simp: image_iff)+
  have at: "map (\<lambda>o'. f (o' + i)) os = map (\<lambda>p. f (p mod is_size s)) ?ps" for f :: "nat \<Rightarrow> 'b"
    using os(2) b(1) by auto
  have "\<forall>o' \<in> set os. o' < n \<and> is_records s ! (o' + i) \<noteq> None" using os(2) b(1,3) by metis
  from isend_finish_correct [OF this b(2) d c(2,3), of ssync] obtain rq rc ssync' where
    r: "isend_finish i n os ssync s = Ret (s\<lparr>is_requests := rq, is_records := rc,
             is_done := is_done s @ map (\<lambda>p. (is_requests s ! (p mod is_size s), the (is_records s ! (p mod is_size s)))) ?ps\<rparr>,
           ssync', map (\<lambda>p. p mod is_size s) ?ps)" "length rq = is_size s" "length rc = is_size s"
      "mset ssync' = mset ssync + isend_ssync s ?ps"
      "\<forall>k < is_size s. rq ! k = (if k \<in> (\<lambda>p. p mod is_size s) ` set ?ps then None else is_requests s ! k) \<and>
        rc ! k = (if k \<in> (\<lambda>p. p mod is_size s) ` set ?ps then Some (fst (the (is_records s ! k)), []) else is_records s ! k)"
    unfolding pm at [of "\<lambda>k. (is_requests s ! k, the (is_records s ! k))"] at [of "\<lambda>k. snd (the (is_records s ! k))"] by blast
  have t: "isend_testRange some i n ssync s = isend_finish i n os ssync s" using False tr by (simp add: os_def)
  have "set ?ps \<subseteq> {base..<base + n}" "mpi_ascending some \<longrightarrow> sorted_wrt (<) ?ps" "distinct ?ps"
    using os by (auto simp: sorted_wrt_map distinct_map)
  moreover have "\<forall>p\<in>set ?ps. is_requests s ! (p mod is_size s) \<noteq> None" using os(2,4) nth by auto
  moreover have "mpi_completes some \<and> 0 < n \<longrightarrow> ?ps \<noteq> []"
    using False by (auto simp: os_def mpi_completes_def list_all_iff)
  moreover let ?s' = "s\<lparr>is_requests := rq, is_records := rc, is_done := is_done s @
    map (\<lambda>p. (is_requests s ! (p mod is_size s), the (is_records s ! (p mod is_size s)))) ?ps\<rparr>"
  have "isend_killed ?ps s ?s'" unfolding isend_killed_def using r(2,3,5) by blast
  ultimately show ?thesis
    using t r(1,4) by (intro disjI1 exI [of _ ?s'] exI [of _ ssync'] exI [of _ ?ps]) argo
  qed
qed

lemma killed_trans:
  assumes "isend_killed ps s s1" "isend_killed qs s1 s2" "(\<lambda>p. p mod is_size s) ` set ps \<inter> (\<lambda>p. p mod is_size s) ` set qs = {}"
    "0 < is_size s"
  shows "isend_killed (ps @ qs) s s2" "isend_ssync s1 qs = isend_ssync s qs"
proof -
  obtain rq rc where 1: "s1 = s\<lparr>is_requests := rq, is_records := rc, is_done := is_done s @
      map (\<lambda>p. (is_requests s ! (p mod is_size s), the (is_records s ! (p mod is_size s)))) ps\<rparr>"
    "length rq = is_size s" "length rc = is_size s"
    "\<And>k. k < is_size s \<Longrightarrow> rq ! k = (if k \<in> (\<lambda>p. p mod is_size s) ` set ps then None else is_requests s ! k)"
    "\<And>k. k < is_size s \<Longrightarrow> rc ! k = (if k \<in> (\<lambda>p. p mod is_size s) ` set ps then Some (fst (the (is_records s ! k)), []) else is_records s ! k)"
    using assms(1) unfolding isend_killed_def by blast
  have z: "is_size s1 = is_size s" by (simp add: 1(1))
  obtain rq' rc' where 2: "s2 = s1\<lparr>is_requests := rq', is_records := rc', is_done := is_done s1 @
      map (\<lambda>p. (is_requests s1 ! (p mod is_size s), the (is_records s1 ! (p mod is_size s)))) qs\<rparr>"
    "length rq' = is_size s" "length rc' = is_size s"
    "\<And>k. k < is_size s \<Longrightarrow> rq' ! k = (if k \<in> (\<lambda>p. p mod is_size s) ` set qs then None else is_requests s1 ! k)"
    "\<And>k. k < is_size s \<Longrightarrow> rc' ! k = (if k \<in> (\<lambda>p. p mod is_size s) ` set qs then Some (fst (the (is_records s1 ! k)), []) else is_records s1 ! k)"
    using assms(2) unfolding isend_killed_def z by blast
  have at: "is_requests s1 ! (q mod is_size s) = is_requests s ! (q mod is_size s)"
    "is_records s1 ! (q mod is_size s) = is_records s ! (q mod is_size s)" if "q \<in> set qs" for q
    using that assms(3,4) 1(4,5) [of "q mod is_size s"] by (auto simp: 1(1))
  show "isend_ssync s1 qs = isend_ssync s qs"
    unfolding z using at(2) by (auto intro!: arg_cong [where f = mset] arg_cong [where f = concat])
  have dn: "map (\<lambda>p. (is_requests s1 ! (p mod is_size s), the (is_records s1 ! (p mod is_size s)))) qs =
      map (\<lambda>p. (is_requests s ! (p mod is_size s), the (is_records s ! (p mod is_size s)))) qs"
    using at by simp
  have "s2 = s\<lparr>is_requests := rq', is_records := rc', is_done := is_done s @
      map (\<lambda>p. (is_requests s ! (p mod is_size s), the (is_records s ! (p mod is_size s)))) (ps @ qs)\<rparr>"
    unfolding 2(1) dn by (simp add: 1(1))
  moreover have "rq' ! k = (if k \<in> (\<lambda>p. p mod is_size s) ` set (ps @ qs) then None else is_requests s ! k)"
    "rc' ! k = (if k \<in> (\<lambda>p. p mod is_size s) ` set (ps @ qs) then Some (fst (the (is_records s ! k)), []) else is_records s ! k)"
    if k: "k < is_size s" for k
    using 1(4,5) [OF k] 2(4,5) [OF k] by (simp_all add: 1(1) image_Un)
  ultimately show "isend_killed (ps @ qs) s s2" unfolding isend_killed_def using 2(2,3) by blast
qed

text \<open>
  Compaction of finished slots that ascend, or of all slots, drops these from the active window and
  keeps all others. In another order it may lose some and keep slots that are finished.
\<close>

lemma killed_compact:
  assumes inv: "isend_inv s" and h: "isend_hist owner psize req dead lost xs s" and kill: "isend_killed ps s s2"
    and d: "distinct ps" and ps: "set ps \<subseteq> {is_min s..<is_active s}" "\<forall>p\<in>set ps. is_requests s ! (p mod is_size s) \<noteq> None"
    and small: "2 * (is_max s - is_min s) < 2 ^ 31"
  shows "\<exists>s3 dead' lost'. (if length ps \<noteq> 0 then isend_compact (length ps) (map (\<lambda>p. p mod is_size s) ps) s2 else Ret s2) = Ret s3 \<and>
    isend_inv s3 \<and> isend_hist owner psize req dead' lost' xs s3 \<and> is_min s3 = is_min s + length ps \<and> is_done s3 = is_done s2 \<and>
    is_active s3 = is_active s \<and> is_max s3 = is_max s \<and> is_limit s3 = is_limit s \<and> is_twin s3 = is_twin s \<and>
    (sorted_wrt (<) ps \<or> length ps = is_active s - is_min s \<longrightarrow> dead' = dead \<and> lost' = lost)"
proof -
  note i = isend_invD [OF inv] and hD = isend_histD [OF h]
  let ?c = "is_size s" and ?lo = "is_min s" and ?a = "is_active s" and ?n = "length ps"
  obtain rq rc where s2: "s2 = s\<lparr>is_requests := rq, is_records := rc, is_done := is_done s @
      map (\<lambda>p. (is_requests s ! (p mod ?c), the (is_records s ! (p mod ?c)))) ps\<rparr>"
    and len: "length rq = ?c" "length rc = ?c"
    and at: "\<And>k. k < ?c \<Longrightarrow> rq ! k = (if k \<in> (\<lambda>p. p mod ?c) ` set ps then None else is_requests s ! k)"
      "\<And>k. k < ?c \<Longrightarrow> rc ! k = (if k \<in> (\<lambda>p. p mod ?c) ` set ps then Some (fst (the (is_records s ! k)), []) else is_records s ! k)"
    using kill unfolding isend_killed_def by blast
  let ?xs = "isend_slots s" and ?ys = "zip rq rc"
  have n: "?n \<le> ?a - ?lo" using card_mono [OF _ ps(1)] distinct_card [OF d] by simp
  have other: "?ys ! (q mod ?c) = ?xs ! (q mod ?c)" if "?lo \<le> q" "q < ?lo + ?c" "q \<notin> set ps" for q
  proof -
    have "q mod ?c \<noteq> p mod ?c" if p: "p \<in> set ps" for p
      using mod_window_inj [of p q ?c] mod_window_inj [of q p ?c] p \<open>q \<notin> set ps\<close> \<open>?lo \<le> q\<close> \<open>q < ?lo + ?c\<close> ps(1) i(5,9)
      by (cases p q rule: linorder_cases) auto
    then have "q mod ?c \<notin> (\<lambda>p. p mod ?c) ` set ps" by blast
    then show ?thesis using at [of "q mod ?c"] len i(2,3,8) by (simp add: isend_slots_def)
  qed
  have swap: "mset (ring ?ys ?c ?lo ?a) + mset (map (\<lambda>p. ?xs ! (p mod ?c)) ps) =
      mset (ring ?xs ?c ?lo ?a) + mset (map (\<lambda>p. ?ys ! (p mod ?c)) ps)"
    unfolding ring_def by (rule window_swap [OF d ps(1)]) (use other i(5,9) in auto)
  have pend: "ring rc ?c ?a (length xs) = map Some (drop ?a xs)"
  proof -
    have "rc ! (q mod ?c) = is_records s ! (q mod ?c)" if "?a \<le> q" "q < length xs" for q
    proof -
      have "q \<notin> set ps" "?lo \<le> q" "q < ?lo + ?c" using that ps(1) i(4,9) hD(1) by auto
      from other [OF this(2,3,1)] show ?thesis using len i(2,3,8) by (simp add: isend_slots_def)
    qed
    then show ?thesis using hD(3) ring_cong [of ?a "length xs" rc ?c "is_records s" ?c] by simp
  qed
  define zs where "zs = (if ?n = ?a - ?lo then ?ys else ring_compact ?c ps ?lo ?ys)"
  have lz: "length zs = ?c" using len by (simp add: zs_def)
  let ?K = "mset (map (\<lambda>p. ?xs ! (p mod ?c)) ps)" and ?Y = "mset (map (\<lambda>p. ?ys ! (p mod ?c)) ps)"
  have sub: "mset (ring zs ?c (?lo + ?n) ?a) \<subseteq># mset (ring ?ys ?c ?lo ?a)"
  proof (cases "?n = ?a - ?lo")
    case True
    then show ?thesis using i(4) by (simp add: ring_def)
  next
    case False
    then show ?thesis unfolding zs_def using ring_compact_sub [OF ps(1), of ?lo ?c ?ys] n len i(4,5,9) by simp
  qed
  have win: "mset (ring zs ?c (?lo + ?n) ?a) + ?K = mset (ring ?xs ?c ?lo ?a)" if good: "sorted_wrt (<) ps \<or> ?n = ?a - ?lo"
  proof (cases "?n = ?a - ?lo")
    case True
    have "set ps = {?lo..<?a}" using True distinct_card [OF d] by (intro card_subset_eq [OF _ ps(1)]) auto
    then have "filter (\<lambda>q. q \<notin> set ps) [?lo..<?a] = []" by (simp add: filter_empty_conv)
    then have "?K = mset (ring ?xs ?c ?lo ?a)"
      using window_split [OF d ps(1), of "\<lambda>p. ?xs ! (p mod ?c)"] by (simp add: ring_def)
    then show ?thesis using True i(4) by (simp add: ring_def)
  next
    case False
    have "mset (ring zs ?c (?lo + ?n) ?a) + ?Y = mset (ring ?ys ?c ?lo ?a)"
      unfolding zs_def using False good ring_compact_window [OF _ ps(1), of ?c ?ys] len i(5,9) by simp
    then show ?thesis using swap by (rule mset_exchange)
  qed
  have pz: "ring (map snd zs) ?c ?a (length xs) = map Some (drop ?a xs)"
  proof -
    have "ring zs ?c ?a (length xs) = ring ?ys ?c ?a (length xs)"
      using ring_compact_outside [OF ps(1), of "length xs" ?c ?lo ?ys] i(9) hD(1) by (auto simp: zs_def)
    then have "ring (map snd zs) ?c ?a (length xs) = ring (map snd ?ys) ?c ?a (length xs)"
      unfolding ring_map_snd [OF lz i(8)] ring_map_snd [of ?ys ?c, OF _ i(8), unfolded length_zip len min.idem, OF refl] by simp
    then show ?thesis using pend len by simp
  qed
  let ?s3 = "s2\<lparr>is_min := ?lo + ?n, is_requests := map fst zs, is_records := map snd zs\<rparr>"
  have "(if ?n \<noteq> 0 then isend_compact ?n (map (\<lambda>p. p mod ?c) ps) s2 else Ret s2) = Ret ?s3"
  proof (cases "?n = ?a - ?lo")
    case True
    then show ?thesis using len by (auto simp: isend_compact_def s2 zs_def)
  next
    case False
    then have "?n < (2 ^ 31 - 1) div 2" using n small i(5) by simp
    then show ?thesis using False isend_compactLoop_correct [of ?c s2 ps] i(1) len
      by (auto simp: isend_compact_def s2 zs_def isend_slots_def)
  qed
  note run = this
  have sl: "isend_slots ?s3 = zs" by (simp add: isend_slots_def zip_map_fst_snd)
  have e: "map (\<lambda>(r, x). (r, Some x)) (map (\<lambda>p. (is_requests s ! (p mod ?c), the (is_records s ! (p mod ?c)))) ps) =
      map (\<lambda>p. ?xs ! (p mod ?c)) ps"
  proof -
    have "?xs ! (p mod ?c) = (is_requests s ! (p mod ?c), Some (the (is_records s ! (p mod ?c))))" if "p \<in> set ps" for p
      using that ps(1) i(5) i(10) [of p] i(2,3,8) by (auto simp: isend_slots_def)
    then show ?thesis by simp
  qed
  have dn: "is_done ?s3 = is_done s @ map (\<lambda>p. (is_requests s ! (p mod ?c), the (is_records s ! (p mod ?c)))) ps"
    by (simp add: s2)
  let ?Z = "mset (zip (map (\<lambda>j. Some (req j)) [0..<?a]) (map Some (take ?a xs)))" and ?D = "mset (map (\<lambda>(r, x). (r, Some x)) (is_done s))"
  have done3: "mset (map (\<lambda>(r, x). (r, Some x)) (is_done ?s3)) = ?D + ?K" unfolding dn map_append e mset_append ..
  have hist: "isend_hist owner psize req dead' lost' xs ?s3"
    if "?Z + dead' = ?D + ?K + mset (ring zs ?c (?lo + ?n) ?a) + lost'" "\<forall>x. x \<in># dead' \<longrightarrow> fst x = None" for dead' lost'
    unfolding isend_hist_def sl done3 using hD(1,2,6,7) pz that ps(2) by (auto simp: s2)
  obtain dead' lost' where h3: "isend_hist owner psize req dead' lost' xs ?s3"
    "sorted_wrt (<) ps \<or> ?n = ?a - ?lo \<longrightarrow> dead' = dead \<and> lost' = lost"
  proof (cases "sorted_wrt (<) ps \<or> ?n = ?a - ?lo")
    case True
    have "isend_hist owner psize req dead lost xs ?s3"
      by (rule hist) (use hD(4,5) win [OF True, symmetric] in \<open>simp_all add: ac_simps\<close>)
    then show ?thesis using that by blast
  next
    case False
    from sub obtain X where X: "mset (ring ?ys ?c ?lo ?a) = mset (ring zs ?c (?lo + ?n) ?a) + X" by (auto simp: mset_subset_eq_exists_conv)
    have "?Z + (dead + ?Y) = ?D + (mset (ring ?xs ?c ?lo ?a) + ?Y) + lost" using hD(4) by (simp add: ac_simps)
    also have "\<dots> = ?D + ?K + mset (ring zs ?c (?lo + ?n) ?a) + (X + lost)" unfolding swap [symmetric] X by (simp add: ac_simps)
    finally have "?Z + (dead + ?Y) = ?D + ?K + mset (ring zs ?c (?lo + ?n) ?a) + (X + lost)" .
    moreover have "fst (?ys ! (p mod ?c)) = None" if "p \<in> set ps" for p using at(1) [of "p mod ?c"] that len i(8) by simp
    then have "\<forall>x\<in>set (map (\<lambda>p. ?ys ! (p mod ?c)) ps). fst x = None" by simp
    then have "\<forall>x. x \<in># dead + ?Y \<longrightarrow> fst x = None" using hD(5) by (metis set_mset_mset union_iff)
    ultimately have "isend_hist owner psize req (dead + ?Y) (X + lost) xs ?s3" by (rule hist)
    then show ?thesis using that False by blast
  qed
  have "isend_inv ?s3"
  proof -
    have "map snd zs ! (q mod ?c) \<noteq> None" if q: "?lo + ?n \<le> q" "q < is_max s" for q
    proof (cases "q < ?a")
      case True
      then have "zs ! (q mod ?c) \<in># mset (ring zs ?c (?lo + ?n) ?a)" using q(1) by (auto simp: ring_def)
      then have "zs ! (q mod ?c) \<in># mset (ring ?ys ?c ?lo ?a)" using sub by (meson mset_subset_eqD)
      then obtain j where "?lo \<le> j" "j < ?a" "zs ! (q mod ?c) = ?ys ! (j mod ?c)" by (auto simp: ring_def)
      then show ?thesis using i(3,5,8,10) at(2) [of "j mod ?c"] len lz by simp
    next
      case False
      then have "map snd zs ! (q mod ?c) = Some (xs ! q)"
        using pz q(2) hD(1) ring_nth [of "q - ?a" "length xs" ?a "map snd zs" ?c] by simp
      then show ?thesis by simp
    qed
    then show ?thesis using i n lz by (simp add: isend_inv_def s2) linarith
  qed
  then show ?thesis using run h3 by (intro exI [of _ ?s3] exI [of _ dead'] exI [of _ lost']) (simp add: s2)
qed

lemma isend_testAll_correct:
  assumes inv: "isend_inv s" and h: "isend_hist owner psize req dead lost xs s" and mpi: "mpi_testsome some"
    and small: "2 * (is_max s - is_min s) < 2 ^ 31"
  shows "(\<exists>s' ssync' d dead' lost'. isend_testAll some ssync s = Ret (s', ssync', length d) \<and> isend_inv s' \<and> isend_hist owner psize req dead' lost' xs s' \<and>
      is_min s' = is_min s + length d \<and> is_active s' = is_active s \<and> is_max s' = is_max s \<and> is_limit s' = is_limit s \<and>
      is_twin s' = isend_window (length d) (is_twin s) \<and> is_done s' = is_done s @ d \<and>
      mset ssync' = mset ssync + mset (concat (map (\<lambda>x. snd (snd x)) d)) \<and>
      (mpi_completes some \<and> is_min s < is_active s \<and> 0 < is_twin s \<longrightarrow> d \<noteq> []) \<and>
      (mpi_ascending some \<or> is_active s - is_min s \<le> 2 \<longrightarrow> dead' = dead \<and> lost' = lost))
    \<or> (isend_testAll some ssync s = Fault Thrown \<and> dead \<noteq> {#})"
proof -
  note i = isend_invD [OF inv]
  let ?c = "is_size s" and ?lo = "is_min s" and ?a = "is_active s" and ?i = "is_min s mod is_size s" and ?j = "is_active s mod is_size s"
  define wr where "wr = (?j < ?i)"
  define n0 where "n0 = (if wr then ?c - ?i else ?j - ?i)"
  define m0 where "m0 = (if wr then ?j else 0)"
  define n where "n = min n0 (is_twin s)"
  define m where "m = min m0 (is_twin s - n)"
  have il: "?i < ?c" using i(8) by simp
  have j: "?j = (if ?i + (?a - ?lo) < ?c then ?i + (?a - ?lo) else ?i + (?a - ?lo) - ?c)"
    by (rule mod_window) (use i in auto)
  have sum: "n0 + m0 = ?a - ?lo" "?i + n0 \<le> ?c"
    using j il i(4,5,6) by (auto simp: n0_def m0_def wr_def split: if_splits)
  have full: "n = ?c - ?i" if "0 < m" using that by (auto simp: m_def n_def n0_def m0_def split: if_splits)
  have nm: "n + m \<le> ?a - ?lo" "n \<le> n0" "m \<le> m0" "m0 < ?c" using sum i(8) by (auto simp: n_def m_def m0_def)
  have m1: "(?lo + o') mod ?c = o' + ?i" if "o' < n" for o'
    using mod_window [OF i(8), of ?lo "?lo + o'"] that nm(2) sum(2) by simp
  have m2: "(?lo + n + o') mod ?c = o' + 0" if "o' < m" for o'
  proof -
    have e: "?i + n = ?c" using full that il by simp
    moreover have "n + o' < ?c" using that nm(1) i(5,9) by linarith
    ultimately show ?thesis using mod_window [OF i(8), of ?lo "?lo + (n + o')"] by (simp add: add.assoc)
  qed
  have fit: "?i + n \<le> ?c" "0 + m \<le> ?c" "?lo + n + m \<le> ?a" using nm sum i(4) by linarith+
  have live: "is_records s ! (q mod ?c) \<noteq> None" if "?lo \<le> q" "q < ?lo + n + m" for q
    using that fit(3) i(5) i(10) [of q] by linarith
  have l1: "is_records s ! ((?lo + o') mod ?c) \<noteq> None" if "o' < n" for o' using that by (intro live) auto
  have null: "dead \<noteq> {#}" if "?lo \<le> q" "q < ?a" "is_requests s ! (q mod ?c) = None" for q
  proof
    assume e: "dead = {#}"
    have "isend_slots s ! (q mod ?c) \<in># mset (ring (isend_slots s) ?c ?lo ?a)" using that(1,2) by (auto simp: ring_def)
    then have "isend_slots s ! (q mod ?c) \<in># mset (zip (map (\<lambda>j. Some (req j)) [0..<?a]) (map Some (take ?a xs))) + dead"
      unfolding isend_histD(4) [OF h] by simp
    then show False using e that(3) slots_nth [OF i(2,3), of "q mod ?c"] i(8) by (auto simp: set_zip)
  qed
  have ta: "isend_testAll some ssync s = bindO (isend_testRange some ?i n ssync s) (\<lambda>(s1, ssync1, out1).
        bindO (isend_testRange some 0 m ssync1 s1) (\<lambda>(s2, ssync2, out2).
        let cnt = length out1 + length out2 in
        bindO (if cnt \<noteq> 0 then isend_compact cnt (out1 @ out2) s2 else Ret s2) (\<lambda>s3.
        Ret (s3\<lparr>is_twin := isend_window cnt (is_twin s3)\<rparr>, ssync2, cnt))))"
    unfolding isend_testAll_def isend_index_mod [OF i(1)] Let_def n0_def [symmetric] m0_def [symmetric]
        wr_def [symmetric] n_def [symmetric] m_def [symmetric] ..
  show ?thesis
  proof (cases "isend_testRange some ?i n ssync s = Fault Thrown")
  case True
  then have "0 < n \<and> is_requests s ! (?lo mod ?c) = None" using testRange_killed [OF mpi i(1,2,3) m1 fit(1) l1, of ssync] by auto
  then have "dead \<noteq> {#}" using null [of ?lo] fit(3) by simp
  then show ?thesis using ta True by simp
  next
  case one: False
  from testRange_killed [OF mpi i(1,2,3) m1 fit(1) l1, of ssync] one obtain s1 ssync1 ps where
    1: "isend_testRange some ?i n ssync s = Ret (s1, ssync1, map (\<lambda>p. p mod ?c) ps)" "isend_killed ps s s1"
      "mpi_ascending some \<longrightarrow> sorted_wrt (<) ps" "set ps \<subseteq> {?lo..<?lo + n}" "mset ssync1 = mset ssync + isend_ssync s ps"
      "mpi_completes some \<and> 0 < n \<longrightarrow> ps \<noteq> []" "distinct ps" "\<forall>p\<in>set ps. is_requests s ! (p mod ?c) \<noteq> None" by blast
  have s1: "is_size s1 = ?c" "length (is_requests s1) = ?c" "length (is_records s1) = ?c" "is_twin s1 = is_twin s"
    using 1(2) by (auto simp: isend_killed_def)
  have apart: "p mod ?c \<noteq> (?lo + n + o') mod ?c" if "p \<in> set ps" "o' < m" for p o'
  proof -
    have "p < ?lo + n + o'" "?lo + n + o' < p + ?c" using that 1(4) fit(3) i(5,9) by auto
    then show ?thesis by (rule mod_window_inj)
  qed
  have same: "is_records s1 ! ((?lo + n + o') mod ?c) = is_records s ! ((?lo + n + o') mod ?c)"
    "is_requests s1 ! ((?lo + n + o') mod ?c) = is_requests s ! ((?lo + n + o') mod ?c)" if "o' < m" for o'
  proof -
    have "(?lo + n + o') mod ?c \<notin> (\<lambda>p. p mod ?c) ` set ps"
      using apart [OF _ that] unfolding image_iff by fastforce
    then show "is_records s1 ! ((?lo + n + o') mod ?c) = is_records s ! ((?lo + n + o') mod ?c)"
      "is_requests s1 ! ((?lo + n + o') mod ?c) = is_requests s ! ((?lo + n + o') mod ?c)"
      using 1(2) i(8) by (auto simp: isend_killed_def)
  qed
  have l2: "is_records s1 ! ((?lo + n + o') mod ?c) \<noteq> None" if "o' < m" for o'
    using live [of "?lo + n + o'"] that same(1) [OF that] by simp
  note tr2 = testRange_killed [OF mpi, of s1 m "?lo + n" 0 ssync1, unfolded s1(1), OF i(1) s1(2,3) m2 fit(2) l2]
  show ?thesis
  proof (cases "isend_testRange some 0 m ssync1 s1 = Fault Thrown")
  case True
  then have "0 < m \<and> is_requests s1 ! ((?lo + n) mod ?c) = None" using tr2 by auto
  then have "dead \<noteq> {#}" using null [of "?lo + n"] same(2) [of 0] fit(3) by simp
  then show ?thesis using ta 1(1) True by simp
  next
  case two: False
  from tr2 two obtain s2 ssync2 qs where
    2: "isend_testRange some 0 m ssync1 s1 = Ret (s2, ssync2, map (\<lambda>p. p mod ?c) qs)" "isend_killed qs s1 s2"
      "mpi_ascending some \<longrightarrow> sorted_wrt (<) qs" "set qs \<subseteq> {?lo + n..<?lo + n + m}"
      "mset ssync2 = mset ssync1 + mset (concat (map (\<lambda>p. snd (the (is_records s1 ! (p mod ?c)))) qs))" "distinct qs" "\<forall>p\<in>set qs. is_requests s1 ! (p mod ?c) \<noteq> None" by blast
  have "(\<lambda>p. p mod ?c) ` set ps \<inter> (\<lambda>p. p mod ?c) ` set qs = {}"
  proof -
    have "p mod ?c \<noteq> q mod ?c" if "p \<in> set ps" "q \<in> set qs" for p q
    proof -
      have "?lo + n \<le> q" "q < ?lo + n + m" using that(2) 2(4) by auto
      moreover from this have "q - (?lo + n) < m" by linarith
      ultimately show ?thesis using apart [OF that(1), of "q - (?lo + n)"] by simp
    qed
    then show ?thesis by blast
  qed
  note k = killed_trans [OF 1(2) 2(2) this i(8)]
  have all: "set (ps @ qs) \<subseteq> {?lo..<?a}" "distinct (ps @ qs)" "mpi_ascending some \<longrightarrow> sorted_wrt (<) (ps @ qs)"
    using 1(3,4,7) 2(3,4,6) fit(3) by (fastforce simp: sorted_wrt_append)+
  have "is_requests s ! (p mod ?c) \<noteq> None" if "p \<in> set (ps @ qs)" for p
  proof (cases "p \<in> set ps")
    case False
    then have "p \<in> set qs" using that by simp
    moreover from this have "?lo + n \<le> p \<and> p < ?lo + n + m" using 2(4) by auto
    moreover from this have "p - (?lo + n) < m" by linarith
    ultimately show ?thesis using bspec [OF 2(7), of p] same(2) [of "p - (?lo + n)"] by simp
  qed (use 1(8) in simp)
  then have act: "\<forall>p\<in>set (ps @ qs). is_requests s ! (p mod ?c) \<noteq> None" by blast
  have good: "sorted_wrt (<) (ps @ qs) \<or> length (ps @ qs) = ?a - ?lo" if "mpi_ascending some \<or> ?a - ?lo \<le> 2"
    using all that card_mono [OF _ all(1)] distinct_card [OF all(2)]
    by (cases "length (ps @ qs) \<le> 1") (auto simp: sorted_wrt01)
  let ?d = "map (\<lambda>p. (is_requests s ! (p mod ?c), the (is_records s ! (p mod ?c)))) (ps @ qs)"
  from killed_compact [OF inv h k(1) all(2,1) act small] obtain s3 dead' lost' where
    3: "(if length (ps @ qs) \<noteq> 0 then isend_compact (length (ps @ qs)) (map (\<lambda>p. p mod ?c) (ps @ qs)) s2 else Ret s2) = Ret s3"
      "isend_inv s3" "isend_hist owner psize req dead' lost' xs s3" "is_min s3 = ?lo + length (ps @ qs)" "is_done s3 = is_done s2"
      "is_active s3 = ?a" "is_max s3 = is_max s" "is_limit s3 = is_limit s" "is_twin s3 = is_twin s"
      "sorted_wrt (<) (ps @ qs) \<or> length (ps @ qs) = ?a - ?lo \<longrightarrow> dead' = dead \<and> lost' = lost" by blast
  let ?s' = "s3\<lparr>is_twin := isend_window (length ?d) (is_twin s)\<rparr>"
  have run: "isend_testAll some ssync s = Ret (?s', ssync2, length ?d)"
    unfolding ta using 1(1) 2(1) 3(1,9) by (cases "ps = []"; cases "qs = []") (simp_all add: Let_def)
  have "isend_inv ?s'" "isend_hist owner psize req dead' lost' xs ?s'"
    using 3(2,3) by simp_all
  moreover have "is_done ?s' = is_done s @ ?d" using 3(5) k(1) by (auto simp: isend_killed_def)
  moreover have "mset ssync2 = mset ssync + mset (concat (map (\<lambda>x. snd (snd x)) ?d))"
    using 1(5) 2(5) k(2) by (simp add: comp_def s1(1))
  moreover have "?d \<noteq> []" if "mpi_completes some \<and> ?lo < ?a \<and> 0 < is_twin s"
  proof -
    have lt: "?lo < ?a" "0 < is_twin s" using that by simp_all
    have "0 < n0" using sum(1) il lt(1) unfolding n0_def m0_def by (cases wr) auto
    then have "0 < n" using lt(2) by (simp add: n_def)
    then show ?thesis using 1(6) that by simp
  qed
  moreover have "is_min ?s' = ?lo + length ?d" using 3(4) by simp
  moreover have "mpi_ascending some \<or> ?a - ?lo \<le> 2 \<longrightarrow> dead' = dead \<and> lost' = lost" using good 3(10) by blast
  ultimately show ?thesis using run 3(6-8)
    by (intro disjI1 exI [of _ ?s'] exI [of _ ssync2] exI [of _ ?d] exI [of _ dead'] exI [of _ lost'] conjI) (blast | simp)+
  qed
  qed
qed

lemma isend_progress_correct:
  assumes "isend_inv s" "isend_hist owner psize req dead lost xs s" "mpi_testsome some" "2 * (is_max s - is_min s) < 2 ^ 31"
    "is_limit s + is_max s < 2 ^ 64"
  shows "(\<exists>s' ssync' d dead' lost'. isend_progress owner psize req some ssync s = Ret (s', ssync', length d) \<and> isend_inv s' \<and>
      isend_hist owner psize req dead' lost' xs s' \<and> is_min s' = is_min s + length d \<and> is_max s' = is_max s \<and> is_limit s' = is_limit s \<and>
      is_active s' = max (is_active s) (if is_limit s \<noteq> 0 then min (is_min s' + is_limit s) (is_max s) else is_max s) \<and>
      is_twin s' = isend_window (length d) (is_twin s) \<and> is_done s' = is_done s @ d \<and>
      mset ssync' = mset ssync + mset (concat (map (\<lambda>x. snd (snd x)) d)) \<and>
      (mpi_completes some \<and> is_min s < is_active s \<and> 0 < is_twin s \<longrightarrow> d \<noteq> []) \<and>
      (mpi_ascending some \<or> is_active s - is_min s \<le> 2 \<longrightarrow> dead' = dead \<and> lost' = lost))
    \<or> (isend_progress owner psize req some ssync s = Fault Thrown \<and> dead \<noteq> {#})"
proof (cases "isend_testAll some ssync s = Fault Thrown")
  case True
  then have "dead \<noteq> {#}" using isend_testAll_correct [OF assms(1-4), of ssync] by auto
  then show ?thesis using True by (simp add: isend_progress_def)
next
  case False
  from isend_testAll_correct [OF assms(1-4), of ssync] False obtain s1 ssync' d dead' lost' where
    1: "isend_testAll some ssync s = Ret (s1, ssync', length d)" "isend_inv s1" "isend_hist owner psize req dead' lost' xs s1"
      "is_min s1 = is_min s + length d" "is_active s1 = is_active s" "is_max s1 = is_max s" "is_limit s1 = is_limit s"
      "is_twin s1 = isend_window (length d) (is_twin s)" "is_done s1 = is_done s @ d"
      "mset ssync' = mset ssync + mset (concat (map (\<lambda>x. snd (snd x)) d))"
      "mpi_completes some \<and> is_min s < is_active s \<and> 0 < is_twin s \<longrightarrow> d \<noteq> []"
      "mpi_ascending some \<or> is_active s - is_min s \<le> 2 \<longrightarrow> dead' = dead \<and> lost' = lost" by blast
  from isend_startAll_correct [OF 1(2,3)] 1(6,7) assms(5) obtain s2 n where
    2: "isend_startAll owner psize req s1 = Ret (s2, n)" "isend_inv s2" "isend_hist owner psize req dead' lost' xs s2"
      "is_active s2 = max (is_active s1) (if is_limit s1 \<noteq> 0 then min (is_min s1 + is_limit s1) (is_max s1) else is_max s1)"
      "isend_same s1 s2" by auto
  show ?thesis using 1 2 unfolding isend_same_def
    by (intro disjI1 exI [of _ s2] exI [of _ ssync'] exI [of _ d] exI [of _ dead'] exI [of _ lost']) (simp add: isend_progress_def)
qed

section \<open>Histories of a send buffer\<close>

datatype 'r isend_op = Append ptr "ptr list" | Progress "'r option list \<Rightarrow> nat list"

fun isend_do :: "(ptr \<Rightarrow> nat) \<Rightarrow> (ptr \<Rightarrow> nat) \<Rightarrow> (nat \<Rightarrow> 'r) \<Rightarrow> 'r isend_op \<Rightarrow> 'r isend \<times> ptr list \<Rightarrow> ('r isend \<times> ptr list) outcome" where
  "isend_do owner psize req (Append p ss) (s, ssync) = bindO (isend_append (\<lambda>n. True) p ss s) (\<lambda>s'. Ret (s', ssync))"
| "isend_do owner psize req (Progress some) (s, ssync) =
    bindO (isend_progress owner psize req some ssync s) (\<lambda>(s', ssync', n). Ret (s', ssync'))"

fun isend_run :: "(ptr \<Rightarrow> nat) \<Rightarrow> (ptr \<Rightarrow> nat) \<Rightarrow> (nat \<Rightarrow> 'r) \<Rightarrow> 'r isend_op list \<Rightarrow> 'r isend \<times> ptr list \<Rightarrow> ('r isend \<times> ptr list) outcome" where
  "isend_run owner psize req [] st = Ret st"
| "isend_run owner psize req (x # xs) st = bindO (isend_do owner psize req x st) (isend_run owner psize req xs)"

fun appended :: "'r isend_op list \<Rightarrow> send_record list" where
  "appended [] = []"
| "appended (Append p ss # xs) = (p, ss) # appended xs"
| "appended (Progress some # xs) = appended xs"

fun mpi_legal :: "'r isend_op \<Rightarrow> bool" where
  "mpi_legal (Append p ss) = True"
| "mpi_legal (Progress some) = mpi_testsome some"

text \<open>
  The runs in which compaction is safe whatever MPI completes: its answers ascend, or at most two sends
  are active at a time.
\<close>

fun op_ascending :: "'r isend_op \<Rightarrow> bool" where
  "op_ascending (Append p ss) = True"
| "op_ascending (Progress some) = mpi_ascending some"

definition isend_orderly :: "nat \<Rightarrow> 'r isend_op list \<Rightarrow> bool" where
  "isend_orderly limit ops = (list_all op_ascending ops \<or> limit = 1 \<or> limit = 2)"

lemma isend_run_correct:
  assumes "isend_inv s" "isend_hist owner psize req dead lost xs s" "list_all mpi_legal ops" "length xs + length (appended ops) < 2 ^ 30"
    "is_limit s < 2 ^ 32" "mset ssync = mset (concat (map (\<lambda>x. snd (snd x)) (is_done s)))" "is_limit s \<noteq> 0 \<longrightarrow> is_active s \<le> is_min s + is_limit s"
    "\<forall>x\<in>set (appended ops). 0 \<le> payload_size_to_isir_bytes (psize (fst x))"
  shows "(\<exists>s' ssync' dead' lost'. isend_run owner psize req ops (s, ssync) = Ret (s', ssync') \<and> isend_inv s' \<and>
      isend_hist owner psize req dead' lost' (xs @ appended ops) s' \<and> mset ssync' = mset (concat (map (\<lambda>x. snd (snd x)) (is_done s'))) \<and>
      (isend_orderly (is_limit s) ops \<longrightarrow> dead' = dead \<and> lost' = lost))
    \<or> (isend_run owner psize req ops (s, ssync) = Fault Thrown \<and> \<not> (isend_orderly (is_limit s) ops \<and> dead = {#}))"
  using assms
proof (induction ops arbitrary: s xs ssync dead lost)
  case (Cons op ops)
  note mx = isend_histD(1) [OF Cons.prems(2)]
  show ?case
  proof (cases op)
    case (Append p ss)
    have rdy: "isend_ready (\<lambda>n. True) (Suc 0) s" using Cons.prems(4) mx Append by (simp add: isend_ready_def)
    from isend_append_correct [OF Cons.prems(1,2) rdy, of p ss] Cons.prems(8) Append obtain s1 where
      1: "isend_append (\<lambda>n. True) p ss s = Ret s1" "isend_inv s1" "isend_hist owner psize req dead lost (xs @ [(p, ss)]) s1" by auto
    note keep = isend_append_keeps [OF 1(1)]
    have o: "isend_orderly l (op # ops) = isend_orderly l ops" for l by (simp add: isend_orderly_def Append)
    have run: "isend_run owner psize req (op # ops) (s, ssync) = isend_run owner psize req ops (s1, ssync)"
      "xs @ appended (op # ops) = (xs @ [(p, ss)]) @ appended ops" using 1(1) by (simp_all add: Append)
    show ?thesis unfolding o run keep(1) [symmetric]
      by (rule Cons.IH [OF 1(2,3)]) (use Cons.prems(3-8) Append keep in auto)
  next
    case (Progress some)
    have pre: "mpi_testsome some" "2 * (is_max s - is_min s) < 2 ^ 31" "is_limit s + is_max s < 2 ^ 64"
      using Cons.prems(3,4,5) mx Progress by auto
    have good: "mpi_ascending some \<or> is_active s - is_min s \<le> 2" if "isend_orderly (is_limit s) (op # ops)"
      using that Cons.prems(7) by (auto simp: isend_orderly_def Progress)
    show ?thesis
    proof (cases "isend_progress owner psize req some ssync s = Fault Thrown")
      case True
      then have "dead \<noteq> {#}" using isend_progress_correct [OF Cons.prems(1,2) pre, of ssync] by auto
      then show ?thesis using True by (simp add: Progress)
    next
      case False
      from isend_progress_correct [OF Cons.prems(1,2) pre, of ssync] False obtain s1 ssync1 d dead1 lost1 where
        1: "isend_progress owner psize req some ssync s = Ret (s1, ssync1, length d)" "isend_inv s1"
          "isend_hist owner psize req dead1 lost1 xs s1" "is_limit s1 = is_limit s" "is_done s1 = is_done s @ d"
          "mset ssync1 = mset ssync + mset (concat (map (\<lambda>x. snd (snd x)) d))" "is_min s1 = is_min s + length d"
          "is_active s1 = max (is_active s) (if is_limit s \<noteq> 0 then min (is_min s1 + is_limit s) (is_max s) else is_max s)"
          "mpi_ascending some \<or> is_active s - is_min s \<le> 2 \<longrightarrow> dead1 = dead \<and> lost1 = lost" by blast
      have run: "isend_run owner psize req (op # ops) (s, ssync) = isend_run owner psize req ops (s1, ssync1)"
        "appended (op # ops) = appended ops" using 1(1) by (simp_all add: Progress)
      have o: "isend_orderly l ops" if "isend_orderly l (op # ops)" for l using that by (auto simp: isend_orderly_def Progress)
      have "(\<exists>s' ssync' dead' lost'. isend_run owner psize req ops (s1, ssync1) = Ret (s', ssync') \<and> isend_inv s' \<and>
          isend_hist owner psize req dead' lost' (xs @ appended ops) s' \<and> mset ssync' = mset (concat (map (\<lambda>x. snd (snd x)) (is_done s'))) \<and>
          (isend_orderly (is_limit s1) ops \<longrightarrow> dead' = dead1 \<and> lost' = lost1))
        \<or> (isend_run owner psize req ops (s1, ssync1) = Fault Thrown \<and> \<not> (isend_orderly (is_limit s1) ops \<and> dead1 = {#}))"
        by (rule Cons.IH [OF 1(2,3)]) (use Cons.prems(3-8) Progress 1(4-8) in auto)
      then show ?thesis unfolding run 1(4) using o [of "is_limit s"] good 1(9) by blast
    qed
  qed
qed auto

lemma isend_new_correct:
  "\<exists>s0 :: 'r isend. isend_new (\<lambda>n. True) limit twin = Ret s0 \<and> isend_inv s0 \<and> isend_hist owner psize req {#} {#} [] s0 \<and>
    is_limit s0 = limit \<and> is_twin s0 = twin \<and> is_done s0 = [] \<and> is_active s0 = 0 \<and> is_min s0 = 0"
proof -
  let ?s = "\<lparr> is_limit = limit, is_twin = twin, is_size = 64, is_min = 0, is_active = 0, is_max = 0,
    is_requests = replicate 64 None, is_records = replicate 64 None, is_sent = [], is_done = [] \<rparr> :: 'r isend"
  have "isend_new (\<lambda>n. True) limit twin = Ret ?s"
    by (simp add: isend_new_def isend_reserve_def resize_def Let_def)
  moreover have "pow2 64" unfolding pow2_def by (intro exI [of _ 6]) simp
  then have "isend_inv ?s" by (simp add: isend_inv_def)
  moreover have "isend_hist owner psize req {#} {#} [] ?s" by (simp add: isend_hist_def ring_def)
  ultimately show ?thesis by fastforce
qed

text \<open>What has been posted to MPI, each send with its own request.\<close>

definition isend_posted :: "(nat \<Rightarrow> 'r) \<Rightarrow> send_record list \<Rightarrow> 'r isend \<Rightarrow> ('r option \<times> send_record) multiset" where
  "isend_posted req xs s = mset (zip (map (\<lambda>j. Some (req j)) [0..<is_active s]) (take (is_active s) xs))"

lemma record_the: "image_mset (\<lambda>(r, x). (r, the x)) (image_mset (\<lambda>(r, x). (r, Some x)) M) = M"
  by (simp add: multiset.map_comp comp_def split_def)

lemma hist_posted:
  assumes "isend_hist owner psize req dead lost xs s"
  shows "mset (is_done s) \<subseteq># isend_posted req xs s"
    "dead = {#} \<Longrightarrow> lost = {#} \<Longrightarrow> image_mset (\<lambda>(r, x). (r, Some x)) (isend_posted req xs s) =
      image_mset (\<lambda>(r, x). (r, Some x)) (mset (is_done s)) + mset (ring (isend_slots s) (is_size s) (is_min s) (is_active s))"
proof -
  let ?f = "\<lambda>(r :: 'a option, x :: send_record). (r, Some x)" and ?P = "\<lambda>x :: 'a option \<times> send_record option. fst x \<noteq> None"
  let ?Z = "mset (zip (map (\<lambda>j. Some (req j)) [0..<is_active s]) (map Some (take (is_active s) xs)))"
  let ?W = "mset (ring (isend_slots s) (is_size s) (is_min s) (is_active s))"
  note h = isend_histD [OF assms]
  have z: "?Z = image_mset ?f (isend_posted req xs s)"
    unfolding isend_posted_def mset_map [symmetric] by (simp add: zip_map2 split_def)
  have d: "mset (map ?f (is_done s)) = image_mset ?f (mset (is_done s))" by simp
  have "filter_mset ?P ?Z = ?Z" by (rule filter_mset_eq_conv [THEN iffD2]) (auto simp: set_zip)
  moreover have "filter_mset ?P dead = {#}" by (rule filter_mset_False [THEN [2] trans, OF filter_mset_cong0]) (use h(5) in auto)
  moreover have "filter_mset ?P (mset (map ?f (is_done s))) = mset (map ?f (is_done s))"
    by (rule filter_mset_eq_conv [THEN iffD2]) (use h(6) in auto)
  ultimately have "?Z = mset (map ?f (is_done s)) + (filter_mset ?P ?W + filter_mset ?P lost)"
    using arg_cong [OF h(4), of "filter_mset ?P"] by (simp only: filter_union_mset add_0_right add.assoc)
  then have "image_mset ?f (mset (is_done s)) \<subseteq># image_mset ?f (isend_posted req xs s)"
    unfolding z d by (metis mset_subset_eq_add_left)
  from image_mset_subseteq_mono [OF this, of "\<lambda>(r, x). (r, the x)"]
  show "mset (is_done s) \<subseteq># isend_posted req xs s" unfolding record_the .
  show "image_mset ?f (isend_posted req xs s) = image_mset ?f (mset (is_done s)) + ?W" if "dead = {#}" "lost = {#}"
    using h(4) that unfolding z d by simp
qed

text \<open>
  C17: Over any history of appends and progress calls of a send buffer, with parcels below the two-gigabyte limit of MPI's counts
  and MPI completing any distinct active requests it is asked about, in any order: the buffer either throws, because
  it tests a range with no active request, or has posted a prefix of the parcels, in order and once each; the completions are
  distinct posted sends, each with the request its own post returned; and the synchronization parcels handed back
  are those of the completed sends. If moreover MPI reports completions in ascending order, or at most two sends are active at
  a time, the buffer does not throw and loses nothing: the posted sends are exactly the completed ones and those in the
  active window, each with its own request.
\<close>
theorem isend_exactly_once:
  assumes "list_all mpi_legal ops" "length (appended ops) < 2 ^ 30" "limit < 2 ^ 32" "\<forall>x\<in>set (appended ops). psize (fst x) + 36 < 2 ^ 31"
  shows "\<exists>s0. isend_new (\<lambda>n. True) limit twin = Ret s0 \<and>
    (isend_run owner psize req ops (s0, []) = Fault Thrown \<and> \<not> isend_orderly limit ops \<or>
     (\<exists>s ssync. isend_run owner psize req ops (s0, []) = Ret (s, ssync) \<and>
       is_active s \<le> length (appended ops) \<and>
       is_sent s = map (\<lambda>(p, ss). (owner p, p, int (psize p) + 36, PayloadSizeToTag (psize p))) (take (is_active s) (appended ops)) \<and>
       mset (is_done s) \<subseteq># isend_posted req (appended ops) s \<and>
       mset ssync = mset (concat (map (\<lambda>x. snd (snd x)) (is_done s))) \<and>
       (isend_orderly limit ops \<longrightarrow> image_mset (\<lambda>(r, x). (r, Some x)) (isend_posted req (appended ops) s) =
         image_mset (\<lambda>(r, x). (r, Some x)) (mset (is_done s)) + mset (ring (isend_slots s) (is_size s) (is_min s) (is_active s)))))"
proof -
  from isend_new_correct [of limit twin owner psize req] obtain s0 where
    0: "isend_new (\<lambda>n. True) limit twin = Ret s0" "isend_inv s0" "isend_hist owner psize req {#} {#} [] s0" "is_limit s0 = limit"
      "is_done s0 = []" "is_active s0 = 0" "is_min s0 = 0" by blast
  have sz: "\<forall>x\<in>set (appended ops). payload_size_to_isir_bytes (psize (fst x)) = int (psize (fst x)) + 36"
    using assms(4) isir_bytes_small by blast
  then have pos: "\<forall>x\<in>set (appended ops). 0 \<le> payload_size_to_isir_bytes (psize (fst x))" by auto
  from isend_run_correct [OF 0(2,3) assms(1), of "[]"] assms(2,3) 0(4-7) pos consider
    "isend_run owner psize req ops (s0, []) = Fault Thrown" "\<not> isend_orderly limit ops"
    | s ssync dead lost where "isend_run owner psize req ops (s0, []) = Ret (s, ssync)" "isend_inv s"
      "isend_hist owner psize req dead lost (appended ops) s"
      "mset ssync = mset (concat (map (\<lambda>x. snd (snd x)) (is_done s)))" "isend_orderly limit ops \<longrightarrow> dead = {#} \<and> lost = {#}" by auto
  then show ?thesis
  proof cases
    case 1
    then show ?thesis using 0(1) by blast
  next
    case 2
    note h = isend_histD [OF 2(3)]
    have "is_active s \<le> length (appended ops)" using h(1) isend_invD(5) [OF 2(2)] by simp
    moreover have "is_sent s = map (\<lambda>(p, ss). (owner p, p, int (psize p) + 36, PayloadSizeToTag (psize p))) (take (is_active s) (appended ops))"
      unfolding h(2) using sz by (intro map_cong) (auto dest!: in_set_takeD)
    ultimately show ?thesis using 0(1) 2(1,4,5) hist_posted [OF 2(3)] by blast
  qed
qed

theorem isend_exactly_once_witness:
  "let ops = [Append 4 [], Append 5 [9], Progress (\<lambda>rs. []), Progress (\<lambda>rs. if rs = [] \<or> hd rs = None then [] else [0])] in
    list_all mpi_legal ops \<and> isend_orderly 1 ops \<and>
    (\<exists>s0 s ssync. isend_new (\<lambda>n. True) 1 50 = Ret s0 \<and> isend_run (\<lambda>p. 3) (\<lambda>p. 8) (\<lambda>j. j :: nat) ops (s0, []) = Ret (s, ssync) \<and>
      is_sent s = map (\<lambda>(p, ss). (3, p, 44, 2)) (take (is_active s) [(4, [] :: ptr list), (5, [9])]) \<and>
      image_mset (\<lambda>(r, x). (r, Some x)) (isend_posted (\<lambda>j. j) [(4, []), (5, [9])] s) =
        image_mset (\<lambda>(r, x). (r, Some x)) (mset (is_done s)) + mset (ring (isend_slots s) (is_size s) (is_min s) (is_active s)))"
proof -
  let ?ops = "[Append 4 [], Append 5 [9], Progress (\<lambda>rs. []), Progress (\<lambda>rs. if rs = [] \<or> hd rs = None then [] else [0])] :: nat isend_op list"
  have l: "list_all mpi_legal ?ops" "length (appended ?ops) < 2 ^ 30" "(1::nat) < 2 ^ 32"
    "\<forall>x\<in>set (appended ?ops). 8 + 36 < (2 ^ 31 :: nat)" "isend_orderly 1 ?ops" "appended ?ops = [(4, []), (5, [9])]"
    by (simp_all add: mpi_testsome_def isend_orderly_def) (metis hd_conv_nth)
  have t: "PayloadSizeToTag 8 = 2" by (simp add: PayloadSizeToTag_def sizeof_parcel_def ceil_div_def u32wrap_def)
  from isend_exactly_once [OF l(1-4), of 50 "\<lambda>p. 3" "\<lambda>j. j"] l(1,5) show ?thesis
    unfolding Let_def l(6) t by (auto simp del: isend_run.simps)
qed

text \<open>
  Without that order the compaction is wrong, and MPI does not promise it: when requests 2 and 0 of three active sends are
  reported in that order, the pending send 1 is lost and the finished send 0 stays in the window.
\<close>
lemma isend_unordered_loses_send:
  "\<exists>s' ssync. isend_testAll (\<lambda>rs. [2, 0]) []
      \<lparr> is_limit = 0, is_twin = 50, is_size = 4, is_min = 0, is_active = 3, is_max = 3,
        is_requests = [Some r0, Some r1, Some r2, None],
        is_records = [Some (p0, []), Some (p1, []), Some (p2, []), None], is_sent = [], is_done = [] \<rparr> = Ret (s', ssync, 2) \<and>
    ring (isend_slots s') (is_size s') (is_min s') (is_max s') = [(None, Some (p0, []))]"
  by (simp add: isend_testAll_def isend_testRange_def isend_index_def mask_index_def isend_compact_def Let_def
      isend_slots_def ring_def isend_window_def ISIR_TWIN_INC_def upt_conv_Cons)

section \<open>Flushing\<close>

lemma isend_window_pos: "n < 2 ^ 30 \<Longrightarrow> 0 < isend_window n twin"
  by (auto simp: isend_window_def ISIR_TWIN_INC_def)

definition flush_ok ::
  "(ptr \<Rightarrow> nat) \<Rightarrow> (ptr \<Rightarrow> nat) \<Rightarrow> (nat \<Rightarrow> 'r) \<Rightarrow> send_record list \<Rightarrow> 'r isend \<Rightarrow> bool" where
  "flush_ok owner psize req xs s = (isend_inv s \<and> isend_hist owner psize req {#} {#} xs s \<and>
    2 * (is_max s - is_min s) < 2 ^ 31 \<and> is_limit s + is_max s < 2 ^ 64 \<and> (is_limit s \<noteq> 0 \<longrightarrow> is_active s \<le> is_min s + is_limit s))"

text \<open>The loop returns from \<open>s\<close> having completed all that was left.\<close>

definition flush_returns ::
  "(ptr \<Rightarrow> nat) \<Rightarrow> (ptr \<Rightarrow> nat) \<Rightarrow> (nat \<Rightarrow> 'r) \<Rightarrow> (nat \<Rightarrow> 'r option list \<Rightarrow> nat list) \<Rightarrow> send_record list \<Rightarrow> nat \<Rightarrow> 'r isend \<Rightarrow> bool" where
  "flush_returns owner psize req some xs k s = (\<forall>cnt ssync. \<exists>s' ssync'.
    isend_flush owner psize req some k cnt ssync s = Some (Ret (s', ssync', cnt + (is_max s - is_min s))) \<and>
    is_min s' = is_max s' \<and> is_max s' = is_max s \<and> isend_inv s' \<and> isend_hist owner psize req {#} {#} xs s')"

lemma flush_step:
  assumes ok: "flush_ok owner psize req xs s" and mpi: "mpi_testsome (some k)" and ne: "is_min s \<noteq> is_max s"
    and order: "mpi_ascending (some k) \<or> is_limit s = 1 \<or> is_limit s = 2"
    and cont: "\<And>s'. flush_ok owner psize req xs s' \<Longrightarrow> is_max s' = is_max s \<Longrightarrow> is_limit s' = is_limit s \<Longrightarrow> is_min s \<le> is_min s' \<Longrightarrow>
      is_min s' < is_max s' \<longrightarrow> is_min s' < is_active s' \<Longrightarrow> 0 < is_twin s' \<Longrightarrow>
      is_min s < is_min s' \<or> (is_min s' = is_min s \<and> \<not> (mpi_completes (some k) \<and> is_min s < is_active s \<and> 0 < is_twin s)) \<Longrightarrow>
      flush_returns owner psize req some xs (k + 1) s'"
  shows "flush_returns owner psize req some xs k s"
  unfolding flush_returns_def
proof (intro allI)
  fix cnt ssync
  have o: "isend_inv s" "isend_hist owner psize req {#} {#} xs s" "2 * (is_max s - is_min s) < 2 ^ 31" "is_limit s + is_max s < 2 ^ 64"
    "is_limit s \<noteq> 0 \<longrightarrow> is_active s \<le> is_min s + is_limit s"
    using ok by (simp_all add: flush_ok_def)
  note i = isend_invD [OF o(1)]
  from isend_progress_correct [OF o(1,2) mpi o(3,4), of ssync] order o(5) obtain s1 ssync1 d where
    1: "isend_progress owner psize req (some k) ssync s = Ret (s1, ssync1, length d)" "isend_inv s1" "isend_hist owner psize req {#} {#} xs s1"
      "is_min s1 = is_min s + length d" "is_max s1 = is_max s" "is_limit s1 = is_limit s"
      "is_active s1 = max (is_active s) (if is_limit s \<noteq> 0 then min (is_min s1 + is_limit s) (is_max s) else is_max s)"
      "is_twin s1 = isend_window (length d) (is_twin s)" "is_done s1 = is_done s @ d"
      "mpi_completes (some k) \<and> is_min s < is_active s \<and> 0 < is_twin s \<longrightarrow> d \<noteq> []"
    by auto
  have le: "is_min s + length d \<le> is_max s" using isend_invD(4,5) [OF 1(2)] 1(4,5) by simp
  have "flush_returns owner psize req some xs (k + 1) s1"
  proof (rule cont)
    show "flush_ok owner psize req xs s1" using 1 o le by (auto simp: flush_ok_def)
    show "is_min s1 < is_max s1 \<longrightarrow> is_min s1 < is_active s1" using 1(5,7) by auto
    show "0 < is_twin s1" using isend_window_pos [of "length d" "is_twin s"] 1(8) le o(3) by simp
    show "is_min s < is_min s1 \<or> (is_min s1 = is_min s \<and>
        \<not> (mpi_completes (some k) \<and> is_min s < is_active s \<and> 0 < is_twin s))"
      using 1(4,10) by (cases "d = []") auto
  qed (use 1(4-6) in simp_all)
  then obtain s' ssync' where
    2: "isend_flush owner psize req some (k + 1) (cnt + length d) ssync1 s1 = Some (Ret (s', ssync', cnt + length d + (is_max s1 - is_min s1)))"
      "is_min s' = is_max s'" "is_max s' = is_max s1" "isend_inv s'" "isend_hist owner psize req {#} {#} xs s'"
    unfolding flush_returns_def by blast
  have "isend_flush owner psize req some k cnt ssync s = Some (Ret (s', ssync', cnt + (is_max s - is_min s)))"
    using ne 1(1,4,5) 2(1) le by (subst isend_flush.simps) simp
  then show "\<exists>s' ssync'. isend_flush owner psize req some k cnt ssync s = Some (Ret (s', ssync', cnt + (is_max s - is_min s))) \<and>
      is_min s' = is_max s' \<and> is_max s' = is_max s \<and> isend_inv s' \<and> isend_hist owner psize req {#} {#} xs s'"
    using 2(2-5) 1(5) by auto
qed

lemma flush_ok_le: "flush_ok owner psize req xs s \<Longrightarrow> is_min s \<le> is_active s \<and> is_active s \<le> is_max s"
  using isend_invD(4,5) [of s] by (simp add: flush_ok_def)

lemma flush_drained: "flush_ok owner psize req xs s \<Longrightarrow> is_min s = is_max s \<Longrightarrow> flush_returns owner psize req some xs k s"
  unfolding flush_returns_def by (subst isend_flush.simps) (auto simp: flush_ok_def)

lemma flush_terminates:
  assumes mpi: "\<And>k. mpi_testsome (some k)" and often: "\<And>k. \<exists>k' \<ge> k. mpi_completes (some k')"
    and order: "(\<forall>k. mpi_ascending (some k)) \<or> is_limit s = 1 \<or> is_limit s = 2" and ok: "flush_ok owner psize req xs s"
  shows "flush_returns owner psize req some xs k s"
  using ok order
proof (induction "is_max s - is_min s" arbitrary: s k rule: less_induct)
  case less
  have smaller: "flush_returns owner psize req some xs k' s'"
    if "flush_ok owner psize req xs s'" "is_max s' = is_max s" "is_min s < is_min s'" "is_limit s' = is_limit s" for s' k'
  proof -
    have "is_min s' \<le> is_max s'" using flush_ok_le [OF that(1)] by simp
    then show ?thesis using less.hyps [of s' k'] that less.prems(2) by simp
  qed
  have started: "flush_returns owner psize req some xs k' s'"
    if "flush_ok owner psize req xs s'" "is_max s' = is_max s" "is_min s' = is_min s"
      "is_min s' < is_active s'" "0 < is_twin s'" "mpi_completes (some (k' + e))" "is_limit s' = is_limit s" for s' k' e
    using that
  proof (induction e arbitrary: s' k')
    case 0
    have ne: "is_min s' \<noteq> is_max s'" using 0(1,4) flush_ok_le [of owner psize req xs s'] by simp
    show ?case by (rule flush_step [OF 0(1) mpi ne]) (use 0 smaller less.prems(2) in auto)
  next
    case (Suc e)
    have lt: "is_min s' < is_max s'" using Suc.prems(1,4) flush_ok_le [of owner psize req xs s'] by simp
    then have ne: "is_min s' \<noteq> is_max s'" by simp
    show ?case
    proof (rule flush_step [OF Suc.prems(1) mpi ne])
      show "mpi_ascending (some k') \<or> is_limit s' = 1 \<or> is_limit s' = 2" using less.prems(2) Suc.prems(7) by auto
      fix t
      assume t: "flush_ok owner psize req xs t" "is_max t = is_max s'" "is_limit t = is_limit s'" "is_min s' \<le> is_min t"
        "is_min t < is_max t \<longrightarrow> is_min t < is_active t" "0 < is_twin t"
      show "flush_returns owner psize req some xs (k' + 1) t"
      proof (cases "is_min t = is_min s'")
        case True
        then show ?thesis using Suc.IH [of t "k' + 1"] t Suc.prems lt by simp
      next
        case False
        then show ?thesis using smaller [of t] t Suc.prems by simp
      qed
    qed
  qed
  show ?case
  proof (cases "is_min s = is_max s")
    case True
    then show ?thesis using flush_drained less.prems(1) by blast
  next
    case ne: False
    have lt: "is_min s < is_max s" using ne flush_ok_le [OF less.prems(1)] by simp
    show ?thesis
    proof (rule flush_step [OF less.prems(1) mpi ne])
      show "mpi_ascending (some k) \<or> is_limit s = 1 \<or> is_limit s = 2" using less.prems(2) by auto
      fix t
      assume t: "flush_ok owner psize req xs t" "is_max t = is_max s" "is_limit t = is_limit s" "is_min s \<le> is_min t"
        "is_min t < is_max t \<longrightarrow> is_min t < is_active t" "0 < is_twin t"
      obtain k' where k': "k' \<ge> k + 1" "mpi_completes (some k')" using often by blast
      show "flush_returns owner psize req some xs (k + 1) t"
      proof (cases "is_min t = is_min s")
        case True
        then show ?thesis using started [of t "k + 1" "k' - (k + 1)"] t k' lt by simp
      next
        case False
        then show ?thesis using smaller [of t] t by simp
      qed
    qed
  qed
qed

text \<open>An MPI that completes every active request at each test.\<close>

lemma mpi_all:
  fixes all :: "'r option list \<Rightarrow> nat list"
  assumes "all = (\<lambda>rs. filter (\<lambda>i. rs ! i \<noteq> None) [0..<length rs])"
  shows "mpi_testsome all" "mpi_ascending all" "mpi_completes all"
  unfolding assms mpi_testsome_def mpi_ascending_def mpi_completes_def
  by (auto simp: filter_empty_conv in_set_conv_nth intro: sorted_wrt_filter) force

text \<open>
  C30: Flushing a send buffer of which nothing was lost so far returns, and has then completed every send appended to it, each with its own
  request, if each of its tests completes distinct active requests, again and again a test of a range with an
  active request completes one, and the completions ascend or at most two sends are active at a time.
\<close>
theorem isend_flush_returns:
  assumes "isend_inv s" "isend_hist owner psize req {#} {#} xs s" "2 * (is_max s - is_min s) < 2 ^ 31" "is_limit s + is_max s < 2 ^ 64"
    "\<And>k. mpi_testsome (some k)" "\<And>k. \<exists>k' \<ge> k. mpi_completes (some k')"
    "(\<forall>k. mpi_ascending (some k)) \<or> (is_limit s = 1 \<or> is_limit s = 2)" "is_limit s \<noteq> 0 \<longrightarrow> is_active s \<le> is_min s + is_limit s"
  shows "\<exists>s' ssync'. isend_flush owner psize req some 0 0 ssync s = Some (Ret (s', ssync', is_max s - is_min s)) \<and>
    is_min s' = is_max s' \<and> is_active s' = length xs \<and> mset (is_done s') = mset (zip (map (\<lambda>j. Some (req j)) [0..<length xs]) xs)"
proof -
  have "flush_ok owner psize req xs s" using assms(1-4,8) by (simp add: flush_ok_def)
  from flush_terminates [OF assms(5,6,7) this, of 0] obtain s' ssync' where
    r: "isend_flush owner psize req some 0 0 ssync s = Some (Ret (s', ssync', is_max s - is_min s))"
      "is_min s' = is_max s'" "isend_inv s'" "isend_hist owner psize req {#} {#} xs s'"
    unfolding flush_returns_def by (metis add_0)
  note h = isend_histD [OF r(4)]
  have a: "is_active s' = length xs" using isend_invD(4,5) [OF r(3)] r(2) h(1) by linarith
  have "image_mset (\<lambda>(r, x). (r, Some x)) (isend_posted req xs s') = image_mset (\<lambda>(r, x). (r, Some x)) (mset (is_done s'))"
    using hist_posted(2) [OF r(4)] r(2) a h(1) by (simp add: ring_def)
  then have "isend_posted req xs s' = mset (is_done s')" using record_the by metis
  then show ?thesis using r(1,2) a by (auto simp: isend_posted_def)
qed

theorem isend_flush_returns_witness:
  "\<exists>s s1 s' ssync'. isend_new (\<lambda>n. True) 0 50 = Ret s \<and> isend_append (\<lambda>n. True) 4 [9] s = Ret s1 \<and>
    isend_flush (\<lambda>p. 3) (\<lambda>p. 8) (\<lambda>j. j :: nat) (\<lambda>k rs. filter (\<lambda>i. rs ! i \<noteq> None) [0..<length rs]) 0 0 [] s1 =
      Some (Ret (s', ssync', 1)) \<and> is_min s' = is_max s' \<and> is_done s' = [(Some 0, 4, [9])]"
proof -
  let ?all = "\<lambda>(k :: nat) rs. filter (\<lambda>i. rs ! i \<noteq> None) [0..<length rs]"
  obtain s :: "nat isend" where s: "isend_new (\<lambda>n. True) 0 50 = Ret s" "isend_inv s" "isend_hist (\<lambda>p. 3) (\<lambda>p. 8) (\<lambda>j. j) {#} {#} [] s" "is_limit s = 0" "is_min s = 0"
    using isend_new_correct [of 0 50 "\<lambda>p. 3" "\<lambda>p. 8" "\<lambda>j. j"] by blast
  have m: "is_max s = 0" using isend_histD(1) [OF s(3)] by simp
  have "isend_ready (\<lambda>n. True) (Suc 0) s" using m by (simp add: isend_ready_def)
  from isend_append_correct [OF s(2,3) this, of 4 "[9]"] obtain s1 where
    1: "isend_append (\<lambda>n. True) 4 [9] s = Ret s1" "isend_inv s1" "isend_hist (\<lambda>p. 3) (\<lambda>p. 8) (\<lambda>j. j) {#} {#} [(4, [9])] s1"
    by (auto simp: isir_bytes_small)
  have n: "is_max s1 = 1" "is_min s1 = 0" "is_limit s1 = 0"
    using isend_histD(1) [OF 1(3)] isend_append_keeps [OF 1(1)] s(4,5) by simp_all
  have "\<exists>s' ssync'. isend_flush (\<lambda>p. 3) (\<lambda>p. 8) (\<lambda>j. j) ?all 0 0 [] s1 = Some (Ret (s', ssync', is_max s1 - is_min s1)) \<and>
      is_min s' = is_max s' \<and> is_active s' = length [(4 :: ptr, [9 :: ptr])] \<and>
      mset (is_done s') = mset (zip (map (\<lambda>j. Some j) [0..<length [(4 :: ptr, [9 :: ptr])]]) [(4, [9])])"
    by (rule isend_flush_returns [OF 1(2,3)]) (use n mpi_all [OF refl] in auto)
  then show ?thesis using s(1) 1(1) n by auto
qed

end
