(* ===== verification/Hpx_IRecv.thy ===== *)
theory Hpx_IRecv
  imports Hpx_Ring Hpx_Parcel
begin

text \<open>
  The receive buffer of the MPI network, \<^verbatim>\<open>libhpx/network/isir/IRecvBuffer.cpp\<close>. A record holds
  the tag of a receive and its posted parcel, of which the model keeps the payload capacity.
  MPI is a parameter: \<open>req j\<close> is the handle of the \<open>j\<close>-th receive posted, \<open>cancelled\<close> says
  whether a request could be cancelled, and the answers of a probe and of a test are
  arguments. MPI rejects a negative count, and reports no active request, by errors on which the
  transport throws. Memory never written is \<^const>\<open>None\<close>.
\<close>

type_synonym recv_record = "int \<times> nat option"

record 'r irecv =
  ir_limit :: nat
  ir_capacity :: nat
  ir_size :: nat
  ir_requests :: "'r option list"
  ir_records :: "recv_record option list"
  ir_posted :: "(int \<times> nat) list"

text \<open>A received parcel: the capacity of its buffer, its payload size and its source.\<close>

record received =
  rv_capacity :: nat
  rv_size :: nat
  rv_src :: nat

definition irecv_cancel :: "('r option \<Rightarrow> bool) \<Rightarrow> nat \<Rightarrow> 'r irecv \<Rightarrow> ('r irecv \<times> nat option) outcome" where
  "irecv_cancel cancelled i s =
    assertO (i < ir_size s)
    (if \<not> i < length (ir_records s) \<or> \<not> i < length (ir_requests s) then Fault Out_of_bounds
     else case ir_records s ! i of
       None \<Rightarrow> Fault Out_of_bounds
     | Some (tag, p) \<Rightarrow>
         let s1 = s\<lparr>ir_records := (ir_records s)[i := Some (-1, None)], ir_requests := (ir_requests s)[i := None]\<rparr> in
         Ret (s1, if cancelled (ir_requests s ! i) then None else p))"

text \<open>The loop of \<^verbatim>\<open>reserve\<close> that cancels receives beyond the new capacity, from the last down.\<close>

function irecv_shrink :: "('r option \<Rightarrow> bool) \<Rightarrow> 'r irecv \<Rightarrow> nat list \<Rightarrow> ('r irecv \<times> nat list) outcome" where
  "irecv_shrink cancelled s out =
    (if ir_size s > ir_capacity s then
       (case irecv_cancel cancelled (ir_size s - 1) s of
          Inl e \<Rightarrow> Inl e
        | Inr (s1, p) \<Rightarrow> irecv_shrink cancelled (s1\<lparr>ir_size := ir_size s - 1, ir_capacity := ir_capacity s\<rparr>)
            (case p of None \<Rightarrow> out | Some c \<Rightarrow> c # out))
     else Ret (s, out))"
  by pat_completeness auto
termination
  by (relation "measure (\<lambda>(c, s, out). ir_size s - ir_capacity s)") auto

declare irecv_shrink.simps [simp del]

definition irecv_reserve :: "('r option \<Rightarrow> bool) \<Rightarrow> nat \<Rightarrow> 'r irecv \<Rightarrow> ('r irecv \<times> nat list) outcome" where
  "irecv_reserve cancelled capacity s =
    (if capacity = ir_capacity s then Ret (s, [])
     else bindO (irecv_shrink cancelled
         (s\<lparr>ir_capacity := (if ir_limit s \<noteq> 0 then min capacity (ir_limit s) else capacity)\<rparr>) []) (\<lambda>(s1, out).
       let n = ir_capacity s1 in
       Ret (s1\<lparr>ir_requests := resize (ir_requests s1) n, ir_records := resize (ir_records s1) n\<rparr>, out)))"

definition irecv_new :: "('r option \<Rightarrow> bool) \<Rightarrow> nat \<Rightarrow> ('r irecv \<times> nat list) outcome" where
  "irecv_new cancelled limit =
    irecv_reserve cancelled (if limit \<noteq> 0 then min 64 limit else 64)
      \<lparr> ir_limit = limit, ir_capacity = 0, ir_size = 0, ir_requests = [], ir_records = [], ir_posted = [] \<rparr>"

definition irecv_start :: "(nat \<Rightarrow> 'r) \<Rightarrow> nat \<Rightarrow> 'r irecv \<Rightarrow> 'r irecv outcome" where
  "irecv_start req i s =
    (if \<not> i < length (ir_records s) \<or> \<not> i < length (ir_requests s) then Fault Out_of_bounds
     else case ir_records s ! i of
       None \<Rightarrow> Fault Out_of_bounds
     | Some (tag, p) \<Rightarrow>
         let size = tag_to_payload_size (nat tag); bytes = payload_size_to_isir_bytes size in
         if bytes < 0 then Fault Thrown
         else Ret (s\<lparr>ir_records := (ir_records s)[i := Some (tag, Some size)],
                     ir_requests := (ir_requests s)[i := Some (req (length (ir_posted s)))],
                     ir_posted := ir_posted s @ [(bytes, nat tag)]\<rparr>))"

definition irecv_probe :: "('r option \<Rightarrow> bool) \<Rightarrow> (nat \<Rightarrow> 'r) \<Rightarrow> int \<Rightarrow> 'r irecv \<Rightarrow> 'r irecv outcome" where
  "irecv_probe cancelled req tag s =
    (if tag < 0 then Ret s
     else let i = ir_size s; s1 = s\<lparr>ir_size := u32wrap (ir_size s + 1)\<rparr> in
       if \<not> i < length (ir_records s1) then Fault Out_of_bounds
       else bindO (irecv_start req i (s1\<lparr>ir_records := (ir_records s1)[i := Some (tag, None)]\<rparr>)) (\<lambda>s2.
         if ir_size s2 = ir_capacity s2
         then bindO (irecv_reserve cancelled (u32wrap (2 * ir_capacity s2)) s2) (\<lambda>(s3, out). Ret s3)
         else Ret s2))"

definition irecv_finish :: "nat \<Rightarrow> int \<Rightarrow> nat \<Rightarrow> 'r irecv \<Rightarrow> ('r irecv \<times> received) outcome" where
  "irecv_finish i bytes source s =
    assertO (i < ir_size s) (assertO (bytes > 0)
    (if \<not> i < length (ir_records s) then Fault Out_of_bounds
     else case ir_records s ! i of
       Some (tag, Some cap) \<Rightarrow>
         bindO (isir_bytes_to_payload_size bytes) (\<lambda>n.
           Ret (s\<lparr>ir_records := (ir_records s)[i := Some (tag, None)]\<rparr>,
                \<lparr> rv_capacity = cap, rv_size = n, rv_src = source \<rparr>))
     | _ \<Rightarrow> Fault Out_of_bounds))"

text \<open>The loop of \<^verbatim>\<open>progress\<close> over the completed requests: index, byte count and source of each.\<close>

fun irecv_drain :: "(nat \<Rightarrow> 'r) \<Rightarrow> (nat \<times> int \<times> nat) list \<Rightarrow> received list \<Rightarrow> 'r irecv \<Rightarrow> ('r irecv \<times> received list) outcome" where
  "irecv_drain req [] stack s = Ret (s, stack)"
| "irecv_drain req ((i, bytes, source) # xs) stack s =
    bindO (irecv_finish i bytes source s) (\<lambda>(s1, p).
    bindO (irecv_start req i s1) (\<lambda>s2. irecv_drain req xs (p # stack) s2))"

definition irecv_progress ::
  "('r option \<Rightarrow> bool) \<Rightarrow> (nat \<Rightarrow> 'r) \<Rightarrow> int \<Rightarrow> ('r option list \<Rightarrow> (nat \<times> int \<times> nat) list) \<Rightarrow> received list \<Rightarrow> 'r irecv \<Rightarrow>
    ('r irecv \<times> received list \<times> nat) outcome" where
  "irecv_progress cancelled req tag some stack s =
    bindO (irecv_probe cancelled req tag s) (\<lambda>s1.
      let rs = take (ir_size s1) (ir_requests s1); done' = (if ir_size s1 = 0 then [] else some rs) in
      if ir_size s1 \<noteq> 0 \<and> list_all (\<lambda>r. r = None) rs then Fault Thrown
      else bindO (irecv_drain req done' stack s1) (\<lambda>(s2, stack'). Ret (s2, stack', length done')))"

section \<open>An unlimited buffer\<close>

lemma irecv_grow:
  assumes "length (ir_requests s) = ir_capacity s" "length (ir_records s) = ir_capacity s" "ir_limit s = 0"
    "ir_size s \<le> ir_capacity s" "ir_capacity s < n"
  shows "irecv_reserve cancelled n s =
    Ret (s\<lparr>ir_capacity := n, ir_requests := ir_requests s @ replicate (n - ir_capacity s) None,
           ir_records := ir_records s @ replicate (n - ir_capacity s) None\<rparr>, [])"
  using assms by (simp add: irecv_reserve_def irecv_shrink.simps resize_def Let_def min_def)

text \<open>The tags that parcels below MPI's limit have; they are at least one.\<close>

definition recv_tag :: "int \<Rightarrow> bool" where
  "recv_tag tag = (0 < tag \<and> tag < 2 ^ 25)"

lemma recv_tag_bytes: "recv_tag tag \<Longrightarrow> payload_size_to_isir_bytes (tag_to_payload_size (nat tag)) = tag * 64 - 28"
  using isir_tag_size(3) [of "nat tag"] by (cases tag) (simp_all add: recv_tag_def of_nat_diff)

lemma recv_tag_size: "recv_tag tag \<Longrightarrow> int (tag_to_payload_size (nat tag)) = tag * 64 - 64"
  using isir_tag_size(1) [of "nat tag"] by (cases tag) (simp_all add: recv_tag_def of_nat_diff)

text \<open>The buffer after starting the receive in slot \<open>i\<close> for a tag.\<close>

definition irecv_started :: "(nat \<Rightarrow> 'r) \<Rightarrow> nat \<Rightarrow> int \<Rightarrow> 'r irecv \<Rightarrow> 'r irecv" where
  "irecv_started req i tag s = s\<lparr>ir_records := (ir_records s)[i := Some (tag, Some (tag_to_payload_size (nat tag)))],
    ir_requests := (ir_requests s)[i := Some (req (length (ir_posted s)))],
    ir_posted := ir_posted s @ [(tag * 64 - 28, nat tag)]\<rparr>"

lemma irecv_start_correct:
  assumes "i < length (ir_records s)" "i < length (ir_requests s)" "ir_records s ! i = Some (tag, p)" "recv_tag tag"
  shows "irecv_start req i s = Ret (irecv_started req i tag s)"
  using assms by (simp add: irecv_start_def irecv_started_def Let_def recv_tag_bytes) (simp add: recv_tag_def)

lemma irecv_probe_free:
  assumes "length (ir_requests s) = ir_capacity s" "length (ir_records s) = ir_capacity s" "ir_size s < ir_capacity s"
    "ir_size s + 1 < 2 ^ 32" "recv_tag tag"
  shows "irecv_probe cancelled req tag s =
    (let s1 = irecv_started req (ir_size s) tag (s\<lparr>ir_size := ir_size s + 1\<rparr>) in
     if ir_size s + 1 = ir_capacity s then bindO (irecv_reserve cancelled (u32wrap (2 * ir_capacity s)) s1) (\<lambda>(s2, out). Ret s2) else Ret s1)"
proof -
  let ?i = "ir_size s"
  let ?s = "s\<lparr>ir_size := ?i + 1, ir_records := (ir_records s)[?i := Some (tag, None)]\<rparr>"
  have "irecv_start req ?i ?s = Ret (irecv_started req ?i tag ?s)"
    using assms by (intro irecv_start_correct) simp_all
  moreover have "irecv_started req ?i tag ?s = irecv_started req ?i tag (s\<lparr>ir_size := ?i + 1\<rparr>)" by (simp add: irecv_started_def)
  ultimately show ?thesis using assms by (simp add: irecv_probe_def Let_def recv_tag_def irecv_started_def)
qed

text \<open>The tags of the receives of an unlimited buffer.\<close>

definition irecv_tags :: "int list \<Rightarrow> 'r irecv \<Rightarrow> bool" where
  "irecv_tags tags s = (length (ir_requests s) = ir_capacity s \<and> length (ir_records s) = ir_capacity s \<and> ir_limit s = 0 \<and>
    ir_size s = length tags \<and> ir_size s < ir_capacity s \<and> list_all recv_tag tags \<and>
    (\<forall>i < length tags. ir_records s ! i = Some (tags ! i, Some (tag_to_payload_size (nat (tags ! i)))) \<and> ir_requests s ! i \<noteq> None))"

lemma irecv_probe_correct:
  assumes inv: "irecv_tags tags s" and small: "2 * (length tags + 1) < 2 ^ 32" and tag: "tag < 0 \<or> recv_tag tag"
  shows "\<exists>s'. irecv_probe cancelled req tag s = Ret s' \<and> irecv_tags (tags @ (if tag < 0 then [] else [tag])) s' \<and>
    ir_posted s' = ir_posted s @ (if tag < 0 then [] else [(tag * 64 - 28, nat tag)])"
proof (cases "tag < 0")
  case True
  then show ?thesis using inv by (simp add: irecv_probe_def)
next
  case False
  let ?i = "ir_size s" and ?c = "ir_capacity s"
  let ?s = "irecv_started req ?i tag (s\<lparr>ir_size := ?i + 1\<rparr>)"
  have t: "recv_tag tag" using False tag by simp
  have i: "length (ir_requests s) = ?c" "length (ir_records s) = ?c" "ir_limit s = 0" "?i < ?c" "?i = length tags"
    using inv by (simp_all add: irecv_tags_def)
  have slots: "ir_records ?s ! j = Some ((tags @ [tag]) ! j, Some (tag_to_payload_size (nat ((tags @ [tag]) ! j)))) \<and> ir_requests ?s ! j \<noteq> None"
    if "j < length (tags @ [tag])" for j
    using inv that i by (cases "j = length tags") (auto simp: irecv_tags_def irecv_started_def nth_append)
  have len: "length (ir_requests ?s) = ?c" "length (ir_records ?s) = ?c" "ir_limit ?s = 0" "ir_size ?s = length (tags @ [tag])"
    "ir_capacity ?s = ?c" "list_all recv_tag (tags @ [tag])" using i t inv by (simp_all add: irecv_started_def irecv_tags_def)
  have po: "ir_posted ?s = ir_posted s @ [(tag * 64 - 28, nat tag)]" by (simp add: irecv_started_def)
  have sm: "?i + 1 < 2 ^ 32" using small i(5) by simp
  have pr: "irecv_probe cancelled req tag s =
      (if ?i + 1 = ?c then bindO (irecv_reserve cancelled (u32wrap (2 * ?c)) ?s) (\<lambda>(s2, out). Ret s2) else Ret ?s)"
    using irecv_probe_free [OF i(1,2,4) sm t] by (simp add: Let_def)
  show ?thesis
  proof (cases "?i + 1 = ?c")
    case True
    let ?s3 = "?s\<lparr>ir_capacity := 2 * ?c, ir_requests := ir_requests ?s @ replicate ?c None, ir_records := ir_records ?s @ replicate ?c None\<rparr>"
    have "u32wrap (2 * ?c) = 2 * ?c" using small i(5) True by simp
    moreover have "irecv_reserve cancelled (2 * ?c) ?s = Ret (?s3, [])"
      using irecv_grow [of ?s "2 * ?c" cancelled] len i(4,5) by simp
    ultimately have "irecv_probe cancelled req tag s = Ret ?s3" using pr True by simp
    moreover have "irecv_tags (tags @ [tag]) ?s3"
      unfolding irecv_tags_def using len slots i True by (simp add: nth_append)
    ultimately show ?thesis using False po by simp
  next
    case more: False
    have "irecv_tags (tags @ [tag]) ?s" unfolding irecv_tags_def using len slots i more by simp
    then show ?thesis using pr more False po by simp
  qed
qed

text \<open>The parcel that a completed receive of slot \<open>i\<close> delivers.\<close>

definition received_parcel :: "int list \<Rightarrow> nat \<times> int \<times> nat \<Rightarrow> received" where
  "received_parcel tags = (\<lambda>(i, bytes, source).
    \<lparr> rv_capacity = tag_to_payload_size (nat (tags ! i)), rv_size = nat (bytes - 36), rv_src = source \<rparr>)"

text \<open>
  What MPI documents of the completed receives: distinct requests of the array, each with a message of the tag of its receive, that is no longer
  than the receive. Every message has at least the bytes of the parcel header that the sender puts on the network.
\<close>

definition mpi_receives :: "int list \<Rightarrow> (nat \<times> int \<times> nat) list \<Rightarrow> bool" where
  "mpi_receives tags xs = (distinct (map fst xs) \<and>
    (\<forall>(i, bytes, source)\<in>set xs. i < length tags \<and> 36 \<le> bytes \<and> bytes \<le> tags ! i * 64 - 28))"

lemma irecv_finish_correct:
  assumes inv: "irecv_tags tags s" and i: "i < length tags" "36 \<le> bytes" "bytes \<le> tags ! i * 64 - 28"
  shows "\<exists>s1. irecv_finish i bytes source s = Ret (s1, received_parcel tags (i, bytes, source)) \<and>
    irecv_start req i s1 = Ret (irecv_started req i (tags ! i) s1) \<and> irecv_tags tags (irecv_started req i (tags ! i) s1)"
proof -
  have t: "recv_tag (tags ! i)" using inv i(1) by (simp add: irecv_tags_def list_all_length)
  have l: "i < length (ir_records s)" "i < length (ir_requests s)" "i < ir_size s"
    "ir_records s ! i = Some (tags ! i, Some (tag_to_payload_size (nat (tags ! i))))" using inv i(1) by (simp_all add: irecv_tags_def)
  have n: "isir_bytes_to_payload_size bytes = Ret (nat (bytes - 36))"
    using i t by (intro isir_payload_small) (simp_all add: recv_tag_def)
  let ?s1 = "s\<lparr>ir_records := (ir_records s)[i := Some (tags ! i, None)]\<rparr>"
  have f: "irecv_finish i bytes source s = Ret (?s1, received_parcel tags (i, bytes, source))"
    using i(2) l n by (simp add: irecv_finish_def received_parcel_def)
  have st: "irecv_start req i ?s1 = Ret (irecv_started req i (tags ! i) ?s1)"
    using l t by (intro irecv_start_correct) simp_all
  have "ir_records (irecv_started req i (tags ! i) ?s1) ! j = Some (tags ! j, Some (tag_to_payload_size (nat (tags ! j)))) \<and>
      ir_requests (irecv_started req i (tags ! i) ?s1) ! j \<noteq> None" if "j < length tags" for j
    using inv that l by (cases "j = i") (auto simp: irecv_tags_def irecv_started_def)
  moreover have "length (ir_requests (irecv_started req i (tags ! i) ?s1)) = ir_capacity s" "length (ir_records (irecv_started req i (tags ! i) ?s1)) = ir_capacity s"
    "ir_limit (irecv_started req i (tags ! i) ?s1) = 0" "ir_size (irecv_started req i (tags ! i) ?s1) = length tags"
    "ir_capacity (irecv_started req i (tags ! i) ?s1) = ir_capacity s" "length tags < ir_capacity s" "list_all recv_tag tags"
    using inv by (simp_all add: irecv_tags_def irecv_started_def)
  ultimately have "irecv_tags tags (irecv_started req i (tags ! i) ?s1)" unfolding irecv_tags_def by simp
  then show ?thesis using f st by auto
qed

lemma irecv_drain_correct:
  assumes "irecv_tags tags s" "\<forall>(i, bytes, source)\<in>set xs. i < length tags \<and> 36 \<le> bytes \<and> bytes \<le> tags ! i * 64 - 28"
  shows "\<exists>s'. irecv_drain req xs stack s = Ret (s', rev (map (received_parcel tags) xs) @ stack) \<and> irecv_tags tags s'"
  using assms
proof (induction xs arbitrary: s stack)
  case (Cons x xs)
  obtain i bytes source where x: "x = (i, bytes, source)" by (cases x)
  from irecv_finish_correct [OF Cons.prems(1), of i bytes source req] Cons.prems(2) x obtain s1 where
    1: "irecv_finish i bytes source s = Ret (s1, received_parcel tags x)" "irecv_start req i s1 = Ret (irecv_started req i (tags ! i) s1)"
      "irecv_tags tags (irecv_started req i (tags ! i) s1)" by auto
  from Cons.IH [OF 1(3), of "received_parcel tags x # stack"] Cons.prems(2) obtain s' where
    2: "irecv_drain req xs (received_parcel tags x # stack) (irecv_started req i (tags ! i) s1) =
        Ret (s', rev (map (received_parcel tags) xs) @ received_parcel tags x # stack)" "irecv_tags tags s'" by auto
  then show ?case using 1(1,2) 2 x by simp
qed simp

text \<open>A call of \<^verbatim>\<open>progress\<close>: the tag a probe finds, or a negative number, and what the test reports.\<close>

type_synonym recv_call = "int \<times> (nat \<times> int \<times> nat) list"

fun irecv_run :: "('r option \<Rightarrow> bool) \<Rightarrow> (nat \<Rightarrow> 'r) \<Rightarrow> recv_call list \<Rightarrow> received list \<times> 'r irecv \<Rightarrow> (received list \<times> 'r irecv) outcome" where
  "irecv_run cancelled req [] st = Ret st"
| "irecv_run cancelled req ((tag, xs) # cs) (stack, s) =
    bindO (irecv_progress cancelled req tag (\<lambda>rs. xs) stack s) (\<lambda>(s', stack', n). irecv_run cancelled req cs (stack', s'))"

definition found :: "int \<Rightarrow> int list" where
  "found tag = (if tag < 0 then [] else [tag])"

text \<open>The calls are possible after receives of \<open>tags\<close>, and the parcels that they deliver.\<close>

fun recv_calls :: "int list \<Rightarrow> recv_call list \<Rightarrow> bool" where
  "recv_calls tags [] = True"
| "recv_calls tags ((tag, xs) # cs) =
    ((tag < 0 \<or> recv_tag tag) \<and> mpi_receives (tags @ found tag) xs \<and> recv_calls (tags @ found tag) cs)"

fun delivered :: "int list \<Rightarrow> recv_call list \<Rightarrow> received list" where
  "delivered tags [] = []"
| "delivered tags ((tag, xs) # cs) = map (received_parcel (tags @ found tag)) xs @ delivered (tags @ found tag) cs"

lemma irecv_progress_correct:
  assumes "irecv_tags tags s" "2 * (length tags + 1) < 2 ^ 32" "tag < 0 \<or> recv_tag tag" "mpi_receives (tags @ found tag) xs"
  shows "\<exists>s'. irecv_progress cancelled req tag (\<lambda>rs. xs) stack s =
      Ret (s', rev (map (received_parcel (tags @ found tag)) xs) @ stack, length xs) \<and> irecv_tags (tags @ found tag) s'"
proof -
  from irecv_probe_correct [OF assms(1-3), of cancelled req] obtain s1 where
    1: "irecv_probe cancelled req tag s = Ret s1" "irecv_tags (tags @ found tag) s1" by (auto simp: found_def)
  have xs: "ir_size s1 = 0 \<Longrightarrow> xs = []" using 1(2) assms(4) by (cases xs) (auto simp: irecv_tags_def mpi_receives_def)
  have "\<not> list_all (\<lambda>r. r = None) (take (ir_size s1) (ir_requests s1))" if "ir_size s1 \<noteq> 0"
    using 1(2) that unfolding irecv_tags_def list_all_length by (intro notI) (auto dest: spec [of _ 0])
  then show ?thesis using irecv_drain_correct [OF 1(2), of xs req stack] assms(4) 1(1) xs
    by (auto simp: irecv_progress_def Let_def mpi_receives_def)
qed

lemma irecv_run_correct:
  assumes "irecv_tags tags s" "recv_calls tags cs" "2 * (length tags + length cs) < 2 ^ 32"
  shows "\<exists>s'. irecv_run cancelled req cs (stack, s) = Ret (rev (delivered tags cs) @ stack, s') \<and>
    irecv_tags (tags @ concat (map (\<lambda>c. found (fst c)) cs)) s'"
  using assms
proof (induction cs arbitrary: s stack tags)
  case (Cons c cs)
  obtain tag xs where c: "c = (tag, xs)" by (cases c)
  have len: "length (found tag) \<le> 1" by (simp add: found_def)
  have "2 * (length tags + 1) < 2 ^ 32" using Cons.prems(3) by simp
  from irecv_progress_correct [OF Cons.prems(1) this, of tag xs cancelled req stack] Cons.prems(2) c obtain s1 where
    1: "irecv_progress cancelled req tag (\<lambda>rs. xs) stack s = Ret (s1, rev (map (received_parcel (tags @ found tag)) xs) @ stack, length xs)"
      "irecv_tags (tags @ found tag) s1" by auto
  from Cons.IH [OF 1(2), of "rev (map (received_parcel (tags @ found tag)) xs) @ stack"] Cons.prems(2,3) c len 1(1)
  show ?case by auto
qed simp

lemma irecv_new_tags: "\<exists>s :: 'r irecv. irecv_new cancelled 0 = Ret (s, []) \<and> irecv_tags [] s \<and> ir_posted s = []"
  by (simp add: irecv_new_def irecv_grow irecv_tags_def)

lemma delivered_fits:
  assumes "recv_calls tags cs" "list_all recv_tag tags" "p \<in> set (delivered tags cs)"
  shows "rv_size p \<le> rv_capacity p"
  using assms
proof (induction tags cs rule: delivered.induct)
  case (2 tags tag xs cs)
  have tags: "list_all recv_tag (tags @ found tag)" using 2(2,3) by (auto simp: found_def)
  have "rv_size p \<le> rv_capacity p" if "x \<in> set xs" "p = received_parcel (tags @ found tag) x" for x
  proof -
    obtain i bytes source where x: "x = (i, bytes, source)" by (cases x)
    have b: "i < length (tags @ found tag)" "bytes \<le> (tags @ found tag) ! i * 64 - 28"
      using 2(2) that(1) x by (auto simp: mpi_receives_def)
    have "recv_tag ((tags @ found tag) ! i)" using tags b(1) unfolding list_all_length by blast
    from recv_tag_size [OF this] b(2) show ?thesis using that(2) x by (simp add: received_parcel_def)
  qed
  then show ?case using 2 tags by auto
qed simp

text \<open>
  C31: An unlimited receive buffer delivers what arrives. Over any sequence of fewer than \<open>2\<^sup>3\<^sup>1\<close> progress calls, in which the probes
  find tags that a parcel can have and MPI completes distinct posted receives with messages that match and fit them, nothing faults: the
  stack has exactly the parcels of the completed receives, the last on top, each with the sender and the
  payload size of its message and a buffer that holds it; and every probe has added one receive, which stays posted
  for its tag.
\<close>
theorem irecv_delivers:
  assumes "recv_calls [] cs" "2 * length cs < 2 ^ 32"
  shows "\<exists>s s'. irecv_new cancelled 0 = Ret (s, []) \<and>
    irecv_run cancelled req cs (stack, s) = Ret (rev (delivered [] cs) @ stack, s') \<and>
    irecv_tags (concat (map (\<lambda>c. found (fst c)) cs)) s' \<and> (\<forall>p\<in>set (delivered [] cs). rv_size p \<le> rv_capacity p)"
proof -
  obtain s :: "'a irecv" where s: "irecv_new cancelled 0 = Ret (s, [])" "irecv_tags [] s" using irecv_new_tags by blast
  from irecv_run_correct [OF s(2) assms(1), of cancelled req stack] assms(2) s(1) delivered_fits [OF assms(1)]
  show ?thesis by auto
qed

theorem irecv_delivers_witness:
  "let cs = [(3, []), (2, [(0, 100, 5)]), (-1, [(1, 50, 6), (0, 164, 5)])] in recv_calls [] cs \<and>
    (\<exists>s s'. irecv_new (\<lambda>r. True) 0 = Ret (s, []) \<and>
      irecv_run (\<lambda>r. True) (\<lambda>j. j) cs ([], s) =
        Ret ([\<lparr> rv_capacity = 128, rv_size = 128, rv_src = 5 \<rparr>, \<lparr> rv_capacity = 64, rv_size = 14, rv_src = 6 \<rparr>,
          \<lparr> rv_capacity = 128, rv_size = 64, rv_src = 5 \<rparr>], s') \<and>
      irecv_tags [3, 2] s')"
proof -
  let ?cs = "[(3, []), (2, [(0, 100, 5)]), (-1, [(1, 50, 6), (0, 164, 5)])] :: recv_call list"
  have cs: "recv_calls [] ?cs" by (simp add: recv_tag_def found_def mpi_receives_def)
  have "tag_to_payload_size 3 = 128" "tag_to_payload_size 2 = 64" by (simp_all add: isir_tag_size)
  then have "rev (delivered [] ?cs) = [\<lparr> rv_capacity = 128, rv_size = 128, rv_src = 5 \<rparr>, \<lparr> rv_capacity = 64, rv_size = 14, rv_src = 6 \<rparr>,
      \<lparr> rv_capacity = 128, rv_size = 64, rv_src = 5 \<rparr>]" "concat (map (\<lambda>c. found (fst c)) ?cs) = [3, 2]"
    by (simp_all add: found_def received_parcel_def)
  with irecv_delivers [OF cs, of "\<lambda>r. True" "\<lambda>j. j" "[]"] cs show ?thesis
    unfolding Let_def by (auto simp del: irecv_run.simps recv_calls.simps delivered.simps concat.simps list.map)
qed

section \<open>A limited buffer\<close>

fun irecv_probes :: "('r option \<Rightarrow> bool) \<Rightarrow> (nat \<Rightarrow> 'r) \<Rightarrow> int list \<Rightarrow> 'r irecv \<Rightarrow> 'r irecv outcome" where
  "irecv_probes cancelled req [] s = Ret s"
| "irecv_probes cancelled req (tag # tags) s = bindO (irecv_probe cancelled req tag s) (irecv_probes cancelled req tags)"

text \<open>A limited buffer that has not overrun is full only at its limit.\<close>

definition irecv_limited :: "nat \<Rightarrow> 'r irecv \<Rightarrow> bool" where
  "irecv_limited limit s = (length (ir_requests s) = ir_capacity s \<and> length (ir_records s) = ir_capacity s \<and> ir_limit s = limit \<and>
    0 < limit \<and> limit < 2 ^ 31 \<and> ir_capacity s \<le> limit \<and> ir_size s \<le> ir_capacity s \<and> (ir_size s = ir_capacity s \<longrightarrow> ir_capacity s = limit))"

lemma irecv_reserve_limited:
  assumes "ir_limit s = limit" "ir_capacity s \<le> limit" "ir_size s = ir_capacity s" "0 < ir_capacity s" "0 < limit"
  shows "irecv_reserve cancelled (2 * ir_capacity s) s = (let n = min (2 * ir_capacity s) limit in
    Ret (s\<lparr>ir_capacity := n, ir_requests := resize (ir_requests s) n, ir_records := resize (ir_records s) n\<rparr>, []))"
proof -
  have "\<not> min (2 * ir_capacity s) limit < ir_capacity s" using assms(2) by simp
  then show ?thesis using assms by (simp add: irecv_reserve_def irecv_shrink.simps Let_def del: min_less_iff_disj)
qed

lemma irecv_probe_limited:
  assumes "irecv_limited limit s" "recv_tag tag" "ir_size s < limit"
  shows "\<exists>s'. irecv_probe cancelled req tag s = Ret s' \<and> irecv_limited limit s' \<and> ir_size s' = ir_size s + 1"
proof -
  let ?i = "ir_size s" and ?c = "ir_capacity s"
  let ?s = "irecv_started req ?i tag (s\<lparr>ir_size := ?i + 1\<rparr>)"
  have i: "length (ir_requests s) = ?c" "length (ir_records s) = ?c" "?i < ?c" "?i + 1 < 2 ^ 32" "?c \<le> limit" "limit < 2 ^ 31" "ir_limit s = limit"
    using assms by (auto simp: irecv_limited_def)
  have pr: "irecv_probe cancelled req tag s =
      (if ?i + 1 = ?c then bindO (irecv_reserve cancelled (u32wrap (2 * ?c)) ?s) (\<lambda>(s2, out). Ret s2) else Ret ?s)"
    using irecv_probe_free [OF i(1-4) assms(2)] by (simp add: Let_def)
  have len: "length (ir_requests ?s) = ?c" "length (ir_records ?s) = ?c" "ir_limit ?s = limit" "ir_size ?s = ?i + 1" "ir_capacity ?s = ?c"
    using i by (simp_all add: irecv_started_def)
  show ?thesis
  proof (cases "?i + 1 = ?c")
    case True
    let ?n = "min (2 * ?c) limit"
    let ?s3 = "?s\<lparr>ir_capacity := ?n, ir_requests := resize (ir_requests ?s) ?n, ir_records := resize (ir_records ?s) ?n\<rparr>"
    have "u32wrap (2 * ?c) = 2 * ?c" using i(5,6) by simp
    moreover have "irecv_reserve cancelled (2 * ?c) ?s = Ret (?s3, [])"
      using irecv_reserve_limited [of ?s limit cancelled] len i(3,5) True unfolding Let_def len(5) by auto
    ultimately have "irecv_probe cancelled req tag s = Ret ?s3" using pr True by simp
    moreover have "irecv_limited limit ?s3" using len i True assms(3) by (auto simp: irecv_limited_def resize_def)
    ultimately show ?thesis using len(4) by simp
  next
    case False
    then have "irecv_limited limit ?s" using len i assms(3) by (simp add: irecv_limited_def)
    then show ?thesis using pr False len(4) by simp
  qed
qed

lemma irecv_probes_limited:
  assumes "irecv_limited limit s" "list_all recv_tag tags" "ir_size s + length tags \<le> limit"
  shows "\<exists>s'. irecv_probes cancelled req tags s = Ret s' \<and> irecv_limited limit s' \<and> ir_size s' = ir_size s + length tags"
  using assms
proof (induction tags arbitrary: s)
  case (Cons tag tags)
  from irecv_probe_limited [OF Cons.prems(1), of tag cancelled req] Cons.prems(2,3) obtain s1 where
    1: "irecv_probe cancelled req tag s = Ret s1" "irecv_limited limit s1" "ir_size s1 = ir_size s + 1" by auto
  from Cons.IH [OF 1(2)] Cons.prems(2,3) 1 show ?case by auto
qed simp

lemma irecv_new_limited:
  assumes "0 < limit" "limit < 2 ^ 31"
  shows "\<exists>s :: 'r irecv. irecv_new cancelled limit = Ret (s, []) \<and> irecv_limited limit s \<and> ir_size s = 0"
  using assms by (simp add: irecv_new_def irecv_reserve_def irecv_shrink.simps Let_def irecv_limited_def resize_def min_def)

text \<open>
  C32: A limited receive buffer overruns its arrays, whatever its limit: the limit stops the arrays from growing but
  not the probe from adding receives. Any \<open>limit\<close> messages that probes find are received, and the next one
  that a probe finds is recorded one slot past the end of the arrays.
\<close>
theorem irecv_limit_overruns:
  assumes "0 < limit" "limit < 2 ^ 31" "length tags = limit" "list_all recv_tag tags" "0 \<le> tag"
  shows "\<exists>s s1. irecv_new cancelled limit = Ret (s, []) \<and> irecv_probes cancelled req tags s = Ret s1 \<and>
    length (ir_records s1) = limit \<and> ir_size s1 = limit \<and> irecv_probe cancelled req tag s1 = Fault Out_of_bounds"
proof -
  obtain s :: "'a irecv" where s: "irecv_new cancelled limit = Ret (s, [])" "irecv_limited limit s" "ir_size s = 0"
    using irecv_new_limited [OF assms(1,2)] by blast
  from irecv_probes_limited [OF s(2) assms(4), of cancelled req] s(3) assms(3) obtain s1 where
    1: "irecv_probes cancelled req tags s = Ret s1" "irecv_limited limit s1" "ir_size s1 = limit" by auto
  have l: "length (ir_records s1) = limit" using 1(2,3) by (auto simp: irecv_limited_def)
  then have "irecv_probe cancelled req tag s1 = Fault Out_of_bounds"
    using assms(5) 1(3) by (simp add: irecv_probe_def Let_def)
  then show ?thesis using s(1) 1(1,3) l by blast
qed

theorem irecv_limit_overruns_witness:
  "\<exists>s s1. irecv_new (\<lambda>r. True) 2 = Ret (s, []) \<and> irecv_probes (\<lambda>r. True) (\<lambda>j. j) [4, 7] s = Ret s1 \<and>
    irecv_probe (\<lambda>r. True) (\<lambda>j. j) 5 s1 = Fault Out_of_bounds"
  using irecv_limit_overruns [of 2 "[4, 7]" 5 "\<lambda>r. True" "\<lambda>j. j"] by (auto simp: recv_tag_def simp del: irecv_probes.simps)

section \<open>A transfer\<close>

text \<open>
  C33: A parcel crosses the MPI network whole, as long as its size leaves room for the header and the rounding to cache lines
  in MPI's signed counts: for the tag and byte count with which a send of
  an \<open>n\<close>-byte payload is posted, the receive that a probe of the tag posts has room for the
  message, and finishing it yields a parcel of payload size \<open>n\<close> whose buffer holds \<open>n\<close> bytes.
\<close>
theorem isir_transfer:
  assumes "irecv_tags tags s" "2 * (length tags + 1) < 2 ^ 32" "n + 128 \<le> 2 ^ 31"
  shows "\<exists>s1 s2 p b. irecv_probe cancelled req (int (PayloadSizeToTag n)) s = Ret s1 \<and>
    ir_posted s1 = ir_posted s @ [(b, PayloadSizeToTag n)] \<and> 0 < payload_size_to_isir_bytes n \<and> payload_size_to_isir_bytes n \<le> b \<and>
    irecv_finish (ir_size s) (payload_size_to_isir_bytes n) source s1 = Ret (s2, p) \<and>
    rv_size p = n \<and> n \<le> rv_capacity p \<and> rv_src p = source"
proof -
  let ?t = "PayloadSizeToTag n"
  note z = isir_tag_sizes [OF assms(3)]
  have t: "recv_tag (int ?t)" using z by (simp add: recv_tag_def)
  have b: "payload_size_to_isir_bytes n = int n + 36" using assms(3) by (intro isir_bytes_small) simp
  have le: "int n + 36 \<le> int ?t * 64 - 28" using z recv_tag_bytes [OF t] b by simp
  from irecv_probe_correct [OF assms(1,2) disjI2 [OF t], of cancelled req] obtain s1 where
    1: "irecv_probe cancelled req (int ?t) s = Ret s1" "irecv_tags (tags @ [int ?t]) s1" "ir_posted s1 = ir_posted s @ [(int ?t * 64 - 28, ?t)]" by auto
  have sz: "ir_size s = length tags" using assms(1) by (simp add: irecv_tags_def)
  from irecv_finish_correct [OF 1(2), of "ir_size s" "int n + 36" source req] sz le obtain s2 where
    2: "irecv_finish (ir_size s) (int n + 36) source s1 = Ret (s2, received_parcel (tags @ [int ?t]) (length tags, int n + 36, source))" by auto
  show ?thesis using 1(1,3) 2 z b le by (auto simp: received_parcel_def)
qed

theorem isir_transfer_witness:
  "\<exists>s s1 s2 p. irecv_new (\<lambda>r. True) 0 = Ret (s, []) \<and> irecv_probe (\<lambda>r. True) (\<lambda>j. j :: nat) (int (PayloadSizeToTag 100)) s = Ret s1 \<and>
    irecv_finish 0 (payload_size_to_isir_bytes 100) 7 s1 = Ret (s2, p) \<and> rv_size p = 100"
proof -
  obtain s :: "nat irecv" where s: "irecv_new (\<lambda>r. True) 0 = Ret (s, [])" "irecv_tags [] s" using irecv_new_tags by blast
  have "ir_size s = 0" using s(2) by (simp add: irecv_tags_def)
  with isir_transfer [OF s(2), of 100 "\<lambda>r. True" "\<lambda>j. j" 7] s show ?thesis by auto
qed

end
