(* ===== verification/Hpx_ChaseLev.thy ===== *)
theory Hpx_ChaseLev
  imports Hpx_Ring "HOL-Library.Multiset"
begin

text \<open>
  The work-stealing deque of \<^verbatim>\<open>include/libhpx/util/ChaseLevDeque.h\<close>. The owner pushes and pops at
  the bottom, any number of thieves steal at the top. Each access to a shared atomic variable
  is one step and the steps of the threads interleave; memory is sequentially consistent. The
  compare-and-swap is the weak one, which may fail although the values agree. Buffers that
  were outgrown stay readable, as in the code, and a slot never written is \<^const>\<open>None\<close>. The 64-bit
  indices are natural numbers; the invariant bounds them by the number of pushes.
\<close>

section \<open>Model\<close>

record 'v deque =
  d_bottom :: nat
  d_topBound :: nat
  d_capacity :: nat
  d_buffers :: "'v option list list"
  d_top :: nat

definition buffer_get :: "'v option list \<Rightarrow> nat \<Rightarrow> 'v option" where
  "buffer_get buf i = buf ! mask_index i (length buf)"

definition buffer_set :: "'v option list \<Rightarrow> nat \<Rightarrow> 'v option \<Rightarrow> 'v option list" where
  "buffer_set buf i v = buf[mask_index i (length buf) := v]"

definition deque_new :: "nat \<Rightarrow> 'v deque" where
  "deque_new capacity = (let c = unat (ceil2 (of_nat capacity :: u32)) in
    \<lparr> d_bottom = 1, d_topBound = 1, d_capacity = c, d_buffers = [replicate c None], d_top = 1 \<rparr>)"

definition deque_size :: "'v deque \<Rightarrow> nat" where
  "deque_size d = d_bottom d - d_top d"

definition tryIncTop :: "bool \<Rightarrow> nat \<Rightarrow> 'v deque \<Rightarrow> 'v deque \<times> bool" where
  "tryIncTop spurious t d =
    (if d_top d = t \<and> \<not> spurious then (d\<lparr>d_top := t + 1\<rparr>, True) else (d, False))"

fun grow_copy :: "'v option list \<Rightarrow> nat list \<Rightarrow> 'v option list \<Rightarrow> 'v option list" where
  "grow_copy old [] buf = buf"
| "grow_copy old (i # is) buf = grow_copy old is (buffer_set buf i (buffer_get old i))"

definition deque_grow :: "nat \<Rightarrow> nat \<Rightarrow> 'v deque \<Rightarrow> 'v deque" where
  "deque_grow b t d =
    (let c = u32wrap (d_capacity d * 2); old = last (d_buffers d) in
     d\<lparr>d_capacity := c, d_buffers := d_buffers d @ [grow_copy old [t..<b] (replicate c None)]\<rparr>)"

text \<open>
  Where the owner is: in \<^verbatim>\<open>pop\<close> after the decrement, after the bound was read, before the
  compare-and-swap, and before the final store; in \<^verbatim>\<open>push\<close> before the first test, before the
  second, before the slot is written and before the final store.
\<close>

datatype 'v owner =
  OIdle | OPop1 nat | OPop2 nat | OPop3 nat "'v option" | OPop4 "'v option" |
  OPush1 'v | OPush2 'v | OPush3 'v | OPush4 'v

text \<open>
  Where a thief is: after reading the top, after finding the deque non-empty, after loading the
  buffer pointer, and after reading the value.
\<close>

datatype 'v thief = TIdle | TTop nat | TBottom nat | TBuffer nat nat | TValue nat "'v option"

text \<open>One step of the owner: the deque, where it is next, and what a finished call returns.\<close>

fun owner_step :: "bool \<Rightarrow> 'v owner \<Rightarrow> 'v deque \<Rightarrow> 'v deque \<times> 'v owner \<times> 'v option" where
  "owner_step sp OIdle d = (let b = d_bottom d - 1 in (d\<lparr>d_bottom := b\<rparr>, OPop1 b, None))"
| "owner_step sp (OPop1 b) d = (d\<lparr>d_topBound := d_top d\<rparr>, OPop2 b, None)"
| "owner_step sp (OPop2 b) d =
    (if b < d_topBound d then (d\<lparr>d_bottom := d_topBound d\<rparr>, OIdle, None)
     else let v = buffer_get (last (d_buffers d)) b in
       if b > d_topBound d then (d, OIdle, v) else (d, OPop3 b v, None))"
| "owner_step sp (OPop3 b v) d =
    (case tryIncTop sp (d_topBound d) d of (d', ok) \<Rightarrow> (d', OPop4 (if ok then v else None), None))"
| "owner_step sp (OPop4 r) d = (d\<lparr>d_bottom := d_topBound d + 1\<rparr>, OIdle, r)"
| "owner_step sp (OPush1 v) d =
    (if d_bottom d - d_topBound d \<ge> d_capacity d then (d\<lparr>d_topBound := d_top d\<rparr>, OPush2 v, None) else (d, OPush3 v, None))"
| "owner_step sp (OPush2 v) d =
    (if d_bottom d - d_topBound d \<ge> d_capacity d then (deque_grow (d_bottom d) (d_topBound d) d, OPush3 v, None) else (d, OPush3 v, None))"
| "owner_step sp (OPush3 v) d =
    (d\<lparr>d_buffers := butlast (d_buffers d) @ [buffer_set (last (d_buffers d)) (d_bottom d) (Some v)]\<rparr>, OPush4 v, None)"
| "owner_step sp (OPush4 v) d = (d\<lparr>d_bottom := d_bottom d + 1\<rparr>, OIdle, None)"

text \<open>What \<^verbatim>\<open>push\<close> returns after its last step: its estimate of the size.\<close>

definition push_size :: "'v deque \<Rightarrow> nat" where
  "push_size d = d_bottom d - d_topBound d"

text \<open>One step of \<^verbatim>\<open>steal\<close>.\<close>

fun thief_step :: "bool \<Rightarrow> 'v thief \<Rightarrow> 'v deque \<Rightarrow> 'v deque \<times> 'v thief \<times> 'v option" where
  "thief_step sp TIdle d = (d, TTop (d_top d), None)"
| "thief_step sp (TTop t) d = (if d_bottom d \<le> t then (d, TIdle, None) else (d, TBottom t, None))"
| "thief_step sp (TBottom t) d = (d, TBuffer t (length (d_buffers d) - 1), None)"
| "thief_step sp (TBuffer t k) d = (d, TValue t (buffer_get (d_buffers d ! k) t), None)"
| "thief_step sp (TValue t v) d = (case tryIncTop sp t d of (d', ok) \<Rightarrow> (d', TIdle, if ok then v else None))"

record 'v cl =
  cl_deque :: "'v deque"
  cl_owner :: "'v owner"
  cl_thief :: "nat \<Rightarrow> 'v thief"
  cl_pushed :: "'v list"
  cl_taken :: "'v list"

definition log_pushed :: "'v owner \<Rightarrow> 'v list \<Rightarrow> 'v list" where
  "log_pushed pc xs = (case pc of OPush4 v \<Rightarrow> xs @ [v] | _ \<Rightarrow> xs)"

definition log_taken :: "'v option \<Rightarrow> 'v list \<Rightarrow> 'v list" where
  "log_taken r xs = (case r of Some v \<Rightarrow> xs @ [v] | None \<Rightarrow> xs)"

inductive cl_step :: "'v cl \<Rightarrow> 'v cl \<Rightarrow> bool" where
  push: "cl_owner s = OIdle \<Longrightarrow> cl_step s (s\<lparr>cl_owner := OPush1 v\<rparr>)"
| owner: "owner_step sp (cl_owner s) (cl_deque s) = (d, pc, r) \<Longrightarrow>
    cl_step s (s\<lparr>cl_deque := d, cl_owner := pc, cl_pushed := log_pushed (cl_owner s) (cl_pushed s),
      cl_taken := log_taken r (cl_taken s)\<rparr>)"
| thief: "thief_step sp (cl_thief s j) (cl_deque s) = (d, pc, r) \<Longrightarrow>
    cl_step s (s\<lparr>cl_deque := d, cl_thief := (cl_thief s)(j := pc), cl_taken := log_taken r (cl_taken s)\<rparr>)"

inductive cl_reach :: "nat \<Rightarrow> 'v cl \<Rightarrow> bool" for capacity where
  start: "cl_reach capacity
    \<lparr> cl_deque = deque_new capacity, cl_owner = OIdle, cl_thief = (\<lambda>j. TIdle), cl_pushed = [], cl_taken = [] \<rparr>"
| step: "cl_reach capacity s \<Longrightarrow> cl_step s s' \<Longrightarrow> cl_reach capacity s'"

section \<open>Buffers\<close>

lemma length_buffer_set [simp]: "length (buffer_set buf i v) = length buf"
  by (simp add: buffer_set_def)

lemma buffer_get_mod: "pow2 (length buf) \<Longrightarrow> buffer_get buf i = buf ! (i mod length buf)"
  by (simp add: buffer_get_def mask_index_mod)

lemma buffer_get_set:
  assumes "pow2 (length buf)" "lo \<le> i" "i < lo + length buf" "lo \<le> j" "j < lo + length buf"
  shows "buffer_get (buffer_set buf i v) j = (if j = i then v else buffer_get buf j)"
proof -
  have "i mod length buf = j mod length buf \<longleftrightarrow> i = j"
    using mod_window_inj [of i j "length buf"] mod_window_inj [of j i "length buf"] assms
    by (cases i j rule: linorder_cases) auto
  moreover have "i mod length buf < length buf" using pow2_pos [OF assms(1)] by simp
  ultimately show ?thesis using assms(1)
    by (simp add: buffer_get_mod) (simp add: buffer_set_def mask_index_mod nth_list_update)
qed

lemma length_grow_copy [simp]: "length (grow_copy old is buf) = length buf"
  by (induction "is" arbitrary: buf) simp_all

lemma grow_copy_get:
  assumes "pow2 (length buf)" "\<forall>i \<in> set is. lo \<le> i \<and> i < lo + length buf" "lo \<le> j" "j < lo + length buf"
  shows "buffer_get (grow_copy old is buf) j = (if j \<in> set is then buffer_get old j else buffer_get buf j)"
  using assms
proof (induction "is" arbitrary: buf)
  case (Cons i "is")
  have "buffer_get (buffer_set buf i (buffer_get old i)) j = (if j = i then buffer_get old i else buffer_get buf j)"
    using Cons.prems by (intro buffer_get_set [where lo = lo]) auto
  then show ?case using Cons.IH [of "buffer_set buf i (buffer_get old i)"] Cons.prems by auto
qed simp

section \<open>Invariant\<close>

definition slot :: "'v deque \<Rightarrow> nat \<Rightarrow> 'v option" where
  "slot d i = buffer_get (last (d_buffers d)) i"

text \<open>
  The end of the items that are still in the deque, and of the slots that hold items. The two
  differ when a pop has found more than one item: that item is the owner's from then on.
\<close>

fun hi :: "'v owner \<Rightarrow> 'v deque \<Rightarrow> nat" where
  "hi (OPop1 b) d = b + 1"
| "hi (OPop2 b) d = (if d_topBound d < b then b else b + 1)"
| "hi (OPop3 b v) d = b + 1"
| "hi (OPop4 r) d = d_topBound d + 1"
| "hi pc d = d_bottom d"

fun vhi :: "'v owner \<Rightarrow> 'v deque \<Rightarrow> nat" where
  "vhi (OPop2 b) d = b + 1"
| "vhi pc d = hi pc d"

fun inflight :: "'v owner \<Rightarrow> 'v deque \<Rightarrow> 'v option list" where
  "inflight (OPop2 b) d = (if d_topBound d < b then [slot d b] else [])"
| "inflight (OPop4 (Some v)) d = [Some v]"
| "inflight pc d = []"

fun owner_ok :: "'v owner \<Rightarrow> 'v deque \<Rightarrow> bool" where
  "owner_ok (OPop1 b) d = (d_bottom d = b)"
| "owner_ok (OPop2 b) d = (d_bottom d = b)"
| "owner_ok (OPop3 b v) d = (d_bottom d = b \<and> d_topBound d = b \<and> (d_top d = b \<longrightarrow> v = slot d b))"
| "owner_ok (OPop4 r) d = (d_bottom d = d_topBound d \<and> (r \<noteq> None \<longrightarrow> d_top d = d_topBound d + 1))"
| "owner_ok (OPush3 v) d = (d_bottom d < d_topBound d + d_capacity d)"
| "owner_ok (OPush4 v) d = (d_bottom d < d_topBound d + d_capacity d \<and> slot d (d_bottom d) = Some v)"
| "owner_ok pc d = True"

definition deque_ok :: "'v owner \<Rightarrow> 'v deque \<Rightarrow> nat \<Rightarrow> bool" where
  "deque_ok pc d n = (pow2 (d_capacity d) \<and> d_buffers d \<noteq> [] \<and> length (last (d_buffers d)) = d_capacity d \<and>
    1 \<le> d_topBound d \<and> d_topBound d \<le> d_top d \<and> d_top d \<le> hi pc d \<and> vhi pc d \<le> d_topBound d + d_capacity d \<and>
    vhi pc d \<le> n + 1 \<and> (\<forall>i. d_top d \<le> i \<longrightarrow> i < vhi pc d \<longrightarrow> slot d i \<noteq> None) \<and> owner_ok pc d)"

fun thief_ok :: "'v owner \<Rightarrow> 'v deque \<Rightarrow> 'v thief \<Rightarrow> bool" where
  "thief_ok pc d TIdle = True"
| "thief_ok pc d (TTop t) = (t \<le> d_top d)"
| "thief_ok pc d (TBottom t) = (t \<le> d_top d \<and> (t = d_top d \<longrightarrow> t < hi pc d))"
| "thief_ok pc d (TBuffer t k) = (t \<le> d_top d \<and> k < length (d_buffers d) \<and>
    (t = d_top d \<longrightarrow> t < hi pc d \<and> buffer_get (d_buffers d ! k) t = slot d t))"
| "thief_ok pc d (TValue t v) = (t \<le> d_top d \<and> (t = d_top d \<longrightarrow> t < hi pc d \<and> v = slot d t))"

definition items :: "'v owner \<Rightarrow> 'v deque \<Rightarrow> 'v option list" where
  "items pc d = map (slot d) [d_top d..<hi pc d]"

definition cl_inv :: "'v cl \<Rightarrow> bool" where
  "cl_inv s = (deque_ok (cl_owner s) (cl_deque s) (length (cl_pushed s)) \<and>
    (\<forall>j. thief_ok (cl_owner s) (cl_deque s) (cl_thief s j)) \<and>
    mset (map Some (cl_pushed s)) =
      mset (map Some (cl_taken s)) + mset (inflight (cl_owner s) (cl_deque s)) + mset (items (cl_owner s) (cl_deque s)))"

lemma hi_le_vhi: "hi pc d \<le> vhi pc d"
  by (cases pc) simp_all

lemma bottom_le_hi: "owner_ok pc d \<Longrightarrow> d_bottom d \<le> hi pc d"
  by (cases pc) simp_all

lemma deque_okD:
  assumes "deque_ok pc d n"
  shows "pow2 (d_capacity d)" "d_buffers d \<noteq> []" "length (last (d_buffers d)) = d_capacity d" "1 \<le> d_topBound d"
    "d_topBound d \<le> d_top d" "d_top d \<le> hi pc d" "vhi pc d \<le> d_topBound d + d_capacity d" "vhi pc d \<le> n + 1"
    "\<And>i. d_top d \<le> i \<Longrightarrow> i < vhi pc d \<Longrightarrow> slot d i \<noteq> None" "owner_ok pc d"
  using assms unfolding deque_ok_def by blast+

text \<open>A thief does not notice a step that leaves the slot at the top alone or moves the top on.\<close>

lemma thief_frame:
  assumes "thief_ok pc d th" "d_top d \<le> d_top d'" "length (d_buffers d) \<le> length (d_buffers d')"
    "d_top d' = d_top d \<Longrightarrow> d_top d < hi pc d \<Longrightarrow> d_top d < hi pc' d' \<and> slot d' (d_top d) = slot d (d_top d) \<and>
      (\<forall>k < length (d_buffers d). buffer_get (d_buffers d' ! k) (d_top d) = buffer_get (d_buffers d ! k) (d_top d))"
  shows "thief_ok pc' d' th"
proof (cases "d_top d' = d_top d")
  case True
  then show ?thesis using assms by (cases th) auto
next
  case False
  then show ?thesis using assms(1-3) by (cases th) auto
qed

section \<open>Steps\<close>

definition pushed1 :: "'v owner \<Rightarrow> 'v option list" where
  "pushed1 pc = (case pc of OPush4 v \<Rightarrow> [Some v] | _ \<Rightarrow> [])"

fun pushing :: "'v owner \<Rightarrow> bool" where
  "pushing (OPush1 v) = True"
| "pushing (OPush2 v) = True"
| "pushing (OPush3 v) = True"
| "pushing (OPush4 v) = True"
| "pushing pc = False"

definition taken1 :: "'v option \<Rightarrow> 'v option list" where
  "taken1 r = (case r of Some v \<Rightarrow> [Some v] | None \<Rightarrow> [])"

lemma logs: "map Some (log_pushed pc xs) = map Some xs @ pushed1 pc" "map Some (log_taken r xs) = map Some xs @ taken1 r"
  "length (log_pushed pc xs) = length xs + length (pushed1 pc)"
  by (simp_all add: log_pushed_def pushed1_def log_taken_def taken1_def split: owner.split option.split)

text \<open>What a step of the owner owes to the thieves and to the books.\<close>

definition owner_law :: "'v owner \<Rightarrow> 'v deque \<Rightarrow> nat \<Rightarrow> 'v deque \<times> 'v owner \<times> 'v option \<Rightarrow> bool" where
  "owner_law pc d n = (\<lambda>(d', pc', r). deque_ok pc' d' (n + length (pushed1 pc)) \<and> d_top d \<le> d_top d' \<and>
    length (d_buffers d) \<le> length (d_buffers d') \<and>
    (d_top d' = d_top d \<longrightarrow> d_top d < hi pc d \<longrightarrow> d_top d < hi pc' d' \<and> slot d' (d_top d) = slot d (d_top d) \<and>
      (\<forall>k < length (d_buffers d). buffer_get (d_buffers d' ! k) (d_top d) = buffer_get (d_buffers d ! k) (d_top d))) \<and>
    mset (inflight pc d) + mset (items pc d) + mset (pushed1 pc) = mset (taken1 r) + mset (inflight pc' d') + mset (items pc' d') \<and>
    (pushing pc \<longrightarrow> r = None \<and> items pc' d' = items pc d @ pushed1 pc))"

lemma slot_upd [simp]:
  "slot (d\<lparr>d_bottom := b\<rparr>) = slot d" "slot (d\<lparr>d_topBound := b\<rparr>) = slot d" "slot (d\<lparr>d_top := b\<rparr>) = slot d"
  by (simp_all add: slot_def fun_eq_iff)

lemma top_upd [simp]: "hi pc (d\<lparr>d_top := t\<rparr>) = hi pc d" "vhi pc (d\<lparr>d_top := t\<rparr>) = vhi pc d"
  "inflight pc (d\<lparr>d_top := t\<rparr>) = inflight pc d"
  by (induction pc d rule: inflight.induct) simp_all

lemma law_pop1: "deque_ok OIdle d n \<Longrightarrow> owner_law OIdle d n (owner_step sp OIdle d)"
  by (auto simp: owner_law_def deque_ok_def pushed1_def taken1_def items_def Let_def)

lemma law_pop2: "deque_ok (OPop1 b) d n \<Longrightarrow> owner_law (OPop1 b) d n (owner_step sp (OPop1 b) d)"
  by (auto simp: owner_law_def deque_ok_def pushed1_def taken1_def items_def Let_def)

lemma law_pop3: "deque_ok (OPop2 b) d n \<Longrightarrow> owner_law (OPop2 b) d n (owner_step sp (OPop2 b) d)"
  by (auto simp: owner_law_def deque_ok_def pushed1_def taken1_def items_def Let_def slot_def [symmetric])

lemma law_pop4: "deque_ok (OPop3 b v) d n \<Longrightarrow> owner_law (OPop3 b v) d n (owner_step sp (OPop3 b v) d)"
  by (auto simp: owner_law_def deque_ok_def pushed1_def taken1_def items_def tryIncTop_def)

lemma law_pop5: "deque_ok (OPop4 r) d n \<Longrightarrow> owner_law (OPop4 r) d n (owner_step sp (OPop4 r) d)"
  by (cases r) (auto simp: owner_law_def deque_ok_def pushed1_def taken1_def items_def)

lemma law_push1: "deque_ok (OPush1 v) d n \<Longrightarrow> owner_law (OPush1 v) d n (owner_step sp (OPush1 v) d)"
  by (auto simp: owner_law_def deque_ok_def pushed1_def taken1_def items_def)

lemma law_push4: "deque_ok (OPush4 v) d n \<Longrightarrow> owner_law (OPush4 v) d n (owner_step sp (OPush4 v) d)"
  by (auto simp: owner_law_def deque_ok_def pushed1_def taken1_def items_def less_Suc_eq simp del: mset_upt)

lemma law_push3:
  assumes "deque_ok (OPush3 v) d n"
  shows "owner_law (OPush3 v) d n (owner_step sp (OPush3 v) d)"
proof -
  note i = deque_okD [OF assms]
  let ?old = "last (d_buffers d)" and ?new = "buffer_set (last (d_buffers d)) (d_bottom d) (Some v)"
  let ?d = "d\<lparr>d_buffers := butlast (d_buffers d) @ [?new]\<rparr>"
  have b: "d_bottom d < d_topBound d + d_capacity d" "d_top d \<le> d_bottom d" using i(6,10) by simp_all
  have at: "buffer_get ?new j = (if j = d_bottom d then Some v else buffer_get ?old j)"
    if "d_topBound d \<le> j" "j < d_topBound d + d_capacity d" for j
    by (rule buffer_get_set [where lo = "d_topBound d"]) (use i b that in auto)
  have sl: "slot ?d j = (if j = d_bottom d then Some v else slot d j)" if "d_topBound d \<le> j" "j < d_topBound d + d_capacity d" for j
    using at [OF that] by (simp add: slot_def)
  have old: "buffer_get (d_buffers ?d ! k) (d_top d) = buffer_get (d_buffers d ! k) (d_top d)"
    if "k < length (d_buffers d)" "d_top d < d_bottom d" for k
  proof (cases "k < length (d_buffers d) - 1")
    case True
    then show ?thesis by (simp add: nth_append nth_butlast)
  next
    case False
    then have k: "k = length (d_buffers d) - 1" using that(1) by simp
    then have "d_buffers ?d ! k = ?new" "d_buffers d ! k = ?old" using i(2) by (simp_all add: nth_append last_conv_nth)
    then show ?thesis using at [of "d_top d"] that(2) i(5) b by simp
  qed
  have "items (OPush4 v) ?d = items (OPush3 v) d"
    using sl i(5,7) b by (auto simp: items_def)
  moreover have "deque_ok (OPush4 v) ?d n" using i b sl by (auto simp: deque_ok_def)
  ultimately show ?thesis using old sl [of "d_top d"] i b
    by (auto simp: owner_law_def pushed1_def taken1_def)
qed

lemma law_push2:
  assumes "deque_ok (OPush2 v) d n" "n < 2 ^ 31"
  shows "owner_law (OPush2 v) d n (owner_step sp (OPush2 v) d)"
proof (cases "d_bottom d - d_topBound d \<ge> d_capacity d")
  case False
  then show ?thesis using assms(1) by (auto simp: owner_law_def deque_ok_def pushed1_def taken1_def items_def)
next
  case True
  note i = deque_okD [OF assms(1)]
  let ?c = "d_capacity d" and ?old = "last (d_buffers d)"
  have full: "d_bottom d = d_topBound d + ?c" using True i(4,5,6,7) by simp
  then have c: "2 * ?c < 2 ^ 32" "?c < 2 ^ 31" "pow2 (2 * ?c)" using assms(2) i(1,4,8) pow2_double [OF i(1)] by auto
  let ?new = "grow_copy ?old [d_topBound d..<d_bottom d] (replicate (2 * ?c) None)"
  let ?d = "d\<lparr>d_capacity := 2 * ?c, d_buffers := d_buffers d @ [?new]\<rparr>"
  have g: "deque_grow (d_bottom d) (d_topBound d) d = ?d" using c(1) by (simp add: deque_grow_def Let_def mult.commute)
  have sl: "slot ?d j = slot d j" if "d_topBound d \<le> j" "j < d_bottom d" for j
  proof -
    have "buffer_get ?new j = buffer_get ?old j"
      using grow_copy_get [of "replicate (2 * ?c) None" "[d_topBound d..<d_bottom d]" "d_topBound d" j ?old] that full c(3) by auto
    then show ?thesis by (simp add: slot_def)
  qed
  have "items (OPush3 v) ?d = items (OPush2 v) d" using sl i(5) by (auto simp: items_def)
  moreover have "deque_ok (OPush3 v) ?d n" using i sl c(3) full pow2_pos [OF i(1)] by (auto simp: deque_ok_def)
  moreover have "d_buffers ?d ! k = d_buffers d ! k" if "k < length (d_buffers d)" for k using that by (simp add: nth_append)
  ultimately show ?thesis using True g sl i(5) by (auto simp: owner_law_def pushed1_def taken1_def)
qed

lemma owner_step_law:
  assumes "deque_ok pc d n" "n < 2 ^ 31"
  shows "owner_law pc d n (owner_step sp pc d)"
  using assms by (cases pc) (simp_all only: law_pop1 law_pop2 law_pop3 law_pop4 law_pop5 law_push1 law_push2 law_push3 law_push4)

text \<open>A step of a thief keeps the owner's side, the other thieves and the books.\<close>

lemma thief_step_law:
  assumes ok: "deque_ok pc d n" and th: "thief_ok pc d th" and st: "thief_step sp th d = (d', th', r)"
  shows "deque_ok pc d' n" "thief_ok pc d' th'" "thief_ok pc d x \<Longrightarrow> thief_ok pc d' x"
    "mset (inflight pc d) + mset (items pc d) = mset (taken1 r) + mset (inflight pc d') + mset (items pc d')"
proof -
  have *: "deque_ok pc d' n \<and> thief_ok pc d' th' \<and> (\<forall>x. thief_ok pc d x \<longrightarrow> thief_ok pc d' x) \<and>
    mset (inflight pc d) + mset (items pc d) = mset (taken1 r) + mset (inflight pc d') + mset (items pc d')"
  proof (cases "\<exists>t v. th = TValue t v \<and> d_top d = t \<and> \<not> sp")
    case True
    then obtain t v where t: "th = TValue t v" "d_top d = t" "\<not> sp" by blast
    then have d': "d' = d\<lparr>d_top := t + 1\<rparr>" "th' = TIdle" "r = v" using st by (simp_all add: tryIncTop_def)
    have lt: "t < hi pc d" "v = slot d t" using th t by simp_all
    then obtain y where y: "slot d t = Some y" using deque_okD(9) [OF ok, of t] hi_le_vhi [of pc d] t(2) by force
    have hi: "hi pc d' = hi pc d" "vhi pc d' = vhi pc d" "inflight pc d' = inflight pc d" unfolding d' by (rule top_upd)+
    have "items pc d = slot d t # items pc d'" using lt(1) t(2) by (simp add: items_def d'(1) upt_conv_Cons)
    moreover have "deque_ok pc d' n"
      using ok lt(1) t(2) unfolding deque_ok_def hi by (cases pc) (auto simp: d')
    moreover have "thief_ok pc d' x" if "thief_ok pc d x" for x
      by (rule thief_frame [OF that]) (use t(2) in \<open>simp_all add: d'\<close>)
    ultimately show ?thesis using y lt(2) by (simp add: d'(2,3) taken1_def hi)
  next
    case False
    have "d' = d \<and> r = None \<and> thief_ok pc d th'"
      using False st th deque_okD [OF ok] bottom_le_hi [OF deque_okD(10) [OF ok]] by (cases th) (auto simp: tryIncTop_def slot_def last_conv_nth split: if_splits)
    then show ?thesis using ok by (simp add: taken1_def)
  qed
  then show "deque_ok pc d' n" "thief_ok pc d' th'" "thief_ok pc d x \<Longrightarrow> thief_ok pc d' x"
    "mset (inflight pc d) + mset (items pc d) = mset (taken1 r) + mset (inflight pc d') + mset (items pc d')" by blast+
qed

section \<open>Reachable states\<close>

lemma deque_new_ok:
  assumes "0 < capacity" "capacity \<le> 2 ^ 31"
  shows "deque_ok OIdle (deque_new capacity :: 'v deque) 0"
  using pow2_ceil2 [OF assms] pow2_pos [OF pow2_ceil2 [OF assms]] by (auto simp: deque_ok_def deque_new_def Let_def)

lemma cl_step_inv:
  assumes "cl_step s s'" "cl_inv s" "length (cl_pushed s') < 2 ^ 31"
  shows "cl_inv s'"
  using assms
proof (induction rule: cl_step.induct)
  case (push s v)
  have "thief_ok (OPush1 v) (cl_deque s) (cl_thief s j)" for j
    by (rule thief_frame [where pc = "cl_owner s" and d = "cl_deque s"]) (use push in \<open>auto simp: cl_inv_def\<close>)
  then show ?case using push by (auto simp: cl_inv_def deque_ok_def items_def)
next
  case (owner sp s d pc r)
  have inv: "deque_ok (cl_owner s) (cl_deque s) (length (cl_pushed s))" "\<And>j. thief_ok (cl_owner s) (cl_deque s) (cl_thief s j)"
    using owner.prems(1) by (simp_all add: cl_inv_def)
  have "owner_law (cl_owner s) (cl_deque s) (length (cl_pushed s)) (d, pc, r)"
    using owner_step_law [OF inv(1), of sp] owner by (simp add: logs)
  then have l: "deque_ok pc d (length (log_pushed (cl_owner s) (cl_pushed s)))" "\<And>j. thief_ok pc d (cl_thief s j)"
    "mset (inflight (cl_owner s) (cl_deque s)) + mset (items (cl_owner s) (cl_deque s)) + mset (pushed1 (cl_owner s)) =
      mset (taken1 r) + mset (inflight pc d) + mset (items pc d)"
    using thief_frame [OF inv(2)] by (simp_all add: owner_law_def logs)
  have "mset (map Some (cl_pushed s)) = mset (map Some (cl_taken s)) + mset (inflight (cl_owner s) (cl_deque s)) +
    mset (items (cl_owner s) (cl_deque s))" using owner.prems(1) by (simp add: cl_inv_def del: mset_map)
  then show ?case using l by (simp add: cl_inv_def logs del: mset_map) (metis (no_types, lifting) add.assoc)
next
  case (thief sp s j d pc r)
  have inv: "deque_ok (cl_owner s) (cl_deque s) (length (cl_pushed s))" "\<And>j. thief_ok (cl_owner s) (cl_deque s) (cl_thief s j)"
    using thief.prems(1) by (simp_all add: cl_inv_def)
  note l = thief_step_law [OF inv(1) inv(2) thief.hyps]
  have "mset (map Some (cl_pushed s)) = mset (map Some (cl_taken s)) + (mset (inflight (cl_owner s) (cl_deque s)) +
    mset (items (cl_owner s) (cl_deque s)))" using thief.prems(1) by (simp add: cl_inv_def add.assoc del: mset_map)
  then show ?case using l(1,2) l(3) [OF inv(2)] unfolding l(4) by (simp add: cl_inv_def logs add.assoc del: mset_map)
qed

lemma cl_step_pushed: "cl_step s s' \<Longrightarrow> length (cl_pushed s) \<le> length (cl_pushed s')"
  by (induction rule: cl_step.induct) (simp_all add: logs)

lemma cl_reach_inv:
  assumes "cl_reach capacity s" "0 < capacity" "capacity \<le> 2 ^ 31" "length (cl_pushed s) < 2 ^ 31"
  shows "cl_inv s"
  using assms
proof (induction rule: cl_reach.induct)
  case start
  then show ?case using deque_new_ok by (simp add: cl_inv_def items_def deque_new_def Let_def)
next
  case (step s s')
  then show ?case using cl_step_inv cl_step_pushed by fastforce
qed

text \<open>Schedules, to run the deque on concrete inputs.\<close>

datatype 'v event = Push 'v | Owner | Thief nat

fun cl_exec :: "'v event \<Rightarrow> 'v cl \<Rightarrow> 'v cl" where
  "cl_exec (Push v) s = (if cl_owner s = OIdle then s\<lparr>cl_owner := OPush1 v\<rparr> else s)"
| "cl_exec Owner s = (case owner_step False (cl_owner s) (cl_deque s) of (d, pc, r) \<Rightarrow>
    s\<lparr>cl_deque := d, cl_owner := pc, cl_pushed := log_pushed (cl_owner s) (cl_pushed s), cl_taken := log_taken r (cl_taken s)\<rparr>)"
| "cl_exec (Thief j) s = (case thief_step False (cl_thief s j) (cl_deque s) of (d, pc, r) \<Rightarrow>
    s\<lparr>cl_deque := d, cl_thief := (cl_thief s)(j := pc), cl_taken := log_taken r (cl_taken s)\<rparr>)"

definition cl_start :: "nat \<Rightarrow> 'v cl" where
  "cl_start capacity = \<lparr> cl_deque = deque_new capacity, cl_owner = OIdle, cl_thief = (\<lambda>j. TIdle), cl_pushed = [], cl_taken = [] \<rparr>"

lemma cl_exec_reach: "cl_reach capacity s \<Longrightarrow> cl_reach capacity (cl_exec e s)"
  by (cases e) (auto intro: cl_reach.step cl_step.intros split: prod.split)

lemma cl_fold_reach: "cl_reach capacity (fold cl_exec es (cl_start capacity))"
proof -
  have "cl_reach capacity s \<Longrightarrow> cl_reach capacity (fold cl_exec es s)" for s
    by (induction es arbitrary: s) (simp_all add: cl_exec_reach)
  then show ?thesis unfolding cl_start_def by (blast intro: cl_reach.start)
qed

text \<open>
  C2: Under every interleaving of the owner's pushes and pops with any number of thieves, the
  deque gives every pushed item to exactly one taker. The items taken so far are among those
  pushed, counted with multiplicity; whenever the owner is between calls, the remaining ones
  are exactly those in the slots from top to bottom, so nothing is lost either.
\<close>
theorem chaselev_exactly_once:
  assumes "cl_reach capacity s" "0 < capacity" "capacity \<le> 2 ^ 31" "length (cl_pushed s) < 2 ^ 31"
  shows "mset (cl_taken s) \<subseteq># mset (cl_pushed s) \<and>
    (cl_owner s = OIdle \<longrightarrow> deque_size (cl_deque s) + length (cl_taken s) = length (cl_pushed s) \<and>
      mset (map Some (cl_pushed s)) =
        mset (map Some (cl_taken s)) + mset (map (slot (cl_deque s)) [d_top (cl_deque s)..<d_bottom (cl_deque s)]))"
proof -
  have inv: "mset (map Some (cl_pushed s)) = mset (map Some (cl_taken s)) + mset (inflight (cl_owner s) (cl_deque s)) +
      mset (items (cl_owner s) (cl_deque s))"
    using cl_reach_inv [OF assms] by (simp add: cl_inv_def del: mset_map)
  then have "mset (map Some (cl_taken s)) \<subseteq># mset (map Some (cl_pushed s))" by (simp add: add.assoc del: mset_map)
  then have "image_mset the (mset (map Some (cl_taken s))) \<subseteq># image_mset the (mset (map Some (cl_pushed s)))"
    by (rule image_mset_subseteq_mono)
  then have "mset (cl_taken s) \<subseteq># mset (cl_pushed s)" by (simp add: image_mset.compositionality o_def)
  moreover have q: "mset (map Some (cl_pushed s)) =
      mset (map Some (cl_taken s)) + mset (map (slot (cl_deque s)) [d_top (cl_deque s)..<d_bottom (cl_deque s)])"
    if "cl_owner s = OIdle" using inv that by (simp add: items_def del: mset_map)
  moreover have "deque_size (cl_deque s) + length (cl_taken s) = length (cl_pushed s)" if "cl_owner s = OIdle"
    using arg_cong [OF q [OF that], of "size"] by (simp add: deque_size_def)
  ultimately show ?thesis by blast
qed

text \<open>Two pushes; a pop races with a thief for the last item after another thief took the first.\<close>

definition race :: "nat event list" where
  "race = [Push 7, Owner, Owner, Owner, Push 8, Owner, Owner, Owner, Owner, Thief 1, Thief 1, Thief 1, Thief 1, Thief 1,
    Thief 2, Thief 2, Thief 2, Thief 2, Owner, Owner, Owner, Owner, Thief 2, Owner]"

lemma mask_small: "mask_index i (Suc 0) = 0" "mask_index i 2 = i mod 2"
proof -
  have "pow2 (2 ^ k)" if "k < 32" for k using that by (auto simp: pow2_def)
  note p = this [of 0, simplified] this [of 1, simplified]
  then show "mask_index i (Suc 0) = 0" "mask_index i 2 = i mod 2" using mask_index_mod [of 1 i] mask_index_mod [of 2 i] by simp_all
qed

lemma deque_new_1: "deque_new (Suc 0) = \<lparr> d_bottom = 1, d_topBound = 1, d_capacity = 1, d_buffers = [[None]], d_top = 1 \<rparr>"
  using ceil_log2_pow2 [of 0, where 'a = 32] by (simp add: deque_new_def Let_def ceil2_def)

theorem chaselev_exactly_once_witness:
  "let s = fold cl_exec race (cl_start 1) in
    cl_owner s = OIdle \<and> cl_pushed s = [7, 8] \<and> cl_taken s = [7, 8] \<and> deque_size (cl_deque s) + length (cl_taken s) = length (cl_pushed s)"
proof -
  let ?s = "fold cl_exec race (cl_start 1)"
  have s: "cl_owner ?s = OIdle \<and> cl_pushed ?s = [7, 8] \<and> cl_taken ?s = [7, 8]"
    by (simp add: race_def cl_start_def deque_new_1 log_pushed_def log_taken_def tryIncTop_def buffer_get_def buffer_set_def mask_small
      deque_grow_def Let_def u32wrap_def)
  then have "mset (cl_taken ?s) \<subseteq># mset (cl_pushed ?s) \<and>
    (cl_owner ?s = OIdle \<longrightarrow> deque_size (cl_deque ?s) + length (cl_taken ?s) = length (cl_pushed ?s) \<and>
      mset (map Some (cl_pushed ?s)) =
        mset (map Some (cl_taken ?s)) + mset (map (slot (cl_deque ?s)) [d_top (cl_deque ?s)..<d_bottom (cl_deque ?s)]))"
    by (intro chaselev_exactly_once [OF cl_fold_reach]) (simp_all only: s, simp_all)
  with s show ?thesis by (simp add: Let_def)
qed

section \<open>Calls that run alone\<close>

text \<open>
  A call run to its end without another thread's step between; \<open>sp\<close> says whether the weak compare-and-swap
  of the call, if it comes to one, fails spuriously.
\<close>

fun owner_run :: "bool \<Rightarrow> nat \<Rightarrow> 'v owner \<Rightarrow> 'v deque \<Rightarrow> ('v deque \<times> 'v option) option" where
  "owner_run sp 0 pc d = None"
| "owner_run sp (Suc n) pc d = (case owner_step sp pc d of (d', pc', r) \<Rightarrow> if pc' = OIdle then Some (d', r) else owner_run sp n pc' d')"

fun thief_run :: "bool \<Rightarrow> nat \<Rightarrow> 'v thief \<Rightarrow> 'v deque \<Rightarrow> ('v deque \<times> 'v option) option" where
  "thief_run sp 0 pc d = None"
| "thief_run sp (Suc n) pc d = (case thief_step sp pc d of (d', pc', r) \<Rightarrow> if pc' = TIdle then Some (d', r) else thief_run sp n pc' d')"

lemma push4_alone:
  assumes "deque_ok (OPush4 v) d n"
  shows "\<exists>d'. owner_run sp (Suc k) (OPush4 v) d = Some (d', None) \<and> items OIdle d' = items (OPush4 v) d @ [Some v]"
  using law_push4 [OF assms] by (auto simp: owner_law_def pushed1_def)

text \<open>A step that neither returns nor counts passes the call on with the same items.\<close>

lemma push_pass:
  assumes "owner_law pc d n (owner_step sp pc d)" "pushing pc" "pushed1 pc = []" "owner_step sp pc d = (e, pc', r)" "pc' \<noteq> OIdle"
    "\<And>e. deque_ok pc' e n \<Longrightarrow> \<exists>d'. owner_run sp k pc' e = Some (d', None) \<and> items OIdle d' = items pc' e @ [Some v]"
  shows "\<exists>d'. owner_run sp (Suc k) pc d = Some (d', None) \<and> items OIdle d' = items pc d @ [Some v]"
proof -
  have "deque_ok pc' e n" "items pc' e = items pc d" using assms(1-4) by (simp_all add: owner_law_def)
  then show ?thesis using assms(4,5) assms(6) [of e] by simp
qed

lemma push3_alone:
  assumes "deque_ok (OPush3 v) d n"
  shows "\<exists>d'. owner_run sp (Suc (Suc k)) (OPush3 v) d = Some (d', None) \<and> items OIdle d' = items (OPush3 v) d @ [Some v]"
  by (rule push_pass [OF law_push3 [OF assms] _ _ _ _ push4_alone]) (simp_all add: pushed1_def)

lemma push2_alone:
  assumes "deque_ok (OPush2 v) d n" "n < 2 ^ 31"
  shows "\<exists>d'. owner_run sp (Suc (Suc (Suc k))) (OPush2 v) d = Some (d', None) \<and> items OIdle d' = items (OPush2 v) d @ [Some v]"
  by (rule push_pass [OF law_push2 [OF assms], where e = "fst (owner_step sp (OPush2 v) d)" and r = None, OF _ _ _ _ push3_alone])
    (simp_all add: pushed1_def)

lemma push_alone:
  assumes "deque_ok OIdle d n" "n < 2 ^ 31"
  shows "\<exists>d'. owner_run sp 4 (OPush1 v) d = Some (d', None) \<and> items OIdle d' = items OIdle d @ [Some v]"
proof -
  have ok: "deque_ok (OPush1 v) d n" "items (OPush1 v) d = items OIdle d" using assms(1) by (simp_all add: deque_ok_def items_def)
  note p = push_pass [OF law_push1 [OF ok(1)], where r = None and k = "Suc (Suc (Suc 0))" and v = v and sp = sp]
  show ?thesis
  proof (cases "d_bottom d - d_topBound d \<ge> d_capacity d")
    case True
    then show ?thesis using p [OF _ _ _ _ push2_alone [OF _ assms(2), where sp = sp]] by (simp add: pushed1_def ok(2) numeral_eq_Suc del: owner_run.simps)
  next
    case False
    then show ?thesis using p [where e = d and pc' = "OPush3 v"] push3_alone [of v _ n sp "Suc 0"] by (simp add: pushed1_def ok(2) numeral_eq_Suc del: owner_run.simps)
  qed
qed

lemma pop_alone:
  assumes "deque_ok OIdle d n"
  shows "\<exists>d'. owner_run sp 5 OIdle d =
      Some (d', if items OIdle d = [] \<or> sp \<and> length (items OIdle d) = 1 then None else last (items OIdle d)) \<and>
    items OIdle d' = (if sp \<and> length (items OIdle d) = 1 then items OIdle d else butlast (items OIdle d))"
proof -
  note i = deque_okD [OF assms]
  consider "d_bottom d = d_top d" | "d_bottom d = d_top d + 1" | b where "d_bottom d = Suc b" "d_top d < b"
    using i(6) by (cases "d_bottom d") fastforce+
  then show ?thesis using i(4,5)
    by cases (auto simp: numeral_eq_Suc items_def tryIncTop_def Let_def slot_def butlast_append)
qed

lemma steal_alone:
  assumes "deque_ok OIdle d n"
  shows "\<exists>d'. thief_run sp 5 TIdle d = Some (d', if items OIdle d = [] \<or> sp then None else hd (items OIdle d)) \<and>
    items OIdle d' = (if sp then items OIdle d else tl (items OIdle d))"
  using deque_okD [OF assms] by (auto simp: numeral_eq_Suc items_def tryIncTop_def slot_def last_conv_nth upt_conv_Cons hd_map)

text \<open>
  C22: Run without interference, the deque is a double-ended list: from any reachable state in
  which the owner is between calls, a push appends its item within four steps, a pop removes
  and returns the last one, and a steal the first, within five steps each; on an empty deque
  both return nothing. When the weak compare-and-swap fails spuriously, a steal, and a pop of the only item,
  return nothing within the same number of steps and leave the list as it is; a pop of one of several items needs no
  swap and succeeds all the same. No call can spin.
\<close>
theorem chaselev_refines_list:
  assumes "cl_reach capacity s" "0 < capacity" "capacity \<le> 2 ^ 31" "length (cl_pushed s) < 2 ^ 31" "cl_owner s = OIdle"
  defines "d \<equiv> cl_deque s" and "q \<equiv> map (slot (cl_deque s)) [d_top (cl_deque s)..<d_bottom (cl_deque s)]"
  shows "(\<exists>d'. owner_run sp 4 (OPush1 v) d = Some (d', None) \<and> map (slot d') [d_top d'..<d_bottom d'] = q @ [Some v]) \<and>
    (\<exists>d'. owner_run sp 5 OIdle d = Some (d', if q = [] \<or> sp \<and> length q = 1 then None else last q) \<and>
      map (slot d') [d_top d'..<d_bottom d'] = (if sp \<and> length q = 1 then q else butlast q)) \<and>
    (\<exists>d'. thief_run sp 5 TIdle d = Some (d', if q = [] \<or> sp then None else hd q) \<and>
      map (slot d') [d_top d'..<d_bottom d'] = (if sp then q else tl q))"
proof -
  have ok: "deque_ok OIdle d (length (cl_pushed s))" using cl_reach_inv [OF assms(1-4)] assms(5) by (simp add: cl_inv_def d_def)
  have q: "items OIdle d' = map (slot d') [d_top d'..<d_bottom d']" for d' :: "'a deque" by (simp add: items_def)
  show ?thesis using push_alone [OF ok assms(4), of sp v] pop_alone [OF ok, of sp] steal_alone [OF ok, of sp]
    unfolding q_def d_def [symmetric] q by blast
qed

theorem chaselev_refines_list_witness:
  "let s = fold cl_exec (take 9 race) (cl_start 1); d = cl_deque s in cl_reach 1 s \<and> cl_owner s = OIdle \<and>
    (\<exists>d'. owner_run False 5 OIdle d = Some (d', Some 8) \<and> map (slot d') [d_top d'..<d_bottom d'] = [Some 7]) \<and>
    (\<exists>d'. thief_run False 5 TIdle d = Some (d', Some 7) \<and> map (slot d') [d_top d'..<d_bottom d'] = [Some 8]) \<and>
    (\<exists>d'. thief_run True 5 TIdle d = Some (d', None) \<and> map (slot d') [d_top d'..<d_bottom d'] = [Some 7, Some 8])"
proof -
  let ?s = "fold cl_exec (take 9 race) (cl_start 1)"
  have s: "cl_owner ?s = OIdle" "cl_pushed ?s = [7, 8]" "map (slot (cl_deque ?s)) [d_top (cl_deque ?s)..<d_bottom (cl_deque ?s)] = [Some 7, Some 8]"
    by (simp_all add: race_def cl_start_def deque_new_1 log_pushed_def log_taken_def tryIncTop_def buffer_get_def buffer_set_def mask_small
      deque_grow_def Let_def u32wrap_def slot_def)
  have r: "cl_reach 1 ?s" by (rule cl_fold_reach)
  show ?thesis
    using chaselev_refines_list [of 1 ?s False 9, OF r] chaselev_refines_list [of 1 ?s True 9, OF r] r s(1)
    unfolding Let_def s by (simp del: owner_run.simps thief_run.simps fold_simps)
qed

end
