(* ===== verification/Hpx_Par.thy ===== *)
theory Hpx_Par
  imports Hpx_And "HOL-Library.Signed_Division" "HOL-Library.Multiset"
begin

text \<open>
  The parallel loops of \<^verbatim>\<open>libhpx/par.cpp\<close>: \<^verbatim>\<open>hpx_par_for\<close>, which mails one range per worker,
  \<^verbatim>\<open>hpx_par_call\<close>, which divides a range recursively through parcels, and
  \<^verbatim>\<open>hpx_count_range_call\<close>, which calls an action on every element of an array. The parcels that
  are in flight form a multiset and the scheduler may run them in any order.
\<close>

section \<open>Loops over the workers\<close>

function par_for_async :: "(int \<Rightarrow> 's \<Rightarrow> 's) \<Rightarrow> int \<Rightarrow> int \<Rightarrow> 's \<Rightarrow> 's" where
  "par_for_async f i e s = (if i < e then par_for_async f (i + 1) e (f i s) else s)"
  by auto
termination
  by (relation "measure (\<lambda>(f, i, e, s). nat (e - i))") auto

declare par_for_async.simps [simp del]

fun par_for_loop :: "nat list \<Rightarrow> int \<Rightarrow> int \<Rightarrow> int \<Rightarrow> (nat \<times> int \<times> int) list" where
  "par_for_loop [] base m r = []"
| "par_for_loop (i # is) base m r =
    (let rmax = s32wrap (base + m + (if r > 0 then 1 else 0)) in (i, base, rmax) # par_for_loop is rmax m (r - 1))"

text \<open>The gate that signals the caller, and for each worker the range it is mailed.\<close>

definition hpx_par_for :: "bool \<Rightarrow> nat \<Rightarrow> int \<Rightarrow> int \<Rightarrow> bool \<Rightarrow> (and_lco option \<times> (nat \<times> int \<times> int) list) outcome" where
  "hpx_par_for debug nthreads lo hi sync =
    (let n = s32wrap (hi - lo) in
     assertO (\<not> debug \<or> n > 0)
       (Ret (if sync then Some (And_new (int nthreads)) else None,
          par_for_loop [0..<nthreads] lo (n sdiv int nthreads) (n smod int nthreads))))"

section \<open>Divide and conquer\<close>

record ('e, 'a) par_args =
  pa_action :: nat
  pa_min :: int
  pa_max :: int
  pa_branching_factor :: int
  pa_cutoff :: int
  pa_arg_init :: "(int \<Rightarrow> 'e \<Rightarrow> 'a) option"
  pa_sync :: addr
  pa_env :: 'e

record 'a par_parcel =
  pp_index :: int
  pp_action :: nat
  pp_c_target :: addr
  pp_arg :: "'a option"

text \<open>
  The children one call of the helper spawns. \<^verbatim>\<open>st\<close> gives the status of each \<^verbatim>\<open>hpx_call\<close>; the
  first that fails ends the loop with its status.
\<close>

fun par_spawn :: "(int \<Rightarrow> hpx_status) \<Rightarrow> int list \<Rightarrow> int \<Rightarrow> int \<Rightarrow> ('e, 'a) par_args \<Rightarrow> ('e, 'a) par_args list \<times> hpx_status" where
  "par_spawn st [] m r a = ([], HPX_SUCCESS)"
| "par_spawn st (i # is) m r a =
    (if st i \<noteq> HPX_SUCCESS then ([], st i)
     else let lo = pa_max a; hi = s32wrap (pa_max a + m + (if r > 0 then 1 else 0)) in
       if hi \<le> lo then ([a], HPX_SUCCESS)
       else case par_spawn st is m (r - 1) (a\<lparr>pa_min := lo, pa_max := hi\<rparr>) of (cs, e) \<Rightarrow> (a # cs, e))"

definition par_leaf :: "('e, 'a) par_args \<Rightarrow> int \<Rightarrow> 'a par_parcel" where
  "par_leaf a i = \<lparr> pp_index = i, pp_action = pa_action a, pp_c_target = pa_sync a,
    pp_arg = map_option (\<lambda>f. f i (pa_env a)) (pa_arg_init a) \<rparr>"

definition par_call_helper :: "bool \<Rightarrow> (int \<Rightarrow> hpx_status) \<Rightarrow> ('e, 'a) par_args \<Rightarrow>
    (('e, 'a) par_args list \<times> 'a par_parcel list \<times> hpx_status) outcome" where
  "par_call_helper debug st a =
    (let n = s32wrap (pa_max a - pa_min a); b = pa_branching_factor a in
     assertO (\<not> debug \<or> n > 0 \<and> b > 0 \<and> pa_cutoff a > 0)
       (if n > pa_cutoff a then
          let m = n sdiv b; r = n smod b;
              a0 = a\<lparr>pa_max := s32wrap (pa_min a + m + (if r > 0 then 1 else 0))\<rparr> in
          case par_spawn st [0..b - 1] m (r - 1) a0 of (cs, e) \<Rightarrow> Ret (cs, [], e)
        else Ret ([], map (par_leaf a) [pa_min a..pa_max a - 1], HPX_SUCCESS)))"

definition hpx_par_call :: "bool \<Rightarrow> (int \<Rightarrow> hpx_status) \<Rightarrow> addr \<Rightarrow> ('e, 'a) par_args \<Rightarrow>
    (and_lco option \<times> ('e, 'a) par_args list \<times> 'a par_parcel list \<times> hpx_status) outcome" where
  "hpx_par_call debug st lco a =
    (let n = s32wrap (pa_max a - pa_min a) in
     assertO (\<not> debug \<or> n > 0 \<and> pa_branching_factor a > 0 \<and> pa_cutoff a > 0)
       (bindO (par_call_helper debug st (a\<lparr>pa_sync := if pa_sync a \<noteq> 0 then lco else 0\<rparr>)) (\<lambda>(cs, ps, e).
          Ret (if pa_sync a \<noteq> 0 then Some (And_new n) else None, cs, ps, e))))"

text \<open>
  The calls in flight and the parcels sent. A step runs the handler of some call in flight,
  which is the helper on the arguments it carries.
\<close>

inductive par_run :: "('e, 'a) par_args \<Rightarrow> nat \<Rightarrow> ('e, 'a) par_args multiset \<Rightarrow> 'a par_parcel list \<Rightarrow> bool" for a where
  start: "par_run a 0 {#a#} []"
| step: "par_run a k P S \<Longrightarrow> x \<in># P \<Longrightarrow> par_call_helper True (\<lambda>i. HPX_SUCCESS) x = Ret (cs, ps, e) \<Longrightarrow>
    par_run a (Suc k) (P - {#x#} + mset cs) (S @ ps)"

section \<open>Calls on an array\<close>

record range_args =
  ra_addr :: addr
  ra_count :: nat
  ra_increment :: nat
  ra_bsize :: nat

text \<open>Unsigned 64-bit products, read as the signed difference type of global addresses.\<close>

definition ptrdiff :: "nat \<Rightarrow> int" where
  "ptrdiff n = signed_take_bit 63 (int n)"

text \<open>
  The address addition of the global address space in use is a parameter, and so is the status
  of each call.
\<close>

fun count_range_loop :: "(addr \<Rightarrow> int \<Rightarrow> nat \<Rightarrow> addr) \<Rightarrow> (nat \<Rightarrow> hpx_status) \<Rightarrow> range_args \<Rightarrow> nat list \<Rightarrow> addr list \<times> hpx_status" where
  "count_range_loop add st a [] = ([], HPX_SUCCESS)"
| "count_range_loop add st a (i # is) =
    (let target = add (ra_addr a) (ptrdiff (i * ra_increment a)) (ra_bsize a) in
     if st i \<noteq> HPX_SUCCESS then ([], st i)
     else case count_range_loop add st a is of (ts, e) \<Rightarrow> (target # ts, e))"

definition count_range_call_handler :: "(addr \<Rightarrow> int \<Rightarrow> nat \<Rightarrow> addr) \<Rightarrow> (nat \<Rightarrow> hpx_status) \<Rightarrow> range_args \<Rightarrow> addr list \<times> hpx_status" where
  "count_range_call_handler add st a = count_range_loop add st a [0..<ra_count a]"

text \<open>The calls it makes, each with the locality it goes to; \<^const>\<open>None\<close> is the caller's own.\<close>

definition hpx_count_range_call :: "(addr \<Rightarrow> int \<Rightarrow> nat \<Rightarrow> addr) \<Rightarrow> nat \<Rightarrow> nat \<Rightarrow> addr \<Rightarrow> nat \<Rightarrow> nat \<Rightarrow> nat \<Rightarrow> (nat option \<times> range_args) list" where
  "hpx_count_range_call add localities threads addr cnt increment bsize =
    (let thread_chunk = cnt div (localities * threads);
         args = (\<lambda>c k. \<lparr> ra_addr = add addr (ptrdiff (k * thread_chunk * increment)) bsize, ra_count = c,
                          ra_increment = increment, ra_bsize = bsize \<rparr>) in
     concat (map (\<lambda>l. map (\<lambda>t. (Some l, args thread_chunk (l * threads + t))) [0..<threads]) [0..<localities]) @
     [(None, args (cnt mod (localities * threads)) (localities * threads))])"

section \<open>Ranges\<close>

definition span :: "int \<Rightarrow> int \<Rightarrow> int list" where
  "span lo hi = [lo..hi - 1]"

lemma span_append: "a \<le> b \<Longrightarrow> b \<le> c \<Longrightarrow> span a b @ span b c = span a c"
  by (cases "b = c") (simp_all add: span_def upto_split1 [of a b "c - 1"])

lemma span_Cons: "a < b \<Longrightarrow> span a b = a # span (a + 1) b"
  by (simp add: span_def upto_rec1)

lemma length_span [simp]: "length (span a b) = nat (b - a)"
  by (simp add: span_def)

lemma sdiv_pos: "0 \<le> n \<Longrightarrow> 0 < b \<Longrightarrow> n sdiv b = n div b \<and> n smod b = n mod b" for n b :: int
  by (cases "n = 0") (simp_all add: signed_divide_int_def signed_modulo_int_def minus_div_mult_eq_mod mult.commute)

lemma par_for_async_fold: "par_for_async f lo hi s = fold f (span lo hi) s"
proof (induction f lo hi s rule: par_for_async.induct)
  case (1 f i e s)
  show ?case
  proof (cases "i < e")
    case True
    then show ?thesis using 1 [OF True] by (subst par_for_async.simps) (simp add: span_Cons)
  next
    case False
    then show ?thesis by (subst par_for_async.simps) (simp add: span_def)
  qed
qed

lemma par_for_loop_ranges:
  assumes "0 \<le> m" "r \<le> int (length is)" "- (2 ^ 31) \<le> base" "base + int (length is) * m + max 0 r < 2 ^ 31"
  shows "map fst (par_for_loop is base m r) = is \<and>
    concat (map (\<lambda>(i, lo, hi). span lo hi) (par_for_loop is base m r)) = span base (base + int (length is) * m + max 0 r)"
  using assms
proof (induction "is" arbitrary: base r)
  case Nil
  then show ?case by (simp add: span_def)
next
  case (Cons i "is")
  define x :: int where "x = (if r > 0 then 1 else 0)"
  define q where "q = int (length is) * m"
  have q: "0 \<le> q" "0 \<le> x" "max 0 (r - 1) = max 0 r - x" using Cons.prems(1) by (auto simp: q_def x_def)
  have e: "base + int (length (i # is)) * m + max 0 r = (base + m + x) + q + max 0 (r - 1)"
    unfolding q(3) by (simp add: distrib_right q_def)
  have b: "- (2 ^ 31) \<le> base + m + x" "base + m + x < 2 ^ 31" "base \<le> base + m + x"
    using Cons.prems(1,3,4) q(1,2) unfolding e by linarith+
  have w: "s32wrap (base + m + x) = base + m + x" by (rule s32wrap_id) fact+
  have IH: "map fst (par_for_loop is (base + m + x) m (r - 1)) = is \<and>
      concat (map (\<lambda>(i, lo, hi). span lo hi) (par_for_loop is (base + m + x) m (r - 1))) =
      span (base + m + x) ((base + m + x) + q + max 0 (r - 1))"
    unfolding q_def by (rule Cons.IH) (use Cons.prems(1,2) Cons.prems(4) [unfolded e q_def] b(1) in simp_all)
  have "par_for_loop (i # is) base m r = (i, base, base + m + x) # par_for_loop is (base + m + x) m (r - 1)"
    by (simp add: w [unfolded x_def] Let_def x_def)
  then show ?case unfolding e using IH span_append [OF b(3), of "(base + m + x) + q + max 0 (r - 1)"] q(1) by simp
qed

lemma par_spawn_ranges:
  assumes "is \<noteq> []" "0 \<le> m" "r < int (length is)" "- (2 ^ 31) \<le> pa_min a" "pa_min a < pa_max a"
    "pa_max a + (int (length is) - 1) * m + max 0 r < 2 ^ 31"
  shows "\<exists>cs. par_spawn (\<lambda>i. HPX_SUCCESS) is m r a = (a # cs, HPX_SUCCESS) \<and>
    (\<forall>c \<in> set (a # cs). pa_min a \<le> pa_min c \<and> pa_min c < pa_max c \<and> (\<exists>x y. c = a\<lparr>pa_min := x, pa_max := y\<rparr>)) \<and>
    concat (map (\<lambda>c. span (pa_min c) (pa_max c)) (a # cs)) = span (pa_min a) (pa_max a + (int (length is) - 1) * m + max 0 r)"
  using assms
proof (induction "is" arbitrary: a r)
  case (Cons i "is")
  define x :: int where "x = (if r > 0 then 1 else 0)"
  define hi where "hi = s32wrap (pa_max a + m + x)"
  have self: "\<exists>x y. a = a\<lparr>pa_min := x, pa_max := y\<rparr>" by (intro exI [of _ "pa_min a"] exI [of _ "pa_max a"]) simp
  have run: "par_spawn (\<lambda>i. HPX_SUCCESS) (i # is) m r a = (if hi \<le> pa_max a then ([a], HPX_SUCCESS)
      else case par_spawn (\<lambda>i. HPX_SUCCESS) is m (r - 1) (a\<lparr>pa_min := pa_max a, pa_max := hi\<rparr>) of (cs, e) \<Rightarrow> (a # cs, e))"
    by (simp add: Let_def hi_def x_def)
  show ?case
  proof (cases "is = []")
    case True
    then have "par_spawn (\<lambda>i. HPX_SUCCESS) (i # is) m r a = ([a], HPX_SUCCESS)" unfolding run by simp
    then show ?thesis using Cons.prems True self by simp
  next
    case False
    define q where "q = (int (length is) - 1) * m"
    have q: "0 \<le> q" "0 \<le> x" "max 0 (r - 1) = max 0 r - x" using Cons.prems(2) False by (auto simp: q_def x_def Suc_le_eq)
    have e: "pa_max a + (int (length (i # is)) - 1) * m + max 0 r = (pa_max a + m + x) + q + max 0 (r - 1)"
      unfolding q(3) by (simp add: left_diff_distrib q_def)
    have hi: "hi = pa_max a + m + x" unfolding hi_def
      by (rule s32wrap_id) (use Cons.prems(2,4,5,6) q(1,2) e in linarith)+
    show ?thesis
    proof (cases "hi \<le> pa_max a")
      case True
      then have "m = 0" "r \<le> 0" using hi Cons.prems(2) q(2) by (auto simp: x_def split: if_splits)
      then show ?thesis using True self Cons.prems(5) unfolding run by simp
    next
      case lt: False
      let ?a = "a\<lparr>pa_min := pa_max a, pa_max := hi\<rparr>"
      obtain cs where IH: "par_spawn (\<lambda>i. HPX_SUCCESS) is m (r - 1) ?a = (?a # cs, HPX_SUCCESS)"
        "\<forall>c \<in> set (?a # cs). pa_min ?a \<le> pa_min c \<and> pa_min c < pa_max c \<and> (\<exists>x y. c = ?a\<lparr>pa_min := x, pa_max := y\<rparr>)"
        "concat (map (\<lambda>c. span (pa_min c) (pa_max c)) (?a # cs)) = span (pa_max a) (hi + q + max 0 (r - 1))"
        using Cons.IH [of "r - 1" ?a] False Cons.prems(2-6) lt unfolding e hi q_def [symmetric] by auto
      have "span (pa_min a) (pa_max a) @ span (pa_max a) (hi + q + max 0 (r - 1)) = span (pa_min a) (hi + q + max 0 (r - 1))"
        by (rule span_append) (use Cons.prems(5) lt q(1) in auto)
      then have "concat (map (\<lambda>c. span (pa_min c) (pa_max c)) (a # ?a # cs)) = span (pa_min a) (hi + q + max 0 (r - 1))"
        using IH(3) by simp
      moreover have "pa_min a \<le> pa_min c \<and> pa_min c < pa_max c \<and> (\<exists>x y. c = a\<lparr>pa_min := x, pa_max := y\<rparr>)" if "c \<in> set (a # ?a # cs)" for c
      proof (cases "c = a")
        case False
        then have "c \<in> set (?a # cs)" using that by simp
        then show ?thesis using IH(2) Cons.prems(5) by fastforce
      qed (use self Cons.prems(5) in simp)
      ultimately show ?thesis using IH(1) lt unfolding run e hi by simp
    qed
  qed
qed simp

section \<open>One call of the helper\<close>

text \<open>Ranges the C code can hold, with at least two branches.\<close>

definition par_ok :: "('e, 'a) par_args \<Rightarrow> bool" where
  "par_ok a = (- (2 ^ 31) \<le> pa_min a \<and> pa_min a < pa_max a \<and> pa_max a < 2 ^ 31 \<and> pa_max a - pa_min a < 2 ^ 31 \<and>
    2 \<le> pa_branching_factor a \<and> 0 < pa_cutoff a)"

definition par_todo :: "('e, 'a) par_args \<Rightarrow> 'a par_parcel list" where
  "par_todo a = map (par_leaf a) (span (pa_min a) (pa_max a))"

definition par_weight :: "('e, 'a) par_args \<Rightarrow> nat" where
  "par_weight a = 2 * nat (pa_max a - pa_min a) - 1"

lemma par_leaf_range [simp]: "par_leaf (a\<lparr>pa_min := x, pa_max := y\<rparr>) = par_leaf a"
  by (simp add: par_leaf_def fun_eq_iff)

lemma par_weight_list:
  assumes "\<forall>c \<in> set cs. pa_min c < pa_max c"
  shows "sum_list (map par_weight cs) + length cs = 2 * length (concat (map (\<lambda>c. span (pa_min c) (pa_max c)) cs))"
  using assms by (induction cs) (auto simp: par_weight_def)

lemma par_todo_list:
  assumes "\<forall>c \<in> set cs. \<exists>x y. c = a\<lparr>pa_min := x, pa_max := y\<rparr>"
  shows "concat (map par_todo cs) = map (par_leaf a) (concat (map (\<lambda>c. span (pa_min c) (pa_max c)) cs))"
  using assms by (induction cs) (auto simp: par_todo_def)

lemma div_share:
  assumes "1 < n" "2 \<le> b"
  shows "0 < n div b + (if n mod b > 0 then 1 else 0)" "n div b + (if n mod b > 0 then 1 else 0) < (n :: int)"
proof -
  have e: "n = b * (n div b) + n mod b" by simp
  have d: "0 \<le> n div b" "0 \<le> n mod b" "2 * (n div b) \<le> b * (n div b)" using assms
    by (simp_all add: pos_imp_zdiv_nonneg_iff mult_right_mono)
  show "0 < n div b + (if n mod b > 0 then 1 else 0)"
  proof (rule ccontr)
    assume "\<not> ?thesis"
    then have "n div b = 0" "n mod b = 0" using d by (auto split: if_splits)
    then show False using e assms(1) by simp
  qed
  show "n div b + (if n mod b > 0 then 1 else 0) < n" 
  proof (cases "n mod b > 0")
    case True
    have "n div b + 1 < n" using e d assms(1) True by linarith
    then show ?thesis using True by simp
  next
    case False
    have "n div b < n" using e d assms(1) by linarith
    then show ?thesis using False by simp
  qed
qed

lemma par_helper_ok:
  assumes "par_ok a"
  shows "\<exists>cs ps. par_call_helper debug (\<lambda>i. HPX_SUCCESS) a = Ret (cs, ps, HPX_SUCCESS) \<and> (\<forall>c \<in> set cs. par_ok c) \<and>
    ps @ concat (map par_todo cs) = par_todo a \<and> sum_list (map par_weight cs) < par_weight a"
proof -
  define n where "n = pa_max a - pa_min a"
  define b where "b = pa_branching_factor a"
  note ok = assms [unfolded par_ok_def]
  have n: "s32wrap n = n" "0 < n" "2 \<le> b" using ok by (auto simp: n_def b_def intro: s32wrap_id)
  show ?thesis
  proof (cases "n > pa_cutoff a")
    case False
    then show ?thesis using ok n unfolding par_call_helper_def
      by (auto simp: n_def [symmetric] Let_def par_todo_def span_def par_weight_def)
  next
    case True
    define m where "m = n div b"
    define r where "r = n mod b"
    define x :: int where "x = (if r > 0 then 1 else 0)"
    have n1: "1 < n" using True ok by simp
    note sh = div_share [OF n1 n(3), folded m_def r_def, folded x_def]
    let ?a = "a\<lparr>pa_max := pa_min a + m + x\<rparr>"
    have d: "0 \<le> m" "r < b" "0 \<le> r" "n = b * m + r" using n by (auto simp: m_def r_def pos_imp_zdiv_nonneg_iff)
    have tot: "pa_max ?a + (int (length [0..b - 1]) - 1) * m + max 0 (r - 1) = pa_max a"
      using d n by (auto simp: n_def x_def algebra_simps max_def split: if_splits)
    have wrap: "s32wrap (pa_min a + m + x) = pa_min a + m + x"
      by (rule s32wrap_id) (use ok sh in \<open>simp_all add: n_def\<close>)
    obtain cs where cs: "par_spawn (\<lambda>i. HPX_SUCCESS) [0..b - 1] m (r - 1) ?a = (?a # cs, HPX_SUCCESS)"
      "\<forall>c \<in> set (?a # cs). pa_min ?a \<le> pa_min c \<and> pa_min c < pa_max c \<and> (\<exists>x y. c = ?a\<lparr>pa_min := x, pa_max := y\<rparr>)"
      "concat (map (\<lambda>c. span (pa_min c) (pa_max c)) (?a # cs)) = span (pa_min ?a) (pa_max a)"
      using par_spawn_ranges [of "[0..b - 1]" m "r - 1" ?a] d n sh ok unfolding tot by auto
    have run: "par_call_helper debug (\<lambda>i. HPX_SUCCESS) a = Ret (?a # cs, [], HPX_SUCCESS)"
      using True ok n sdiv_pos [of n b] cs(1) wrap
      by (simp add: par_call_helper_def n_def [symmetric] b_def [symmetric] Let_def m_def [symmetric] r_def [symmetric] x_def [symmetric])
    have "pa_max c \<le> pa_max a" if "c \<in> set (?a # cs)" for c
    proof -
      have "pa_max c - 1 \<in> set (span (pa_min c) (pa_max c))" using bspec [OF cs(2) that] by (simp add: span_def)
      then have "pa_max c - 1 \<in> set (concat (map (\<lambda>c. span (pa_min c) (pa_max c)) (?a # cs)))" using that by auto
      then show ?thesis unfolding cs(3) by (simp add: span_def)
    qed
    then have kids: "\<forall>c \<in> set (?a # cs). par_ok c" using cs(2) ok by (fastforce simp: par_ok_def)
    have "cs \<noteq> []"
    proof
      assume "cs = []"
      then have "length (span (pa_min a) (pa_min a + m + x)) = length (span (pa_min a) (pa_max a))" using cs(3) by simp
      then show False using sh by (simp add: n_def)
    qed
    then have "sum_list (map par_weight (?a # cs)) < par_weight a"
      using par_weight_list [of "?a # cs"] cs(2) unfolding cs(3) by (cases cs) (auto simp: par_weight_def)
    moreover have "concat (map par_todo (?a # cs)) = par_todo a"
      using par_todo_list [of "?a # cs" ?a] cs(2) unfolding cs(3) by (simp add: par_todo_def par_leaf_def fun_eq_iff)
    ultimately show ?thesis using run kids by (intro exI [of _ "?a # cs"] exI [of _ "[]"]) simp
  qed
qed

section \<open>All calls\<close>

definition par_pending :: "('e, 'a) par_args multiset \<Rightarrow> 'a par_parcel multiset" where
  "par_pending P = \<Sum>\<^sub># (image_mset (\<lambda>c. mset (par_todo c)) P)"

definition par_work :: "('e, 'a) par_args multiset \<Rightarrow> nat" where
  "par_work P = \<Sum>\<^sub># (image_mset par_weight P)"

lemma par_multisets:
  "par_pending (P + Q) = par_pending P + par_pending Q" "par_pending (add_mset x P) = par_pending P + mset (par_todo x)"
  "par_work (P + Q) = par_work P + par_work Q" "par_work (add_mset x P) = par_work P + par_weight x"
  "par_pending (mset cs) = mset (concat (map par_todo cs))" "par_work (mset cs) = sum_list (map par_weight cs)"
  "par_pending {#} = {#}" "par_work {#} = 0"
  by (simp_all add: par_pending_def par_work_def) ((induction cs; simp)+)

lemma par_run_inv:
  assumes "par_run a k P S" "par_ok a"
  shows "(\<forall>c \<in># P. par_ok c) \<and> mset S + par_pending P = mset (par_todo a) \<and> k + par_work P \<le> par_weight a"
  using assms
proof (induction rule: par_run.induct)
  case start
  then show ?case by (simp add: par_multisets)
next
  case (step k P S x cs ps e)
  have x: "par_ok x" using step by simp
  then have h: "\<forall>c \<in> set cs. par_ok c" "ps @ concat (map par_todo cs) = par_todo x" "sum_list (map par_weight cs) < par_weight x"
    using par_helper_ok [OF x, of True] step.hyps(3) by auto
  obtain Q where Q: "P = Q + {#x#}" using step.hyps(2) by (metis insert_DiffM2)
  have "mset (S @ ps) + par_pending (P - {#x#} + mset cs) = mset S + par_pending Q + mset (ps @ concat (map par_todo cs))"
    by (simp add: Q par_multisets del: mset_concat)
  also have "\<dots> = mset S + par_pending P" unfolding h(2) Q by (simp add: par_multisets)
  finally have "mset (S @ ps) + par_pending (P - {#x#} + mset cs) = mset (par_todo a)" using step by simp
  moreover have "Suc k + par_work (P - {#x#} + mset cs) \<le> par_weight a" using step h(3) by (simp add: Q par_multisets)
  moreover have "\<forall>c \<in># P - {#x#} + mset cs. par_ok c" using step h(1) by (auto simp: Q)
  ultimately show ?case by blast
qed

text \<open>
  C18: A divide-and-conquer call with at least two branches finishes and sends exactly one
  parcel per index. In whatever order the calls in flight are run, none of them faults, at most
  \<open>2n - 1\<close> of them run for a range of \<open>n\<close> indices, the parcels sent so far are among the expected
  ones, and when no call is left in flight each index of the range has its parcel exactly once,
  with the action, the continuation and the argument of that index.
\<close>
theorem par_call_exactly_once:
  assumes "par_ok a" "par_run a k P S"
  shows "k \<le> 2 * nat (pa_max a - pa_min a) - 1 \<and> mset S \<subseteq># mset (map (par_leaf a) [pa_min a..pa_max a - 1]) \<and>
    (P = {#} \<longrightarrow> mset S = mset (map (par_leaf a) [pa_min a..pa_max a - 1])) \<and>
    (\<forall>x \<in># P. \<exists>cs ps. par_call_helper True (\<lambda>i. HPX_SUCCESS) x = Ret (cs, ps, HPX_SUCCESS))"
proof -
  note i = par_run_inv [OF assms(2,1)]
  have t: "par_todo a = map (par_leaf a) [pa_min a..pa_max a - 1]" by (simp add: par_todo_def span_def)
  have "mset S \<subseteq># mset (par_todo a)" using i by (metis mset_subset_eq_add_left)
  moreover have "P = {#} \<longrightarrow> mset S = mset (par_todo a)" using i by (auto simp: par_multisets)
  moreover have "\<forall>x \<in># P. \<exists>cs ps. par_call_helper True (\<lambda>i. HPX_SUCCESS) x = Ret (cs, ps, HPX_SUCCESS)"
    using i par_helper_ok by blast
  ultimately show ?thesis using i unfolding t par_weight_def by simp
qed

definition par_demo :: "(int, int) par_args" where
  "par_demo = \<lparr> pa_action = 4, pa_min = -1, pa_max = 2, pa_branching_factor = 2, pa_cutoff = 2,
    pa_arg_init = Some (\<lambda>i e. i + e), pa_sync = 9, pa_env = 10 \<rparr>"

theorem par_call_exactly_once_witness:
  "\<exists>k S. par_run par_demo k {#} S \<and> k \<le> 5 \<and> mset S = mset (map (par_leaf par_demo) [-1..1])"
proof -
  have sp: "par_spawn (\<lambda>i. HPX_SUCCESS) [0..1] 1 0 (par_demo\<lparr>pa_max := 1\<rparr>) = ([par_demo\<lparr>pa_max := 1\<rparr>, par_demo\<lparr>pa_min := 1\<rparr>], HPX_SUCCESS)"
    by (simp add: par_demo_def upto_rec1 Let_def s32wrap_id)
  have h: "par_call_helper True (\<lambda>i. HPX_SUCCESS) par_demo = Ret ([par_demo\<lparr>pa_max := 1\<rparr>, par_demo\<lparr>pa_min := 1\<rparr>], [], HPX_SUCCESS)"
    "par_call_helper True (\<lambda>i. HPX_SUCCESS) (par_demo\<lparr>pa_max := 1\<rparr>) = Ret ([], map (par_leaf (par_demo\<lparr>pa_max := 1\<rparr>)) [-1..0], HPX_SUCCESS)"
    "par_call_helper True (\<lambda>i. HPX_SUCCESS) (par_demo\<lparr>pa_min := 1\<rparr>) = Ret ([], map (par_leaf (par_demo\<lparr>pa_min := 1\<rparr>)) [1..1], HPX_SUCCESS)"
    using sp by (simp_all add: par_call_helper_def par_demo_def s32wrap_id Let_def sdiv_pos)
  have "par_run par_demo (Suc 0) ({#par_demo#} - {#par_demo#} + mset [par_demo\<lparr>pa_max := 1\<rparr>, par_demo\<lparr>pa_min := 1\<rparr>]) ([] @ [])"
    by (rule par_run.step [OF par_run.start _ h(1)]) simp
  then have 1: "par_run par_demo (Suc 0) {#par_demo\<lparr>pa_max := 1\<rparr>, par_demo\<lparr>pa_min := 1\<rparr>#} []" by simp
  have 2: "par_run par_demo (Suc (Suc 0)) {#par_demo\<lparr>pa_min := 1\<rparr>#} (map (par_leaf (par_demo\<lparr>pa_max := 1\<rparr>)) [-1..0])"
    using par_run.step [OF 1 _ h(2)] by simp
  have 3: "par_run par_demo (Suc (Suc (Suc 0))) {#}
      (map (par_leaf (par_demo\<lparr>pa_max := 1\<rparr>)) [-1..0] @ map (par_leaf (par_demo\<lparr>pa_min := 1\<rparr>)) [1..1])" (is "par_run _ ?k _ ?S")
    using par_run.step [OF 2 _ h(3)] by simp
  have ok: "par_ok par_demo" "[pa_min par_demo..pa_max par_demo - 1] = [-1..1]" by (simp_all add: par_ok_def par_demo_def)
  have "mset ?S = mset (map (par_leaf par_demo) [-1..1])"
    using par_call_exactly_once [OF ok(1) 3] unfolding ok(2) by blast
  then show ?thesis using 3 by (intro exI [of _ ?k] exI [of _ ?S]) simp
qed

text \<open>
  With a branching factor of one, which the assertions allow, a range above the cutoff is
  never processed: the call spawns itself on the same range, so every run keeps that one call in
  flight and sends no parcel, however long it gets.
\<close>
lemma par_call_one_branch_spins:
  assumes "par_ok (a\<lparr>pa_branching_factor := 2\<rparr>)" "pa_branching_factor a = 1" "pa_cutoff a < pa_max a - pa_min a"
  shows "par_run a k {#a#} [] \<and> (par_run a k P S \<longrightarrow> P = {#a#} \<and> S = [])"
proof -
  note ok = assms(1) [unfolded par_ok_def, simplified]
  have n: "s32wrap (pa_max a - pa_min a) = pa_max a - pa_min a" "s32wrap (pa_max a) = pa_max a" using ok by (auto intro: s32wrap_id)
  have a: "a\<lparr>pa_max := pa_max a\<rparr> = a" by simp
  have h: "par_call_helper True (\<lambda>i. HPX_SUCCESS) a = Ret ([a], [], HPX_SUCCESS)"
    unfolding par_call_helper_def using assms(2,3) ok n
    by (simp add: sdiv_pos Let_def)
  have "par_run a k P S \<Longrightarrow> P = {#a#} \<and> S = []" for k P S
    by (induction rule: par_run.induct) (use h in auto)
  moreover have "par_run a k {#a#} []"
  proof (induction k)
    case (Suc k)
    then show ?case using par_run.step [OF Suc _ h] by simp
  qed (rule par_run.start)
  ultimately show ?thesis by blast
qed

text \<open>
  C34: \<^verbatim>\<open>hpx_par_for\<close> is the sequential loop. Each of the workers is mailed one range, the gate
  counts one input per range, and when the calls of the loop body commute, running the ranges in
  any order has the effect of the loop from the first index to the last.
\<close>
theorem par_for_is_loop:
  assumes "0 < nthreads" "- (2 ^ 31) \<le> lo" "lo < hi" "hi < 2 ^ 31" "hi - lo < 2 ^ 31"
    "\<And>i j. f i \<circ> f j = f j \<circ> f i"
  shows "\<exists>mails. hpx_par_for debug nthreads lo hi sync = Ret (if sync then Some (And_new (int (length mails))) else None, mails) \<and>
    map fst mails = [0..<nthreads] \<and>
    (\<forall>ms s. mset ms = mset mails \<longrightarrow> fold (\<lambda>(i, l, h). par_for_async f l h) ms s = par_for_async f lo hi s)"
proof -
  let ?n = "hi - lo" and ?t = "int nthreads"
  define mails where "mails = par_for_loop [0..<nthreads] lo (?n div ?t) (?n mod ?t)"
  have n: "s32wrap ?n = ?n" using assms by (intro s32wrap_id) auto
  have tot: "lo + int (length [0..<nthreads]) * (?n div ?t) + max 0 (?n mod ?t) = hi"
    using mult_div_mod_eq [of ?t ?n] pos_mod_sign [of ?t ?n] assms(1) by (simp add: max_def)
  have l: "map fst mails = [0..<nthreads]" "concat (map (\<lambda>(i, lo, hi). span lo hi) mails) = span lo hi"
    using par_for_loop_ranges [of "?n div ?t" "?n mod ?t" "[0..<nthreads]" lo] assms
    unfolding tot mails_def by (simp_all add: pos_imp_zdiv_nonneg_iff less_imp_le)
  have "fold (\<lambda>(i, l, h). par_for_async f l h) ms s = par_for_async f lo hi s" if "mset ms = mset mails" for ms s
  proof -
    have "fold f (concat (map (\<lambda>(i, lo, hi). span lo hi) ms)) = fold f (concat (map (\<lambda>(i, lo, hi). span lo hi) mails))"
      by (rule fold_multiset_equiv)
        (use assms(6) in simp, simp only: mset_concat sum_mset_sum_list [symmetric] mset_map that)
    moreover have "fold (\<lambda>(i, l, h). par_for_async f l h) ms s = fold f (concat (map (\<lambda>(i, lo, hi). span lo hi) ms)) s"
      by (induction ms arbitrary: s) (auto simp: par_for_async_fold)
    ultimately show ?thesis unfolding l(2) par_for_async_fold [of f lo hi s] by simp
  qed
  moreover have "hpx_par_for debug nthreads lo hi sync = Ret (if sync then Some (And_new ?t) else None, mails)"
    using assms(1,3) sdiv_pos [of ?n ?t] n by (simp add: hpx_par_for_def Let_def mails_def)
  moreover have "length mails = nthreads" using arg_cong [OF l(1), of length] by simp
  ultimately show ?thesis using l(1) by (intro exI [of _ mails]) simp
qed

theorem par_for_is_loop_witness:
  "\<exists>mails. hpx_par_for True 3 (-2) 5 True = Ret (Some (And_new (int (length mails))), mails) \<and> map fst mails = [0, 1, 2] \<and>
    fold (\<lambda>(i, l, h). par_for_async (+) l h) mails 0 = par_for_async (+) (-2) 5 0"
  using par_for_is_loop [of 3 "-2" 5 "(+)" True True] by (auto simp: fun_eq_iff upt_rec)

lemma ptrdiff_id: "n < 2 ^ 63 \<Longrightarrow> ptrdiff n = int n"
  unfolding ptrdiff_def by (rule signed_take_bit_int_eq_self) auto

lemma upt_snoc_block: "[0..<n + m * n] = [0..<m * n] @ [m * n..<n + m * n]" for n m :: nat
  using upt_add_eq_append [of 0 "m * n" n] by (simp add: add.commute)

lemma concat_grid: "concat (map (\<lambda>l. map (\<lambda>t. g l (l * n + t)) [0..<n]) [0..<m]) =
    map (\<lambda>k. g (k div n) k) [0..<m * n]"
proof (induction m)
  case (Suc m)
  have "map (\<lambda>t. g m (m * n + t)) [0..<n] = map (\<lambda>k. g (k div n) k) [m * n..<m * n + n]"
    by (rule nth_equalityI) auto
  moreover have "[0..<Suc m * n] = [0..<m * n] @ [m * n..<m * n + n]" by (simp add: add.commute upt_snoc_block)
  ultimately show ?case using Suc by simp
qed simp

lemma concat_blocks: "concat (map (\<lambda>k. map h [k * c..<k * c + c]) [0..<n]) = map h [0..<n * c]"
  by (induction n) (simp_all add: add.commute upt_snoc_block [of c])

lemma count_range_loop_all: "count_range_loop add (\<lambda>i. HPX_SUCCESS) a is =
    (map (\<lambda>i. add (ra_addr a) (ptrdiff (i * ra_increment a)) (ra_bsize a)) is, HPX_SUCCESS)"
  by (induction "is") (simp_all add: Let_def)

text \<open>
  \<^verbatim>\<open>hpx_count_range_call\<close> calls the action on every element of the array exactly once, in
  order: the targets of its handlers, put together, are the base address moved by each multiple
  of the increment below the count. The localities and threads get equal chunks and the caller's
  locality the remainder. It relies on the address addition being additive in the distance.
\<close>
lemma count_range_covers:
  assumes "0 < localities" "0 < threads" "cnt * increment < 2 ^ 63"
    "\<And>a x y. add (add a (int x) bsize) (int y) bsize = add a (int (x + y)) bsize"
  shows "concat (map (\<lambda>(l, a). fst (count_range_call_handler add (\<lambda>i. HPX_SUCCESS) a))
      (hpx_count_range_call add localities threads addr cnt increment bsize)) =
    map (\<lambda>i. add addr (int (i * increment)) bsize) [0..<cnt]"
proof -
  define n where "n = localities * threads"
  define c where "c = cnt div n"
  define h where "h i = add addr (int (i * increment)) bsize" for i
  define args where "args = (\<lambda>m k. \<lparr> ra_addr = add addr (ptrdiff (k * c * increment)) bsize, ra_count = m,
      ra_increment = increment, ra_bsize = bsize \<rparr>)"
  have split: "n * c + cnt mod n = cnt" by (simp add: c_def)
  have small: "ptrdiff (x * increment) = int (x * increment)" if "x \<le> cnt" for x
    using that assms(3) by (intro ptrdiff_id) (meson le_less_trans mult_le_mono1)
  have targets: "fst (count_range_call_handler add (\<lambda>i. HPX_SUCCESS) (args m k)) = map h [k * c..<k * c + m]" if "k * c + m \<le> cnt" for m k
  proof -
    have "fst (count_range_call_handler add (\<lambda>i. HPX_SUCCESS) (args m k)) = map (\<lambda>j. h (k * c + j)) [0..<m]"
      using that assms(4) by (simp add: count_range_call_handler_def count_range_loop_all args_def small h_def distrib_right flip: of_nat_mult of_nat_add)
    also have "\<dots> = map h [k * c..<k * c + m]" by (rule nth_equalityI) auto
    finally show ?thesis .
  qed
  have calls: "hpx_count_range_call add localities threads addr cnt increment bsize =
      map (\<lambda>k. (Some (k div threads), args c k)) [0..<n] @ [(None, args (cnt mod n) n)]"
    using concat_grid [of "\<lambda>l k. (Some l, args c k)" threads localities]
    by (simp add: hpx_count_range_call_def Let_def c_def n_def args_def)
  have "k * c + c \<le> cnt" if "k < n" for k
    using that split mult_le_mono1 [of "Suc k" n c] by simp
  then have "concat (map (\<lambda>k. fst (count_range_call_handler add (\<lambda>i. HPX_SUCCESS) (args c k))) [0..<n]) =
      concat (map (\<lambda>k. map h [k * c..<k * c + c]) [0..<n])"
    using targets by (intro arg_cong [of _ _ concat] map_cong) auto
  moreover have "[0..<cnt] = [0..<n * c] @ [n * c..<n * c + cnt mod n]"
    using upt_add_eq_append [of 0 "n * c" "cnt mod n"] split by simp
  ultimately show ?thesis unfolding calls h_def [symmetric] using targets [of n "cnt mod n"] split
    by (simp add: concat_blocks o_def)
qed

end
