(* ===== verification/Hpx_Heap.thy ===== *)
theory Hpx_Heap
  imports Hpx_Allocator
begin

text \<open>
  The heap segment of \<^verbatim>\<open>libhpx/gas/pgas/HeapSegment.cpp\<close>: one contiguous range of memory cut into
  chunks, whose bitmap serves ordinary global chunks from the bottom and cyclic chunks from the
  top, and the break \<^verbatim>\<open>csbrk\<close> that separates the two. Sizes, offsets and pointers are natural
  numbers, with the wrap-around of the 64-bit differences written out. The break is lowered with
  a weak compare-and-swap, whose spurious failure is an input.
\<close>

section \<open>Model\<close>

datatype chunk_type = CYCLIC | GLOBAL

record heap =
  h_bytesPerChunk :: nat
  h_nBytes :: nat
  h_csbrk :: nat
  h_nChunks :: nat
  h_logMaxBlockSize :: nat
  h_base :: nat
  h_chunks :: bitmap

definition u64sub :: "nat \<Rightarrow> nat \<Rightarrow> nat" where
  "u64sub x y = (if y \<le> x then x - y else (x + 2 ^ 64 - y) mod 2 ^ 64)"

definition MAX_HEAP_BYTES :: nat where
  "MAX_HEAP_BYTES = 2 ^ 48"

definition GPA_MAX_LG_BSIZE :: nat where
  "GPA_MAX_LG_BSIZE = 32"

text \<open>\<^verbatim>\<open>mmap nbytes align\<close> is the segment the system maps, if it can.\<close>

definition newSegment :: "(nat \<Rightarrow> nat \<Rightarrow> nat option) \<Rightarrow> nat \<Rightarrow> nat \<Rightarrow> nat \<Rightarrow> nat outcome" where
  "newSegment mmap bytesPerChunk nBytes logMaxBlockSize =
    (case mmap nBytes (2 ^ logMaxBlockSize) of
       Some base \<Rightarrow> assertO (base mod bytesPerChunk = 0) (Ret base)
     | None \<Rightarrow> Fault Thrown)"

definition heap_new :: "(nat \<Rightarrow> nat \<Rightarrow> nat option) \<Rightarrow> nat \<Rightarrow> bool \<Rightarrow> nat \<Rightarrow> heap outcome" where
  "heap_new mmap bytesPerChunk instance_exists bytes =
    (let nBytes = bytes - bytes mod bytesPerChunk;
         nChunks = u32wrap (ceil_div nBytes bytesPerChunk);
         logMax = min GPA_MAX_LG_BSIZE (ceil_log2 (of_nat nBytes :: u64)) in
     bindO (newSegment mmap bytesPerChunk nBytes logMax) (\<lambda>base.
       if instance_exists then Fault Dbg_error
       else if nBytes > MAX_HEAP_BYTES then Fault Dbg_error
       else Ret \<lparr> h_bytesPerChunk = bytesPerChunk, h_nBytes = nBytes, h_csbrk = nBytes, h_nChunks = nChunks,
                 h_logMaxBlockSize = logMax, h_base = base,
                 h_chunks = Bitmap_new nChunks (ceil_log2 (of_nat bytesPerChunk :: u64)) logMax \<rparr>))"

definition offsetToLVA :: "bool \<Rightarrow> heap \<Rightarrow> nat \<Rightarrow> nat outcome" where
  "offsetToLVA debug h off = (if debug \<and> h_nBytes h < off then Fault Dbg_error else Ret (h_base h + off))"

definition lvaToOffset :: "heap \<Rightarrow> nat \<Rightarrow> nat outcome" where
  "lvaToOffset h lva =
    (if lva < h_base h \<or> h_base h + h_nBytes h \<le> lva then Fault Dbg_error else Ret (lva - h_base h))"

definition isCyclicOffset :: "heap \<Rightarrow> nat \<Rightarrow> bool" where
  "isCyclicOffset h off = (if off \<ge> h_nBytes h then False else off \<ge> h_csbrk h)"

definition chunksAreUsed :: "heap \<Rightarrow> nat \<Rightarrow> nat \<Rightarrow> bool outcome" where
  "chunksAreUsed h off n =
    (let lo = u32wrap (off div h_bytesPerChunk h); t = ceil_div (u64wrap (off + n)) (h_bytesPerChunk h) in
     assertO (t < 2 ^ 32 - 1) (isSet (h_chunks h) lo (u32sub t lo)))"

definition setCsbrk :: "bool \<Rightarrow> heap \<Rightarrow> nat \<Rightarrow> (heap \<times> bool) outcome" where
  "setCsbrk spurious h off =
    (let old = h_csbrk h; h' = (if old > off \<and> \<not> spurious then h\<lparr>h_csbrk := off\<rparr> else h) in
     bindO (chunksAreUsed h' off (u64sub old off)) (\<lambda>used. Ret (h', used)))"

definition allocateChunk :: "bool \<Rightarrow> heap \<Rightarrow> nat \<Rightarrow> nat \<Rightarrow> chunk_type \<Rightarrow> (nat \<times> heap) outcome option" where
  "allocateChunk spurious h n align type =
    (if n mod h_bytesPerChunk h \<noteq> 0 then Some (Fault Assert_failed)
     else if \<not> n div h_bytesPerChunk h < 2 ^ 32 - 1 then Some (Fault Assert_failed)
     else let bits = n div h_bytesPerChunk h; log2_align = ceil_log2 (of_nat align :: u64) in
       map_option (\<lambda>res. bindO res (\<lambda>(status, found, bm).
         if status \<noteq> LIBHPX_OK then Fault Dbg_error
         else let off = (case found of Some p \<Rightarrow> p | None \<Rightarrow> 0) * h_bytesPerChunk h; h1 = h\<lparr>h_chunks := bm\<rparr> in
           assertO (off mod align = 0)
             (bindO (if type = GLOBAL then if off + n > h_csbrk h1 then Fault Dbg_error else Ret h1
                     else bindO (setCsbrk spurious h1 off) (\<lambda>(h2, used). Ret h2)) (\<lambda>h2.
               bindO (offsetToLVA True h2 off) (\<lambda>p.
                 assertO ((of_nat p :: u64) AND (of_nat align - 1) = 0) (Ret (p, h2)))))))
       (if type = GLOBAL then reserve (h_chunks h) bits log2_align else rreserve (h_chunks h) bits log2_align))"

definition deallocateChunk :: "heap \<Rightarrow> nat \<Rightarrow> nat \<Rightarrow> (bool \<times> heap) outcome" where
  "deallocateChunk h chunk n =
    (let off = u64sub chunk (h_base h) in
     assertO (off mod h_bytesPerChunk h = 0) (assertO (n mod h_bytesPerChunk h = 0)
       (bindO (release (h_chunks h) (u32wrap (off div h_bytesPerChunk h)) (u32wrap (n div h_bytesPerChunk h))) (\<lambda>bm.
          Ret (True, h\<lparr>h_chunks := bm\<rparr>)))))"

section \<open>Well-formed heaps\<close>

definition seg_ok :: "heap \<Rightarrow> bool" where
  "seg_ok h = (bm_inv (h_chunks h) \<and> h_bytesPerChunk h = 2 ^ bm_minAlign (h_chunks h) \<and>
    bm_nBits (h_chunks h) = h_nChunks h \<and> h_nBytes h = h_nChunks h * h_bytesPerChunk h \<and> h_nBytes h \<le> MAX_HEAP_BYTES \<and>
    h_csbrk h \<le> h_nBytes h \<and> h_csbrk h mod h_bytesPerChunk h = 0 \<and>
    h_base h mod 2 ^ bm_baseAlign (h_chunks h) = 0 \<and> h_base h + h_nBytes h < 2 ^ 64)"

text \<open>
  A request the heap can serve: a whole number of chunks, at least one, and an alignment that is a
  power of two up to the alignment of the segment.
\<close>

definition heap_request :: "heap \<Rightarrow> nat \<Rightarrow> nat \<Rightarrow> bool" where
  "heap_request h n align = (n mod h_bytesPerChunk h = 0 \<and>
    (\<exists>a. align = 2 ^ a \<and> a \<le> bm_baseAlign (h_chunks h) \<and> bm_request (h_chunks h) True (n div h_bytesPerChunk h) a))"

lemma isSet_first_used:
  assumes "bm_inv bm" "p < bm_nBits bm" "p \<notin> free_set bm" "0 < n" "u32wrap (p + n) \<le> bm_nBits bm"
  shows "isSet bm p n = Ret True"
proof -
  obtain w where w: "CreateMask (p mod 64) n = Ret w" "interval_mask w (p mod 64) n" by (rule CreateMask_mod)
  have b: "bit w (p mod 64)" using interval_mask_bit_off [OF w(2)] assms(4) by simp
  have u: "\<not> bit (bm_blocks bm ! (p div 64)) (p mod 64)" using assms(2,3) by (simp add: free_set_def free_at_def)
  have blk: "p div 64 < length (bm_blocks bm)" using assms(2) bm_inv_bounds(1) [OF assms(1)] by (simp add: less_mult_imp_div_less mult.commute)
  have "w XOR (w AND bm_blocks bm ! (p div 64)) \<noteq> 0" using mismatch_zero [of w] b u by blast
  then show ?thesis using assms(4,5) blk w(1)
    by (simp add: isSet_def BLOCK_BITS_def) (subst isSet_loop.simps, simp)
qed

lemma isSet_none: "p \<le> bm_nBits bm \<Longrightarrow> isSet bm p 0 = Ret False" if "bm_inv bm"
proof -
  assume p: "p \<le> bm_nBits bm"
  obtain w where w: "CreateMask (p mod 64) 0 = Ret w" by (rule CreateMask_mod)
  have "u32wrap p = p" using p that by (intro u32wrap_small) (auto simp: bm_inv_def)
  then show ?thesis using p w by (simp add: isSet_def BLOCK_BITS_def) (subst isSet_loop.simps, simp)
qed

lemma seg_okD:
  assumes "seg_ok h"
  shows "bm_inv (h_chunks h)" "h_bytesPerChunk h = 2 ^ bm_minAlign (h_chunks h)" "bm_nBits (h_chunks h) = h_nChunks h"
    "h_nBytes h = h_nChunks h * h_bytesPerChunk h" "h_nBytes h \<le> 2 ^ 48" "h_csbrk h \<le> h_nBytes h"
    "h_csbrk h mod h_bytesPerChunk h = 0" "h_base h mod 2 ^ bm_baseAlign (h_chunks h) = 0" "h_base h + h_nBytes h < 2 ^ 64"
    "h_nChunks h + 64 \<le> 2 ^ 32" "0 < h_bytesPerChunk h" "bm_minAlign (h_chunks h) \<le> bm_baseAlign (h_chunks h)"
    "bm_baseAlign (h_chunks h) \<le> 62"
  using assms by (auto simp: seg_ok_def bm_inv_def MAX_HEAP_BYTES_def)

lemma u64sub_add: "x < 2 ^ 63 \<Longrightarrow> y < 2 ^ 63 \<Longrightarrow> u64wrap (y + u64sub x y) = x"
proof (cases "y \<le> x")
  case False
  assume a: "x < 2 ^ 63" "y < 2 ^ 63"
  then have "(x + 2 ^ 64 - y) mod 2 ^ 64 = x + 2 ^ 64 - y" using False by (intro mod_less) simp
  then have "y + u64sub x y = x + 2 ^ 64" using False a by (simp add: u64sub_def)
  then show ?thesis using a by (simp add: u64wrap_def)
qed (simp_all add: u64sub_def u64wrap_def)

lemma u32sub_add: "x < 2 ^ 32 \<Longrightarrow> y < 2 ^ 32 \<Longrightarrow> u32wrap (y + u32sub x y) = x"
proof (cases "y \<le> x")
  case False
  assume a: "x < 2 ^ 32" "y < 2 ^ 32"
  then have "(x + 2 ^ 32 - y) mod 2 ^ 32 = x + 2 ^ 32 - y" using False by (intro mod_less) simp
  then have "y + u32sub x y = x + 2 ^ 32" using False a by (simp add: u32sub_def)
  then show ?thesis using a by (simp add: u32wrap_def)
qed (simp_all add: u32sub_def u32wrap_def)

lemma setCsbrk_used:
  assumes "seg_ok h" "p < h_nChunks h" "p \<notin> free_set (h_chunks h)"
  defines "off \<equiv> p * h_bytesPerChunk h"
  shows "\<exists>used. setCsbrk sp h off = Ret (if h_csbrk h > off \<and> \<not> sp then h\<lparr>h_csbrk := off\<rparr> else h, used)"
proof -
  note ok = seg_okD [OF assms(1)]
  let ?bpc = "h_bytesPerChunk h"
  define t where "t = h_csbrk h div ?bpc"
  have "off < h_nBytes h" using mult_strict_right_mono [OF assms(2) ok(11)] by (simp add: off_def ok(4))
  then have off: "off < 2 ^ 63" "off div ?bpc = p" using ok(5,11) unfolding off_def by simp_all
  have c: "ceil_div (h_csbrk h) ?bpc = t" using ok(7) by (simp add: ceil_div_def t_def)
  have "t \<le> h_nChunks h" using ok(4,6,11) by (metis div_le_mono div_mult_self_is_m t_def)
  then have t: "t \<le> bm_nBits (h_chunks h)" "t < 2 ^ 32 - 1" "p < 2 ^ 32" using ok(3,10) assms(2) by auto
  have wrap: "u64wrap (off + u64sub (h_csbrk h) off) = h_csbrk h" "u32wrap p = p"
    using u64sub_add off(1) ok(5,6) t(3) by (auto simp: u32wrap_def)
  have "\<exists>b. isSet (h_chunks h) p (u32sub t p) = Ret b"
  proof (cases "t = p")
    case True
    then show ?thesis using isSet_none [OF ok(1)] t(1) by (auto simp: u32sub_def)
  next
    case False
    have sum: "u32wrap (p + u32sub t p) = t" using u32sub_add t(2,3) by simp
    then have "0 < u32sub t p" using False wrap(2) by (cases "u32sub t p") auto
    then show ?thesis using isSet_first_used [OF ok(1) _ assms(3)] sum t(1) assms(2) ok(3) by auto
  qed
  then have "\<exists>b. chunksAreUsed h' off (u64sub (h_csbrk h) off) = Ret b"
    if "h_chunks h' = h_chunks h" "h_bytesPerChunk h' = ?bpc" for h' :: heap
    using that t(2) by (simp add: chunksAreUsed_def off(2) wrap c Let_def)
  from this [of "if h_csbrk h > off \<and> \<not> sp then h\<lparr>h_csbrk := off\<rparr> else h"]
  show ?thesis by (auto simp: setCsbrk_def Let_def)
qed

section \<open>Allocation\<close>

definition heap_same :: "heap \<Rightarrow> heap \<Rightarrow> bool" where
  "heap_same h h' = (h_bytesPerChunk h' = h_bytesPerChunk h \<and> h_nBytes h' = h_nBytes h \<and> h_nChunks h' = h_nChunks h \<and>
    h_base h' = h_base h \<and> bm_minAlign (h_chunks h') = bm_minAlign (h_chunks h) \<and> bm_baseAlign (h_chunks h') = bm_baseAlign (h_chunks h))"

text \<open>What a successful allocation of \<open>m\<close> chunks at chunk \<open>k\<close> does to the heap.\<close>

definition heap_grant :: "heap \<Rightarrow> nat \<Rightarrow> nat \<Rightarrow> nat \<Rightarrow> heap \<Rightarrow> bool" where
  "heap_grant h k m c h' = (seg_ok h' \<and> heap_same h h' \<and> k + m \<le> h_nChunks h \<and> {k..<k + m} \<subseteq> free_set (h_chunks h) \<and>
    free_set (h_chunks h') = free_set (h_chunks h) - {k..<k + m} \<and> h_csbrk h' = c)"

lemma aligned_address:
  assumes ok: "seg_ok h" and al: "aligned (h_chunks h) a k" and a: "a \<le> bm_baseAlign (h_chunks h)" and k: "k < h_nChunks h"
  shows "2 ^ a dvd k * h_bytesPerChunk h" "2 ^ a dvd h_base h + k * h_bytesPerChunk h"
    "(of_nat (h_base h + k * h_bytesPerChunk h) :: u64) AND (of_nat (2 ^ a) - 1) = 0"
proof -
  note i = seg_okD [OF ok]
  have d: "2 ^ a dvd (2::nat) ^ bm_baseAlign (h_chunks h)" using a by (rule le_imp_power_dvd)
  show o: "2 ^ a dvd k * h_bytesPerChunk h"
    using al d unfolding aligned_def i(2) by (metis dvd_add_left_iff)
  have "2 ^ a dvd h_base h" using i(8) d by (meson dvd_trans mod_0_imp_dvd)
  then show p: "2 ^ a dvd h_base h + k * h_bytesPerChunk h" using o by (rule dvd_add)
  have "k * h_bytesPerChunk h < h_nBytes h" using mult_strict_right_mono [OF k i(11)] i(4) by simp
  then have "unat (of_nat (h_base h + k * h_bytesPerChunk h) :: u64) = h_base h + k * h_bytesPerChunk h"
    using i(9) by (intro unat_of_nat_small) simp
  moreover have "unat (((of_nat (h_base h + k * h_bytesPerChunk h) :: u64)) AND (2 ^ a - 1)) =
      unat (of_nat (h_base h + k * h_bytesPerChunk h) :: u64) mod 2 ^ a"
    using a i(13) by (intro and_pred_pow2_mod) simp
  ultimately show "(of_nat (h_base h + k * h_bytesPerChunk h) :: u64) AND (of_nat (2 ^ a) - 1) = 0"
    using p by (simp add: dvd_eq_mod_eq_0 unat_eq_0)
qed

lemma heap_found:
  assumes ok: "seg_ok h" and m: "0 < m" and c: "candidate (h_chunks h) m a k" and r: "reserved (h_chunks h) k m bm"
    and brk: "c \<le> h_csbrk h" "c mod h_bytesPerChunk h = 0"
  shows "heap_grant h k m c (h\<lparr>h_chunks := bm, h_csbrk := c\<rparr>)" "k < h_nChunks h" "k \<notin> free_set bm"
proof -
  have sub: "{k..<k + m} \<subseteq> free_set (h_chunks h)" "k + m \<le> bm_nBits (h_chunks h)" using c by (auto simp: candidate_def)
  then show "k < h_nChunks h" using m seg_okD(3) [OF ok] by simp
  show "k \<notin> free_set bm" using r m by (auto simp: reserved_def)
  show "heap_grant h k m c (h\<lparr>h_chunks := bm, h_csbrk := c\<rparr>)"
    using ok r sub brk unfolding heap_grant_def seg_ok_def heap_same_def reserved_def by auto
qed

definition heap_search :: "heap \<Rightarrow> chunk_type \<Rightarrow> nat \<Rightarrow> nat \<Rightarrow> (status \<times> nat option \<times> bitmap) outcome option" where
  "heap_search h type m a = (if type = GLOBAL then reserve (h_chunks h) m a else rreserve (h_chunks h) m a)"

lemma heap_search_correct:
  assumes "bm_inv (h_chunks h)" "bm_request (h_chunks h) True m a"
  shows "(\<exists>k bm. heap_search h type m a = Some (Ret (LIBHPX_OK, Some k, bm)) \<and> candidate (h_chunks h) m a k \<and> reserved (h_chunks h) k m bm) \<or>
    heap_search h type m a = Some (Fault Dbg_error)"
proof -
  have m: "0 < m" "m < 2 ^ 32" "bm_nBits (h_chunks h) + 64 + m + 2 ^ (a - bm_minAlign (h_chunks h)) \<le> 2 ^ 32"
    using assms(2) by (auto simp: bm_request_def)
  show ?thesis using reserve_correct [OF assms(1) m(1,3)] rreserve_correct [OF assms(1) m(1,2), of a]
    by (auto simp: heap_search_def least_candidate_def greatest_candidate_def)
qed

text \<open>The break after a chunk is placed at an offset.\<close>

definition new_brk :: "bool \<Rightarrow> heap \<Rightarrow> chunk_type \<Rightarrow> nat \<Rightarrow> nat" where
  "new_brk sp h type off = (if type = CYCLIC \<and> \<not> sp \<and> h_csbrk h > off then off else h_csbrk h)"

lemma allocateChunk_found:
  assumes ok: "seg_ok h" and n: "n mod h_bytesPerChunk h = 0" and a: "a \<le> bm_baseAlign (h_chunks h)"
    and m: "m = n div h_bytesPerChunk h" "0 < m" "m < 2 ^ 32 - 1"
    and r: "heap_search h type m a = Some (Ret (LIBHPX_OK, Some k, bm))" "candidate (h_chunks h) m a k" "reserved (h_chunks h) k m bm"
  defines "off \<equiv> k * h_bytesPerChunk h"
  shows "allocateChunk sp h n (2 ^ a) type = Some (if type = GLOBAL \<and> off + n > h_csbrk h then Fault Dbg_error
    else Ret (h_base h + off, h\<lparr>h_chunks := bm, h_csbrk := new_brk sp h type off\<rparr>))"
proof -
  note i = seg_okD [OF ok]
  have lg: "ceil_log2 (of_nat (2 ^ a) :: u64) = a" using ceil_log2_pow2 [of a, where 'a = 64] a i(13) by simp
  have al: "aligned (h_chunks h) a k" using r(2) by (simp add: candidate_def)
  note f = heap_found [OF ok m(2) r(2,3) order_refl i(7)]
  note ad = aligned_address [OF ok al a f(2), folded off_def]
  have k: "off \<le> h_nBytes h" using f(2) i(4,11) by (simp add: off_def)
  have o: "seg_ok (h\<lparr>h_chunks := bm\<rparr>)" using f(1) by (simp add: heap_grant_def)
  have "\<exists>used. setCsbrk sp (h\<lparr>h_chunks := bm\<rparr>) off =
      Ret (if h_csbrk h > off \<and> \<not> sp then h\<lparr>h_chunks := bm, h_csbrk := off\<rparr> else h\<lparr>h_chunks := bm\<rparr>, used)"
    using setCsbrk_used [OF o, of k sp] f(2,3) by (simp add: off_def split del: if_split cong: if_cong)
  then obtain used where brk: "setCsbrk sp (h\<lparr>h_chunks := bm\<rparr>) off =
      Ret (if h_csbrk h > off \<and> \<not> sp then h\<lparr>h_chunks := bm, h_csbrk := off\<rparr> else h\<lparr>h_chunks := bm\<rparr>, used)" by blast
  show ?thesis
  proof (cases type)
    case GLOBAL
    then show ?thesis using n m lg r(1) ad k
      by (simp add: allocateChunk_def heap_search_def Let_def offsetToLVA_def dvd_eq_mod_eq_0 new_brk_def off_def)
  next
    case CYCLIC
    have "allocateChunk sp h n (2 ^ a) CYCLIC = Some (bindO (setCsbrk sp (h\<lparr>h_chunks := bm\<rparr>) off) (\<lambda>(h2, used).
        bindO (offsetToLVA True h2 off) (\<lambda>p. assertO ((of_nat p :: u64) AND (of_nat (2 ^ a) - 1) = 0) (Ret (p, h2)))))"
      using CYCLIC n m lg r(1) ad(1)
      by (simp add: allocateChunk_def heap_search_def Let_def dvd_eq_mod_eq_0 off_def outcome_simps split_def)
    then show ?thesis using CYCLIC ad(3) k by (simp add: brk new_brk_def offsetToLVA_def)
  qed
qed

lemma allocateChunk_ok:
  assumes ok: "seg_ok h" and q: "heap_request h n align"
  shows "allocateChunk sp h n align type = Some (Fault Dbg_error) \<or>
    (\<exists>k h'. allocateChunk sp h n align type = Some (Ret (h_base h + k * h_bytesPerChunk h, h')) \<and>
      align dvd h_base h + k * h_bytesPerChunk h \<and>
      heap_grant h k (n div h_bytesPerChunk h) (new_brk sp h type (k * h_bytesPerChunk h)) h' \<and>
      (type = GLOBAL \<longrightarrow> k * h_bytesPerChunk h + n \<le> h_csbrk h))"
proof -
  let ?b = "h_bytesPerChunk h" and ?m = "n div h_bytesPerChunk h"
  obtain a where a: "align = 2 ^ a" "a \<le> bm_baseAlign (h_chunks h)" "bm_request (h_chunks h) True ?m a" and n: "n mod ?b = 0"
    using q by (auto simp: heap_request_def)
  have m: "0 < ?m" "?m < 2 ^ 32 - 1" using a(3) by (auto simp: bm_request_def)
  note i = seg_okD [OF ok]
  from heap_search_correct [OF i(1) a(3), of type] show ?thesis
  proof (elim disjE exE conjE)
    assume "heap_search h type ?m a = Some (Fault Dbg_error)"
    moreover have "ceil_log2 (of_nat align :: u64) = a" using ceil_log2_pow2 [of a, where 'a = 64] a(1,2) i(13) by simp
    ultimately show ?thesis using n m by (cases type) (simp_all add: allocateChunk_def heap_search_def Let_def)
  next
    fix k bm
    assume r: "heap_search h type ?m a = Some (Ret (LIBHPX_OK, Some k, bm))" "candidate (h_chunks h) ?m a k" "reserved (h_chunks h) k ?m bm"
    let ?c = "new_brk sp h type (k * ?b)"
    have c: "?c \<le> h_csbrk h" "?c mod ?b = 0" using i(7) by (auto simp: new_brk_def)
    note f = heap_found [OF ok m(1) r(2,3) c]
    have "aligned (h_chunks h) a k" using r(2) by (simp add: candidate_def)
    then have "align dvd h_base h + k * ?b" unfolding a(1) using aligned_address(2) ok a(2) f(2) by blast
    then show ?thesis using allocateChunk_found [OF ok n a(2) refl m r, of sp] f(1) unfolding a(1) by auto
  qed
qed

section \<open>Release\<close>

lemma deallocateChunk_ok:
  assumes ok: "seg_ok h" and m: "0 < m" "k + m \<le> h_nChunks h"
  shows "\<exists>h'. deallocateChunk h (h_base h + k * h_bytesPerChunk h) (m * h_bytesPerChunk h) = Ret (True, h') \<and> seg_ok h' \<and>
    heap_same h h' \<and> h_csbrk h' = h_csbrk h \<and> free_set (h_chunks h') = free_set (h_chunks h) \<union> {k..<k + m}"
proof -
  note i = seg_okD [OF ok]
  obtain bm where bm: "release (h_chunks h) k m = Ret bm" "released (h_chunks h) k m bm"
    using release_correct [OF i(1) m(1), of k] m(2) i(3) by auto
  have w: "u32wrap k = k" "u32wrap m = m" using m i(10) by (auto intro!: u32wrap_small)
  have "deallocateChunk h (h_base h + k * h_bytesPerChunk h) (m * h_bytesPerChunk h) = Ret (True, h\<lparr>h_chunks := bm\<rparr>)"
    using i(11) bm(1) w by (simp add: deallocateChunk_def u64sub_def Let_def)
  then show ?thesis using ok bm(2) by (intro exI [of _ "h\<lparr>h_chunks := bm\<rparr>"]) (auto simp: seg_ok_def heap_same_def released_def)
qed

section \<open>The heap as an allocator of chunks\<close>

definition hp_request :: "heap \<Rightarrow> bool \<Rightarrow> nat \<Rightarrow> nat \<Rightarrow> bool" where
  "hp_request h up m a = heap_request h (m * h_bytesPerChunk h) (2 ^ a)"

definition hp_alloc :: "heap \<Rightarrow> bool \<Rightarrow> nat \<Rightarrow> nat \<Rightarrow> (nat \<times> heap) option" where
  "hp_alloc h up m a =
    (case allocateChunk False h (m * h_bytesPerChunk h) (2 ^ a) (if up then GLOBAL else CYCLIC) of
       Some (Inr (p, h')) \<Rightarrow> Some ((p - h_base h) div h_bytesPerChunk h, h') | _ \<Rightarrow> None)"

definition hp_dealloc :: "heap \<Rightarrow> nat \<Rightarrow> nat \<Rightarrow> heap option" where
  "hp_dealloc h k m =
    (case deallocateChunk h (h_base h + k * h_bytesPerChunk h) (m * h_bytesPerChunk h) of
       Inr (ok, h') \<Rightarrow> Some h' | _ \<Rightarrow> None)"

lemma hp_alloc_grant:
  assumes "seg_ok h" "hp_request h up m a" "hp_alloc h up m a = Some (k, h')"
  shows "heap_grant h k m (new_brk False h (if up then GLOBAL else CYCLIC) (k * h_bytesPerChunk h)) h' \<and>
    (up \<longrightarrow> (k + m) * h_bytesPerChunk h \<le> h_csbrk h)"
proof -
  have "0 < h_bytesPerChunk h" by (rule seg_okD(11) [OF assms(1)])
  then show ?thesis
    using allocateChunk_ok [OF assms(1), of "m * h_bytesPerChunk h" "2 ^ a" False "if up then GLOBAL else CYCLIC"] assms(2,3)
    by (auto simp: hp_request_def hp_alloc_def distrib_right)
qed

interpretation hpa: range_allocator seg_ok "\<lambda>h. free_set (h_chunks h)" h_nChunks hp_request hp_alloc hp_dealloc
proof unfold_locales
  show "free_set (h_chunks h) \<subseteq> {..<h_nChunks h}" if "seg_ok h" for h
    using seg_okD(3) [OF that] by (auto simp: free_set_def)
  show "0 < n" if "hp_request h up n a" for h up n a
    using that by (cases n) (auto simp: hp_request_def heap_request_def bm_request_def)
  show "seg_ok h' \<and> h_nChunks h' = h_nChunks h \<and> {p..<p + n} \<subseteq> free_set (h_chunks h) \<and>
      free_set (h_chunks h') = free_set (h_chunks h) - {p..<p + n}"
    if "seg_ok h" "hp_request h up n a" "hp_alloc h up n a = Some (p, h')" for h up n a p h'
    using hp_alloc_grant [OF that] by (auto simp: heap_grant_def heap_same_def)
  show "\<exists>h'. hp_dealloc h p n = Some h' \<and> seg_ok h' \<and> h_nChunks h' = h_nChunks h \<and>
      free_set (h_chunks h') = free_set (h_chunks h) \<union> {p..<p + n}"
    if "seg_ok h" "0 < n" "p + n \<le> h_nChunks h" for h n p
    using deallocateChunk_ok [OF that] by (auto simp: hp_dealloc_def heap_same_def)
qed

section \<open>Later states\<close>

inductive heap_step :: "heap \<Rightarrow> heap \<Rightarrow> bool" where
  alloc: "allocateChunk sp h n align type = Some (Ret (p, h')) \<Longrightarrow> heap_step h h'"
| dealloc: "deallocateChunk h p n = Ret (ok, h') \<Longrightarrow> heap_step h h'"
| brk: "setCsbrk sp h off = Ret (h', used) \<Longrightarrow> heap_step h h'"

lemma setCsbrk_lowers:
  assumes "setCsbrk sp h off = Ret (h', used)"
  shows "h_csbrk h' \<le> h_csbrk h \<and> h_nBytes h' = h_nBytes h"
  using assms by (auto simp: setCsbrk_def Let_def outcome_simps)

lemma heap_step_lowers:
  assumes "heap_step h h'"
  shows "h_csbrk h' \<le> h_csbrk h \<and> h_nBytes h' = h_nBytes h"
  using assms
proof (cases rule: heap_step.cases)
  case (alloc sp n align type p)
  then show ?thesis
    by (auto simp: allocateChunk_def Let_def outcome_simps split: if_splits prod.splits dest!: setCsbrk_lowers)
next
  case (dealloc p n ok)
  then show ?thesis by (auto simp: deallocateChunk_def Let_def outcome_simps)
next
  case (brk sp off used)
  then show ?thesis by (rule setCsbrk_lowers)
qed

lemma heap_steps_lower: "heap_step\<^sup>*\<^sup>* h h' \<Longrightarrow> h_csbrk h' \<le> h_csbrk h \<and> h_nBytes h' = h_nBytes h"
  by (induction rule: rtranclp_induct) (use heap_step_lowers order_trans in fastforce)+

section \<open>A new segment\<close>

lemma heap_new_ok:
  assumes "bytesPerChunk = 2 ^ c" "c \<le> 30" "bytesPerChunk \<le> bytes" "bytes \<le> 2 ^ 48" "bytes div bytesPerChunk + 64 \<le> 2 ^ 32"
    "\<And>align. mmap (bytes - bytes mod bytesPerChunk) align = Some base \<Longrightarrow> align dvd base \<and> base + bytes < 2 ^ 64"
    "\<And>align. mmap (bytes - bytes mod bytesPerChunk) align = Some base"
  shows "\<exists>h. heap_new mmap bytesPerChunk False bytes = Ret h \<and> seg_ok h \<and> free_set (h_chunks h) = {..<bytes div bytesPerChunk} \<and>
    h_csbrk h = h_nBytes h \<and> h_nBytes h = bytes div bytesPerChunk * bytesPerChunk"
proof -
  define nb where "nb = bytes - bytes mod bytesPerChunk"
  define nc where "nc = bytes div bytesPerChunk"
  define lm where "lm = min GPA_MAX_LG_BSIZE (ceil_log2 (of_nat nb :: u64))"
  have b: "0 < bytesPerChunk" using assms(1) by simp
  have nb: "nb = nc * bytesPerChunk" unfolding nb_def nc_def by (simp add: minus_mod_eq_div_mult)
  have nc: "u32wrap (ceil_div nb bytesPerChunk) = nc" "nc + 64 \<le> 2 ^ 32" "0 < nc"
    using assms(3,5) b by (auto simp: nb ceil_div_def nc_def div_greater_zero_iff intro!: u32wrap_small)
  have "2 ^ c \<le> nb" unfolding nb assms(1) using nc(3) by simp
  moreover have "nb \<le> 2 ^ 48" using assms(4) by (simp add: nb_def)
  moreover have "unat (of_nat nb :: u64) = nb" using assms(4) by (intro unat_of_nat_small) (simp add: nb_def)
  moreover have "(of_nat nb :: u64) \<noteq> 0" using calculation by (metis less_le_trans unsigned_0 zero_less_numeral zero_less_power less_irrefl)
  ultimately have "(2 :: nat) ^ c \<le> 2 ^ ceil_log2 (of_nat nb :: u64)" using ceil_log2_bounds(1) [of "of_nat nb :: u64"] by (metis order_trans)
  then have "c \<le> ceil_log2 (of_nat nb :: u64)" by (simp add: power_le_imp_le_exp)
  then have lm: "c \<le> lm" "lm \<le> 62" using assms(2) by (auto simp: lm_def GPA_MAX_LG_BSIZE_def)
  have lc: "ceil_log2 (of_nat bytesPerChunk :: u64) = c" using ceil_log2_pow2 [of c, where 'a = 64] assms(1,2) by simp
  have base: "2 ^ lm dvd base" "base + bytes < 2 ^ 64" using assms(6,7) by blast+
  then have "bytesPerChunk dvd base" using lm(1) unfolding assms(1) by (meson dvd_trans le_imp_power_dvd)
  then have seg: "newSegment mmap bytesPerChunk nb lm = Ret base"
    using assms(7) unfolding nb_def [symmetric] by (simp add: newSegment_def dvd_eq_mod_eq_0)
  have small: "nb \<le> 2 ^ 48" "nb \<le> bytes" using assms(4) by (simp_all add: nb_def)
  then have "heap_new mmap bytesPerChunk False bytes = Ret \<lparr> h_bytesPerChunk = bytesPerChunk, h_nBytes = nb, h_csbrk = nb, h_nChunks = nc,
                 h_logMaxBlockSize = lm, h_base = base, h_chunks = Bitmap_new nc c lm \<rparr>" (is "_ = Ret ?h")
    unfolding heap_new_def Let_def nb_def [symmetric] lm_def [symmetric] nc(1) lc seg by (simp add: MAX_HEAP_BYTES_def)
  moreover have "seg_ok ?h" "free_set (h_chunks ?h) = {..<nc}"
    using Bitmap_new_inv [OF nc(2) lm(1) assms(2) lm(2)] assms(1) base nb small
    by (simp_all add: seg_ok_def MAX_HEAP_BYTES_def dvd_eq_mod_eq_0) (simp add: Bitmap_new_def)
  ultimately show ?thesis using nb by (intro exI [of _ ?h]) (simp add: nc_def)
qed

section \<open>Properties\<close>

text \<open>
  C20: Chunks handed out by the heap never overlap. In every history in which clients release
  only chunks they hold, the live chunks lie inside the segment, no two of them share a byte,
  whether cyclic or not, and each of them can be released.
\<close>
theorem heap_live_disjoint:
  assumes "seg_ok h0" "ledger hp_request hp_alloc hp_dealloc h0 h L"
  shows "(\<forall>(k, m) \<in> L. (k + m) * h_bytesPerChunk h0 \<le> h_nBytes h0 \<and> hp_dealloc h k m \<noteq> None) \<and>
    (\<forall>(k, m) \<in> L. \<forall>(k', m') \<in> L. (k, m) \<noteq> (k', m') \<longrightarrow>
      (k + m) * h_bytesPerChunk h0 \<le> k' * h_bytesPerChunk h0 \<or> (k' + m') * h_bytesPerChunk h0 \<le> k * h_bytesPerChunk h0)"
proof -
  have c: "hpa.consistent h0 h L" by (rule hpa.ledger_consistent [OF assms(2,1)])
  have b: "0 < h_bytesPerChunk h0" "h_nBytes h0 = h_nChunks h0 * h_bytesPerChunk h0" using seg_okD [OF assms(1)] by blast+
  have "k + m \<le> h_nChunks h0 \<and> 0 < m" if "(k, m) \<in> L" for k m using c that by (auto simp: hpa.consistent_def)
  moreover have "k + m \<le> k' \<or> k' + m' \<le> k" if "(k, m) \<in> L" "(k', m') \<in> L" "(k, m) \<noteq> (k', m')" for k m k' m'
  proof (rule ccontr)
    assume "\<not> ?thesis"
    moreover have "0 < m" "0 < m'" using c that by (auto simp: hpa.consistent_def)
    ultimately have "max k k' \<in> range_of (k, m) \<inter> range_of (k', m')" by (auto simp: range_of_def)
    then show False using c that unfolding hpa.consistent_def by blast
  qed
  moreover have "hp_dealloc h k m \<noteq> None" if "(k, m) \<in> L" for k m
    using hpa.ledger_free_enabled [OF assms(2,1) that] by auto
  ultimately show ?thesis using b by (fastforce intro: mult_le_mono1)
qed

definition small_heap :: heap where
  "small_heap = \<lparr> h_bytesPerChunk = 4096, h_nBytes = 524288, h_csbrk = 524288, h_nChunks = 128,
    h_logMaxBlockSize = 19, h_base = 2 ^ 40, h_chunks = Bitmap_new 128 12 19 \<rparr>"

lemma small_heap_ok: "seg_ok small_heap" "free_set (h_chunks small_heap) = {..<128}"
  using Bitmap_new_inv [of 128 12 19] by (simp_all add: small_heap_def seg_ok_def MAX_HEAP_BYTES_def) (simp_all add: Bitmap_new_def)

lemma small_heap_new: "heap_new (\<lambda>n align. Some (2 ^ 40)) 4096 False 525000 = Ret small_heap"
proof -
  have "ceil_log2 (524288 :: u64) = 19" "ceil_log2 (4096 :: u64) = 12"
    using ceil_log2_pow2 [of 19, where 'a = 64] ceil_log2_pow2 [of 12, where 'a = 64] by simp_all
  then show ?thesis
    by (simp add: heap_new_def Let_def newSegment_def small_heap_def MAX_HEAP_BYTES_def GPA_MAX_LG_BSIZE_def ceil_div_def u32wrap_def)
qed

lemma small_heap_request: "heap_request small_heap 8192 4096"
  unfolding heap_request_def small_heap_def by (auto simp: bm_request_def Bitmap_new_def intro!: exI [of _ 12])

lemma small_candidates: "candidate (h_chunks small_heap) 2 12 k \<longleftrightarrow> k \<le> 126"
proof -
  have "aligned (h_chunks small_heap) 12 k"
    unfolding aligned_def small_heap_def by (simp add: Bitmap_new_def dvd_add)
  moreover have "bm_nBits (h_chunks small_heap) = 128" by (simp add: small_heap_def Bitmap_new_def)
  moreover have "{k..<k + 2} \<subseteq> {..<128} \<longleftrightarrow> k \<le> 126" unfolding subset_eq by (auto dest: bspec [of _ _ "k + 1"])
  ultimately show ?thesis unfolding candidate_def small_heap_ok(2) by auto
qed

lemma small_heap_alloc:
  "\<exists>h. allocateChunk False small_heap 8192 4096 type =
      Some (Ret (2 ^ 40 + (if type = GLOBAL then 0 else 516096), h)) \<and>
    h_csbrk h = (if type = GLOBAL then 524288 else 516096)"
proof -
  have b: "h_bytesPerChunk small_heap = 4096" "h_csbrk small_heap = 524288" "h_base small_heap = 2 ^ 40" "bm_baseAlign (h_chunks small_heap) = 19"
    "bm_request (h_chunks small_heap) True 2 12" by (simp_all add: small_heap_def Bitmap_new_def bm_request_def)
  have m: "bm_nBits (h_chunks small_heap) + 64 + 2 + 2 ^ (12 - bm_minAlign (h_chunks small_heap)) \<le> 2 ^ 32"
    by (simp add: small_heap_def Bitmap_new_def)
  have nc: "\<not> (\<forall>k. \<not> candidate (h_chunks small_heap) 2 12 k)" using small_candidates by blast
  note inv = seg_okD(1) [OF small_heap_ok(1)]
  obtain k bm where r: "heap_search small_heap type 2 12 = Some (Ret (LIBHPX_OK, Some k, bm))" "reserved (h_chunks small_heap) k 2 bm"
    "k = (if type = GLOBAL then 0 else 126)"
  proof (cases type)
    case GLOBAL
    obtain k bm where "least_candidate (h_chunks small_heap) 2 12 k" "reserve (h_chunks small_heap) 2 12 = Some (Ret (LIBHPX_OK, Some k, bm))"
      "reserved (h_chunks small_heap) k 2 bm" using reserve_correct [OF inv _ m] nc by auto
    moreover from this(1) have "k = 0" unfolding least_candidate_def small_candidates by blast
    ultimately show ?thesis using that GLOBAL by (simp add: heap_search_def)
  next
    case CYCLIC
    obtain k bm where "greatest_candidate (h_chunks small_heap) 2 12 k" "rreserve (h_chunks small_heap) 2 12 = Some (Ret (LIBHPX_OK, Some k, bm))"
      "reserved (h_chunks small_heap) k 2 bm" using rreserve_correct [OF inv, of 2 12] nc by auto
    moreover from this(1) have "k = 126" unfolding greatest_candidate_def small_candidates by (auto intro: order_antisym)
    ultimately show ?thesis using that CYCLIC by (simp add: heap_search_def)
  qed
  have c: "candidate (h_chunks small_heap) 2 12 k" unfolding small_candidates r(3) by simp
  have "allocateChunk False small_heap 8192 (2 ^ 12) type = Some (if type = GLOBAL \<and> k * 4096 + 8192 > 524288 then Fault Dbg_error
      else Ret (2 ^ 40 + k * 4096, small_heap\<lparr>h_chunks := bm, h_csbrk := new_brk False small_heap type (k * 4096)\<rparr>))"
    by (rule allocateChunk_found [OF small_heap_ok(1) _ _ _ _ _ r(1) c r(2), of 8192 False, unfolded b]) simp_all
  then show ?thesis unfolding r(3) by (cases type) (simp_all add: new_brk_def b(2))
qed

theorem heap_live_disjoint_witness:
  "\<exists>k h. ledger hp_request hp_alloc hp_dealloc small_heap h {(k, 2)} \<and> (k + 2) * 4096 \<le> 524288 \<and> hp_dealloc h k 2 \<noteq> None"
proof -
  have b: "h_bytesPerChunk small_heap = 4096" "h_nBytes small_heap = 524288" "h_base small_heap = 2 ^ 40" by (simp_all add: small_heap_def)
  obtain h where h: "hp_alloc small_heap True 2 12 = Some (0, h)"
    using small_heap_alloc [of GLOBAL] b by (auto simp: hp_alloc_def)
  have "hp_request small_heap True 2 12" using small_heap_request b by (simp add: hp_request_def)
  then have l: "ledger hp_request hp_alloc hp_dealloc small_heap h {(0, 2)}"
    by (rule ledger_alloc [where req = hp_request and alloc = hp_alloc and dealloc = hp_dealloc, OF ledger_init _ h])
  then show ?thesis using heap_live_disjoint [OF small_heap_ok(1) l] b by auto
qed

text \<open>
  The break tells cyclic offsets from others. A global chunk lies below the break when it
  is handed out, so none of its bytes counts as cyclic; a cyclic chunk, provided the
  compare-and-swap did not fail spuriously, lies above it, and all its bytes count as cyclic in
  every later state of the heap.
\<close>
lemma heap_classifies:
  assumes "seg_ok h" "heap_request h n align" "allocateChunk False h n align type = Some (Ret (p, h'))" "x < n"
  shows "(type = GLOBAL \<longrightarrow> \<not> isCyclicOffset h' (p - h_base h + x)) \<and>
    (type = CYCLIC \<longrightarrow> heap_step\<^sup>*\<^sup>* h' h'' \<longrightarrow> isCyclicOffset h'' (p - h_base h + x))"
proof -
  let ?b = "h_bytesPerChunk h"
  obtain k where k: "p = h_base h + k * ?b" "heap_grant h k (n div ?b) (new_brk False h type (k * ?b)) h'"
    "type = GLOBAL \<longrightarrow> k * ?b + n \<le> h_csbrk h"
    using allocateChunk_ok [OF assms(1,2), of False type] assms(3) by auto
  have n: "n div ?b * ?b = n" using assms(2) by (auto simp: heap_request_def dvd_eq_mod_eq_0 [symmetric])
  have "(k + n div ?b) * ?b \<le> h_nChunks h * ?b" using k(2) by (intro mult_le_mono1) (simp add: heap_grant_def)
  then have in_heap: "k * ?b + n \<le> h_nBytes h" using n seg_okD(4) [OF assms(1)] by (simp add: distrib_right)
  have h': "h_csbrk h' = new_brk False h type (k * ?b)" "h_nBytes h' = h_nBytes h" using k(2) by (auto simp: heap_grant_def heap_same_def)
  have "isCyclicOffset h'' (p - h_base h + x)" if "type = CYCLIC" "heap_step\<^sup>*\<^sup>* h' h''"
    using heap_steps_lower [OF that(2)] in_heap h' assms(4) that(1) k(1) by (auto simp: isCyclicOffset_def new_brk_def split: if_splits)
  moreover have "\<not> isCyclicOffset h' (p - h_base h + x)" if "type = GLOBAL"
    using k(1,3) h'(1) assms(4) that by (auto simp: isCyclicOffset_def new_brk_def)
  ultimately show ?thesis by blast
qed

text \<open>
  A stale break crashes a rank. The break is broadcast after every cyclic allocation and
  two broadcasts may arrive in either order. When the lower one arrives first, the higher one
  makes \<^verbatim>\<open>setCsbrk\<close> query a negative number of chunks, which is read as almost \<open>2\<^sup>32\<close>, and on a
  rank whose chunks above the break are free the scan leaves the bitmap.
\<close>
lemma heap_stale_break_overruns:
  "\<exists>h'. setCsbrk False small_heap (64 * 4096) = Ret (h', False) \<and> setCsbrk False h' (96 * 4096) = Fault Out_of_bounds"
proof -
  let ?bm = "h_chunks small_heap"
  have replicate_2: "replicate 2 (-1 :: u64) = [-1, -1]" by (simp add: numeral_2_eq_2)
  have inv: "bm_inv ?bm" "bm_nBits ?bm = 128" "bm_blocks ?bm = [-1, -1]"
    using seg_okD(1) [OF small_heap_ok(1)] by (simp_all add: small_heap_def Bitmap_new_def ceil_div_def BLOCK_BITS_def replicate_2)
  have "isSet ?bm 64 64 = Ret False" using isSet_correct [OF inv(1), of 64 64] by (simp add: inv(2) small_heap_ok(2)) auto
  moreover have "isSet ?bm 96 4294967264 = Fault Out_of_bounds"
  proof -
    obtain w where w: "CreateMask (96 mod 64) 4294967264 = Ret w" "interval_mask w (96 mod 64) 4294967264" by (rule CreateMask_mod)
    then have pc: "popcount w = 32" using interval_mask_popcount [OF w(2)] by simp
    obtain w' where w': "CreateMask (0 mod 64) 4294967232 = Ret w'" by (rule CreateMask_mod)
    have "isSet_loop [-1, -1] 2 w' 4294967232 = Fault Out_of_bounds" by (subst isSet_loop.simps) simp
    then have "isSet_loop [-1, -1] 1 w 4294967264 = Fault Out_of_bounds"
      using w' by (subst isSet_loop.simps) (simp add: pc u32sub_def Let_def numeral_2_eq_2)
    then show ?thesis using w(1) by (simp add: isSet_def inv(2,3) BLOCK_BITS_def u32wrap_def)
  qed
  ultimately have "setCsbrk False small_heap (64 * 4096) = Ret (small_heap\<lparr>h_csbrk := 64 * 4096\<rparr>, False)"
    "setCsbrk False (small_heap\<lparr>h_csbrk := 64 * 4096\<rparr>) (96 * 4096) = Fault Out_of_bounds"
    by (simp_all add: setCsbrk_def chunksAreUsed_def small_heap_def Let_def u64sub_def u64wrap_def u32wrap_def u32sub_def ceil_div_def)
  then show ?thesis by blast
qed

end
