(* ===== verification/Hpx_PGAS.thy ===== *)
theory Hpx_PGAS
  imports Hpx_Heap Hpx_Address Hpx_Buffer Hpx_Condition
begin

text \<open>
  The partitioned global address space of \<^verbatim>\<open>libhpx/gas/pgas/PGAS.cpp\<close> and \<^verbatim>\<open>PGAS.h\<close>: translation
  between addresses and memory, allocation and zeroing of blocks, and the memory copies. A rank is
  its number, its heap segment and the bytes of that segment. The memory allocators behind
  \<^verbatim>\<open>global_malloc\<close> and \<^verbatim>\<open>cyclic_malloc\<close> are a parameter; what an operation asks of the network, of
  LCOs and of the allocators is the list of its effects.
\<close>

section \<open>Ranks and effects\<close>

record pg =
  pg_rank :: u32
  pg_heap :: heap
  pg_mem :: "8 word list"

datatype pg_effect =
    LcoError addr hpx_status
  | LcoSet addr
  | LcoWait addr
  | LcoDelete addr
  | NetMemcpy addr addr nat addr
  | NetMemput addr "8 word list" "addr list"
  | NetMemget addr nat "addr list"
  | CallFree u32 addr addr
  | CyclicFree nat
  | GlobalFree nat

text \<open>Memory is addressed by local virtual addresses inside the segment.\<close>

definition mem_write :: "pg \<Rightarrow> nat \<Rightarrow> 8 word list \<Rightarrow> pg outcome" where
  "mem_write s lva bytes = (if lva < h_base (pg_heap s) then Fault Out_of_bounds
    else bindO (buf_write (pg_mem s) (lva - h_base (pg_heap s)) bytes) (\<lambda>m. Ret (s\<lparr>pg_mem := m\<rparr>)))"

definition mem_read :: "pg \<Rightarrow> nat \<Rightarrow> nat \<Rightarrow> 8 word list outcome" where
  "mem_read s lva n = (if lva < h_base (pg_heap s) then Fault Out_of_bounds
    else buf_read (pg_mem s) (lva - h_base (pg_heap s)) n)"

section \<open>Addresses\<close>

definition gpaToLVA :: "bool \<Rightarrow> pg \<Rightarrow> addr \<Rightarrow> nat outcome" where
  "gpaToLVA debug s gpa = offsetToLVA debug (pg_heap s) (unat (gpa_to_offset gpa))"

definition offsetToGPA :: "pg \<Rightarrow> nat \<Rightarrow> addr outcome" where
  "offsetToGPA s off = offset_to_gpa (pg_rank s) (of_nat off)"

definition isCyclicAddress :: "pg \<Rightarrow> addr \<Rightarrow> bool" where
  "isCyclicAddress s gpa = isCyclicOffset (pg_heap s) (unat (gpa_to_offset gpa))"

definition PGAS_sub :: "bool \<Rightarrow> u32 \<Rightarrow> pg \<Rightarrow> addr \<Rightarrow> addr \<Rightarrow> u32 \<Rightarrow> int outcome" where
  "PGAS_sub debug ranks s lhs rhs bsize =
    assertO (\<not> debug \<or> isCyclicAddress s lhs = isCyclicAddress s rhs)
      (if isCyclicAddress s lhs then gpa_sub_cyclic debug ranks lhs rhs bsize else Ret (gpa_sub lhs rhs))"

definition PGAS_add :: "bool \<Rightarrow> u32 \<Rightarrow> pg \<Rightarrow> addr \<Rightarrow> int \<Rightarrow> u32 \<Rightarrow> addr outcome" where
  "PGAS_add debug ranks s gpa n bsize =
    (if isCyclicAddress s gpa then gpa_add_cyclic debug ranks gpa n bsize else Ret (gpa_add gpa n))"

definition PGAS_there :: "u32 \<Rightarrow> addr outcome" where
  "PGAS_there i = offset_to_gpa i (- 1)"

definition PGAS_ownerOf :: "addr \<Rightarrow> u32" where
  "PGAS_ownerOf gpa = gpa_to_rank gpa"

text \<open>\<^verbatim>\<open>tryPin\<close> answers whether the address is local, and where; the locality itself has no offset.\<close>

datatype pin = NotLocal | Here | At nat

definition PGAS_tryPin :: "bool \<Rightarrow> pg \<Rightarrow> addr \<Rightarrow> pin outcome" where
  "PGAS_tryPin debug s gpa =
    (if gpa_to_rank gpa \<noteq> pg_rank s then Ret NotLocal
     else bindO (PGAS_there (pg_rank s)) (\<lambda>here.
       if gpa \<noteq> here then bindO (gpaToLVA debug s gpa) (\<lambda>p. Ret (At p)) else Ret Here))"

definition PGAS_free :: "bool \<Rightarrow> pg \<Rightarrow> addr \<Rightarrow> addr \<Rightarrow> pg_effect list outcome" where
  "PGAS_free debug s gpa sync =
    (if gpa = 0 then Ret [LcoSet sync]
     else if pg_rank s \<noteq> gpa_to_rank gpa then Ret [CallFree (gpa_to_rank gpa) gpa sync]
     else assertO (\<not> debug \<or> \<not> isCyclicAddress s gpa \<or> pg_rank s = 0)
       (bindO (gpaToLVA debug s gpa) (\<lambda>p.
          Ret [if isCyclicAddress s gpa then CyclicFree p else GlobalFree p, LcoSet sync])))"

section \<open>Allocation\<close>

text \<open>
  \<^verbatim>\<open>malloc h cyclic boundary bytes\<close> is what the allocator of the region returns, together with the
  heap, from which it may have taken chunks.
\<close>

type_synonym malloc = "heap \<Rightarrow> bool \<Rightarrow> nat \<Rightarrow> nat \<Rightarrow> (nat \<times> heap) option"

definition padded_size :: "nat \<Rightarrow> nat" where
  "padded_size bsize = unat (push_bit (ceil_log2 (of_nat bsize :: u64)) 1 :: u64)"

definition PGAS_allocateBlocks :: "bool \<Rightarrow> malloc \<Rightarrow> pg \<Rightarrow> nat \<Rightarrow> nat \<Rightarrow> nat \<Rightarrow> bool \<Rightarrow> bool \<Rightarrow> (nat \<times> pg) outcome" where
  "PGAS_allocateBlocks debug malloc s n bsize boundary zero cyclic =
    (let padded = padded_size bsize; bytes = u64wrap (n * padded) in
     assertO (\<not> debug \<or> padded \<le> 2 ^ h_logMaxBlockSize (pg_heap s))
       (case malloc (pg_heap s) cyclic boundary bytes of
          None \<Rightarrow> Fault Assert_failed
        | Some (lva, h) \<Rightarrow>
            bindO (if \<not> cyclic \<and> zero then mem_write (s\<lparr>pg_heap := h\<rparr>) lva (replicate bytes 0) else Ret (s\<lparr>pg_heap := h\<rparr>)) (\<lambda>s'.
              bindO (lvaToOffset (pg_heap s') lva) (\<lambda>off. Ret (off, s')))))"

definition PGAS_alloc_local :: "bool \<Rightarrow> malloc \<Rightarrow> pg \<Rightarrow> nat \<Rightarrow> nat \<Rightarrow> nat \<Rightarrow> bool \<Rightarrow> (addr \<times> pg) outcome" where
  "PGAS_alloc_local debug malloc s n bsize boundary zero =
    bindO (PGAS_allocateBlocks debug malloc s n bsize boundary zero False) (\<lambda>(off, s').
      bindO (offsetToGPA s' off) (\<lambda>gpa. Ret (gpa, s')))"

definition PGAS_zeroBlocks :: "bool \<Rightarrow> nat \<Rightarrow> pg \<Rightarrow> nat \<Rightarrow> nat \<Rightarrow> nat \<Rightarrow> pg outcome" where
  "PGAS_zeroBlocks debug ranks s off n bsize =
    assertO (\<not> debug \<or> isCyclicOffset (pg_heap s) off)
      (bindO (offsetToLVA debug (pg_heap s) off) (\<lambda>lva.
         mem_write s lva (replicate (u64wrap (ceil_div n ranks * padded_size bsize)) 0)))"

definition SetCsbrkHandler :: "bool \<Rightarrow> nat \<Rightarrow> pg \<Rightarrow> pg outcome" where
  "SetCsbrkHandler spurious off s =
    bindO (setCsbrk spurious (pg_heap s) off) (\<lambda>(h, used).
      if used then Fault Dbg_error else Ret (s\<lparr>pg_heap := h\<rparr>))"

text \<open>A broadcast runs a handler on every rank and waits for all of them.\<close>

fun bcast :: "(pg \<Rightarrow> pg outcome) \<Rightarrow> pg list \<Rightarrow> pg list outcome" where
  "bcast f [] = Ret []"
| "bcast f (s # ss) = bindO (f s) (\<lambda>s'. bindO (bcast f ss) (\<lambda>ss'. Ret (s' # ss')))"

definition PGAS_allocateCyclicBlocks :: "bool \<Rightarrow> malloc \<Rightarrow> pg list \<Rightarrow> nat \<Rightarrow> nat \<Rightarrow> nat \<Rightarrow> bool \<Rightarrow> (nat \<times> pg list) outcome" where
  "PGAS_allocateCyclicBlocks debug malloc ws n bsize boundary zero =
    (case ws of
       [] \<Rightarrow> Fault Assert_failed
     | s # rest \<Rightarrow>
         let ranks = length ws; blocks = ceil_div n ranks in
         bindO (PGAS_allocateBlocks debug malloc s blocks bsize boundary zero True) (\<lambda>(off, s').
           bindO (bcast (SetCsbrkHandler False (h_csbrk (pg_heap s'))) (s' # rest)) (\<lambda>ws'.
             bindO (if zero then bcast (\<lambda>w. PGAS_zeroBlocks debug ranks w off blocks bsize) ws' else Ret ws') (\<lambda>ws''.
               Ret (off, ws'')))))"

text \<open>The address a cyclic allocation returns to the rank that asked for it.\<close>

definition PGAS_alloc_cyclic :: "bool \<Rightarrow> malloc \<Rightarrow> pg \<Rightarrow> pg list \<Rightarrow> nat \<Rightarrow> nat \<Rightarrow> nat \<Rightarrow> bool \<Rightarrow> (addr \<times> pg list) outcome" where
  "PGAS_alloc_cyclic debug malloc here ws n bsize boundary zero =
    bindO (PGAS_allocateCyclicBlocks debug malloc ws n bsize boundary zero) (\<lambda>(off, ws').
      bindO (offsetToGPA here off) (\<lambda>gpa. Ret (gpa, ws')))"

section \<open>Copies\<close>

definition PGAS_memcpy :: "bool \<Rightarrow> pg \<Rightarrow> addr \<Rightarrow> addr \<Rightarrow> nat \<Rightarrow> addr \<Rightarrow> (pg \<times> pg_effect list) outcome" where
  "PGAS_memcpy debug s dst src n sync =
    (if n = 0 then Ret (s, [LcoError sync HPX_SUCCESS])
     else if gpa_to_rank dst \<noteq> pg_rank s then Ret (s, [NetMemcpy dst src n sync])
     else if gpa_to_rank src \<noteq> pg_rank s then Ret (s, [NetMemcpy dst src n sync])
     else bindO (gpaToLVA debug s dst) (\<lambda>ldst. bindO (gpaToLVA debug s src) (\<lambda>lsrc.
       bindO (mem_read s lsrc n) (\<lambda>bytes. bindO (mem_write s ldst bytes) (\<lambda>s'.
         Ret (s', [LcoError sync HPX_SUCCESS]))))))"

text \<open>The synchronous copy allocates a future, waits for it and deletes it.\<close>

definition PGAS_memcpy_sync :: "bool \<Rightarrow> addr \<Rightarrow> pg \<Rightarrow> addr \<Rightarrow> addr \<Rightarrow> nat \<Rightarrow> (pg \<times> pg_effect list) outcome" where
  "PGAS_memcpy_sync debug future s dst src n =
    (if n \<noteq> 0 then
       assertO (\<not> debug \<or> future \<noteq> 0)
         (bindO (PGAS_memcpy debug s dst src n future) (\<lambda>(s', es). Ret (s', es @ [LcoWait future, LcoDelete future])))
     else Ret (s, []))"

definition PGAS_memput :: "bool \<Rightarrow> pg \<Rightarrow> addr \<Rightarrow> 8 word list \<Rightarrow> addr \<Rightarrow> addr \<Rightarrow> (pg \<times> pg_effect list) outcome" where
  "PGAS_memput debug s dst bytes lsync rsync =
    (if bytes = [] then Ret (s, [LcoError lsync HPX_SUCCESS, LcoError rsync HPX_SUCCESS])
     else if gpa_to_rank dst = pg_rank s then
       bindO (gpaToLVA debug s dst) (\<lambda>ldst. bindO (mem_write s ldst bytes) (\<lambda>s'.
         Ret (s', [LcoError lsync HPX_SUCCESS, LcoError rsync HPX_SUCCESS])))
     else Ret (s, [NetMemput dst bytes [lsync, rsync]]))"

definition PGAS_memput_lsync :: "bool \<Rightarrow> pg \<Rightarrow> addr \<Rightarrow> 8 word list \<Rightarrow> addr \<Rightarrow> (pg \<times> pg_effect list) outcome" where
  "PGAS_memput_lsync debug s dst bytes rsync =
    (if bytes = [] then Ret (s, [LcoError rsync HPX_SUCCESS])
     else if gpa_to_rank dst = pg_rank s then
       bindO (gpaToLVA debug s dst) (\<lambda>ldst. bindO (mem_write s ldst bytes) (\<lambda>s'. Ret (s', [LcoSet rsync])))
     else Ret (s, [NetMemput dst bytes [rsync]]))"

definition PGAS_memput_rsync :: "bool \<Rightarrow> pg \<Rightarrow> addr \<Rightarrow> 8 word list \<Rightarrow> (pg \<times> pg_effect list) outcome" where
  "PGAS_memput_rsync debug s dst bytes =
    (if bytes = [] then Ret (s, [])
     else if gpa_to_rank dst = pg_rank s then
       bindO (gpaToLVA debug s dst) (\<lambda>ldst. bindO (mem_write s ldst bytes) (\<lambda>s'. Ret (s', [])))
     else Ret (s, [NetMemput dst bytes []]))"

text \<open>A get returns the bytes it copied at once, or none when the network will deliver them.\<close>

definition PGAS_memget :: "bool \<Rightarrow> pg \<Rightarrow> addr \<Rightarrow> nat \<Rightarrow> addr \<Rightarrow> addr \<Rightarrow> (8 word list \<times> pg_effect list) outcome" where
  "PGAS_memget debug s src n lsync rsync =
    (if n = 0 then Ret ([], [LcoError lsync HPX_SUCCESS, LcoError rsync HPX_SUCCESS])
     else if gpa_to_rank src = pg_rank s then
       bindO (gpaToLVA debug s src) (\<lambda>lsrc. bindO (mem_read s lsrc n) (\<lambda>bytes.
         Ret (bytes, [LcoError lsync HPX_SUCCESS, LcoError rsync HPX_SUCCESS])))
     else Ret ([], [NetMemget src n [lsync, rsync]]))"

definition PGAS_memget_rsync :: "bool \<Rightarrow> pg \<Rightarrow> addr \<Rightarrow> nat \<Rightarrow> addr \<Rightarrow> (8 word list \<times> pg_effect list) outcome" where
  "PGAS_memget_rsync debug s src n lsync =
    (if n = 0 then Ret ([], [LcoError lsync HPX_SUCCESS])
     else if gpa_to_rank src = pg_rank s then
       bindO (gpaToLVA debug s src) (\<lambda>lsrc. bindO (mem_read s lsrc n) (\<lambda>bytes. Ret (bytes, [LcoSet lsync])))
     else Ret ([], [NetMemget src n [lsync]]))"

definition PGAS_memget_lsync :: "bool \<Rightarrow> pg \<Rightarrow> addr \<Rightarrow> nat \<Rightarrow> (8 word list \<times> pg_effect list) outcome" where
  "PGAS_memget_lsync debug s src n =
    (if n = 0 then Ret ([], [])
     else if gpa_to_rank src = pg_rank s then
       bindO (gpaToLVA debug s src) (\<lambda>lsrc. bindO (mem_read s lsrc n) (\<lambda>bytes. Ret (bytes, [])))
     else Ret ([], [NetMemget src n []]))"

section \<open>Facts\<close>

definition pg_ok :: "pg \<Rightarrow> bool" where
  "pg_ok s = (seg_ok (pg_heap s) \<and> length (pg_mem s) = h_nBytes (pg_heap s) \<and> unat (pg_rank s) < 2 ^ 16 - 1)"

lemma offsetToGPA_parts:
  assumes "pg_ok s" "off < 2 ^ 48"
  shows "\<exists>gpa. offsetToGPA s off = Ret gpa \<and> gpa_to_rank gpa = pg_rank s \<and> unat (gpa_to_offset gpa) = off"
proof -
  let ?g = "gpa_bits (of_nat off) (ucast (pg_rank s))"
  have r: "unat (pg_rank s) < 2 ^ 16 - 1" using assms(1) by (simp add: pg_ok_def)
  have u: "unat (ucast (pg_rank s) :: u64) = unat (pg_rank s)" using r by (simp add: unsigned_ucast_eq take_bit_nat_eq_self)
  have o: "unat (of_nat off :: u64) = off" using assms(2) by (intro unat_of_nat_small) simp
  have g: "unat ?g = off + 2 ^ 48 * unat (pg_rank s)" using unat_gpa_bits [of "ucast (pg_rank s)" "of_nat off"] r u o assms(2) by simp
  have "unat (gpa_to_offset ?g) = off" unfolding gpa_to_offset_def unat_mod_pow g using assms(2) by simp
  moreover have "gpa_to_rank ?g = pg_rank s"
  proof -
    have "uint (gpa_to_rank ?g) = int (unat ?g div 2 ^ 48)" by (simp only: uint_gpa_to_rank rank_nat_def)
    also have "unat ?g div 2 ^ 48 = unat (pg_rank s)" unfolding g using assms(2) by simp
    also have "int (unat (pg_rank s)) = uint (pg_rank s)" by (rule uint_nat [symmetric])
    finally show ?thesis by (rule word_uint_eq_iff [THEN iffD2])
  qed
  moreover have "int (unat (pg_rank s)) < int 65535" using r unfolding of_nat_less_iff by simp
  then have "offsetToGPA s off = Ret ?g" by (simp add: offsetToGPA_def offset_to_gpa_def UINT16_MAX_def)
  ultimately show ?thesis by blast
qed

lemma bcast_each:
  "bcast f ss = Ret ss' \<Longrightarrow> length ss' = length ss \<and> (\<forall>i < length ss. f (ss ! i) = Ret (ss' ! i))"
proof (induction ss arbitrary: ss')
  case (Cons s ss)
  then show ?case by (auto simp: outcome_simps nth_Cons split: nat.split)
qed simp

lemma mem_write_at:
  assumes "mem_write s lva bytes = Ret s'"
  shows "pg_heap s' = pg_heap s \<and> pg_rank s' = pg_rank s \<and> length (pg_mem s') = length (pg_mem s) \<and>
    (\<forall>j < length (pg_mem s). pg_mem s' ! j = (if lva - h_base (pg_heap s) \<le> j \<and> j < lva - h_base (pg_heap s) + length bytes
      then bytes ! (j - (lva - h_base (pg_heap s))) else pg_mem s ! j))"
  using assms by (auto simp: mem_write_def buf_write_def outcome_simps nth_append min_def split: if_splits)

section \<open>Properties\<close>

text \<open>
  C25: A put followed by a get returns the bytes that were put. At the rank that owns the
  address, every non-empty put inside the segment completes, signals both of its LCOs once,
  changes no other byte, and a get of the same range returns exactly those bytes; any other rank
  leaves its memory alone and hands the put, with both LCOs, to the network.
\<close>
theorem pgas_put_get:
  assumes "pg_ok s" "offsetToGPA s off = Ret gpa" "bytes \<noteq> []" "off + length bytes \<le> h_nBytes (pg_heap s)"
  shows "(\<exists>s'. PGAS_memput debug s gpa bytes l r = Ret (s', [LcoError l HPX_SUCCESS, LcoError r HPX_SUCCESS]) \<and> pg_ok s' \<and>
      PGAS_memget debug s' gpa (length bytes) l r = Ret (bytes, [LcoError l HPX_SUCCESS, LcoError r HPX_SUCCESS]) \<and>
      (\<forall>j < h_nBytes (pg_heap s). j < off \<or> off + length bytes \<le> j \<longrightarrow> pg_mem s' ! j = pg_mem s ! j)) \<and>
    (pg_rank t \<noteq> pg_rank s \<longrightarrow> PGAS_memput debug t gpa bytes l r = Ret (t, [NetMemput gpa bytes [l, r]]))"
proof -
  have len: "length (pg_mem s) = h_nBytes (pg_heap s)" and ok: "seg_ok (pg_heap s)" using assms(1) by (simp_all add: pg_ok_def)
  have "0 < length bytes" using assms(3) by simp
  then have off: "off < 2 ^ 48" using assms(4) seg_okD(5) [OF ok] by linarith
  have g: "gpa_to_rank gpa = pg_rank s" "unat (gpa_to_offset gpa) = off"
    using offsetToGPA_parts [OF assms(1) off] assms(2) by auto
  let ?m = "take off (pg_mem s) @ bytes @ drop (off + length bytes) (pg_mem s)"
  have lva: "gpaToLVA debug s gpa = Ret (h_base (pg_heap s) + off)" using assms(4) by (simp add: gpaToLVA_def offsetToLVA_def g(2))
  then have put: "PGAS_memput debug s gpa bytes l r = Ret (s\<lparr>pg_mem := ?m\<rparr>, [LcoError l HPX_SUCCESS, LcoError r HPX_SUCCESS])"
    using assms(3,4) by (simp add: PGAS_memput_def g(1) mem_write_def buf_write_def len)
  have "gpaToLVA debug (s\<lparr>pg_mem := ?m\<rparr>) gpa = Ret (h_base (pg_heap s) + off)" using lva by (simp add: gpaToLVA_def)
  then have get: "PGAS_memget debug (s\<lparr>pg_mem := ?m\<rparr>) gpa (length bytes) l r = Ret (bytes, [LcoError l HPX_SUCCESS, LcoError r HPX_SUCCESS])"
    using assms(3,4) by (simp add: PGAS_memget_def g(1) mem_read_def buf_read_def len)
  have "pg_ok (s\<lparr>pg_mem := ?m\<rparr>)" using assms(1,4) len by (simp add: pg_ok_def)
  moreover have "?m ! j = pg_mem s ! j" if "j < h_nBytes (pg_heap s)" "j < off \<or> off + length bytes \<le> j" for j
    using that assms(4) len by (auto simp: nth_append min_def)
  ultimately show ?thesis using put get assms(3) g(1) by (auto simp: PGAS_memput_def)
qed

definition small_pg :: "u32 \<Rightarrow> pg" where
  "small_pg r = \<lparr> pg_rank = r, pg_heap = small_heap, pg_mem = replicate 524288 1 \<rparr>"

lemma small_pg_ok: "pg_ok (small_pg 0)" "pg_ok (small_pg 1)"
  using small_heap_ok(1) by (simp_all add: pg_ok_def small_pg_def) (simp_all add: small_heap_def)

theorem pgas_put_get_witness:
  "\<exists>gpa s'. offsetToGPA (small_pg 1) 4096 = Ret gpa \<and>
    PGAS_memput True (small_pg 1) gpa [7, 8] 0 0 = Ret (s', [LcoError 0 HPX_SUCCESS, LcoError 0 HPX_SUCCESS]) \<and>
    PGAS_memget True s' gpa 2 0 0 = Ret ([7, 8], [LcoError 0 HPX_SUCCESS, LcoError 0 HPX_SUCCESS])"
proof -
  obtain gpa where g: "offsetToGPA (small_pg 1) 4096 = Ret gpa" using offsetToGPA_parts [OF small_pg_ok(2), of 4096] by auto
  have "h_nBytes (pg_heap (small_pg 1)) = 524288" by (simp add: small_pg_def small_heap_def)
  then show ?thesis using pgas_put_get [OF small_pg_ok(2) g, of "[7, 8]" True 0 0 "small_pg 0"] g by (auto simp: numeral_2_eq_2)
qed

text \<open>
  C35: A cyclic allocation that should be zeroed is zeroed only in part. The blocks per rank are
  computed once for the allocation and passed to the zeroing handler, which divides them by the
  number of ranks again, so all bytes of a rank from the doubly divided number of blocks on keep
  their old contents.
\<close>
theorem calloc_cyclic_leaves_garbage:
  assumes "PGAS_allocateCyclicBlocks debug malloc ws n bsize boundary True = Ret (off, ws')" "rk < length ws"
    "off + ceil_div (ceil_div n (length ws)) (length ws) * padded_size bsize \<le> j" "j < length (pg_mem (ws ! rk))"
  shows "pg_mem (ws' ! rk) ! j = pg_mem (ws ! rk) ! j"
proof -
  obtain s rest where ws: "ws = s # rest" using assms(2) by (cases ws) auto
  let ?b = "ceil_div n (length ws)"
  obtain s1 ws1 where r: "PGAS_allocateBlocks debug malloc s ?b bsize boundary True True = Ret (off, s1)"
    "bcast (SetCsbrkHandler False (h_csbrk (pg_heap s1))) (s1 # rest) = Ret ws1"
    "bcast (\<lambda>w. PGAS_zeroBlocks debug (length ws) w off ?b bsize) ws1 = Ret ws'"
    using assms(1) by (auto simp: PGAS_allocateCyclicBlocks_def ws outcome_simps Let_def)
  have "pg_mem s1 = pg_mem s" using r(1)
    by (auto simp: PGAS_allocateBlocks_def Let_def outcome_simps split: option.splits)
  then have "pg_mem ((s1 # rest) ! rk) = pg_mem (ws ! rk)" by (cases rk) (simp_all add: ws)
  moreover have l: "length ws1 = length ws" and c: "SetCsbrkHandler False (h_csbrk (pg_heap s1)) ((s1 # rest) ! rk) = Ret (ws1 ! rk)"
    using bcast_each [OF r(2)] assms(2) by (auto simp: ws)
  moreover obtain h where "ws1 ! rk = ((s1 # rest) ! rk)\<lparr>pg_heap := h\<rparr>"
    using c by (auto simp: SetCsbrkHandler_def outcome_simps split: prod.splits if_splits dest: sym)
  ultimately have m1: "pg_mem (ws1 ! rk) = pg_mem (ws ! rk)" by simp
  have "PGAS_zeroBlocks debug (length ws) (ws1 ! rk) off ?b bsize = Ret (ws' ! rk)" using bcast_each [OF r(3)] assms(2) l by simp
  then have z: "mem_write (ws1 ! rk) (h_base (pg_heap (ws1 ! rk)) + off) (replicate (u64wrap (ceil_div ?b (length ws) * padded_size bsize)) 0) = Ret (ws' ! rk)"
    by (auto simp: PGAS_zeroBlocks_def offsetToLVA_def outcome_simps split: if_splits)
  have "u64wrap (ceil_div ?b (length ws) * padded_size bsize) \<le> ceil_div ?b (length ws) * padded_size bsize" by (simp add: u64wrap_def)
  then show ?thesis using mem_write_at [OF z] assms(3,4) m1 by simp
qed

definition top_malloc :: malloc where
  "top_malloc h cyclic boundary bytes = Some (h_base h + 516096, h\<lparr>h_csbrk := 516096\<rparr>)"

lemma small_heap_break:
  "SetCsbrkHandler False 516096 (small_pg 1) = Ret ((small_pg 1)\<lparr>pg_heap := small_heap\<lparr>h_csbrk := 516096\<rparr>\<rparr>)"
  "SetCsbrkHandler False 516096 ((small_pg 0)\<lparr>pg_heap := small_heap\<lparr>h_csbrk := 516096\<rparr>\<rparr>) =
    Ret ((small_pg 0)\<lparr>pg_heap := small_heap\<lparr>h_csbrk := 516096\<rparr>\<rparr>)"
proof -
  let ?bm = "h_chunks small_heap"
  have inv: "bm_inv ?bm" "bm_nBits ?bm = 128" using seg_okD(1) [OF small_heap_ok(1)] by (simp_all add: small_heap_def Bitmap_new_def)
  have "isSet ?bm 126 2 = Ret False" "isSet ?bm 126 0 = Ret False"
    using isSet_correct [OF inv(1), of 2 126] isSet_none [OF inv(1), of 126] by (simp_all add: inv(2) small_heap_ok(2)) auto
  then have "isSet (Bitmap_new 128 12 19) 126 2 = Ret False" "isSet (Bitmap_new 128 12 19) 126 0 = Ret False"
    by (simp_all add: small_heap_def)
  then show "SetCsbrkHandler False 516096 (small_pg 1) = Ret ((small_pg 1)\<lparr>pg_heap := small_heap\<lparr>h_csbrk := 516096\<rparr>\<rparr>)"
    "SetCsbrkHandler False 516096 ((small_pg 0)\<lparr>pg_heap := small_heap\<lparr>h_csbrk := 516096\<rparr>\<rparr>) =
      Ret ((small_pg 0)\<lparr>pg_heap := small_heap\<lparr>h_csbrk := 516096\<rparr>\<rparr>)"
    by (simp_all add: SetCsbrkHandler_def setCsbrk_def chunksAreUsed_def Let_def u64sub_def u64wrap_def u32wrap_def u32sub_def ceil_div_def
      small_pg_def small_heap_def)
qed

theorem calloc_cyclic_leaves_garbage_witness:
  "\<exists>ws'. PGAS_allocateCyclicBlocks True top_malloc [small_pg 0, small_pg 1] 4 64 0 True = Ret (516096, ws') \<and>
    pg_mem (ws' ! 1) ! (516096 + 64) = 1"
proof -
  have p: "padded_size 64 = 64" using ceil_log2_pow2 [of 6, where 'a = 64] by (simp add: padded_size_def push_bit_eq_mult)
  let ?h = "small_heap\<lparr>h_csbrk := 516096\<rparr>"
  have b: "h_nBytes ?h = 524288" "h_base ?h = 2 ^ 40" "h_logMaxBlockSize ?h = 19" by (simp_all add: small_heap_def)
  have a: "PGAS_allocateBlocks True top_malloc (small_pg 0) 2 64 0 True True = Ret (516096, (small_pg 0)\<lparr>pg_heap := ?h\<rparr>)"
    by (simp add: PGAS_allocateBlocks_def p top_malloc_def lvaToOffset_def Let_def small_pg_def) (simp add: small_heap_def)
  have z: "\<exists>s'. PGAS_zeroBlocks True 2 ((small_pg r)\<lparr>pg_heap := ?h\<rparr>) 516096 2 64 = Ret s'" for r
    by (simp add: PGAS_zeroBlocks_def p isCyclicOffset_def offsetToLVA_def mem_write_def buf_write_def b ceil_div_def u64wrap_def)
      (simp add: small_pg_def small_heap_def)
  have c: "ceil_div 4 2 = (2 :: nat)" "ceil_div 2 2 = (1 :: nat)" by (simp_all add: ceil_div_def)
  obtain s0 s1 where zz: "PGAS_zeroBlocks True 2 ((small_pg 0)\<lparr>pg_heap := ?h\<rparr>) 516096 2 64 = Ret s0"
    "PGAS_zeroBlocks True 2 ((small_pg 1)\<lparr>pg_heap := ?h\<rparr>) 516096 2 64 = Ret s1" using z by metis
  have run: "PGAS_allocateCyclicBlocks True top_malloc [small_pg 0, small_pg 1] 4 64 0 True = Ret (516096, [s0, s1])"
    using small_heap_break zz a c by (simp add: PGAS_allocateCyclicBlocks_def Let_def numeral_2_eq_2)
  have "pg_mem ([s0, s1] ! 1) ! (516096 + 64) = pg_mem ([small_pg 0, small_pg 1] ! 1) ! (516096 + 64)"
    by (rule calloc_cyclic_leaves_garbage [OF run]) (simp_all add: c p numeral_2_eq_2 [symmetric], simp add: small_pg_def)
  then show ?thesis using run by (auto simp: small_pg_def)
qed

end
