(* ===== verification/Hpx_LCO.thy ===== *)
theory Hpx_LCO
  imports Hpx_Address Hpx_Condition
begin

text \<open>
  The LCO interface of \<^verbatim>\<open>libhpx/scheduler/lco/LCO.cpp\<close>: the functions with which a program sets,
  waits on, reads, resets and deletes an LCO by its global address, and the handlers through which
  they reach an LCO at another locality. An interface function is the list of what it does, in
  order, with its result. Which addresses are local, what the LCOs return and the status of a
  synchronous call (\<^verbatim>\<open>e_call\<close>) are inputs. The checks that an output pointer is not null are left out.
\<close>

section \<open>Effects\<close>

type_synonym bytes = "8 word list"

text \<open>The operations of an LCO, and the actions that invoke them from elsewhere.\<close>

datatype lco_op =
  OpSet bytes | OpError hpx_status | OpReset | OpWait bool | OpGet nat bool | OpGetRef nat | OpRelease ptr | OpDelete | OpSize nat

datatype action = A_set | A_error | A_reset | A_wait | A_get | A_delete | A_size | A_other nat

datatype arg = NoArg | Bytes bytes | Code hpx_status | Flag int | Size nat

datatype effect =
    Pin addr
  | Unpin addr
  | Do addr lco_op
  | GasFree addr addr
  | Call addr action arg addr action
  | CallSync addr action arg
  | SendSet addr bytes addr addr action
  | NetGet addr nat bool
  | NewFuture addr nat
  | NewAnd addr nat
  | CallWhen addr addr action addr action
  | RegMalloc ptr nat
  | RegFree ptr

record env =
  e_local :: "addr \<Rightarrow> bool"
  e_set :: "addr \<Rightarrow> int"
  e_wait :: "addr \<Rightarrow> hpx_status"
  e_get :: "addr \<Rightarrow> hpx_status"
  e_getref :: "addr \<Rightarrow> hpx_status \<times> ptr \<times> bool"
  e_release :: "addr \<Rightarrow> bool"
  e_size :: "addr \<Rightarrow> nat"
  e_call :: "addr \<Rightarrow> int"
  e_buffer :: ptr
  e_future :: "nat \<Rightarrow> addr"

text \<open>
  What a handler does with the LCO it is delivered to. \<^verbatim>\<open>GetHandler\<close> reads through a reference and
  releases it; \<^verbatim>\<open>DeleteHandler\<close> destroys the LCO and then frees its memory.
\<close>

fun handler :: "action \<Rightarrow> arg \<Rightarrow> lco_op list" where
  "handler A_set (Bytes b) = [OpSet b]"
| "handler A_set NoArg = [OpSet []]"
| "handler A_error (Code c) = [OpError c]"
| "handler A_reset a = [OpReset]"
| "handler A_wait (Flag r) = [OpWait (r \<noteq> 0)]"
| "handler A_get (Size n) = [OpGetRef n, OpRelease 0]"
| "handler A_delete a = [OpDelete]"
| "handler A_size (Size n) = [OpSize n]"
| "handler a b = []"

section \<open>Set and error\<close>

text \<open>The value an integer result is sent as.\<close>

definition int_bytes :: "int \<Rightarrow> bytes" where
  "int_bytes i = map (\<lambda>k. of_int (i div 2 ^ (8 * k))) [0..<4]"

function hpx_lco_set_with_continuation :: "env \<Rightarrow> addr \<Rightarrow> bytes \<Rightarrow> addr \<Rightarrow> addr \<Rightarrow> action \<Rightarrow> effect list" where
  "hpx_lco_set_with_continuation e target v lsync raddr rop =
    (if target = 0 then
       (if lsync \<noteq> 0 then hpx_lco_set_with_continuation e lsync [] 0 0 (A_other 0) else []) @
       (if raddr \<noteq> 0 then [Call raddr rop (Bytes (int_bytes 0)) 0 A_set] else [])
     else if e_local e target then
       [Pin target, Do target (OpSet v), Unpin target] @
       (if lsync \<noteq> 0 then hpx_lco_set_with_continuation e lsync [] 0 0 (A_other 0) else []) @
       (if raddr \<noteq> 0 then [Call raddr rop (Bytes (int_bytes (e_set e target))) 0 A_set] else [])
     else [SendSet target v lsync raddr rop])"
  by auto
termination
  by (relation "measure (\<lambda>(e, t, v, l, r, p). if l \<noteq> 0 then 1 else 0)") auto

declare hpx_lco_set_with_continuation.simps [simp del]

definition hpx_lco_set :: "env \<Rightarrow> addr \<Rightarrow> bytes \<Rightarrow> addr \<Rightarrow> addr \<Rightarrow> effect list" where
  "hpx_lco_set e target v lsync rsync = hpx_lco_set_with_continuation e target v lsync rsync A_set"

definition hpx_lco_error :: "env \<Rightarrow> addr \<Rightarrow> hpx_status \<Rightarrow> addr \<Rightarrow> effect list" where
  "hpx_lco_error e target code rsync =
    (if code = HPX_SUCCESS then hpx_lco_set e target [] 0 rsync
     else if target = 0 then []
     else if e_local e target then
       [Pin target, Do target (OpError code), Unpin target] @ hpx_lco_set e rsync [] 0 0
     else [Call target A_error (Code code) rsync A_set])"

definition hpx_lco_reset :: "env \<Rightarrow> addr \<Rightarrow> addr \<Rightarrow> effect list" where
  "hpx_lco_reset e target rsync =
    (if target = 0 then []
     else if e_local e target then
       [Pin target, Do target OpReset, Unpin target] @ hpx_lco_set e rsync [] 0 0
     else [Call target A_reset NoArg rsync A_set])"

definition hpx_lco_delete :: "env \<Rightarrow> addr \<Rightarrow> addr \<Rightarrow> effect list" where
  "hpx_lco_delete e target rsync =
    (if \<not> e_local e target then [Call target A_delete NoArg rsync A_set]
     else [Pin target, Do target OpDelete, Unpin target, GasFree target 0] @ hpx_lco_error e rsync HPX_SUCCESS 0)"

section \<open>Wait and get\<close>

definition hpx_lco_wait :: "env \<Rightarrow> addr \<Rightarrow> effect list \<times> hpx_status" where
  "hpx_lco_wait e target =
    (if e_local e target then ([Pin target, Do target (OpWait False), Unpin target], e_wait e target)
     else ([CallSync target A_wait (Flag 0)], e_call e target))"

definition hpx_lco_wait_reset :: "env \<Rightarrow> addr \<Rightarrow> effect list \<times> hpx_status" where
  "hpx_lco_wait_reset e target =
    (if e_local e target then ([Pin target, Do target (OpWait True), Unpin target], e_wait e target)
     else let one = 0 in ([CallSync target A_wait (Flag one)], e_call e target))"

definition hpx_lco_size :: "env \<Rightarrow> addr \<Rightarrow> nat \<Rightarrow> effect list \<times> nat" where
  "hpx_lco_size e target n =
    (if e_local e target then ([Pin target, Do target (OpSize n), Unpin target], e_size e target)
     else ([CallSync target A_size (Size n)], nat (e_call e target mod 2 ^ 64)))"

definition hpx_lco_get :: "env \<Rightarrow> addr \<Rightarrow> nat \<Rightarrow> effect list \<times> hpx_status" where
  "hpx_lco_get e target n =
    (if n = 0 then hpx_lco_wait e target
     else if \<not> e_local e target then ([NetGet target n False], e_get e target)
     else ([Pin target, Do target (OpGet n False), Unpin target], e_get e target))"

definition hpx_lco_get_reset :: "env \<Rightarrow> addr \<Rightarrow> nat \<Rightarrow> effect list \<times> hpx_status" where
  "hpx_lco_get_reset e target n =
    (if n = 0 then hpx_lco_wait_reset e target
     else if \<not> e_local e target then ([NetGet target n True], e_get e target)
     else ([Pin target, Do target (OpGet n True), Unpin target], e_get e target))"

definition hpx_lco_getref :: "env \<Rightarrow> addr \<Rightarrow> nat \<Rightarrow> effect list \<times> hpx_status \<times> ptr" where
  "hpx_lco_getref e target n =
    (if n = 0 then (case hpx_lco_wait e target of (es, st) \<Rightarrow> (es, st, 0))
     else if \<not> e_local e target then
       (case hpx_lco_get e target n of (es, st) \<Rightarrow> (RegMalloc (e_buffer e) n # es, st, e_buffer e))
     else case e_getref e target of (st, out, unpin) \<Rightarrow>
       ([Pin target, Do target (OpGetRef n)] @ (if unpin then [Unpin target] else []), st, out))"

definition hpx_lco_release :: "env \<Rightarrow> addr \<Rightarrow> ptr \<Rightarrow> effect list" where
  "hpx_lco_release e target out =
    (if \<not> e_local e target then [RegFree out]
     else [Pin target, Do target (OpRelease out)] @ (if e_release e target then [Unpin target] else [])) @
    [Unpin target]"

section \<open>Reads over the network\<close>

text \<open>
  What the networks' get requests do where the LCO is: \<^verbatim>\<open>isir/lco_get.cpp\<close> reads it into the reply and sends
  the status back with it, and \<^verbatim>\<open>pwc/lco_get.cpp\<close> puts the value from a
  reference to the LCO, or from a copy when the value is at most a page or the LCO is to be reset. The \<open>env\<close> is
  that of the LCO's locality, \<open>page\<close> is \<^verbatim>\<open>LIBHPX_SMALL_THRESHOLD\<close>.
\<close>

definition isir_lco_get_request :: "bool \<Rightarrow> env \<Rightarrow> addr \<Rightarrow> nat \<Rightarrow> bool \<Rightarrow> (effect list \<times> hpx_status) outcome" where
  "isir_lco_get_request debug e target n reset = assertO (\<not> debug \<or> n > 0)
    (Ret (if reset then hpx_lco_get_reset e target n else hpx_lco_get e target n))"

definition get_reply_copy :: "env \<Rightarrow> addr \<Rightarrow> nat \<Rightarrow> bool \<Rightarrow> effect list outcome" where
  "get_reply_copy e lco n reset =
    (case (if reset then hpx_lco_get_reset e lco n else hpx_lco_get e lco n) of (es, st) \<Rightarrow>
       if st \<noteq> HPX_SUCCESS then Fault Dbg_error else Ret es)"

definition get_reply_getref :: "env \<Rightarrow> addr \<Rightarrow> nat \<Rightarrow> effect list outcome" where
  "get_reply_getref e lco n =
    (case hpx_lco_getref e lco n of (es, st, ref) \<Rightarrow>
       if st \<noteq> HPX_SUCCESS then Fault Dbg_error else Ret (es @ hpx_lco_release e lco ref))"

definition pwc_lco_get_request :: "nat \<Rightarrow> env \<Rightarrow> addr \<Rightarrow> nat \<Rightarrow> bool \<Rightarrow> effect list outcome" where
  "pwc_lco_get_request page e lco n reset =
    (if n > page \<and> \<not> reset then get_reply_getref e lco n else get_reply_copy e lco n reset)"

section \<open>Synchronous variants\<close>

text \<open>They allocate a future, pass it as the LCO to signal, wait for it and delete it.\<close>

definition with_future :: "env \<Rightarrow> nat \<Rightarrow> (addr \<Rightarrow> effect list) \<Rightarrow> effect list" where
  "with_future e n f = (let s = e_future e 0 in
    [NewFuture s n] @ f s @ fst (hpx_lco_wait e s) @ hpx_lco_delete e s 0)"

definition hpx_lco_delete_sync :: "env \<Rightarrow> addr \<Rightarrow> effect list" where
  "hpx_lco_delete_sync e target = with_future e 0 (\<lambda>s. hpx_lco_delete e target s)"

definition hpx_lco_error_sync :: "env \<Rightarrow> addr \<Rightarrow> hpx_status \<Rightarrow> effect list" where
  "hpx_lco_error_sync e target code = with_future e 0 (\<lambda>s. hpx_lco_error e target code s)"

definition hpx_lco_reset_sync :: "env \<Rightarrow> addr \<Rightarrow> effect list" where
  "hpx_lco_reset_sync e target = with_future e 0 (\<lambda>s. hpx_lco_reset e target s)"

definition hpx_lco_set_lsync :: "env \<Rightarrow> addr \<Rightarrow> bytes \<Rightarrow> addr \<Rightarrow> effect list" where
  "hpx_lco_set_lsync e target v rsync =
    (if target = 0 then (if rsync \<noteq> 0 then [Call rsync A_set (Bytes (int_bytes 0)) 0 A_set] else [])
     else if e_local e target then
       [Pin target, Do target (OpSet v), Unpin target] @
       (if rsync \<noteq> 0 then [Call rsync A_set (Bytes (int_bytes (e_set e target))) 0 A_set] else [])
     else with_future e 0 (\<lambda>s. hpx_lco_set e target v s rsync))"

definition hpx_lco_set_rsync :: "env \<Rightarrow> addr \<Rightarrow> bytes \<Rightarrow> effect list \<times> int" where
  "hpx_lco_set_rsync e target v =
    (if target = 0 then ([], 0)
     else if e_local e target then ([Pin target, Do target (OpSet v), Unpin target], e_set e target)
     else let s = e_future e 0 in
       ([NewFuture s 4] @ hpx_lco_set e target v 0 s @ fst (hpx_lco_get e s 4) @ hpx_lco_delete e s 0, e_set e target))"

section \<open>Arrays of LCOs\<close>

text \<open>
  The first pass pins the local LCOs and starts a remote operation with a proxy future for the
  others; \<^verbatim>\<open>start\<close> is what it sends. Each entry remembers whether it is local and its proxy.
\<close>

fun lco_all_start :: "env \<Rightarrow> (nat \<Rightarrow> nat) \<Rightarrow> (nat \<Rightarrow> addr \<Rightarrow> addr \<Rightarrow> effect) \<Rightarrow> nat \<Rightarrow> addr list \<Rightarrow> effect list \<times> (bool \<times> addr) list" where
  "lco_all_start e sz start i [] = ([], [])"
| "lco_all_start e sz start i (a # as) =
    (case lco_all_start e sz start (Suc i) as of (es, rs) \<Rightarrow>
       if a = 0 then (es, (False, 0) # rs)
       else if e_local e a then (Pin a # es, (True, 0) # rs)
       else let f = e_future e i in ([NewFuture f (sz i), start i a f] @ es, (False, f) # rs))"

fun lco_all_finish :: "env \<Rightarrow> (nat \<Rightarrow> addr \<Rightarrow> lco_op \<times> hpx_status) \<Rightarrow> (nat \<Rightarrow> addr \<Rightarrow> effect list \<times> hpx_status) \<Rightarrow>
    nat \<Rightarrow> addr list \<Rightarrow> (bool \<times> addr) list \<Rightarrow> effect list \<times> hpx_status list" where
  "lco_all_finish e loc rem i (a # as) ((l, f) # rs) =
    (case (if l then (case loc i a of (p, st) \<Rightarrow> ([Do a p, Unpin a], st))
           else if f \<noteq> 0 then (case rem i f of (es, st) \<Rightarrow> (es @ hpx_lco_delete e f 0, st))
           else ([], HPX_SUCCESS)) of (es, st) \<Rightarrow>
     case lco_all_finish e loc rem (Suc i) as rs of (es', sts) \<Rightarrow> (es @ es', st # sts))"
| "lco_all_finish e loc rem i as rs = ([], [])"

definition lco_errors :: "hpx_status list \<Rightarrow> nat" where
  "lco_errors sts = length (filter (\<lambda>s. s \<noteq> HPX_SUCCESS) sts)"

definition hpx_lco_wait_all :: "bool \<Rightarrow> env \<Rightarrow> addr list \<Rightarrow> (effect list \<times> hpx_status list \<times> nat) outcome" where
  "hpx_lco_wait_all debug e lcos = assertO (\<not> debug \<or> lcos \<noteq> [])
    (case lco_all_start e (\<lambda>i. 0) (\<lambda>i a f. Call a A_wait (Flag 0) f A_set) 0 lcos of (es, rs) \<Rightarrow>
     case lco_all_finish e (\<lambda>i a. (OpWait False, e_wait e a)) (\<lambda>i f. hpx_lco_wait e f) 0 lcos rs of (es', sts) \<Rightarrow>
       Ret (es @ es', sts, lco_errors sts))"

definition hpx_lco_get_all :: "bool \<Rightarrow> env \<Rightarrow> addr list \<Rightarrow> nat list \<Rightarrow> (effect list \<times> hpx_status list \<times> nat) outcome" where
  "hpx_lco_get_all debug e lcos sizes = assertO (\<not> debug \<or> lcos \<noteq> [])
    (case lco_all_start e (\<lambda>i. sizes ! i) (\<lambda>i a f. Call a A_get (Size (sizes ! i)) f A_set) 0 lcos of (es, rs) \<Rightarrow>
     case lco_all_finish e (\<lambda>i a. (OpGet (sizes ! i) False, e_get e a)) (\<lambda>i f. hpx_lco_get e f (sizes ! i)) 0 lcos rs of (es', sts) \<Rightarrow>
       Ret (es @ es', sts, lco_errors sts))"

definition hpx_lco_delete_all :: "env \<Rightarrow> addr \<Rightarrow> addr list \<Rightarrow> addr \<Rightarrow> effect list \<times> hpx_status" where
  "hpx_lco_delete_all e gate lcos rsync =
    (let cand = (if rsync \<noteq> 0 then gate else 0) in
     ((if rsync \<noteq> 0 then [NewAnd cand (length lcos), CallWhen cand rsync A_set cand A_delete] else []) @
      concat (map (\<lambda>a. if a \<noteq> 0 then hpx_lco_delete e a cand else []) lcos), HPX_SUCCESS))"

definition hpx_lco_array_at :: "env \<Rightarrow> (addr \<Rightarrow> int \<Rightarrow> nat \<Rightarrow> addr) \<Rightarrow> addr \<Rightarrow> int \<Rightarrow> nat \<Rightarrow> effect list \<times> addr" where
  "hpx_lco_array_at e add array i n =
    (case hpx_lco_size e array n of (es, lco_bytes) \<Rightarrow> (es, add array (i * int lco_bytes) lco_bytes))"

section \<open>The base class\<close>

definition LCO_TryPin :: "env \<Rightarrow> addr \<Rightarrow> effect list outcome" where
  "LCO_TryPin e gva = (if \<not> e_local e gva then Fault Thrown else Ret [Pin gva])"

text \<open>Placement of a new LCO: \<^verbatim>\<open>gva\<close> is what the allocator returned.\<close>

definition LCO_new :: "env \<Rightarrow> addr \<Rightarrow> effect list outcome" where
  "LCO_new e gva = (if gva \<noteq> 0 then LCO_TryPin e gva else Fault Thrown)"

definition LCO_getRef :: "bool \<Rightarrow> ptr \<Rightarrow> nat \<Rightarrow> hpx_status \<Rightarrow> (hpx_status \<times> ptr option \<times> bool) outcome" where
  "LCO_getRef debug this n status = assertO (\<not> debug \<or> n \<noteq> 0)
    (if status \<noteq> HPX_SUCCESS then Ret (status, None, False) else Ret (HPX_SUCCESS, Some this, False))"

definition LCO_release :: "ptr \<Rightarrow> ptr \<Rightarrow> bool outcome" where
  "LCO_release this out = (if out \<noteq> this then Fault Dbg_error else Ret True)"

section \<open>Reading a list of effects\<close>

text \<open>
  The operations an LCO goes through, here or by a handler at its own locality; \<open>net\<close> says which operations a read
  over the network performs.
\<close>

fun performed1 :: "(nat \<Rightarrow> bool \<Rightarrow> lco_op list) \<Rightarrow> addr \<Rightarrow> effect \<Rightarrow> lco_op list" where
  "performed1 net t (Do a p) = (if a = t then [p] else [])"
| "performed1 net t (Call a act g c ca) = (if a = t then handler act g else [])"
| "performed1 net t (CallSync a act g) = (if a = t then handler act g else [])"
| "performed1 net t (SendSet a v l r rop) = (if a = t then [OpSet v] else [])"
| "performed1 net t (NetGet a n r) = (if a = t then net n r else [])"
| "performed1 net t x = []"

definition performed :: "(nat \<Rightarrow> bool \<Rightarrow> lco_op list) \<Rightarrow> addr \<Rightarrow> effect list \<Rightarrow> lco_op list" where
  "performed net t es = concat (map (performed1 net t) es)"

text \<open>How often an LCO is set, directly, by a call or by the continuation of one.\<close>

fun signals1 :: "addr \<Rightarrow> effect \<Rightarrow> nat" where
  "signals1 t (Do a (OpSet v)) = (if a = t then 1 else 0)"
| "signals1 t (Call a act g c ca) = (if a = t \<and> act = A_set then 1 else 0) + (if c = t \<and> ca = A_set then 1 else 0)"
| "signals1 t (SendSet a v l r rop) = (if a = t then 1 else 0) + (if l = t then 1 else 0) + (if r = t \<and> rop = A_set then 1 else 0)"
| "signals1 t x = 0"

definition signals :: "addr \<Rightarrow> effect list \<Rightarrow> nat" where
  "signals t es = sum_list (map (signals1 t) es)"

fun pins1 :: "addr \<Rightarrow> effect \<Rightarrow> int" where
  "pins1 t (Pin a) = (if a = t then 1 else 0)"
| "pins1 t (Unpin a) = (if a = t then - 1 else 0)"
| "pins1 t x = 0"

definition pins :: "addr \<Rightarrow> effect list \<Rightarrow> int" where
  "pins t es = sum_list (map (pins1 t) es)"

lemma effects_simps [simp]:
  "performed net t [] = []" "performed net t (x # es) = performed1 net t x @ performed net t es" "performed net t (es @ fs) = performed net t es @ performed net t fs"
  "signals t [] = 0" "signals t (x # es) = signals1 t x + signals t es" "signals t (es @ fs) = signals t es + signals t fs"
  "pins t [] = 0" "pins t (x # es) = pins1 t x + pins t es" "pins t (es @ fs) = pins t es + pins t fs"
  by (simp_all add: performed_def signals_def pins_def)

text \<open>A set with nobody to signal, which is what an LCO to be signalled gets.\<close>

lemma set_plain: "hpx_lco_set_with_continuation e a v 0 0 rop =
    (if a = 0 then [] else if e_local e a then [Pin a, Do a (OpSet v), Unpin a] else [SendSet a v 0 0 rop])"
  by (subst hpx_lco_set_with_continuation.simps) simp

lemma set_unfold: "hpx_lco_set e target v lsync rsync =
    (if target = 0 then
       (if lsync \<noteq> 0 then hpx_lco_set_with_continuation e lsync [] 0 0 (A_other 0) else []) @
       (if rsync \<noteq> 0 then [Call rsync A_set (Bytes (int_bytes 0)) 0 A_set] else [])
     else if e_local e target then
       [Pin target, Do target (OpSet v), Unpin target] @
       (if lsync \<noteq> 0 then hpx_lco_set_with_continuation e lsync [] 0 0 (A_other 0) else []) @
       (if rsync \<noteq> 0 then [Call rsync A_set (Bytes (int_bytes (e_set e target))) 0 A_set] else [])
     else [SendSet target v lsync rsync A_set])"
  unfolding hpx_lco_set_def by (subst hpx_lco_set_with_continuation.simps) simp

lemmas lco_api = hpx_lco_error_def hpx_lco_reset_def hpx_lco_delete_def hpx_lco_wait_def hpx_lco_wait_reset_def hpx_lco_size_def
  hpx_lco_get_def hpx_lco_get_reset_def hpx_lco_set_lsync_def hpx_lco_set_rsync_def with_future_def set_unfold set_plain
  hpx_lco_delete_sync_def hpx_lco_error_sync_def hpx_lco_reset_sync_def Let_def

lemmas lco_net = isir_lco_get_request_def pwc_lco_get_request_def get_reply_copy_def get_reply_getref_def hpx_lco_getref_def hpx_lco_release_def

section \<open>Properties\<close>


text \<open>Every second address is local; futures and buffers get fixed addresses.\<close>

definition demo_env :: env where
  "demo_env = \<lparr> e_local = (\<lambda>a. a AND 1 = 0), e_set = (\<lambda>a. 1), e_wait = (\<lambda>a. HPX_SUCCESS), e_get = (\<lambda>a. HPX_SUCCESS),
    e_getref = (\<lambda>a. (HPX_SUCCESS, 16, False)), e_release = (\<lambda>a. True), e_size = (\<lambda>a. 64), e_call = (\<lambda>a. HPX_SUCCESS), e_buffer = 32, e_future = (\<lambda>i. 100) \<rparr>"


text \<open>
  C15: Completion is signalled exactly once. For a target that is not null, set, its locally
  synchronous variant, error, reset and delete set the LCO given for remote completion exactly
  once, wherever the target and that LCO are, and set does so for local completion as well. On the null
  address a set and its locally synchronous variant do the same, although the header documents that they do nothing.
\<close>
theorem lco_completes_once:
  assumes "r \<noteq> 0" "l \<noteq> 0" "l \<noteq> r" "target \<noteq> r" "target \<noteq> l" "e_future e 0 \<noteq> r"
  shows "signals r (hpx_lco_set e target v l r) = 1 \<and> signals l (hpx_lco_set e target v l r) = 1 \<and>
    signals r (hpx_lco_set_lsync e target v r) = 1 \<and>
    (target \<noteq> 0 \<longrightarrow> signals r (hpx_lco_error e target code r) = 1 \<and> signals r (hpx_lco_reset e target r) = 1 \<and>
      signals r (hpx_lco_delete e target r) = 1)"
  using assms by (simp add: lco_api)

theorem lco_completes_once_witness:
  "signals 2 (hpx_lco_set demo_env 7 [1] 4 2) = 1 \<and> signals 4 (hpx_lco_set demo_env 7 [1] 4 2) = 1 \<and>
    signals 2 (hpx_lco_error demo_env 8 3 2) = 1"
  using lco_completes_once [of 2 4 7 demo_env "[1]" 3] lco_completes_once [of 2 4 8 demo_env "[1]" 3] by (simp add: demo_env_def)

lemma signals_delete: "target \<noteq> r \<Longrightarrow> r \<noteq> 0 \<Longrightarrow> signals r (hpx_lco_delete e target r) = 1"
  by (simp add: lco_api)

lemma signals_delete_list:
  assumes "r \<noteq> 0" "r \<notin> set as"
  shows "signals r (concat (map (\<lambda>a. if a \<noteq> 0 then hpx_lco_delete e a r else []) as)) = length (filter (\<lambda>a. a \<noteq> 0) as)"
  using assms by (induction as) (auto simp: signals_delete)

text \<open>
  On the null address completion is lost. The synchronous error and reset of the null
  address wait for a future that nothing ever sets. Deleting several LCOs creates a gate for all
  entries of the array but the null ones are skipped, so with a null entry the gate gets fewer
  inputs than it waits for and the caller's LCO is never set.
\<close>
lemma lco_null_never_completes:
  assumes "e_future e 0 \<noteq> 0" "code \<noteq> HPX_SUCCESS" "gate \<noteq> 0" "gate \<noteq> rsync" "rsync \<noteq> 0" "gate \<notin> set lcos" "0 \<in> set lcos"
  shows "signals (e_future e 0) (hpx_lco_error_sync e 0 code) = 0 \<and> OpWait False \<in> set (performed net (e_future e 0) (hpx_lco_error_sync e 0 code)) \<and>
    signals (e_future e 0) (hpx_lco_reset_sync e 0) = 0 \<and> OpWait False \<in> set (performed net (e_future e 0) (hpx_lco_reset_sync e 0)) \<and>
    NewAnd gate (length lcos) \<in> set (fst (hpx_lco_delete_all e gate lcos rsync)) \<and>
    signals gate (fst (hpx_lco_delete_all e gate lcos rsync)) < length lcos"
proof -
  have "length (filter (\<lambda>a. a \<noteq> 0) lcos) < length lcos" using assms(7) length_filter_less [of 0 lcos "\<lambda>a. a \<noteq> 0"] by simp
  then have "signals gate (fst (hpx_lco_delete_all e gate lcos rsync)) < length lcos"
    using assms signals_delete_list [OF assms(3,6), of e] by (simp add: hpx_lco_delete_all_def Let_def)
  moreover have "NewAnd gate (length lcos) \<in> set (fst (hpx_lco_delete_all e gate lcos rsync))"
    using assms(5) by (simp add: hpx_lco_delete_all_def Let_def)
  ultimately show ?thesis using assms(1,2) by (simp add: lco_api)
qed

section \<open>Pins\<close>

lemma pins_api [simp]:
  "pins a (hpx_lco_set e target v l r) = 0" "pins a (hpx_lco_error e target code r) = 0" "pins a (hpx_lco_reset e target r) = 0"
  "pins a (hpx_lco_delete e target r) = 0" "pins a (fst (hpx_lco_wait e target)) = 0" "pins a (fst (hpx_lco_wait_reset e target)) = 0"
  "pins a (fst (hpx_lco_get e target n)) = 0" "pins a (fst (hpx_lco_get_reset e target n)) = 0"
  by (simp_all add: lco_api)

lemma pins_all:
  assumes "lco_all_start e sz start i as = (es, rs)" "\<And>i a f x. pins1 x (start i a f) = 0"
    "\<And>i f x. pins x (fst (rem i f)) = 0"
  shows "pins x es + pins x (fst (lco_all_finish e loc rem i as rs)) = 0"
  using assms(1)
proof (induction as arbitrary: i es rs)
  case (Cons a as)
  obtain es' rs' where r: "lco_all_start e sz start (Suc i) as = (es', rs')" by fastforce
  have IH: "pins x es' + pins x (fst (lco_all_finish e loc rem (Suc i) as rs')) = 0" by (rule Cons.IH [OF r])
  have rm: "pins x (fst (rem i f)) = 0" for f by (rule assms(3))
  obtain p st where l: "loc i a = (p, st)" by fastforce
  obtain qs qt where q: "lco_all_finish e loc rem (Suc i) as rs' = (qs, qt)" by fastforce
  obtain ms mt where m: "rem i (e_future e i) = (ms, mt)" by fastforce
  have "pins x ms = 0" using rm [of "e_future e i"] by (simp add: m)
  then show ?case using Cons.prems IH r l q m by (auto simp: Let_def assms(2) split: if_splits)
qed auto

lemma pins_api2 [simp]:
  "pins a (hpx_lco_set_lsync e target v r) = 0" "pins a (fst (hpx_lco_set_rsync e target v)) = 0" "pins a (fst (hpx_lco_size e target n)) = 0"
  "pins a (hpx_lco_delete_sync e target) = 0" "pins a (hpx_lco_error_sync e target code) = 0" "pins a (hpx_lco_reset_sync e target) = 0"
  by (simp_all add: lco_api)

lemma pins_delete_all: "pins a (fst (hpx_lco_delete_all e gate lcos rsync)) = 0"
proof -
  have "pins a (concat (map (\<lambda>x. if x \<noteq> 0 then hpx_lco_delete e x c else []) lcos)) = 0" for c
    by (induction lcos) simp_all
  then show ?thesis by (simp add: hpx_lco_delete_all_def Let_def)
qed

lemma pins_wait_get_all:
  assumes "hpx_lco_wait_all debug e lcos = Ret (es, sts, errs)" "hpx_lco_get_all debug e lcos sizes = Ret (es', sts', errs')"
  shows "pins a es = 0" "pins a es' = 0"
proof -
  obtain fs rs where f: "lco_all_start e (\<lambda>i. 0) (\<lambda>i a f. Call a A_wait (Flag 0) f A_set) 0 lcos = (fs, rs)" by fastforce
  obtain gs ss where g: "lco_all_start e (\<lambda>i. sizes ! i) (\<lambda>i a f. Call a A_get (Size (sizes ! i)) f A_set) 0 lcos = (gs, ss)" by fastforce
  show "pins a es = 0"
    using assms(1) pins_all [OF f, of "\<lambda>i f. hpx_lco_wait e f" a "\<lambda>i a. (OpWait False, e_wait e a)"]
    by (auto simp: hpx_lco_wait_all_def f outcome_simps split: prod.splits)
  show "pins a es' = 0"
    using assms(2) pins_all [OF g, of "\<lambda>i f. hpx_lco_get e f (sizes ! i)" a "\<lambda>i a. (OpGet (sizes ! i) False, e_get e a)"]
    by (auto simp: hpx_lco_get_all_def g outcome_simps split: prod.splits)
qed

text \<open>
  C37: Pins are balanced. Set, error, reset, delete, wait, get and size with their synchronous and resetting variants, and
  wait, get and delete over an array, leave every address pinned as often as before. A reference taken locally leaves the target pinned
  unless the LCO says to unpin it, and its release takes back one pin if the LCO says so: the two together are balanced exactly if the LCO
  unpins in one of the two and not in both, which the base class of the LCOs obeys, and then so is a read that the put-with-completion
  network serves from a reference. The release of a reference to an LCO
  that is not local unpins an address that was never pinned.
\<close>
theorem lco_pin_balance:
  assumes "hpx_lco_wait_all debug e lcos = Ret (es, sts, errs)" "hpx_lco_get_all debug e lcos sizes = Ret (es', sts', errs')"
    "e_getref e target = (st, out, unpin)" "LCO_getRef debug this (Suc n) st' = Ret (st'', p, unpin')" "LCO_release this this = Ret rel"
  shows "pins a (hpx_lco_set e target v l r) = 0 \<and> pins a (hpx_lco_set_lsync e target v r) = 0 \<and> pins a (fst (hpx_lco_set_rsync e target v)) = 0 \<and>
    pins a (hpx_lco_error e target code r) = 0 \<and> pins a (hpx_lco_error_sync e target code) = 0 \<and>
    pins a (hpx_lco_reset e target r) = 0 \<and> pins a (hpx_lco_reset_sync e target) = 0 \<and>
    pins a (hpx_lco_delete e target r) = 0 \<and> pins a (hpx_lco_delete_sync e target) = 0 \<and>
    pins a (fst (hpx_lco_wait e target)) = 0 \<and> pins a (fst (hpx_lco_wait_reset e target)) = 0 \<and>
    pins a (fst (hpx_lco_get e target n)) = 0 \<and> pins a (fst (hpx_lco_get_reset e target n)) = 0 \<and> pins a (fst (hpx_lco_size e target n)) = 0 \<and>
    pins a es = 0 \<and> pins a es' = 0 \<and> pins a (fst (hpx_lco_delete_all e gate lcos r)) = 0 \<and>
    pins target (fst (hpx_lco_getref e target (Suc n))) + pins target (hpx_lco_release e target out) =
      (if e_local e target then of_bool (\<not> unpin) - of_bool (e_release e target) else - 1) \<and>
    rel = (\<not> unpin') \<and>
    (e_local e target \<and> e_release e target = (\<not> unpin) \<and> pwc_lco_get_request page e target (Suc n) reset = Ret fs \<longrightarrow> pins target fs = 0)"
proof -
  have two: "pins target (fst (hpx_lco_getref e target (Suc n))) + pins target (hpx_lco_release e target out) =
      (if e_local e target then of_bool (\<not> unpin) - of_bool (e_release e target) else - 1)"
    using assms(3) by (simp add: hpx_lco_getref_def hpx_lco_release_def hpx_lco_get_def)
  have "rel = (\<not> unpin')" using assms(4,5) by (auto simp: LCO_getRef_def LCO_release_def outcome_simps split: if_splits)
  moreover have "pins target fs = 0" if "e_local e target" "e_release e target = (\<not> unpin)" "pwc_lco_get_request page e target (Suc n) reset = Ret fs"
    using that assms(3) by (auto simp: lco_net lco_api split: if_splits)
  ultimately show ?thesis using two pins_wait_get_all [OF assms(1,2)] pins_delete_all [of a e gate lcos r] by simp
qed

lemma lco_all_return:
  assumes "lcos \<noteq> []"
  shows "(\<exists>es sts errs. hpx_lco_wait_all debug e lcos = Ret (es, sts, errs)) \<and> (\<exists>es sts errs. hpx_lco_get_all debug e lcos sizes = Ret (es, sts, errs))"
  using assms by (simp add: hpx_lco_wait_all_def hpx_lco_get_all_def split_def)

theorem lco_pin_balance_witness:
  "pins 7 (fst (hpx_lco_getref demo_env 7 4)) + pins 7 (hpx_lco_release demo_env 7 16) = - 1 \<and>
    pins 8 (fst (hpx_lco_getref demo_env 8 4)) + pins 8 (hpx_lco_release demo_env 8 16) = 0 \<and>
    pins 8 (hpx_lco_reset demo_env 8 2) = 0 \<and> pins 8 (hpx_lco_error demo_env 8 3 2) = 0 \<and>
    (\<exists>es sts errs. hpx_lco_wait_all True demo_env [8, 7, 0] = Ret (es, sts, errs) \<and> pins 8 es = 0)"
proof -
  obtain es sts errs es' sts' errs' where w: "hpx_lco_wait_all True demo_env [8, 7, 0] = Ret (es, sts, errs)"
    "hpx_lco_get_all True demo_env [8, 7, 0] [4, 4, 4] = Ret (es', sts', errs')"
    using lco_all_return [of "[8, 7, 0]" True demo_env "[4, 4, 4]"] by auto
  have g: "e_getref demo_env 7 = (HPX_SUCCESS, 16, False)" "e_getref demo_env 8 = (HPX_SUCCESS, 16, False)"
    "LCO_getRef True 16 (Suc 3) HPX_SUCCESS = Ret (HPX_SUCCESS, Some 16, False)" "LCO_release 16 16 = Ret True" "Suc 3 = 4"
    by (simp_all add: demo_env_def LCO_getRef_def LCO_release_def)
  show ?thesis using lco_pin_balance [OF w g(1,3,4), of 8 "[]" 0 2 3] lco_pin_balance [OF w g(2,3,4), of 8 "[]" 0 2 3] w(1) unfolding g(5)
    by (simp add: demo_env_def)
qed

end
