(* ===== verification/Hpx_TwoLock.thy ===== *)
theory Hpx_TwoLock
  imports Hpx_Prelude
begin

text \<open>
  The two-lock queue of \<^verbatim>\<open>include/libhpx/util/TwoLockQueue.h\<close>, which carries the mail between
  workers: a linked list with a dummy node, where enqueuers share one lock and dequeuers another.
  Enqueuers and dequeuers are not excluded from each other, so every access to the shared nodes
  is one step and the steps of any number of threads interleave. Nodes live in a heap from which
  a dequeuer frees the node it has unlinked after it has given up its lock; an access to a node
  that is not allocated is a fault.
\<close>

section \<open>Model\<close>

record 'v node =
  n_next :: "nat option"
  n_value :: "'v option"

record 'v tlq =
  q_heap :: "nat \<Rightarrow> 'v node option"
  q_head :: nat
  q_tail :: nat
  q_headLock :: "nat option"
  q_tailLock :: "nat option"

definition tlq_new :: "nat \<Rightarrow> 'v tlq" where
  "tlq_new a = \<lparr> q_heap = [a \<mapsto> \<lparr> n_next = None, n_value = None \<rparr>], q_head = a, q_tail = a, q_headLock = None, q_tailLock = None \<rparr>"

text \<open>
  Where a thread is: in \<^verbatim>\<open>enqueue\<close> with a new node, before and after linking it; in \<^verbatim>\<open>dequeue\<close> after
  reading the next pointer, after copying the value, and after unlinking the old head.
\<close>

datatype tpc = QIdle | ENew nat | ELinked nat | DRead nat nat | DCopied nat nat | DOut nat

definition enqueue_new :: "nat \<Rightarrow> 'v \<Rightarrow> 'v tlq \<Rightarrow> 'v tlq \<times> tpc" where
  "enqueue_new a v q = (q\<lparr>q_heap := (q_heap q)(a \<mapsto> \<lparr> n_next = None, n_value = Some v \<rparr>)\<rparr>, ENew a)"

text \<open>
  One step of a thread: none when it has to wait for a lock, otherwise the queue, where the thread
  is next, and what a dequeue that ends returns. An idle thread that steps starts a dequeue.
\<close>

fun tlq_step :: "nat \<Rightarrow> tpc \<Rightarrow> 'v tlq \<Rightarrow> ('v tlq \<times> tpc \<times> 'v option) outcome option" where
  "tlq_step t QIdle q =
    (if q_headLock q \<noteq> None then None
     else case q_heap q (q_head q) of
         None \<Rightarrow> Some (Fault Out_of_bounds)
       | Some x \<Rightarrow> (case n_next x of
             None \<Rightarrow> Some (Ret (q, QIdle, None))
           | Some n \<Rightarrow> Some (Ret (q\<lparr>q_headLock := Some t\<rparr>, DRead (q_head q) n, None))))"
| "tlq_step t (DRead h n) q =
    (case q_heap q h of
       None \<Rightarrow> Some (Fault Out_of_bounds)
     | Some x \<Rightarrow> (case q_heap q n of
           None \<Rightarrow> Some (Fault Out_of_bounds)
         | Some y \<Rightarrow> Some (Ret (q\<lparr>q_heap := (q_heap q)(h \<mapsto> x\<lparr>n_value := n_value y\<rparr>)\<rparr>, DCopied h n, None))))"
| "tlq_step t (DCopied h n) q = Some (Ret (q\<lparr>q_head := n, q_headLock := None\<rparr>, DOut h, None))"
| "tlq_step t (DOut h) q =
    (case q_heap q h of
       None \<Rightarrow> Some (Fault Out_of_bounds)
     | Some x \<Rightarrow> Some (Ret (q\<lparr>q_heap := (q_heap q)(h := None)\<rparr>, QIdle, n_value x)))"
| "tlq_step t (ENew a) q =
    (if q_tailLock q \<noteq> None then None
     else case q_heap q (q_tail q) of
         None \<Rightarrow> Some (Fault Out_of_bounds)
       | Some x \<Rightarrow> Some (Ret (q\<lparr>q_heap := (q_heap q)(q_tail q \<mapsto> x\<lparr>n_next := Some a\<rparr>), q_tailLock := Some t\<rparr>, ELinked a, None)))"
| "tlq_step t (ELinked a) q = Some (Ret (q\<lparr>q_tail := a, q_tailLock := None\<rparr>, QIdle, None))"

text \<open>
  The destructor, which runs when no thread uses the queue any more: it unlinks and deletes node
  after node, so the steps of \<^verbatim>\<open>dequeueNode\<close> are taken together.
\<close>

definition dequeueNode :: "'v tlq \<Rightarrow> ('v tlq \<times> nat option) outcome" where
  "dequeueNode q =
    (case q_heap q (q_head q) of
       None \<Rightarrow> Fault Out_of_bounds
     | Some x \<Rightarrow> (case n_next x of
           None \<Rightarrow> Ret (q, None)
         | Some n \<Rightarrow> (case q_heap q n of
               None \<Rightarrow> Fault Out_of_bounds
             | Some y \<Rightarrow> Ret (q\<lparr>q_heap := (q_heap q)(q_head q \<mapsto> x\<lparr>n_value := n_value y\<rparr>), q_head := n\<rparr>, Some (q_head q)))))"

partial_function (option) tlq_delete :: "'v tlq \<Rightarrow> 'v tlq outcome option" where
  "tlq_delete q =
    (case dequeueNode q of
       Fault e \<Rightarrow> Some (Fault e)
     | Ret r \<Rightarrow> (case snd r of
           None \<Rightarrow> Some (Ret (fst r))
         | Some h \<Rightarrow> tlq_delete ((fst r)\<lparr>q_heap := (q_heap (fst r))(h := None)\<rparr>)))"

text \<open>
  The whole system, with the values linked and unlinked so far and, for each thread that has
  unlinked a node, the value it owes its caller.
\<close>

record 'v tq =
  t_q :: "'v tlq"
  t_pc :: "nat \<Rightarrow> tpc"
  t_in :: "'v list"
  t_out :: "'v list"
  t_owed :: "nat \<Rightarrow> 'v option"

definition value_at :: "'v tlq \<Rightarrow> nat \<Rightarrow> 'v option" where
  "value_at q a = (case q_heap q a of None \<Rightarrow> None | Some x \<Rightarrow> n_value x)"

definition as_list :: "'v option \<Rightarrow> 'v list" where
  "as_list x = (case x of None \<Rightarrow> [] | Some v \<Rightarrow> [v])"

fun log_in :: "'v tlq \<Rightarrow> tpc \<Rightarrow> 'v list" where
  "log_in q (ENew a) = as_list (value_at q a)"
| "log_in q pc = []"

fun log_out :: "'v tlq \<Rightarrow> tpc \<Rightarrow> 'v list" where
  "log_out q (DCopied h n) = as_list (value_at q n)"
| "log_out q pc = []"

definition tq_after :: "'v tq \<Rightarrow> nat \<Rightarrow> 'v tlq \<Rightarrow> tpc \<Rightarrow> 'v tq" where
  "tq_after s t q p = s\<lparr>t_q := q, t_pc := (t_pc s)(t := p), t_in := t_in s @ log_in (t_q s) (t_pc s t),
      t_out := t_out s @ log_out (t_q s) (t_pc s t),
      t_owed := (t_owed s)(t := (case t_pc s t of DCopied h n \<Rightarrow> value_at (t_q s) n | _ \<Rightarrow> None))\<rparr>"

inductive tq_step :: "'v tq \<Rightarrow> 'v tq \<Rightarrow> bool" where
  new: "t_pc s t = QIdle \<Longrightarrow> q_heap (t_q s) a = None \<Longrightarrow> enqueue_new a v (t_q s) = (q, pc) \<Longrightarrow>
    tq_step s (s\<lparr>t_q := q, t_pc := (t_pc s)(t := pc)\<rparr>)"
| run: "tlq_step t (t_pc s t) (t_q s) = Some (Ret (q, pc, r)) \<Longrightarrow>
    tq_step s (tq_after s t q pc)"

inductive tq_reach :: "nat \<Rightarrow> 'v tq \<Rightarrow> bool" for a where
  start: "tq_reach a \<lparr> t_q = tlq_new a, t_pc = (\<lambda>t. QIdle), t_in = [], t_out = [], t_owed = (\<lambda>t. None) \<rparr>"
| step: "tq_reach a s \<Longrightarrow> tq_step s s' \<Longrightarrow> tq_reach a s'"

section \<open>Chains of nodes\<close>

fun chain :: "(nat \<Rightarrow> 'v node option) \<Rightarrow> nat \<Rightarrow> nat list \<Rightarrow> bool" where
  "chain h a [] = (\<exists>x. h a = Some x \<and> n_next x = None)"
| "chain h a (b # bs) = ((\<exists>x. h a = Some x \<and> n_next x = Some b) \<and> chain h b bs)"

lemma chain_off: "x \<notin> set (a # bs) \<Longrightarrow> chain (h(x := y)) a bs = chain h a bs"
  by (induction bs arbitrary: a) auto

lemma chain_allocated: "chain h a bs \<Longrightarrow> c \<in> set (a # bs) \<Longrightarrow> h c \<noteq> None"
  by (induction bs arbitrary: a) auto

lemma chain_value: "chain h a bs \<Longrightarrow> h a = Some x \<Longrightarrow> a \<notin> set bs \<Longrightarrow> chain (h(a \<mapsto> x\<lparr>n_value := v\<rparr>)) a bs"
  by (cases bs) (auto simp: chain_off)

lemma chain_last: "chain h a bs \<Longrightarrow> \<exists>x. h (last (a # bs)) = Some x \<and> n_next x = None"
  by (induction bs arbitrary: a) auto

lemma chain_snoc:
  assumes "chain h a bs" "distinct (a # bs)" "h (last (a # bs)) = Some x" "h c = Some y" "n_next y = None" "c \<notin> set (a # bs)"
  shows "chain (h(last (a # bs) \<mapsto> x\<lparr>n_next := Some c\<rparr>)) a (bs @ [c])"
  using assms
proof (induction bs arbitrary: a)
  case (Cons b bs)
  have "chain (h(last (b # bs) \<mapsto> x\<lparr>n_next := Some c\<rparr>)) b (bs @ [c])" by (rule Cons.IH) (use Cons.prems in auto)
  moreover have "last (b # bs) \<noteq> a" using Cons.prems(2) by (metis distinct.simps(2) last_in_set list.distinct(1))
  ultimately show ?case using Cons.prems by (auto simp: fun_upd_def)
qed auto

section \<open>The invariant\<close>

text \<open>
  The nodes from the dummy on form a chain whose values are what was linked and not yet unlinked.
  The tail is the end of the chain whenever no enqueuer is between its two writes; meanwhile it
  may name a node that has been freed. A new node and an unlinked node belong to one thread.
\<close>

fun owned :: "tpc \<Rightarrow> nat option" where
  "owned (ENew a) = Some a"
| "owned (DOut h) = Some h"
| "owned pc = None"

fun takes_head :: "tpc \<Rightarrow> bool" where
  "takes_head (DRead h n) = True"
| "takes_head (DCopied h n) = True"
| "takes_head pc = False"

fun takes_tail :: "tpc \<Rightarrow> bool" where
  "takes_tail (ELinked a) = True"
| "takes_tail pc = False"

fun place_ok :: "'v tlq \<Rightarrow> nat list \<Rightarrow> 'v option \<Rightarrow> tpc \<Rightarrow> bool" where
  "place_ok q bs w QIdle = True"
| "place_ok q bs w (ENew a) = (a \<notin> set (q_head q # bs) \<and> (\<exists>v. q_heap q a = Some \<lparr> n_next = None, n_value = Some v \<rparr>))"
| "place_ok q bs w (ELinked a) = (last (q_head q # bs) = a)"
| "place_ok q bs w (DRead h n) = (h = q_head q \<and> bs \<noteq> [] \<and> hd bs = n)"
| "place_ok q bs w (DCopied h n) = (h = q_head q \<and> bs \<noteq> [] \<and> hd bs = n \<and> value_at q h = value_at q n)"
| "place_ok q bs w (DOut h) = (h \<notin> set (q_head q # bs) \<and> w \<noteq> None \<and> value_at q h = w \<and> q_heap q h \<noteq> None)"

definition queue_ok :: "'v tlq \<Rightarrow> nat list \<Rightarrow> 'v list \<Rightarrow> bool" where
  "queue_ok q bs vs = (chain (q_heap q) (q_head q) bs \<and> distinct (q_head q # bs) \<and> map (value_at q) bs = map Some vs
     \<and> (q_tailLock q = None \<longrightarrow> q_tail q = last (q_head q # bs)))"

definition threads_ok :: "'v tq \<Rightarrow> nat list \<Rightarrow> bool" where
  "threads_ok s bs = ((\<forall>t. place_ok (t_q s) bs (t_owed s t) (t_pc s t))
     \<and> (\<forall>t. takes_head (t_pc s t) = (q_headLock (t_q s) = Some t))
     \<and> (\<forall>t. takes_tail (t_pc s t) = (q_tailLock (t_q s) = Some t))
     \<and> (\<forall>t u a. owned (t_pc s t) = Some a \<longrightarrow> owned (t_pc s u) = Some a \<longrightarrow> t = u))"

definition tq_ok :: "'v tq \<Rightarrow> bool" where
  "tq_ok s = (\<exists>bs vs. queue_ok (t_q s) bs vs \<and> t_in s = t_out s @ vs \<and> threads_ok s bs)"

lemma queue_okD:
  assumes "queue_ok q bs vs"
  shows "chain (q_heap q) (q_head q) bs" "distinct (q_head q # bs)" "map (value_at q) bs = map Some vs"
    "q_tailLock q = None \<Longrightarrow> q_tail q = last (q_head q # bs)"
  using assms by (auto simp: queue_ok_def)

lemma threads_okD:
  assumes "threads_ok s bs"
  shows "place_ok (t_q s) bs (t_owed s t) (t_pc s t)"
    "takes_head (t_pc s t) = (q_headLock (t_q s) = Some t)"
    "takes_tail (t_pc s t) = (q_tailLock (t_q s) = Some t)"
    "owned (t_pc s t) = Some a \<Longrightarrow> owned (t_pc s u) = Some a \<Longrightarrow> t = u"
  using assms by (auto simp: threads_ok_def)

text \<open>
  A step of one thread: it suffices to place that thread anew and to show that every other thread
  keeps its place and its locks.
\<close>

lemma threads_ok_step:
  assumes "threads_ok s bs"
    and "place_ok q bs' w pc" "takes_head pc = (q_headLock q = Some t)" "takes_tail pc = (q_tailLock q = Some t)"
    and "\<And>u. u \<noteq> t \<Longrightarrow> place_ok (t_q s) bs (t_owed s u) (t_pc s u) \<Longrightarrow> place_ok q bs' (t_owed s u) (t_pc s u)"
    and "\<And>u. u \<noteq> t \<Longrightarrow> (q_headLock q = Some u) = (q_headLock (t_q s) = Some u)"
    and "\<And>u. u \<noteq> t \<Longrightarrow> (q_tailLock q = Some u) = (q_tailLock (t_q s) = Some u)"
    and "\<And>u a. u \<noteq> t \<Longrightarrow> owned pc = Some a \<Longrightarrow> owned (t_pc s u) \<noteq> Some a"
  shows "threads_ok (s\<lparr>t_q := q, t_pc := (t_pc s)(t := pc), t_in := i, t_out := out, t_owed := (t_owed s)(t := w)\<rparr>) bs'"
  using assms unfolding threads_ok_def by simp metis

lemma value_at_upd: "value_at (q\<lparr>q_heap := (q_heap q)(a := x)\<rparr>) b = (if b = a then (case x of None \<Rightarrow> None | Some y \<Rightarrow> n_value y) else value_at q b)"
  by (simp add: value_at_def)

lemma value_at_more:
  "value_at (q\<lparr>q_headLock := l\<rparr>) b = value_at q b" "value_at (q\<lparr>q_tailLock := l\<rparr>) b = value_at q b"
  "value_at (q\<lparr>q_head := c\<rparr>) b = value_at q b" "value_at (q\<lparr>q_tail := c\<rparr>) b = value_at q b"
  by (simp_all add: value_at_def)

lemma place_ok_off:
  assumes "place_ok q bs w pc" "owned pc \<noteq> Some a" "a \<notin> set (q_head q # bs)"
  shows "place_ok (q\<lparr>q_heap := (q_heap q)(a := x)\<rparr>) bs w pc"
  using assms by (cases pc) (auto simp: value_at_upd)

lemma values_keep:
  "map (value_at q) bs = map Some vs \<Longrightarrow> (\<And>b. b \<in> set bs \<Longrightarrow> value_at q' b = value_at q b) \<Longrightarrow>
    map (value_at q') bs = map Some vs"
  by (metis map_eq_conv)

lemma queue_ok_off:
  assumes "queue_ok q bs vs" "a \<notin> set (q_head q # bs)"
  shows "queue_ok (q\<lparr>q_heap := (q_heap q)(a := x)\<rparr>) bs vs"
proof -
  have "map (value_at (q\<lparr>q_heap := (q_heap q)(a := x)\<rparr>)) bs = map Some vs"
    by (rule values_keep [OF queue_okD(3) [OF assms(1)]]) (use assms(2) in \<open>auto simp: value_at_upd\<close>)
  then show ?thesis using assms by (simp add: queue_ok_def chain_off)
qed

lemma tq_new_keeps:
  assumes "tq_ok s" "t_pc s t = QIdle" "q_heap (t_q s) a = None" "enqueue_new a v (t_q s) = (q, pc)"
  shows "tq_ok (s\<lparr>t_q := q, t_pc := (t_pc s)(t := pc)\<rparr>)"
proof -
  obtain bs vs where ok: "queue_ok (t_q s) bs vs" "t_in s = t_out s @ vs" "threads_ok s bs"
    using assms(1) by (auto simp: tq_ok_def)
  have q: "q = (t_q s)\<lparr>q_heap := (q_heap (t_q s))(a := Some \<lparr> n_next = None, n_value = Some v \<rparr>)\<rparr>" and pc: "pc = ENew a"
    using assms(4) by (auto simp: enqueue_new_def)
  have fresh: "a \<notin> set (q_head (t_q s) # bs)"
    using chain_allocated [OF queue_okD(1) [OF ok(1)]] assms(3) by blast
  have other: "owned (t_pc s u) \<noteq> Some a" for u
    using threads_okD(1) [OF ok(3), of u] assms(3) by (cases "t_pc s u") auto
  have "threads_ok (s\<lparr>t_q := q, t_pc := (t_pc s)(t := pc), t_in := t_in s, t_out := t_out s, t_owed := (t_owed s)(t := t_owed s t)\<rparr>) bs"
  proof (rule threads_ok_step [OF ok(3)])
    show "place_ok q bs (t_owed s t) pc" using fresh by (simp add: q pc)
    show "takes_head pc = (q_headLock q = Some t)" "takes_tail pc = (q_tailLock q = Some t)"
      using threads_okD(2,3) [OF ok(3), of t] assms(2) by (auto simp: q pc)
    show "place_ok q bs (t_owed s u) (t_pc s u)" if "place_ok (t_q s) bs (t_owed s u) (t_pc s u)" for u
      unfolding q by (rule place_ok_off [OF that other fresh])
  qed (use other in \<open>auto simp: q pc\<close>)
  moreover have "queue_ok q bs vs" unfolding q by (rule queue_ok_off [OF ok(1) fresh])
  ultimately have "queue_ok q bs vs" "threads_ok (s\<lparr>t_q := q, t_pc := (t_pc s)(t := pc)\<rparr>) bs" by simp_all
  then show ?thesis using ok(2) by (auto simp: tq_ok_def)
qed

lemma link_keeps:
  assumes "queue_ok q bs vs" "q_tailLock q = None" "place_ok q bs w (ENew a)"
  obtains x v where "q_heap q (q_tail q) = Some x" "value_at q a = Some v"
    "queue_ok (q\<lparr>q_heap := (q_heap q)(q_tail q \<mapsto> x\<lparr>n_next := Some a\<rparr>), q_tailLock := Some t\<rparr>) (bs @ [a]) (vs @ [v])"
proof -
  note q = queue_okD [OF assms(1)]
  have tail: "q_tail q = last (q_head q # bs)" by (rule q(4) [OF assms(2)])
  obtain x where x: "q_heap q (q_tail q) = Some x" using chain_last [OF q(1)] by (auto simp: tail)
  obtain v where v: "q_heap q a = Some \<lparr> n_next = None, n_value = Some v \<rparr>" and a: "a \<notin> set (q_head q # bs)"
    using assms(3) by auto
  let ?q = "q\<lparr>q_heap := (q_heap q)(q_tail q \<mapsto> x\<lparr>n_next := Some a\<rparr>), q_tailLock := Some t\<rparr>"
  have same: "value_at ?q = value_at q" using x by (auto simp: value_at_def)
  have "chain (q_heap ?q) (q_head ?q) (bs @ [a])"
    using chain_snoc [OF q(1,2) _ v _ a] x by (simp add: tail del: last.simps)
  then have "queue_ok ?q (bs @ [a]) (vs @ [v])"
    using q(2,3) a v by (auto simp: queue_ok_def same) (auto simp: value_at_def)
  then show ?thesis using that [OF x, of v] v by (simp add: value_at_def)
qed

lemma copy_keeps:
  assumes "queue_ok q bs vs" "place_ok q bs w (DRead h n)"
  obtains x y where "q_heap q h = Some x" "q_heap q n = Some y"
    "queue_ok (q\<lparr>q_heap := (q_heap q)(h \<mapsto> x\<lparr>n_value := n_value y\<rparr>)\<rparr>) bs vs"
    "place_ok (q\<lparr>q_heap := (q_heap q)(h \<mapsto> x\<lparr>n_value := n_value y\<rparr>)\<rparr>) bs w (DCopied h n)"
proof -
  note q = queue_okD [OF assms(1)]
  have h: "h = q_head q" and n: "bs \<noteq> []" "hd bs = n" using assms(2) by auto
  have mem: "n \<in> set bs" and off: "h \<notin> set bs" using n q(2) by (auto simp: h)
  obtain x y where x: "q_heap q h = Some x" and y: "q_heap q n = Some y"
    using chain_allocated [OF q(1), of h] chain_allocated [OF q(1), of n] mem by (auto simp: h)
  let ?q = "q\<lparr>q_heap := (q_heap q)(h \<mapsto> x\<lparr>n_value := n_value y\<rparr>)\<rparr>"
  have "map (value_at ?q) bs = map Some vs"
    by (rule values_keep [OF q(3)]) (use off in \<open>auto simp: value_at_upd\<close>)
  moreover have "chain (q_heap ?q) (q_head ?q) bs" using chain_value [OF q(1)] x q(2) by (simp add: h)
  ultimately have "queue_ok ?q bs vs" using assms(1) by (simp add: queue_ok_def)
  moreover have "place_ok ?q bs w (DCopied h n)" using h n mem off y by (auto simp: value_at_def)
  ultimately show ?thesis using that [OF x y] by blast
qed

lemma unlink_keeps:
  assumes "queue_ok q bs vs" "place_ok q bs w (DCopied h n)"
  obtains bs' v vs' where "bs = n # bs'" "vs = v # vs'" "value_at q n = Some v" "value_at q h = Some v"
    "q_heap q h \<noteq> None" "h \<notin> set bs" "h = q_head q"
    "queue_ok (q\<lparr>q_head := n, q_headLock := None\<rparr>) bs' vs'"
proof -
  note q = queue_okD [OF assms(1)]
  obtain bs' where bs: "bs = n # bs'" and h: "h = q_head q" and eq: "value_at q h = value_at q n"
    using assms(2) by (cases bs) auto
  obtain v vs' where vs: "vs = v # vs'" and v: "value_at q n = Some v" and rest: "map (value_at q) bs' = map Some vs'"
    using q(3) by (cases vs) (auto simp: bs)
  have same: "value_at (q\<lparr>q_head := n, q_headLock := None\<rparr>) = value_at q" by (auto simp: value_at_def)
  have "queue_ok (q\<lparr>q_head := n, q_headLock := None\<rparr>) bs' vs'"
    using assms(1) rest by (simp add: queue_ok_def bs same)
  then show ?thesis using that [OF bs vs v] eq v chain_allocated [OF q(1), of h] q(2) by (auto simp: h)
qed

text \<open>Every step of a thread is taken without a fault and keeps the invariant.\<close>

lemma tq_run_idle:
  assumes ok: "queue_ok (t_q s) bs vs" "threads_ok s bs" and pc: "t_pc s t = QIdle"
  shows "\<exists>q p. tlq_step t QIdle (t_q s) = Some (Ret (q, p, None)) \<and> queue_ok q bs vs
      \<and> threads_ok (s\<lparr>t_q := q, t_pc := (t_pc s)(t := p), t_in := i, t_out := out, t_owed := (t_owed s)(t := None)\<rparr>) bs
    \<or> tlq_step t QIdle (t_q s) = None"
proof (cases "q_headLock (t_q s)")
  case None
  note th = threads_okD [OF ok(2)]
  show ?thesis
  proof (cases bs)
    case Nil
    then have step: "tlq_step t QIdle (t_q s) = Some (Ret (t_q s, QIdle, None))"
      using queue_okD(1) [OF ok(1)] None by auto
    have "threads_ok (s\<lparr>t_q := t_q s, t_pc := (t_pc s)(t := QIdle), t_in := i, t_out := out, t_owed := (t_owed s)(t := None)\<rparr>) bs"
      by (rule threads_ok_step [OF ok(2)]) (use th(2,3) [of t] pc in simp_all)
    then show ?thesis using step ok(1) by blast
  next
    case (Cons n bs')
    let ?q = "(t_q s)\<lparr>q_headLock := Some t\<rparr>"
    have step: "tlq_step t QIdle (t_q s) = Some (Ret (?q, DRead (q_head (t_q s)) n, None))"
      using queue_okD(1) [OF ok(1)] None by (auto simp: Cons)
    have same: "value_at ?q = value_at (t_q s)" by (auto simp: value_at_def)
    have keep: "place_ok ?q bs w p" if "place_ok (t_q s) bs w p" for w p using that by (cases p) (simp_all add: same)
    have "threads_ok (s\<lparr>t_q := ?q, t_pc := (t_pc s)(t := DRead (q_head (t_q s)) n), t_in := i, t_out := out, t_owed := (t_owed s)(t := None)\<rparr>) bs"
      by (rule threads_ok_step [OF ok(2)]) (use th(3) [of t] pc None Cons keep in simp_all)
    moreover have "queue_ok ?q bs vs" using ok(1) by (simp add: queue_ok_def same)
    ultimately show ?thesis using step by blast
  qed
qed auto

lemma tq_run_link:
  assumes ok: "queue_ok (t_q s) bs vs" "threads_ok s bs" and pc: "t_pc s t = ENew a" and free: "q_tailLock (t_q s) = None"
  shows "\<exists>q v. tlq_step t (ENew a) (t_q s) = Some (Ret (q, ELinked a, None)) \<and> value_at (t_q s) a = Some v \<and> queue_ok q (bs @ [a]) (vs @ [v])
      \<and> threads_ok (s\<lparr>t_q := q, t_pc := (t_pc s)(t := ELinked a), t_in := i, t_out := out, t_owed := (t_owed s)(t := None)\<rparr>) (bs @ [a])"
proof -
  note th = threads_okD [OF ok(2)]
  obtain x v where x: "q_heap (t_q s) (q_tail (t_q s)) = Some x" and v: "value_at (t_q s) a = Some v"
    and q: "queue_ok ((t_q s)\<lparr>q_heap := (q_heap (t_q s))(q_tail (t_q s) \<mapsto> x\<lparr>n_next := Some a\<rparr>), q_tailLock := Some t\<rparr>) (bs @ [a]) (vs @ [v])"
    using link_keeps [OF ok(1) free th(1) [of t, unfolded pc]] by blast
  let ?q = "(t_q s)\<lparr>q_heap := (q_heap (t_q s))(q_tail (t_q s) \<mapsto> x\<lparr>n_next := Some a\<rparr>), q_tailLock := Some t\<rparr>"
  have same: "value_at ?q = value_at (t_q s)" using x by (auto simp: value_at_def)
  have tail: "q_tail (t_q s) \<in> set (q_head (t_q s) # bs)" using queue_okD(4) [OF ok(1) free] by (metis last_in_set list.distinct(1))
  have keep: "place_ok ?q (bs @ [a]) w p"
    if "place_ok (t_q s) bs w p" "owned p \<noteq> Some a" "\<not> takes_tail p" for w p
    using that tail by (cases p) (auto simp: same)
  have "threads_ok (s\<lparr>t_q := ?q, t_pc := (t_pc s)(t := ELinked a), t_in := i, t_out := out, t_owed := (t_owed s)(t := None)\<rparr>) (bs @ [a])"
  proof (rule threads_ok_step [OF ok(2)])
    show "place_ok ?q (bs @ [a]) (t_owed s u) (t_pc s u)" if "u \<noteq> t" "place_ok (t_q s) bs (t_owed s u) (t_pc s u)" for u
      by (rule keep [OF that(2)]) (use th(4) [of t a u] th(3) [of u] pc free that(1) in auto)
  qed (use th(2) [of t] pc free in auto)
  then show ?thesis using x v q free by simp
qed

lemma tq_run_linked:
  assumes ok: "queue_ok (t_q s) bs vs" "threads_ok s bs" and pc: "t_pc s t = ELinked a"
  defines "q \<equiv> (t_q s)\<lparr>q_tail := a, q_tailLock := None\<rparr>"
  shows "queue_ok q bs vs"
    "threads_ok (s\<lparr>t_q := q, t_pc := (t_pc s)(t := QIdle), t_in := i, t_out := out, t_owed := (t_owed s)(t := None)\<rparr>) bs"
proof -
  note th = threads_okD [OF ok(2)]
  have same: "value_at q = value_at (t_q s)" by (auto simp: value_at_def q_def)
  show "queue_ok q bs vs" using ok(1) th(1) [of t] pc same by (simp add: queue_ok_def q_def)
  have keep: "place_ok q bs w p" if "place_ok (t_q s) bs w p" for w p
    using that by (cases p) (simp_all add: same, simp_all add: q_def)
  show "threads_ok (s\<lparr>t_q := q, t_pc := (t_pc s)(t := QIdle), t_in := i, t_out := out, t_owed := (t_owed s)(t := None)\<rparr>) bs"
    by (rule threads_ok_step [OF ok(2)]) (use th(2,3) [of t] pc keep in \<open>auto simp: q_def\<close>)
qed

lemma tq_run_copy:
  assumes ok: "queue_ok (t_q s) bs vs" "threads_ok s bs" and pc: "t_pc s t = DRead h n"
  shows "\<exists>q. tlq_step t (DRead h n) (t_q s) = Some (Ret (q, DCopied h n, None)) \<and> queue_ok q bs vs
      \<and> threads_ok (s\<lparr>t_q := q, t_pc := (t_pc s)(t := DCopied h n), t_in := i, t_out := out, t_owed := (t_owed s)(t := None)\<rparr>) bs"
proof -
  note th = threads_okD [OF ok(2)]
  obtain x y where xy: "q_heap (t_q s) h = Some x" "q_heap (t_q s) n = Some y"
    and q: "queue_ok ((t_q s)\<lparr>q_heap := (q_heap (t_q s))(h \<mapsto> x\<lparr>n_value := n_value y\<rparr>)\<rparr>) bs vs"
    and me: "place_ok ((t_q s)\<lparr>q_heap := (q_heap (t_q s))(h \<mapsto> x\<lparr>n_value := n_value y\<rparr>)\<rparr>) bs (t_owed s t) (DCopied h n)"
    using copy_keeps [OF ok(1) th(1) [of t, unfolded pc]] by blast
  let ?q = "(t_q s)\<lparr>q_heap := (q_heap (t_q s))(h \<mapsto> x\<lparr>n_value := n_value y\<rparr>)\<rparr>"
  have h: "h = q_head (t_q s)" using th(1) [of t] pc by simp
  have keep: "place_ok ?q bs w p" if "place_ok (t_q s) bs w p" "\<not> takes_head p" for w p
    using that by (cases p) (auto simp: value_at_upd h)
  have "threads_ok (s\<lparr>t_q := ?q, t_pc := (t_pc s)(t := DCopied h n), t_in := i, t_out := out, t_owed := (t_owed s)(t := None)\<rparr>) bs"
  proof (rule threads_ok_step [OF ok(2)])
    show "place_ok ?q bs (t_owed s u) (t_pc s u)" if "u \<noteq> t" "place_ok (t_q s) bs (t_owed s u) (t_pc s u)" for u
      by (rule keep [OF that(2)]) (use th(2) [of u] th(2) [of t] pc that(1) in auto)
  qed (use th(2,3) [of t] pc me in auto)
  then show ?thesis using xy q by auto
qed

lemma tq_run_unlink:
  assumes ok: "queue_ok (t_q s) bs vs" "threads_ok s bs" and pc: "t_pc s t = DCopied h n"
  defines "q \<equiv> (t_q s)\<lparr>q_head := n, q_headLock := None\<rparr>"
  shows "\<exists>bs' v vs'. vs = v # vs' \<and> value_at (t_q s) n = Some v \<and> queue_ok q bs' vs'
      \<and> threads_ok (s\<lparr>t_q := q, t_pc := (t_pc s)(t := DOut h), t_in := i, t_out := out, t_owed := (t_owed s)(t := Some v)\<rparr>) bs'"
proof -
  note th = threads_okD [OF ok(2)]
  obtain bs' v vs' where bs: "bs = n # bs'" and vs: "vs = v # vs'" "value_at (t_q s) n = Some v" "value_at (t_q s) h = Some v"
    "q_heap (t_q s) h \<noteq> None" and h: "h \<notin> set bs" "h = q_head (t_q s)" and q: "queue_ok q bs' vs'"
    using unlink_keeps [OF ok(1) th(1) [of t, unfolded pc]] unfolding q_def by blast
  have same: "value_at q = value_at (t_q s)" by (auto simp: value_at_def q_def)
  have keep: "place_ok q bs' w p" if "place_ok (t_q s) bs w p" "\<not> takes_head p" for w p
    using that by (cases p) (auto simp: same bs, auto simp: q_def)
  have other: "owned (t_pc s u) \<noteq> Some h" for u using th(1) [of u] h(2) by (cases "t_pc s u") auto
  have "threads_ok (s\<lparr>t_q := q, t_pc := (t_pc s)(t := DOut h), t_in := i, t_out := out, t_owed := (t_owed s)(t := Some v)\<rparr>) bs'"
  proof (rule threads_ok_step [OF ok(2)])
    show "place_ok q bs' (Some v) (DOut h)" using vs h bs by (simp add: same) (simp add: q_def)
    show "place_ok q bs' (t_owed s u) (t_pc s u)" if "u \<noteq> t" "place_ok (t_q s) bs (t_owed s u) (t_pc s u)" for u
      by (rule keep [OF that(2)]) (use th(2) [of u] th(2) [of t] pc that(1) in auto)
  qed (use th(2,3) [of t] pc other in \<open>auto simp: q_def\<close>)
  then show ?thesis using vs q by blast
qed

lemma tq_run_out:
  assumes ok: "queue_ok (t_q s) bs vs" "threads_ok s bs" and pc: "t_pc s t = DOut h"
  shows "\<exists>q. tlq_step t (DOut h) (t_q s) = Some (Ret (q, QIdle, t_owed s t)) \<and> t_owed s t \<noteq> None \<and> queue_ok q bs vs
      \<and> threads_ok (s\<lparr>t_q := q, t_pc := (t_pc s)(t := QIdle), t_in := i, t_out := out, t_owed := (t_owed s)(t := None)\<rparr>) bs"
proof -
  note th = threads_okD [OF ok(2)]
  have me: "h \<notin> set (q_head (t_q s) # bs)" "t_owed s t \<noteq> None" "value_at (t_q s) h = t_owed s t" "q_heap (t_q s) h \<noteq> None"
    using th(1) [of t] pc by auto
  let ?q = "(t_q s)\<lparr>q_heap := (q_heap (t_q s))(h := None)\<rparr>"
  have "threads_ok (s\<lparr>t_q := ?q, t_pc := (t_pc s)(t := QIdle), t_in := i, t_out := out, t_owed := (t_owed s)(t := None)\<rparr>) bs"
  proof (rule threads_ok_step [OF ok(2)])
    show "place_ok ?q bs (t_owed s u) (t_pc s u)" if "u \<noteq> t" "place_ok (t_q s) bs (t_owed s u) (t_pc s u)" for u
      by (rule place_ok_off [OF that(2) _ me(1)]) (use th(4) [of t h u] pc that(1) in auto)
  qed (use th(2,3) [of t] pc in auto)
  moreover have "queue_ok ?q bs vs" by (rule queue_ok_off [OF ok(1) me(1)])
  ultimately show ?thesis using me by (auto simp: value_at_def)
qed

lemma tq_after_ok:
  assumes "queue_ok q bs vs" "t_in s @ log_in (t_q s) (t_pc s t) = (t_out s @ log_out (t_q s) (t_pc s t)) @ vs"
    and "w = (case t_pc s t of DCopied h n \<Rightarrow> value_at (t_q s) n | _ \<Rightarrow> None)"
    and "threads_ok (s\<lparr>t_q := q, t_pc := (t_pc s)(t := p), t_in := t_in s @ log_in (t_q s) (t_pc s t),
      t_out := t_out s @ log_out (t_q s) (t_pc s t), t_owed := (t_owed s)(t := w)\<rparr>) bs"
  shows "tq_ok (tq_after s t q p)"
  unfolding tq_ok_def tq_after_def using assms by (intro exI [of _ bs] exI [of _ vs]) simp

lemma tq_run_keeps:
  assumes "tq_ok s"
  shows "tlq_step t (t_pc s t) (t_q s) = None \<or>
    (\<exists>q p r. tlq_step t (t_pc s t) (t_q s) = Some (Ret (q, p, r)) \<and> tq_ok (tq_after s t q p))"
proof -
  obtain bs vs where ok: "queue_ok (t_q s) bs vs" "t_in s = t_out s @ vs" "threads_ok s bs"
    using assms by (auto simp: tq_ok_def)
  let ?i = "t_in s @ log_in (t_q s) (t_pc s t)" and ?o = "t_out s @ log_out (t_q s) (t_pc s t)"
  note runs = ok(1,3)
  show ?thesis
  proof (cases "t_pc s t")
    case QIdle
    from tq_run_idle [OF runs QIdle, where i = ?i and out = ?o] consider "tlq_step t QIdle (t_q s) = None"
      | q p where "tlq_step t QIdle (t_q s) = Some (Ret (q, p, None))" "queue_ok q bs vs"
        "threads_ok (s\<lparr>t_q := q, t_pc := (t_pc s)(t := p), t_in := ?i, t_out := ?o, t_owed := (t_owed s)(t := None)\<rparr>) bs"
      by (elim exE disjE conjE) simp_all
    then show ?thesis
    proof cases
      case 2
      have "tq_ok (tq_after s t q p)" by (rule tq_after_ok [OF 2(2) _ _ 2(3)]) (simp_all add: QIdle ok(2))
      then show ?thesis using 2(1) by (metis QIdle)
    qed (simp only: QIdle simp_thms)
  next
    case (ENew a)
    show ?thesis
    proof (cases "q_tailLock (t_q s)")
      case None
      from tq_run_link [OF runs ENew None, where i = ?i and out = ?o] obtain q v where r: "tlq_step t (ENew a) (t_q s) = Some (Ret (q, ELinked a, None))"
        "value_at (t_q s) a = Some v" "queue_ok q (bs @ [a]) (vs @ [v])"
        "threads_ok (s\<lparr>t_q := q, t_pc := (t_pc s)(t := ELinked a), t_in := ?i, t_out := ?o, t_owed := (t_owed s)(t := None)\<rparr>) (bs @ [a])"
        by blast
      have "tq_ok (tq_after s t q (ELinked a))" by (rule tq_after_ok [OF r(3) _ _ r(4)]) (simp_all add: ENew ok(2) r(2) as_list_def)
      then show ?thesis using r(1) by (metis ENew)
    qed (simp add: ENew)
  next
    case (ELinked a)
    note r = tq_run_linked(1) [OF runs ELinked] tq_run_linked(2) [OF runs ELinked, where i = ?i and out = ?o]
    have "tq_ok (tq_after s t ((t_q s)\<lparr>q_tail := a, q_tailLock := None\<rparr>) QIdle)"
      by (rule tq_after_ok [OF r(1) _ _ r(2)]) (simp_all add: ELinked ok(2))
    then show ?thesis by (simp add: ELinked)
  next
    case (DRead h n)
    from tq_run_copy [OF runs DRead, where i = ?i and out = ?o] obtain q where r: "tlq_step t (DRead h n) (t_q s) = Some (Ret (q, DCopied h n, None))"
      "queue_ok q bs vs"
      "threads_ok (s\<lparr>t_q := q, t_pc := (t_pc s)(t := DCopied h n), t_in := ?i, t_out := ?o, t_owed := (t_owed s)(t := None)\<rparr>) bs"
      by blast
    have "tq_ok (tq_after s t q (DCopied h n))" by (rule tq_after_ok [OF r(2) _ _ r(3)]) (simp_all add: DRead ok(2))
    then show ?thesis using r(1) by (metis DRead)
  next
    case (DCopied h n)
    from tq_run_unlink [OF runs DCopied, where i = ?i and out = ?o] obtain bs' v vs' where r: "vs = v # vs'" "value_at (t_q s) n = Some v"
      "queue_ok ((t_q s)\<lparr>q_head := n, q_headLock := None\<rparr>) bs' vs'"
      "threads_ok (s\<lparr>t_q := (t_q s)\<lparr>q_head := n, q_headLock := None\<rparr>, t_pc := (t_pc s)(t := DOut h), t_in := ?i, t_out := ?o, t_owed := (t_owed s)(t := Some v)\<rparr>) bs'"
      by blast
    have "tq_ok (tq_after s t ((t_q s)\<lparr>q_head := n, q_headLock := None\<rparr>) (DOut h))"
      by (rule tq_after_ok [OF r(3) _ _ r(4)]) (simp_all add: DCopied ok(2) r(1,2) as_list_def)
    then show ?thesis by (simp add: DCopied)
  next
    case (DOut h)
    from tq_run_out [OF runs DOut, where i = ?i and out = ?o] obtain q where r: "tlq_step t (DOut h) (t_q s) = Some (Ret (q, QIdle, t_owed s t))"
      "queue_ok q bs vs"
      "threads_ok (s\<lparr>t_q := q, t_pc := (t_pc s)(t := QIdle), t_in := ?i, t_out := ?o, t_owed := (t_owed s)(t := None)\<rparr>) bs"
      by blast
    have "tq_ok (tq_after s t q QIdle)" by (rule tq_after_ok [OF r(2) _ _ r(3)]) (simp_all add: DOut ok(2))
    then show ?thesis using r(1) by (metis DOut)
  qed
qed

lemma tq_reach_ok: "tq_reach a s \<Longrightarrow> tq_ok s"
proof (induction rule: tq_reach.induct)
  case start
  have "queue_ok (tlq_new a) [] ([] :: 'a list)" by (simp add: queue_ok_def tlq_new_def)
  then show ?case unfolding tq_ok_def threads_ok_def
    by (intro exI [of _ "[]"]) (simp add: tlq_new_def)
next
  case (step s s')
  from step.hyps(2) step.IH show ?case
  proof (cases rule: tq_step.cases)
    case (new t b v q pc)
    then show ?thesis using tq_new_keeps [OF step.IH] by blast
  next
    case (run t q pc r)
    then show ?thesis using tq_run_keeps [OF step.IH, of t] by auto
  qed
qed

lemma tlq_holder_moves: "takes_head pc \<or> takes_tail pc \<Longrightarrow> tlq_step t pc q \<noteq> None"
  by (cases pc) (auto split: option.splits)

lemma tlq_blocked: "tlq_step t pc q = None \<Longrightarrow> (pc = QIdle \<and> q_headLock q \<noteq> None) \<or> (\<exists>a. pc = ENew a \<and> q_tailLock q \<noteq> None)"
  by (cases pc) (auto split: option.splits if_splits)

lemma tlq_idle_empty:
  assumes "queue_ok q bs vs" "tlq_step t QIdle q = Some (Ret (q', QIdle, r))"
  shows "bs = []"
  using assms(2) queue_okD(1) [OF assms(1)] by (cases bs) (auto split: option.splits if_splits)

lemma tq_lock_holder:
  assumes "threads_ok s bs" "tlq_step t (t_pc s t) (t_q s) = None"
    and held: "\<And>w. q_headLock (t_q s) = Some w \<or> q_tailLock (t_q s) = Some w \<Longrightarrow> takes_head (t_pc s w) \<or> takes_tail (t_pc s w)"
  shows "\<exists>u. u \<noteq> t \<and> tlq_step u (t_pc s u) (t_q s) \<noteq> None"
proof -
  obtain w where w: "q_headLock (t_q s) = Some w \<or> q_tailLock (t_q s) = Some w"
    using tlq_blocked [OF assms(2)] by auto
  have "tlq_step w (t_pc s w) (t_q s) \<noteq> None" by (rule tlq_holder_moves [OF held [OF w]])
  then show ?thesis using assms(2) by metis
qed

section \<open>Correctness\<close>

text \<open>C3: However any number of threads interleave their enqueues and dequeues, the two-lock queue
  is a queue: no thread touches a freed node; the values unlinked are the values linked, in that
  order, up to those still queued; a dequeue that has unlinked a node returns the very value it
  unlinked; a dequeue that returns nothing saw an empty queue; and a thread waits for a lock only
  while another thread can move.\<close>
theorem two_lock_queue_fifo:
  assumes "tq_reach a s"
  shows "(\<exists>vs. t_in s = t_out s @ vs)
    \<and> tlq_step t (t_pc s t) (t_q s) \<noteq> Some (Fault f)
    \<and> (t_pc s t = DOut h \<longrightarrow> (\<exists>q v. t_owed s t = Some v \<and> tlq_step t (t_pc s t) (t_q s) = Some (Ret (q, QIdle, Some v))))
    \<and> (t_pc s t = QIdle \<and> tlq_step t QIdle (t_q s) = Some (Ret (q', QIdle, r)) \<longrightarrow> t_in s = t_out s)
    \<and> (tlq_step t (t_pc s t) (t_q s) = None \<longrightarrow> (\<exists>u. u \<noteq> t \<and> tlq_step u (t_pc s u) (t_q s) \<noteq> None))"
proof -
  note inv = tq_reach_ok [OF assms]
  obtain bs vs where ok: "queue_ok (t_q s) bs vs" "t_in s = t_out s @ vs" "threads_ok s bs"
    using inv by (auto simp: tq_ok_def)
  have safe: "tlq_step t (t_pc s t) (t_q s) \<noteq> Some (Fault f)"
    using tq_run_keeps [OF inv, of t] by auto
  have out: "\<exists>q v. t_owed s t = Some v \<and> tlq_step t (t_pc s t) (t_q s) = Some (Ret (q, QIdle, Some v))" if "t_pc s t = DOut h"
    using tq_run_out [OF ok(1,3) that] that by (metis not_None_eq)
  have empty: "t_in s = t_out s" if "tlq_step t QIdle (t_q s) = Some (Ret (q', QIdle, r))"
    using tlq_idle_empty [OF ok(1) that] queue_okD(3) [OF ok(1)] ok(2) by simp
  have wait: "\<exists>u. u \<noteq> t \<and> tlq_step u (t_pc s u) (t_q s) \<noteq> None" if "tlq_step t (t_pc s t) (t_q s) = None"
    by (rule tq_lock_holder [OF ok(3) that]) (use threads_okD(2,3) [OF ok(3)] in blast)
  from ok(2) safe out empty wait show ?thesis by blast
qed

lemma tq_reach_new:
  "tq_reach a s \<Longrightarrow> t_pc s t = QIdle \<Longrightarrow> q_heap (t_q s) b = None \<Longrightarrow>
    tq_reach a (s\<lparr>t_q := fst (enqueue_new b v (t_q s)), t_pc := (t_pc s)(t := snd (enqueue_new b v (t_q s)))\<rparr>)"
  by (rule tq_reach.step, assumption, rule tq_step.new) auto

lemma tq_reach_run:
  "tq_reach a s \<Longrightarrow> tlq_step t (t_pc s t) (t_q s) = Some (Ret (q, pc, r)) \<Longrightarrow> tq_reach a (tq_after s t q pc)"
  by (rule tq_reach.step, assumption, rule tq_step.run)

text \<open>A value is dequeued between the two writes of the enqueue that brings it.\<close>
theorem two_lock_queue_fifo_witness:
  "\<exists>s :: nat tq. tq_reach 0 s \<and> t_pc s 0 = ELinked 1 \<and> t_pc s 1 = DOut 0 \<and> t_in s = [7] \<and> t_out s = [7]
    \<and> (\<exists>q. tlq_step 1 (DOut 0) (t_q s) = Some (Ret (q, QIdle, Some 7)))"
proof -
  let ?s = "\<lparr> t_q = tlq_new 0, t_pc = (\<lambda>t. QIdle), t_in = [], t_out = [], t_owed = (\<lambda>t. None) \<rparr> :: nat tq"
  have "tq_reach 0 ?s" by (rule tq_reach.start)
  note r0 = tq_reach_new [OF this, of 0 1 7, simplified, simplified tlq_new_def enqueue_new_def, simplified]
  note r1 = tq_reach_run [OF r0, of 0, simplified, OF conjI [OF refl conjI [OF refl refl]], simplified tq_after_def value_at_def as_list_def, simplified]
  note r2 = tq_reach_run [OF r1, of 1, simplified, OF conjI [OF refl conjI [OF refl refl]], simplified tq_after_def value_at_def as_list_def, simplified]
  note r3 = tq_reach_run [OF r2, of 1, simplified, OF conjI [OF refl conjI [OF refl refl]], simplified tq_after_def value_at_def as_list_def, simplified]
  note r4 = tq_reach_run [OF r3, of 1, simplified, OF conjI [OF refl conjI [OF refl refl]], simplified tq_after_def value_at_def as_list_def, simplified]
  show ?thesis
    by (rule exI, rule conjI [OF r4]) (use two_lock_queue_fifo [OF r4, of 1] in \<open>simp add: value_at_def as_list_def\<close>)
qed

text \<open>
  The destructor ends and frees every node but the last of the chain, which is the dummy by then.
\<close>

lemma dequeueNode_chain:
  assumes "queue_ok q (n # bs) (v # vs)"
  shows "\<exists>x w. q_heap q (q_head q) = Some x \<and> dequeueNode q = Ret (q\<lparr>q_heap := (q_heap q)(q_head q \<mapsto> x\<lparr>n_value := w\<rparr>), q_head := n\<rparr>, Some (q_head q))
    \<and> queue_ok (q\<lparr>q_head := n, q_heap := (q_heap q)(q_head q := None)\<rparr>) bs vs"
proof -
  note q = queue_okD [OF assms]
  obtain x y where x: "q_heap q (q_head q) = Some x" "n_next x = Some n" and y: "q_heap q n = Some y"
    using q(1) chain_allocated [of "q_heap q" n bs n] by auto
  let ?q = "q\<lparr>q_head := n, q_heap := (q_heap q)(q_head q := None)\<rparr>"
  have "map (value_at ?q) bs = map Some vs"
    by (rule values_keep [of q]) (use q(2,3) in \<open>auto simp: value_at_def\<close>)
  moreover have "chain (q_heap ?q) n bs" using q(1,2) by (simp add: chain_off)
  ultimately have "queue_ok ?q bs vs" using assms by (simp add: queue_ok_def)
  then show ?thesis using x y by (auto simp: dequeueNode_def)
qed

lemma tlq_delete_chain:
  "queue_ok q bs vs \<Longrightarrow> \<exists>q'. tlq_delete q = Some (Ret q') \<and> dom (q_heap q') = dom (q_heap q) - set (butlast (q_head q # bs))"
proof (induction bs arbitrary: q vs)
  case Nil
  then obtain x where "q_heap q (q_head q) = Some x" "n_next x = None" using queue_okD(1) [OF Nil] by auto
  then show ?case by (simp add: tlq_delete.simps [of q] dequeueNode_def)
next
  case (Cons n bs)
  obtain v vs' where vs: "vs = v # vs'" using queue_okD(3) [OF Cons.prems] by (cases vs) auto
  obtain x w where d: "dequeueNode q = Ret (q\<lparr>q_heap := (q_heap q)(q_head q \<mapsto> x\<lparr>n_value := w\<rparr>), q_head := n\<rparr>, Some (q_head q))"
    and k: "queue_ok (q\<lparr>q_head := n, q_heap := (q_heap q)(q_head q := None)\<rparr>) bs vs'"
    using dequeueNode_chain [OF Cons.prems [unfolded vs]] by blast
  have step: "tlq_delete q = tlq_delete (q\<lparr>q_head := n, q_heap := (q_heap q)(q_head q := None)\<rparr>)"
    by (simp add: tlq_delete.simps [of q] d)
  show ?case using Cons.IH [OF k] by (auto simp: step split: if_splits)
qed

text \<open>Destroying the queue once its threads are done always ends, without a fault, but it never
  frees the dummy node: whatever was in the queue, the node that is last in its chain stays
  allocated.\<close>
lemma two_lock_queue_leaks_dummy:
  assumes "tq_reach a s" "\<And>t. t_pc s t = QIdle"
  shows "\<exists>q'. tlq_delete (t_q s) = Some (Ret q') \<and> q_tail (t_q s) \<in> dom (q_heap q')"
proof -
  obtain bs vs where ok: "queue_ok (t_q s) bs vs" "threads_ok s bs" using tq_reach_ok [OF assms(1)] by (auto simp: tq_ok_def)
  have "q_tailLock (t_q s) = None"
    using threads_okD(3) [OF ok(2)] assms(2) by (metis not_None_eq takes_tail.simps(2))
  then have tail: "q_tail (t_q s) = last (q_head (t_q s) # bs)" by (rule queue_okD(4) [OF ok(1)])
  have "q_tail (t_q s) \<in> dom (q_heap (t_q s))"
    using chain_last [OF queue_okD(1) [OF ok(1)]] by (auto simp: tail)
  moreover have "q_tail (t_q s) \<notin> set (butlast (q_head (t_q s) # bs))"
    using queue_okD(2) [OF ok(1)] unfolding tail by (metis append_butlast_last_id distinct_butlast list.distinct(1) not_distinct_conv_prefix)
  ultimately show ?thesis using tlq_delete_chain [OF ok(1)] by blast
qed

end
