(* ===== verification/Hpx_BTT.thy ===== *)
theory Hpx_BTT
  imports Hpx_Address
begin

text \<open>
  The block translation table of \<^verbatim>\<open>libhpx/gas/agas/BlockTranslationTable.cpp\<close>: it maps the blocks of
  the active global address space to their owner and their local memory, and counts the pins that
  keep a block where it is. The concurrent hash table underneath comes from another package and is
  a parameter: a record of operations, whose documented behaviour is the locale below. Each of its
  operations is atomic, and the functions of the table are split between them.
\<close>

section \<open>Entries and the hash table\<close>

record btt_entry =
  en_count :: int
  en_owner :: nat
  en_lva :: u64
  en_blocks :: nat
  en_cont :: "nat option"
  en_attr :: u32

definition Entry :: "nat \<Rightarrow> u64 \<Rightarrow> nat \<Rightarrow> u32 \<Rightarrow> btt_entry" where
  "Entry owner lva blocks attr = \<lparr> en_count = 0, en_owner = owner, en_lva = lva, en_blocks = blocks, en_cont = None, en_attr = attr \<rparr>"

text \<open>The keys of the hash table are addresses without their offset into the block.\<close>

record 'm cuckoo =
  ck_find :: "'m \<Rightarrow> u64 \<Rightarrow> btt_entry option"
  ck_insert :: "'m \<Rightarrow> u64 \<Rightarrow> btt_entry \<Rightarrow> 'm \<times> bool"
  ck_update_fn :: "'m \<Rightarrow> u64 \<Rightarrow> (btt_entry \<Rightarrow> btt_entry) \<Rightarrow> 'm \<times> bool"
  ck_upsert :: "'m \<Rightarrow> u64 \<Rightarrow> (btt_entry \<Rightarrow> btt_entry) \<Rightarrow> btt_entry \<Rightarrow> 'm"
  ck_erase :: "'m \<Rightarrow> u64 \<Rightarrow> 'm \<times> bool"

locale cuckoo_map =
  fixes C :: "'m cuckoo"
  assumes find_insert: "ck_find C (fst (ck_insert C m k e)) = (if ck_find C m k = None then (ck_find C m)(k \<mapsto> e) else ck_find C m)"
    and insert_ok: "snd (ck_insert C m k e) = (ck_find C m k = None)"
    and find_update: "ck_find C (fst (ck_update_fn C m k f)) = (ck_find C m)(k := map_option f (ck_find C m k))"
    and update_ok: "snd (ck_update_fn C m k f) = (ck_find C m k \<noteq> None)"
    and find_upsert: "ck_find C (ck_upsert C m k f e) = (ck_find C m)(k \<mapsto> (case ck_find C m k of None \<Rightarrow> e | Some x \<Rightarrow> f x))"
    and find_erase: "ck_find C (fst (ck_erase C m k)) = (ck_find C m)(k := None)"

definition map_cuckoo :: "(u64 \<Rightarrow> btt_entry option) cuckoo" where
  "map_cuckoo = \<lparr> ck_find = (\<lambda>m. m),
    ck_insert = (\<lambda>m k e. if m k = None then (m(k \<mapsto> e), True) else (m, False)),
    ck_update_fn = (\<lambda>m k f. (m(k := map_option f (m k)), m k \<noteq> None)),
    ck_upsert = (\<lambda>m k f e. m(k \<mapsto> (case m k of None \<Rightarrow> e | Some x \<Rightarrow> f x))),
    ck_erase = (\<lambda>m k. (m(k := None), m k \<noteq> None)) \<rparr>"

interpretation mc: cuckoo_map map_cuckoo
  by unfold_locales (auto simp: map_cuckoo_def)

section \<open>The operations\<close>

definition btt_insert :: "'m cuckoo \<Rightarrow> bool \<Rightarrow> 'm \<Rightarrow> addr \<Rightarrow> nat \<Rightarrow> u64 \<Rightarrow> nat \<Rightarrow> u32 \<Rightarrow> 'm outcome" where
  "btt_insert C debug m gva owner lva blocks attr =
    assertO (\<not> debug \<or> ck_find C m (gva_toKey gva) = None)
      (case ck_insert C m (gva_toKey gva) (Entry owner lva blocks attr) of (m', ok) \<Rightarrow>
         if \<not> ok then Fault Dbg_error else Ret m')"

definition btt_upsert :: "'m cuckoo \<Rightarrow> 'm \<Rightarrow> addr \<Rightarrow> nat \<Rightarrow> u64 \<Rightarrow> nat \<Rightarrow> u32 \<Rightarrow> 'm" where
  "btt_upsert C m gva owner lva blocks attr =
    (let e = Entry owner lva blocks attr in ck_upsert C m (gva_toKey gva) (\<lambda>entry. e) e)"

definition btt_updateOwner :: "'m cuckoo \<Rightarrow> bool \<Rightarrow> nat \<Rightarrow> 'm \<Rightarrow> addr \<Rightarrow> nat \<Rightarrow> 'm outcome" where
  "btt_updateOwner C debug rank m gva owner =
    assertO (\<not> debug \<or> owner \<noteq> rank)
    (assertO (\<not> debug \<or> (case ck_find C m (gva_toKey gva) of None \<Rightarrow> True | Some e \<Rightarrow> en_count e = 0))
      (Ret (ck_upsert C m (gva_toKey gva) (\<lambda>entry. entry\<lparr>en_owner := owner\<rparr>) (Entry owner 0 1 0))))"

text \<open>
  \<^verbatim>\<open>src\<close> is the rank that sent the current parcel. The result is the translation, if the block is
  pinned, and whom to tell about another owner.
\<close>

definition btt_tryPin :: "'m cuckoo \<Rightarrow> bool \<Rightarrow> nat \<Rightarrow> nat \<Rightarrow> 'm \<Rightarrow> addr \<Rightarrow> ('m \<times> u64 option \<times> (nat \<times> addr \<times> nat) option) outcome" where
  "btt_tryPin C debug rank src m gva =
    (let k = gva_toKey gva;
         fn = (\<lambda>entry. if en_owner entry = rank then entry\<lparr>en_count := s32wrap (en_count entry + 1)\<rparr> else entry) in
     case ck_find C m k of
       None \<Rightarrow> assertO (\<not> debug \<or> unat (gva_home gva) \<noteq> rank) (Ret (m, None, None))
     | Some e \<Rightarrow>
         if en_owner e = rank then
           assertO (\<not> debug \<or> 0 \<le> en_count e)
             (Ret (fst (ck_update_fn C m k fn), Some (en_lva e + gva_toBlockOffset gva), None))
         else Ret (fst (ck_update_fn C m k fn), None, if src \<noteq> rank then Some (src, gva, en_owner e) else None))"

text \<open>The continuation it takes is handed back to the scheduler.\<close>

definition btt_unpin :: "'m cuckoo \<Rightarrow> bool \<Rightarrow> nat \<Rightarrow> 'm \<Rightarrow> addr \<Rightarrow> ('m \<times> nat option) outcome" where
  "btt_unpin C debug rank m gva =
    (let k = gva_toKey gva;
         fn = (\<lambda>entry. let c = s32wrap (en_count entry - 1) in
                 if c \<noteq> 0 then entry\<lparr>en_count := c, en_cont := None\<rparr> else entry\<lparr>en_count := c\<rparr>) in
     case ck_find C m k of
       None \<Rightarrow> Fault Dbg_error
     | Some e \<Rightarrow>
         assertO (\<not> debug \<or> en_owner e = rank) (assertO (\<not> debug \<or> 0 < en_count e)
           (Ret (fst (ck_update_fn C m k fn), if s32wrap (en_count e - 1) \<noteq> 0 then en_cont e else None))))"

definition btt_getLVA :: "'m cuckoo \<Rightarrow> 'm \<Rightarrow> addr \<Rightarrow> u64" where
  "btt_getLVA C m gva = (case ck_find C m (gva_toKey gva) of Some e \<Rightarrow> en_lva e | None \<Rightarrow> 0)"

definition btt_getOwner :: "'m cuckoo \<Rightarrow> bool \<Rightarrow> nat \<Rightarrow> 'm \<Rightarrow> addr \<Rightarrow> nat outcome" where
  "btt_getOwner C debug rank m gva =
    assertO (\<not> debug \<or> ck_find C m (gva_toKey gva) \<noteq> None)
      (case ck_find C m (gva_toKey gva) of
         Some e \<Rightarrow> Ret (en_owner e mod 2 ^ 16)
       | None \<Rightarrow> Ret (unat (gva_home gva)))"

definition btt_getOwner_cached :: "'m cuckoo \<Rightarrow> 'm \<Rightarrow> addr \<Rightarrow> nat \<times> bool" where
  "btt_getOwner_cached C m gva = (case ck_find C m (gva_toKey gva) of
     Some e \<Rightarrow> (en_owner e mod 2 ^ 16, True) | None \<Rightarrow> (unat (gva_home gva), False))"

definition btt_getAttr :: "'m cuckoo \<Rightarrow> 'm \<Rightarrow> addr \<Rightarrow> u32" where
  "btt_getAttr C m gva = (case ck_find C m (gva_toKey gva) of Some e \<Rightarrow> en_attr e | None \<Rightarrow> 0)"

definition btt_setAttr :: "'m cuckoo \<Rightarrow> 'm \<Rightarrow> addr \<Rightarrow> u32 \<Rightarrow> 'm outcome" where
  "btt_setAttr C m gva attr =
    (case ck_update_fn C m (gva_toKey gva) (\<lambda>entry. entry\<lparr>en_attr := en_attr entry OR attr\<rparr>) of (m', ok) \<Rightarrow>
       if \<not> ok then Fault Dbg_error else Ret m')"

definition btt_getSegment :: "'m cuckoo \<Rightarrow> 'm \<Rightarrow> addr \<Rightarrow> (u64 \<times> nat) outcome" where
  "btt_getSegment C m gva = (case ck_find C m (gva_toKey gva) of
     None \<Rightarrow> Fault Dbg_error | Some e \<Rightarrow> Ret (en_lva e, en_blocks e))"

text \<open>
  What a thread that waits does once it is suspended: it leaves itself in the entry or, if nothing
  is pinned, is ready again at once.
\<close>

definition btt_waitForZeroCount :: "'m cuckoo \<Rightarrow> bool \<Rightarrow> 'm \<Rightarrow> addr \<Rightarrow> nat \<Rightarrow> ('m \<times> nat option) outcome" where
  "btt_waitForZeroCount C debug m gva p =
    (case ck_find C m (gva_toKey gva) of
       None \<Rightarrow> Ret (m, Some p)
     | Some e \<Rightarrow>
         if en_count e \<noteq> 0 then
           assertO (\<not> debug \<or> en_cont e = None)
             (Ret (fst (ck_update_fn C m (gva_toKey gva) (\<lambda>entry. entry\<lparr>en_cont := Some p\<rparr>)), None))
         else Ret (m, Some p))"

text \<open>
  \<^verbatim>\<open>tryRemove\<close> reads the entry in one access of the hash table and erases it in a second one.
\<close>

definition btt_tryRemove_read :: "'m cuckoo \<Rightarrow> 'm \<Rightarrow> addr \<Rightarrow> (int \<times> u64) outcome" where
  "btt_tryRemove_read C m gva = (case ck_find C m (gva_toKey gva) of
     None \<Rightarrow> Fault Dbg_error | Some e \<Rightarrow> Ret (en_count e, en_lva e))"

definition btt_tryRemove_erase :: "'m cuckoo \<Rightarrow> 'm \<Rightarrow> addr \<Rightarrow> 'm" where
  "btt_tryRemove_erase C m gva = fst (ck_erase C m (gva_toKey gva))"

definition btt_fastpath_read :: "'m cuckoo \<Rightarrow> nat \<Rightarrow> 'm \<Rightarrow> addr \<Rightarrow> u64" where
  "btt_fastpath_read C rank m gva =
    (if gva_cyclic gva \<or> unat (gva_home gva) \<noteq> rank then 0
     else case ck_find C m (gva_toKey gva) of
         None \<Rightarrow> 0
       | Some e \<Rightarrow> if en_count e = 0 \<and> en_blocks e = 1 then en_lva e else 0)"

definition btt_tryRemoveForFastpathFree :: "'m cuckoo \<Rightarrow> nat \<Rightarrow> 'm \<Rightarrow> addr \<Rightarrow> 'm \<times> u64" where
  "btt_tryRemoveForFastpathFree C rank m gva =
    (let out = btt_fastpath_read C rank m gva in
     (if out \<noteq> 0 then fst (ck_erase C m (gva_toKey gva)) else m, out))"

text \<open>\<^verbatim>\<open>move\<close> passes a null pointer for the memory, which \<^verbatim>\<open>tryMove\<close> sets when nothing is pinned.\<close>

definition btt_tryMove :: "'m cuckoo \<Rightarrow> 'm \<Rightarrow> addr \<Rightarrow> nat \<Rightarrow> 'm \<times> bool \<times> u32 \<times> u64" where
  "btt_tryMove C m gva to =
    (let k = gva_toKey gva; fn = (\<lambda>entry. if en_count entry = 0 then entry\<lparr>en_owner := to\<rparr> else entry) in
     case ck_find C m k of
       None \<Rightarrow> (m, False, 0, 0)
     | Some e \<Rightarrow> let out = (if en_count e = 0 then en_lva e else 0) in
         (fst (ck_update_fn C m k fn), out \<noteq> 0, if en_count e = 0 then en_attr e else 0, out))"

section \<open>Threads\<close>

text \<open>
  Threads pin and unpin blocks, move them to another rank and remove them. A thread runs, or is at
  one of the points of \<^verbatim>\<open>remove\<close> and \<^verbatim>\<open>move\<close>: about to try, about to erase, about to wait. A thread
  that waits sleeps until its parcel is handed back. The pins that are held are listed with the
  thread, the key and the memory they were given.
\<close>

datatype bpc = BRun | BRemove addr | BErase addr | BRemoveWait addr | BMove addr nat | BMoveWait addr nat

datatype bev = EPin addr | EUnpin addr | ERemove addr | EMove addr nat | EGo

record 'm bsys =
  b_map :: 'm
  b_pins :: "(nat \<times> u64 \<times> u64) list"
  b_pc :: "nat \<Rightarrow> bpc"
  b_asleep :: "nat \<Rightarrow> bool"

definition b_wake :: "nat option \<Rightarrow> 'm bsys \<Rightarrow> 'm bsys" where
  "b_wake p s = (case p of None \<Rightarrow> s | Some t \<Rightarrow> s\<lparr>b_asleep := (b_asleep s)(t := False)\<rparr>)"

definition b_goto :: "nat \<Rightarrow> bpc \<Rightarrow> 'm bsys \<Rightarrow> 'm bsys" where
  "b_goto t pc s = s\<lparr>b_pc := (b_pc s)(t := pc)\<rparr>"

definition b_wait :: "'m cuckoo \<Rightarrow> bool \<Rightarrow> nat \<Rightarrow> addr \<Rightarrow> bpc \<Rightarrow> 'm bsys \<Rightarrow> 'm bsys outcome" where
  "b_wait C debug t g pc s =
    bindO (btt_waitForZeroCount C debug (b_map s) g t) (\<lambda>(m, p).
      Ret (b_wake p (b_goto t pc (s\<lparr>b_map := m, b_asleep := (b_asleep s)(t := True)\<rparr>))))"

fun btt_go :: "'m cuckoo \<Rightarrow> bool \<Rightarrow> nat \<Rightarrow> bpc \<Rightarrow> 'm bsys \<Rightarrow> 'm bsys outcome" where
  "btt_go C debug t BRun s = Ret s"
| "btt_go C debug t (BRemove g) s =
    bindO (btt_tryRemove_read C (b_map s) g) (\<lambda>(c, lva). Ret (b_goto t (if c = 0 then BErase g else BRemoveWait g) s))"
| "btt_go C debug t (BErase g) s = Ret (b_goto t BRun (s\<lparr>b_map := btt_tryRemove_erase C (b_map s) g\<rparr>))"
| "btt_go C debug t (BRemoveWait g) s = b_wait C debug t g (BRemove g) s"
| "btt_go C debug t (BMove g to) s =
    (case btt_tryMove C (b_map s) g to of (m, ok, attr, lva) \<Rightarrow> Ret (b_goto t (if ok then BRun else BMoveWait g to) (s\<lparr>b_map := m\<rparr>)))"
| "btt_go C debug t (BMoveWait g to) s = b_wait C debug t g (BMove g to) s"

fun btt_step :: "'m cuckoo \<Rightarrow> bool \<Rightarrow> nat \<Rightarrow> nat \<Rightarrow> bev \<Rightarrow> 'm bsys \<Rightarrow> 'm bsys outcome" where
  "btt_step C debug rank t (EPin g) s =
    bindO (btt_tryPin C debug rank rank (b_map s) g) (\<lambda>(m, r, tell).
      Ret (s\<lparr>b_map := m, b_pins := (case r of None \<Rightarrow> b_pins s | Some l \<Rightarrow> (t, gva_toKey g, l - gva_toBlockOffset g) # b_pins s)\<rparr>))"
| "btt_step C debug rank t (EUnpin g) s =
    bindO (btt_unpin C debug rank (b_map s) g) (\<lambda>(m, p).
      Ret (b_wake p (s\<lparr>b_map := m, b_pins := remove1 (hd (filter (\<lambda>(u, k, l). u = t \<and> k = gva_toKey g) (b_pins s))) (b_pins s)\<rparr>)))"
| "btt_step C debug rank t (ERemove g) s = Ret (b_goto t (BRemove g) s)"
| "btt_step C debug rank t (EMove g to) s = Ret (b_goto t (BMove g to) s)"
| "btt_step C debug rank t EGo s = btt_go C debug t (b_pc s t) s"

text \<open>When a step is possible: a thread that is awake, and an unpin only of a pin that is held.\<close>

fun b_enabled :: "nat \<Rightarrow> bev \<Rightarrow> 'm bsys \<Rightarrow> bool" where
  "b_enabled t EGo s = (\<not> b_asleep s t \<and> b_pc s t \<noteq> BRun)"
| "b_enabled t (EUnpin g) s = (\<not> b_asleep s t \<and> b_pc s t = BRun \<and> list_ex (\<lambda>(u, k, l). u = t \<and> k = gva_toKey g) (b_pins s))"
| "b_enabled t e s = (\<not> b_asleep s t \<and> b_pc s t = BRun)"

definition btt_start :: "'m cuckoo \<Rightarrow> 'm bsys \<Rightarrow> bool" where
  "btt_start C s = (b_pins s = [] \<and> b_pc s = (\<lambda>t. BRun) \<and> b_asleep s = (\<lambda>t. False)
     \<and> (\<forall>k e. ck_find C (b_map s) k = Some e \<longrightarrow> en_count e = 0 \<and> en_cont e = None))"

text \<open>
  The states that are reached, with fewer pins at a time than the counter can count. \<^verbatim>\<open>removing\<close>
  tells whether threads may remove blocks.
\<close>

inductive btt_reach :: "'m cuckoo \<Rightarrow> bool \<Rightarrow> nat \<Rightarrow> bool \<Rightarrow> 'm bsys \<Rightarrow> bool" for C debug rank removing where
  start: "btt_start C s \<Longrightarrow> btt_reach C debug rank removing s"
| step: "btt_reach C debug rank removing s \<Longrightarrow> b_enabled t e s \<Longrightarrow> (\<And>g. e = ERemove g \<Longrightarrow> removing) \<Longrightarrow>
    btt_step C debug rank t e s = Ret s' \<Longrightarrow> length (b_pins s') < 2 ^ 31 \<Longrightarrow> btt_reach C debug rank removing s'"

text \<open>A given sequence of steps.\<close>

fun btt_run :: "'m cuckoo \<Rightarrow> bool \<Rightarrow> nat \<Rightarrow> (nat \<times> bev) list \<Rightarrow> 'm bsys \<Rightarrow> 'm bsys outcome" where
  "btt_run C debug rank [] s = Ret s"
| "btt_run C debug rank ((t, ev) # evs) s =
    assertO (b_enabled t ev s) (bindO (btt_step C debug rank t ev s) (btt_run C debug rank evs))"

section \<open>Pinned blocks stay\<close>

definition pins_of :: "u64 \<Rightarrow> 'm bsys \<Rightarrow> (nat \<times> u64 \<times> u64) list" where
  "pins_of k s = filter (\<lambda>(t, k', l). k' = k) (b_pins s)"

definition pinned_ok :: "'m cuckoo \<Rightarrow> nat \<Rightarrow> 'm bsys \<Rightarrow> u64 \<Rightarrow> bool" where
  "pinned_ok C rank s k = (case ck_find C (b_map s) k of
     None \<Rightarrow> pins_of k s = []
   | Some e \<Rightarrow> en_count e = int (length (pins_of k s)) \<and> (pins_of k s \<noteq> [] \<longrightarrow> en_owner e = rank)
       \<and> (\<forall>(t, k', l) \<in> set (pins_of k s). l = en_lva e))"

definition not_removing :: "bpc \<Rightarrow> bool" where
  "not_removing pc = (case pc of BRemove g \<Rightarrow> False | BErase g \<Rightarrow> False | BRemoveWait g \<Rightarrow> False | _ \<Rightarrow> True)"

definition btt_inv :: "'m cuckoo \<Rightarrow> nat \<Rightarrow> 'm bsys \<Rightarrow> bool" where
  "btt_inv C rank s = ((\<forall>k. pinned_ok C rank s k) \<and> (\<forall>t. not_removing (b_pc s t)))"

lemma pinned_ok_same:
  assumes "pinned_ok C rank s k" "b_pins s' = b_pins s"
    and "\<And>e. ck_find C (b_map s) k = Some e \<Longrightarrow> \<exists>e'. ck_find C (b_map s') k = Some e' \<and> en_count e' = en_count e \<and> en_lva e' = en_lva e
      \<and> (en_count e \<noteq> 0 \<longrightarrow> en_owner e' = en_owner e)"
    and "ck_find C (b_map s) k = None \<Longrightarrow> ck_find C (b_map s') k = None"
  shows "pinned_ok C rank s' k"
  using assms by (cases "ck_find C (b_map s) k") (force simp: pinned_ok_def pins_of_def split: option.splits)+

lemma b_wake_simps [simp]: "b_map (b_wake p s) = b_map s" "b_pins (b_wake p s) = b_pins s" "b_pc (b_wake p s) = b_pc s"
  by (simp_all add: b_wake_def split: option.splits)

lemma b_goto_simps [simp]: "b_map (b_goto t pc s) = b_map s" "b_pins (b_goto t pc s) = b_pins s" "b_pc (b_goto t pc s) = (b_pc s)(t := pc)"
  by (simp_all add: b_goto_def)

lemma pins_of_le: "length (pins_of k s) \<le> length (b_pins s)"
  by (simp add: pins_of_def)

context cuckoo_map
begin

lemma wait_keeps:
  assumes "b_wait C debug t g pc s = Ret s'" "pinned_ok C rank s k"
  shows "pinned_ok C rank s' k" "b_pc s' = (b_pc s)(t := pc)"
proof -
  obtain m p where w: "btt_waitForZeroCount C debug (b_map s) g t = Ret (m, p)" and s': "b_map s' = m" "b_pins s' = b_pins s" "b_pc s' = (b_pc s)(t := pc)"
    using assms(1) by (auto simp: b_wait_def outcome_simps)
  show "pinned_ok C rank s' k"
    by (rule pinned_ok_same [OF assms(2) s'(2)])
      (use w in \<open>auto simp: btt_waitForZeroCount_def s'(1) find_update outcome_simps split: option.splits if_splits\<close>)
  show "b_pc s' = (b_pc s)(t := pc)" by (rule s'(3))
qed

lemma pin_keeps:
  assumes "btt_tryPin C debug rank src (b_map s) g = Ret (m, r, tell)" "\<forall>k. pinned_ok C rank s k"
    and s': "b_map s' = m" "b_pins s' = (case r of None \<Rightarrow> b_pins s | Some l \<Rightarrow> (t, gva_toKey g, l - gva_toBlockOffset g) # b_pins s)"
    and "length (b_pins s') < 2 ^ 31"
  shows "pinned_ok C rank s' k"
proof (cases r)
  case None
  then have pins: "b_pins s' = b_pins s" using s'(2) by simp
  show ?thesis
    by (rule pinned_ok_same [OF spec [OF assms(2)] pins])
      (use assms(1) None in \<open>auto simp: btt_tryPin_def s'(1) find_update outcome_simps Let_def split: option.splits if_splits\<close>)
next
  case (Some l)
  obtain e where e: "ck_find C (b_map s) (gva_toKey g) = Some e" "en_owner e = rank" "l = en_lva e + gva_toBlockOffset g"
    "ck_find C m = (ck_find C (b_map s))(gva_toKey g \<mapsto> e\<lparr>en_count := s32wrap (en_count e + 1)\<rparr>)"
    using assms(1) Some by (auto simp: btt_tryPin_def find_update outcome_simps Let_def split: option.splits if_splits)
  have pins: "pins_of k s' = (if k = gva_toKey g then (t, gva_toKey g, en_lva e) # pins_of k s else pins_of k s)"
    using s'(2) Some e(3) by (simp add: pins_of_def)
  have old: "en_count e = int (length (pins_of (gva_toKey g) s))" "\<forall>(t, k', l) \<in> set (pins_of (gva_toKey g) s). l = en_lva e"
    using spec [OF assms(2), of "gva_toKey g"] e(1) by (auto simp: pinned_ok_def)
  have "length (b_pins s) + 1 < 2 ^ 31" using assms(5) s'(2) Some by simp
  then have "length (pins_of (gva_toKey g) s) + 1 < 2 ^ 31" using pins_of_le [of "gva_toKey g" s] by linarith
  then have "s32wrap (en_count e + 1) = en_count e + 1" unfolding old(1) by (intro s32wrap_id) auto
  then have count: "s32wrap (en_count e + 1) = int (length (pins_of (gva_toKey g) s) + 1)" by (simp add: old(1))
  show ?thesis
  proof (cases "k = gva_toKey g")
    case True
    then show ?thesis using count old(2) e(2) pins [unfolded True] by (simp add: pinned_ok_def s'(1) e(4) True)
  next
    case False
    then show ?thesis using spec [OF assms(2), of k] pins by (simp add: pinned_ok_def s'(1) e(4) split: option.splits)
  qed
qed

lemma unpin_keeps:
  assumes "btt_unpin C debug rank (b_map s) g = Ret (m, p)" "\<forall>k. pinned_ok C rank s k" "(t, gva_toKey g, l) \<in> set (b_pins s)"
    and s': "b_map s' = m" "b_pins s' = remove1 (hd (filter (\<lambda>(u, k, l). u = t \<and> k = gva_toKey g) (b_pins s))) (b_pins s)"
    and bound: "length (b_pins s) < 2 ^ 31"
  shows "pinned_ok C rank s' k"
proof -
  define x where "x = hd (filter (\<lambda>(u, k, l). u = t \<and> k = gva_toKey g) (b_pins s))"
  have "x \<in> set (filter (\<lambda>(u, k, l). u = t \<and> k = gva_toKey g) (b_pins s))"
    unfolding x_def using assms(3) by (intro hd_in_set) (auto simp: filter_empty_conv)
  then have x: "x \<in> set (pins_of (gva_toKey g) s)" "fst (snd x) = gva_toKey g" by (auto simp: pins_of_def)
  have pins: "pins_of k s' = remove1 x (pins_of k s)" using s'(2) by (simp add: pins_of_def filter_remove1 x_def)
  have other: "k \<noteq> gva_toKey g \<Longrightarrow> remove1 x (pins_of k s) = pins_of k s"
    using x(2) by (intro remove1_idem) (auto simp: pins_of_def)
  obtain e e' where e: "ck_find C (b_map s) (gva_toKey g) = Some e" "ck_find C m = (ck_find C (b_map s))(gva_toKey g \<mapsto> e')"
    "en_count e' = s32wrap (en_count e - 1)" "en_owner e' = en_owner e" "en_lva e' = en_lva e"
    using assms(1) by (auto simp: btt_unpin_def find_update outcome_simps Let_def split: option.splits)
  have old: "en_count e = int (length (pins_of (gva_toKey g) s))"
    using spec [OF assms(2), of "gva_toKey g"] e(1) by (auto simp: pinned_ok_def)
  have len: "0 < length (pins_of (gva_toKey g) s)" using x(1) by (cases "pins_of (gva_toKey g) s") auto
  have "length (pins_of (gva_toKey g) s) < 2 ^ 31" using pins_of_le [of "gva_toKey g" s] bound by simp
  then have "s32wrap (en_count e - 1) = int (length (pins_of (gva_toKey g) s) - 1)"
    unfolding old using len by (subst s32wrap_id) (simp_all add: of_nat_diff Suc_le_eq)
  then have count: "en_count e' = int (length (remove1 x (pins_of (gva_toKey g) s)))" using x(1) e(3) by (simp add: length_remove1)
  show ?thesis
  proof (cases "k = gva_toKey g")
    case True
    have "pinned_ok C rank s (gva_toKey g)" by (rule spec [OF assms(2)])
    then have own: "en_owner e = rank" and lva: "\<forall>(t, k', l) \<in> set (pins_of (gva_toKey g) s). l = en_lva e"
      using e(1) len by (auto simp: pinned_ok_def)
    have "\<forall>(t, k', l) \<in> set (remove1 x (pins_of (gva_toKey g) s)). l = en_lva e'"
      using lva e(5) set_remove1_subset [of x "pins_of (gva_toKey g) s"] by fastforce
    then show ?thesis using count own e(4) pins [unfolded True] by (simp add: pinned_ok_def s'(1) e(2) True)
  next
    case False
    then show ?thesis using spec [OF assms(2), of k] other pins by (simp add: pinned_ok_def s'(1) e(2) split: option.splits)
  qed
qed

lemma move_keeps:
  assumes "btt_tryMove C (b_map s) g to = (m, ok, attr, lva)" "pinned_ok C rank s k" "b_map s' = m" "b_pins s' = b_pins s"
  shows "pinned_ok C rank s' k"
proof (cases "ck_find C (b_map s) (gva_toKey g)")
  case None
  then have m: "m = b_map s" using assms(1) by (simp add: btt_tryMove_def Let_def)
  show ?thesis by (rule pinned_ok_same [OF assms(2,4)]) (simp_all add: assms(3) m)
next
  case (Some e)
  have m: "ck_find C m = (ck_find C (b_map s))(gva_toKey g \<mapsto> (if en_count e = 0 then e\<lparr>en_owner := to\<rparr> else e))"
    using assms(1) Some find_update by (auto simp: btt_tryMove_def Let_def)
  show ?thesis by (rule pinned_ok_same [OF assms(2,4)]) (use Some in \<open>auto simp: assms(3) m\<close>)
qed

lemma btt_step_keeps:
  assumes "btt_step C debug rank t ev s = Ret s'" "b_enabled t ev s" "\<And>g. ev \<noteq> ERemove g" "btt_inv C rank s"
    "length (b_pins s) < 2 ^ 31" "length (b_pins s') < 2 ^ 31"
  shows "btt_inv C rank s'"
proof -
  have ok: "\<forall>k. pinned_ok C rank s k" and pcs: "\<forall>u. not_removing (b_pc s u)" using assms(4) by (auto simp: btt_inv_def)
  note pc = spec [OF pcs, of t]
  show ?thesis
  proof (cases ev)
    case (EPin g)
    then obtain m r tell where r: "btt_tryPin C debug rank rank (b_map s) g = Ret (m, r, tell)"
      and s': "s' = s\<lparr>b_map := m, b_pins := (case r of None \<Rightarrow> b_pins s | Some l \<Rightarrow> (t, gva_toKey g, l - gva_toBlockOffset g) # b_pins s)\<rparr>"
      using assms(1) by (auto simp: outcome_simps)
    have "pinned_ok C rank s' k" for k by (rule pin_keeps [OF r ok _ _ assms(6)]) (simp_all add: s')
    then show ?thesis using pcs by (simp add: btt_inv_def s')
  next
    case (EUnpin g)
    then obtain m p where r: "btt_unpin C debug rank (b_map s) g = Ret (m, p)"
      and s': "s' = b_wake p (s\<lparr>b_map := m, b_pins := remove1 (hd (filter (\<lambda>(u, k, l). u = t \<and> k = gva_toKey g) (b_pins s))) (b_pins s)\<rparr>)"
      using assms(1) by (auto simp: outcome_simps)
    obtain l where "(t, gva_toKey g, l) \<in> set (b_pins s)" using assms(2) EUnpin by (auto simp: list_ex_iff)
    then have "pinned_ok C rank s' k" for k by (rule unpin_keeps [OF r ok _ _ _ assms(5)]) (simp_all add: s')
    then show ?thesis using pcs by (simp add: btt_inv_def s')
  next
    case (EMove g to)
    then have s': "s' = b_goto t (BMove g to) s" using assms(1) by simp
    have "pinned_ok C rank s' k" for k by (rule pinned_ok_same [OF spec [OF ok]]) (simp_all add: s')
    then show ?thesis using pcs by (simp add: btt_inv_def s' not_removing_def)
  next
    case EGo
    show ?thesis
    proof (cases "b_pc s t")
      case BRun
      then show ?thesis using assms(1,4) EGo by simp
    next
      case (BMove g to)
      obtain m good attr lva where r: "btt_tryMove C (b_map s) g to = (m, good, attr, lva)" by (metis prod_cases4)
      then have s': "s' = b_goto t (if good then BRun else BMoveWait g to) (s\<lparr>b_map := m\<rparr>)" using assms(1) EGo BMove by simp
      have "pinned_ok C rank s' k" for k by (rule move_keeps [OF r spec [OF ok]]) (simp_all add: s')
      then show ?thesis using pcs by (simp add: btt_inv_def s' not_removing_def)
    next
      case (BMoveWait g to)
      then have w: "b_wait C debug t g (BMove g to) s = Ret s'" using assms(1) EGo by simp
      have "pinned_ok C rank s' k" for k by (rule wait_keeps(1) [OF w spec [OF ok]])
      then show ?thesis using pcs wait_keeps(2) [OF w spec [OF ok]] by (simp add: btt_inv_def not_removing_def)
    qed (use pc in \<open>simp_all add: not_removing_def\<close>)
  qed (use assms(3) in simp)
qed

lemma btt_reach_inv:
  "btt_reach C debug rank False s \<Longrightarrow> btt_inv C rank s \<and> length (b_pins s) < 2 ^ 31"
proof (induction rule: btt_reach.induct)
  case (start s)
  then show ?case by (auto simp: btt_start_def btt_inv_def pinned_ok_def pins_of_def not_removing_def split: option.splits)
next
  case (step s t e s')
  then show ?case using btt_step_keeps [of debug rank t e s s'] by blast
qed

end

text \<open>C4: Whatever threads pin, unpin and move, and however they interleave, a block stays where it is
  while it is pinned: its entry is there, it is owned here, its memory is the memory the pin was
  given, and its counter is the number of pins that are held. So a move takes effect only when
  nothing is pinned, and an unpin passes its checks.\<close>
theorem btt_pinned_stays:
  assumes "cuckoo_map C" "btt_reach C debug rank False s" "(t, k, l) \<in> set (b_pins s)"
  shows "\<exists>e. ck_find C (b_map s) k = Some e \<and> en_owner e = rank \<and> en_lva e = l \<and> en_count e = int (length (pins_of k s))
    \<and> (\<forall>g. gva_toKey g = k \<longrightarrow> (\<exists>r. btt_unpin C debug rank (b_map s) g = Ret r)
        \<and> \<not> fst (snd (btt_tryMove C (b_map s) g to)))"
proof -
  have "pinned_ok C rank s k" using cuckoo_map.btt_reach_inv [OF assms(1,2)] by (simp add: btt_inv_def)
  moreover have mem: "(t, k, l) \<in> set (pins_of k s)" using assms(3) by (simp add: pins_of_def)
  ultimately obtain e where e: "ck_find C (b_map s) k = Some e" "en_owner e = rank" "en_lva e = l" "en_count e = int (length (pins_of k s))"
    by (fastforce simp: pinned_ok_def split: option.splits)
  have pos: "0 < en_count e" using mem e(4) by (cases "pins_of k s") auto
  then show ?thesis using e by (auto simp: btt_unpin_def btt_tryMove_def Let_def assertO_def)
qed

definition demo_btt :: "(u64 \<Rightarrow> btt_entry option) bsys" where
  "demo_btt = \<lparr> b_map = [8 \<mapsto> Entry 0 64 1 0], b_pins = [], b_pc = (\<lambda>t. BRun), b_asleep = (\<lambda>t. False) \<rparr>"

lemma demo_key: "gva_toKey 8 = 8" "gva_toBlockOffset 8 = 0" "gva_home 8 = 0"
  by (simp_all add: gva_toKey_def gva_toBlockOffset_def gva_size_def gva_home_def)

lemma demo_pin:
  "btt_step map_cuckoo True 0 t (EPin 8) demo_btt = Ret (demo_btt\<lparr>b_map := [8 \<mapsto> (Entry 0 64 1 0)\<lparr>en_count := 1\<rparr>], b_pins := [(t, 8, 64)]\<rparr>)"
  by (simp add: demo_btt_def btt_tryPin_def map_cuckoo_def Entry_def s32wrap_id demo_key)

theorem btt_pinned_stays_witness:
  "\<exists>s. cuckoo_map map_cuckoo \<and> btt_run map_cuckoo True 0 [(5, EPin 8)] demo_btt = Ret s \<and> btt_reach map_cuckoo True 0 False s \<and>
    (5, 8, 64) \<in> set (b_pins s) \<and>
    (\<exists>e. ck_find map_cuckoo (b_map s) 8 = Some e \<and> en_owner e = 0 \<and> en_lva e = 64 \<and> en_count e = 1) \<and>
    (\<exists>r. btt_unpin map_cuckoo True 0 (b_map s) 8 = Ret r) \<and> \<not> fst (snd (btt_tryMove map_cuckoo (b_map s) 8 3))"
proof -
  let ?s = "demo_btt\<lparr>b_map := [8 \<mapsto> (Entry 0 64 1 0)\<lparr>en_count := 1\<rparr>], b_pins := [(5, 8, 64)]\<rparr>"
  have "btt_reach map_cuckoo True 0 False demo_btt"
    by (rule btt_reach.start) (simp add: btt_start_def demo_btt_def map_cuckoo_def Entry_def)
  then have r: "btt_reach map_cuckoo True 0 False ?s"
    by (rule btt_reach.step [OF _ _ _ demo_pin]) (simp_all add: demo_btt_def)
  have p: "(5, 8, 64) \<in> set (b_pins ?s)" by simp
  have n: "int (length (pins_of 8 ?s)) = 1" by (simp add: pins_of_def)
  have "\<not> b_asleep demo_btt 5 \<and> b_pc demo_btt 5 = BRun" by (simp add: demo_btt_def)
  then have run: "btt_run map_cuckoo True 0 [(5, EPin 8)] demo_btt = Ret ?s" by (simp add: demo_pin del: btt_step.simps)
  from btt_pinned_stays [OF mc.cuckoo_map_axioms r p, of 3] demo_key(1)
  have "(\<exists>e. ck_find map_cuckoo (b_map ?s) 8 = Some e \<and> en_owner e = 0 \<and> en_lva e = 64 \<and> en_count e = 1) \<and>
    (\<exists>r. btt_unpin map_cuckoo True 0 (b_map ?s) 8 = Ret r) \<and> \<not> fst (snd (btt_tryMove map_cuckoo (b_map ?s) 8 3))"
    unfolding n by blast
  then show ?thesis using mc.cuckoo_map_axioms run r p by blast
qed

section \<open>Removing blocks\<close>

definition b_fresh :: "'m cuckoo \<Rightarrow> nat \<Rightarrow> addr \<Rightarrow> btt_entry \<Rightarrow> 'm bsys \<Rightarrow> bool" where
  "b_fresh C rank g e s = (ck_find C (b_map s) (gva_toKey g) = Some e \<and> en_owner e = rank \<and> en_count e = 0 \<and> en_cont e = None
     \<and> b_pins s = [] \<and> b_pc s = (\<lambda>t. BRun) \<and> b_asleep s = (\<lambda>t. False))"

lemma find_map: "ck_find map_cuckoo = (\<lambda>m. m)"
  by (simp add: map_cuckoo_def)

lemma demo_fresh: "b_fresh map_cuckoo 0 8 (Entry 0 64 1 0) demo_btt"
  by (simp add: b_fresh_def find_map demo_btt_def demo_key) (simp add: Entry_def)

text \<open>C38: Removing a block is not atomic. If another thread pins the block after \<^verbatim>\<open>tryRemove\<close> has read
  that nothing is pinned and before it erases the entry, the entry is erased although the block
  is pinned, and the memory under the pin is freed. The unpin then stops the program.\<close>
theorem btt_remove_races_pin:
  assumes "cuckoo_map C" "b_fresh C rank g e s" "t \<noteq> u"
  shows "\<exists>s'. btt_run C debug rank [(t, ERemove g), (t, EGo), (u, EPin g), (t, EGo)] s = Ret s'
    \<and> (u, gva_toKey g, en_lva e) \<in> set (b_pins s') \<and> ck_find C (b_map s') (gva_toKey g) = None
    \<and> btt_run C debug rank [(u, EUnpin g)] s' = Fault Dbg_error"
  using assms(2,3)
  by (simp add: b_fresh_def b_goto_def btt_tryRemove_read_def btt_tryRemove_erase_def btt_tryPin_def btt_unpin_def
    cuckoo_map.find_update [OF assms(1)] cuckoo_map.find_erase [OF assms(1)])

theorem btt_remove_races_pin_witness:
  "\<exists>s'. btt_run map_cuckoo True 0 [(1, ERemove 8), (1, EGo), (2, EPin 8), (1, EGo)] demo_btt = Ret s'
    \<and> (2, 8, 64) \<in> set (b_pins s') \<and> b_map s' 8 = None"
  using btt_remove_races_pin [OF mc.cuckoo_map_axioms demo_fresh, of 1 2 True]
  by (auto simp: demo_key find_map Entry_def simp del: btt_run.simps)

text \<open>A thread that sleeps in an entry nobody pins is not woken by a pin and its unpin.\<close>

definition b_stuck :: "'m cuckoo \<Rightarrow> nat \<Rightarrow> addr \<Rightarrow> nat \<Rightarrow> 'm bsys \<Rightarrow> bool" where
  "b_stuck C rank g t s = ((\<exists>e. ck_find C (b_map s) (gva_toKey g) = Some e \<and> en_owner e = rank \<and> en_count e = 0 \<and> en_cont e = Some t)
     \<and> b_pins s = [] \<and> b_asleep s t \<and> (\<forall>u. u \<noteq> t \<longrightarrow> b_pc s u = BRun \<and> \<not> b_asleep s u))"

lemma b_stuck_pair:
  assumes "cuckoo_map C" "b_stuck C rank g t s" "u \<noteq> t"
  shows "\<exists>s'. btt_run C debug rank [(u, EPin g), (u, EUnpin g)] s = Ret s' \<and> b_stuck C rank g t s'"
  using assms(2,3)
  by (auto simp: b_stuck_def btt_tryPin_def btt_unpin_def b_wake_def s32wrap_id Let_def cuckoo_map.find_update [OF assms(1)])

lemma btt_run_append: "btt_run C debug rank (xs @ ys) s = bindO (btt_run C debug rank xs s) (btt_run C debug rank ys)"
proof (induction xs arbitrary: s)
  case (Cons x xs)
  obtain t ev where x: "x = (t, ev)" by fastforce
  show ?case
    by (cases "btt_step C debug rank t ev s") (simp_all add: x Cons.IH assertO_def)
qed simp

lemma b_stuck_pairs:
  assumes "cuckoo_map C" "b_stuck C rank g t s" "t \<notin> set us"
  shows "\<exists>s'. btt_run C debug rank (concat (map (\<lambda>u. [(u, EPin g), (u, EUnpin g)]) us)) s = Ret s' \<and> b_stuck C rank g t s'"
  using assms(2,3)
proof (induction us arbitrary: s)
  case (Cons u us)
  let ?two = "[(u, EPin g), (u, EUnpin g)]" and ?rest = "concat (map (\<lambda>u. [(u, EPin g), (u, EUnpin g)]) us)"
  have split: "concat (map (\<lambda>u. [(u, EPin g), (u, EUnpin g)]) (u # us)) = ?two @ ?rest" by simp
  have ne: "u \<noteq> t" using Cons.prems(2) by auto
  obtain s1 where r: "btt_run C debug rank ?two s = Ret s1" and k: "b_stuck C rank g t s1"
    using b_stuck_pair [OF assms(1) Cons.prems(1) ne] by blast
  have "\<exists>s'. btt_run C debug rank ?rest s1 = Ret s' \<and> b_stuck C rank g t s'" by (rule Cons.IH [OF k]) (use Cons.prems(2) in simp)
  then show ?case unfolding split btt_run_append r by (simp only: bindO_Ret)
qed simp

text \<open>C39: The unpin that leaves a block unpinned does not wake the thread that waits for it: it takes
  the continuation only when pins are left. A remove that finds one pin goes to sleep, the unpin
  leaves it asleep, and it stays asleep however often threads pin and unpin the block one after
  the other. The comment says that the continuation is taken when the count reaches zero.\<close>
theorem btt_remove_sleeps_forever:
  assumes "cuckoo_map C" "b_fresh C rank g e s" "t \<noteq> u" "t \<notin> set us"
  shows "\<exists>s'. btt_run C debug rank
      ([(u, EPin g), (t, ERemove g), (t, EGo), (t, EGo), (u, EUnpin g)] @ concat (map (\<lambda>v. [(v, EPin g), (v, EUnpin g)]) us)) s = Ret s'
    \<and> b_stuck C rank g t s'"
proof -
  have "\<exists>s1. btt_run C debug rank [(u, EPin g), (t, ERemove g), (t, EGo), (t, EGo), (u, EUnpin g)] s = Ret s1 \<and> b_stuck C rank g t s1"
    using assms(2,3)
    by (auto simp: b_fresh_def b_stuck_def b_goto_def b_wait_def b_wake_def btt_tryRemove_read_def btt_waitForZeroCount_def btt_tryPin_def
      btt_unpin_def s32wrap_id Let_def cuckoo_map.find_update [OF assms(1)])
  then obtain s1 where r: "btt_run C debug rank [(u, EPin g), (t, ERemove g), (t, EGo), (t, EGo), (u, EUnpin g)] s = Ret s1"
    and k: "b_stuck C rank g t s1" by blast
  show ?thesis unfolding btt_run_append r bindO_Ret by (rule b_stuck_pairs [OF assms(1) k assms(4)])
qed

theorem btt_remove_sleeps_forever_witness:
  "\<exists>s'. btt_run map_cuckoo True 0 [(2, EPin 8), (1, ERemove 8), (1, EGo), (1, EGo), (2, EUnpin 8), (3, EPin 8), (3, EUnpin 8)] demo_btt = Ret s'
    \<and> b_asleep s' 1"
  using btt_remove_sleeps_forever [OF mc.cuckoo_map_axioms demo_fresh, of 1 2 "[3]" True]
  by (auto simp: b_stuck_def simp del: btt_run.simps)

end
