(* ===== verification/Hpx_Worker.thy ===== *)
theory Hpx_Worker
  imports Hpx_Math "HOL-Library.Multiset"
begin

text \<open>
  The workers of \<^verbatim>\<open>libhpx/scheduler/Worker.cpp\<close>: each runs lightweight threads, which are parcels
  bound to a stack, from its mailbox, its two queues, the network and the queues of other workers.
  A worker's deques are lists whose last element is the bottom, as \<^verbatim>\<open>Hpx_ChaseLev\<close> justifies, and its
  mailbox is a list of stacks of parcels, as \<^verbatim>\<open>Hpx_TwoLock\<close> justifies. Parcels and stacks are
  numbers. A step runs from one scheduling decision of a worker to the next; steps of the workers
  interleave. What a thread itself does is an input: it ends with a status, yields, waits, or
  spawns.
\<close>

section \<open>Workers\<close>

datatype wstate = SHUTDOWN | RUN | STOP

record worker =
  w_id :: nat
  w_state :: wstate
  w_workFirst :: int
  w_workId :: nat
  w_queues :: "nat \<Rightarrow> nat list"
  w_inbox :: "nat list list"
  w_system :: nat
  w_current :: nat
  w_threads :: "nat list"
  w_lastVictim :: "nat option"

text \<open>
  The configuration: the bound on cached stacks, the work-first threshold, what \<^verbatim>\<open>push\<close> reports as the
  size of a queue, the affinity of a parcel's target, which parcels run interrupts, which run default
  actions and which are requests to steal.
\<close>

record wcfg =
  c_debug :: bool
  c_limit :: int
  c_wfthreshold :: nat
  c_size :: "nat list \<Rightarrow> nat"
  c_affinity :: "nat \<Rightarrow> int"
  c_interrupt :: "nat \<Rightarrow> bool"
  c_default :: "nat \<Rightarrow> bool"
  c_stealHalf :: "nat \<Rightarrow> bool"

definition pushLIFO :: "wcfg \<Rightarrow> nat \<Rightarrow> worker \<Rightarrow> worker" where
  "pushLIFO cfg p w =
    (let q = w_queues w (w_workId w) @ [p] in
     w\<lparr>w_queues := (w_queues w)(w_workId w := q),
       w_workFirst := (if 0 \<le> w_workFirst w then (if c_wfthreshold cfg < c_size cfg q then 1 else 0) else w_workFirst w)\<rparr>)"

definition popLIFO :: "wcfg \<Rightarrow> worker \<Rightarrow> (nat option \<times> worker) outcome" where
  "popLIFO cfg w =
    (let q = w_queues w (w_workId w) in
     if q = [] then Ret (None, w)
     else assertO (\<not> c_debug cfg \<or> last q \<noteq> w_current w)
       (Ret (Some (last q), w\<lparr>w_queues := (w_queues w)(w_workId w := butlast q)\<rparr>)))"

definition pushYield :: "nat \<Rightarrow> worker \<Rightarrow> worker" where
  "pushYield p w = w\<lparr>w_queues := (w_queues w)(1 - w_workId w := w_queues w (1 - w_workId w) @ [p])\<rparr>"

definition pushMail :: "nat list \<Rightarrow> worker \<Rightarrow> worker" where
  "pushMail ps w = w\<lparr>w_inbox := w_inbox w @ [ps]\<rparr>"

text \<open>The network is progressed out of work-first mode; \<^verbatim>\<open>ns\<close> is the stack of parcels it has received.\<close>

definition handleNetwork :: "wcfg \<Rightarrow> nat list \<Rightarrow> worker \<Rightarrow> (nat option \<times> worker) outcome" where
  "handleNetwork cfg ns w = popLIFO cfg (fold (pushLIFO cfg) ns w)"

text \<open>The inner loop pushes every parcel of a mail but the last one it has seen.\<close>

fun mail_inner :: "wcfg \<Rightarrow> nat \<Rightarrow> nat list \<Rightarrow> worker \<Rightarrow> (nat \<times> worker) outcome" where
  "mail_inner cfg prev [] w = Ret (prev, w)"
| "mail_inner cfg prev (n # ns) w =
    assertO (\<not> c_debug cfg \<or> n \<noteq> w_current w) (mail_inner cfg n ns (pushLIFO cfg prev w))"

fun mail_outer :: "wcfg \<Rightarrow> nat \<Rightarrow> nat list \<Rightarrow> nat list list \<Rightarrow> worker \<Rightarrow> (nat \<times> worker) outcome" where
  "mail_outer cfg prev ps inbox w =
    bindO (mail_inner cfg prev ps w) (\<lambda>(prev', w').
      case inbox of
        [] \<Rightarrow> Ret (prev', w'\<lparr>w_inbox := []\<rparr>)
      | m # rest \<Rightarrow> if m = [] then Ret (prev', w'\<lparr>w_inbox := rest\<rparr>) else mail_outer cfg prev' m rest w')"

definition handleMail :: "wcfg \<Rightarrow> worker \<Rightarrow> (nat option \<times> worker) outcome" where
  "handleMail cfg w =
    (case w_inbox w of
       [] \<Rightarrow> Ret (None, w)
     | [] # rest \<Rightarrow> Ret (None, w\<lparr>w_inbox := rest\<rparr>)
     | (p # ps) # rest \<Rightarrow> bindO (mail_outer cfg p ps rest w) (\<lambda>(prev, w'). Ret (Some prev, w')))"

definition handleEpoch :: "worker \<Rightarrow> worker" where
  "handleEpoch w = w\<lparr>w_workId := 1 - w_workId w\<rparr>"

section \<open>Stacks and transfers\<close>

text \<open>
  A worker with what its transfers touch outside of it: the stack each parcel is bound to, the
  parcels that have left the workers (waiting in an LCO, launched again, abandoned), and the parcels
  that have been deleted.
\<close>

record ctx =
  x_w :: worker
  x_thread :: "nat \<Rightarrow> nat option"
  x_parked :: "nat list"
  x_done :: "nat list"

definition bind :: "wcfg \<Rightarrow> nat \<Rightarrow> nat \<Rightarrow> ctx \<Rightarrow> ctx outcome" where
  "bind cfg fresh p x =
    assertO (\<not> c_debug cfg \<or> x_thread x p = None)
      (let (t, ts) = (case w_threads (x_w x) of [] \<Rightarrow> (fresh, []) | b # bs \<Rightarrow> (b, bs)) in
       if x_thread x p \<noteq> None then Fault Dbg_error
       else Ret (x\<lparr>x_w := (x_w x)\<lparr>w_threads := ts\<rparr>, x_thread := (x_thread x)(p \<mapsto> t)\<rparr>))"

definition unbind :: "wcfg \<Rightarrow> nat \<Rightarrow> ctx \<Rightarrow> ctx outcome" where
  "unbind cfg p x =
    (case x_thread x p of
       None \<Rightarrow> Ret x
     | Some t \<Rightarrow>
         let ts = t # w_threads (x_w x); limit = c_limit cfg;
             cache = (\<lambda>ts. x\<lparr>x_w := (x_w x)\<lparr>w_threads := ts\<rparr>, x_thread := (x_thread x)(p := None)\<rparr>) in
         if limit < 0 \<or> int (length ts) < limit then Ret (cache ts)
         else let e = ceil_div (nat limit) 2 in
           if length ts < e then Fault Out_of_bounds
           else assertO (\<not> c_debug cfg \<or> drop e ts = [] \<or> length (drop e ts) = e) (Ret (cache (drop e ts))))"

text \<open>What is done with the thread a worker switches away from.\<close>

datatype kont = KNull | KYield | KLifo | KPark | KResend | KAbandon | KDelete

fun run_kont :: "wcfg \<Rightarrow> kont \<Rightarrow> nat \<Rightarrow> ctx \<Rightarrow> ctx outcome" where
  "run_kont cfg KNull p x = Ret x"
| "run_kont cfg KYield p x = Ret (x\<lparr>x_w := pushYield p (x_w x)\<rparr>)"
| "run_kont cfg KLifo p x = Ret (x\<lparr>x_w := pushLIFO cfg p (x_w x)\<rparr>)"
| "run_kont cfg KPark p x = Ret (x\<lparr>x_parked := p # x_parked x\<rparr>)"
| "run_kont cfg KResend p x = bindO (unbind cfg p x) (\<lambda>x. Ret (x\<lparr>x_parked := p # x_parked x\<rparr>))"
| "run_kont cfg KAbandon p x = bindO (unbind cfg p x) (\<lambda>x. Ret (x\<lparr>x_parked := p # x_parked x\<rparr>))"
| "run_kont cfg KDelete p x = bindO (unbind cfg p x) (\<lambda>x. Ret (x\<lparr>x_done := p # x_done x\<rparr>))"

definition checkpoint :: "wcfg \<Rightarrow> nat \<Rightarrow> kont \<Rightarrow> ctx \<Rightarrow> ctx outcome" where
  "checkpoint cfg p k x = run_kont cfg k (w_current (x_w x)) (x\<lparr>x_w := (x_w x)\<lparr>w_current := p\<rparr>\<rparr>)"

definition transfer :: "wcfg \<Rightarrow> nat \<Rightarrow> nat \<Rightarrow> kont \<Rightarrow> ctx \<Rightarrow> ctx outcome" where
  "transfer cfg fresh p k x =
    assertO (\<not> c_debug cfg \<or> p \<noteq> w_current (x_w x))
      (bindO (if x_thread x p = None then bind cfg fresh p x else Ret x) (checkpoint cfg p k))"

definition schedule :: "wcfg \<Rightarrow> nat \<Rightarrow> kont \<Rightarrow> ctx \<Rightarrow> ctx outcome" where
  "schedule cfg fresh k x =
    (if w_state (x_w x) \<noteq> RUN then transfer cfg fresh (w_system (x_w x)) k x
     else bindO (handleMail cfg (x_w x)) (\<lambda>(m, w). case m of
       Some p \<Rightarrow> transfer cfg fresh p k (x\<lparr>x_w := w\<rparr>)
     | None \<Rightarrow> bindO (popLIFO cfg w) (\<lambda>(m, w). case m of
         Some p \<Rightarrow> transfer cfg fresh p k (x\<lparr>x_w := w\<rparr>)
       | None \<Rightarrow> transfer cfg fresh (w_system w) k (x\<lparr>x_w := w\<rparr>))))"

text \<open>
  One turn of the loop in \<^verbatim>\<open>run\<close>, up to stealing: whether it found a thread, and which parcels came
  in if it asked the network.
\<close>

definition run_turn :: "wcfg \<Rightarrow> nat \<Rightarrow> nat list \<Rightarrow> ctx \<Rightarrow> (bool \<times> nat list \<times> ctx) outcome" where
  "run_turn cfg fresh ns x =
    bindO (handleMail cfg (x_w x)) (\<lambda>(m, w). case m of
      Some p \<Rightarrow> bindO (transfer cfg fresh p KNull (x\<lparr>x_w := w\<rparr>)) (\<lambda>x. Ret (True, [], x))
    | None \<Rightarrow> bindO (popLIFO cfg w) (\<lambda>(m, w). case m of
        Some p \<Rightarrow> bindO (transfer cfg fresh p KNull (x\<lparr>x_w := w\<rparr>)) (\<lambda>x. Ret (True, [], x))
      | None \<Rightarrow> bindO (handleNetwork cfg ns (handleEpoch w)) (\<lambda>(m, w). case m of
          Some p \<Rightarrow> bindO (transfer cfg fresh p KNull (x\<lparr>x_w := w\<rparr>)) (\<lambda>x. Ret (True, ns, x))
        | None \<Rightarrow> Ret (False, ns, x\<lparr>x_w := w\<rparr>))))"

text \<open>The end of a thread, by the status its action returns.\<close>

datatype tstatus = HPX_RESEND | HPX_ABANDON | HPX_OK | HPX_LCO_ERROR | HPX_OTHER

fun ExecuteUserThread :: "wcfg \<Rightarrow> nat \<Rightarrow> tstatus \<Rightarrow> ctx \<Rightarrow> ctx outcome" where
  "ExecuteUserThread cfg fresh HPX_RESEND x = schedule cfg fresh KResend x"
| "ExecuteUserThread cfg fresh HPX_ABANDON x = schedule cfg fresh KAbandon x"
| "ExecuteUserThread cfg fresh HPX_OK x = schedule cfg fresh KDelete x"
| "ExecuteUserThread cfg fresh HPX_LCO_ERROR x = schedule cfg fresh KDelete x"
| "ExecuteUserThread cfg fresh HPX_OTHER x = Fault Dbg_error"

definition yield :: "wcfg \<Rightarrow> nat \<Rightarrow> ctx \<Rightarrow> ctx outcome" where
  "yield cfg fresh x = assertO (\<not> c_debug cfg \<or> c_default cfg (w_current (x_w x))) (schedule cfg fresh KYield x)"

definition suspend :: "wcfg \<Rightarrow> nat \<Rightarrow> ctx \<Rightarrow> ctx outcome" where
  "suspend cfg fresh x = schedule cfg fresh KPark x"

text \<open>
  Spawning here, once affinity has kept the parcel on this worker; \<^verbatim>\<open>inLCO\<close> tells whether the current
  thread holds the lock of an LCO.
\<close>

definition spawn_here :: "wcfg \<Rightarrow> nat \<Rightarrow> bool \<Rightarrow> nat \<Rightarrow> ctx \<Rightarrow> ctx outcome" where
  "spawn_here cfg fresh inLCO p x =
    (let w = x_w x; later = Ret (x\<lparr>x_w := pushLIFO cfg p w\<rparr>) in
     if w_state w \<noteq> RUN then later
     else if w_workFirst w < 1 then later
     else if inLCO then later
     else if c_interrupt cfg (w_current w) then later
     else transfer cfg fresh p (if w_current w = w_system w then KNull else KLifo) x)"

text \<open>\<^verbatim>\<open>stealHalf\<close> pops half of the queue onto a stack and drops the requests to steal it finds.\<close>

definition MAGIC_STEAL_HALF_THRESHOLD :: nat where
  "MAGIC_STEAL_HALF_THRESHOLD = 6"

fun stealHalf_loop :: "wcfg \<Rightarrow> nat \<Rightarrow> nat list \<Rightarrow> nat list \<Rightarrow> worker \<Rightarrow> (nat list \<times> nat list \<times> worker) outcome" where
  "stealHalf_loop cfg 0 parcels dropped w = Ret (parcels, dropped, w)"
| "stealHalf_loop cfg (Suc n) parcels dropped w =
    bindO (popLIFO cfg w) (\<lambda>(m, w'). case m of
      None \<Rightarrow> Ret (parcels, dropped, w')
    | Some p \<Rightarrow> if c_stealHalf cfg p then stealHalf_loop cfg n parcels (p # dropped) w'
                else stealHalf_loop cfg n (p # parcels) dropped w')"

definition stealHalf :: "wcfg \<Rightarrow> worker \<Rightarrow> (nat list \<times> nat list \<times> worker) outcome" where
  "stealHalf cfg w =
    (let qsize = length (w_queues w (w_workId w)) in
     if qsize < MAGIC_STEAL_HALF_THRESHOLD then Ret ([], [], w) else stealHalf_loop cfg (qsize div 2) [] [] w)"

text \<open>The sleep loop moves what was yielded and what is in the mailbox to the queue.\<close>

definition sleep_turn :: "wcfg \<Rightarrow> worker \<Rightarrow> worker outcome" where
  "sleep_turn cfg w =
    (let y = w_queues w (1 - w_workId w);
         w1 = fold (pushLIFO cfg) (rev y) (w\<lparr>w_queues := (w_queues w)(1 - w_workId w := [])\<rparr>) in
     bindO (handleMail cfg w1) (\<lambda>(m, w2). Ret (case m of None \<Rightarrow> w2 | Some p \<Rightarrow> pushLIFO cfg p w2)))"

text \<open>
  A worker left to itself whose threads all run to their end: on its system stack it takes a turn of
  its loop, otherwise the current thread ends.
\<close>

definition drive_step :: "wcfg \<Rightarrow> nat \<Rightarrow> ctx \<Rightarrow> ctx outcome" where
  "drive_step cfg fresh x =
    (if w_current (x_w x) = w_system (x_w x) then bindO (run_turn cfg fresh [] x) (\<lambda>(found, got, y). Ret y)
     else ExecuteUserThread cfg fresh HPX_OK x)"

section \<open>A locality\<close>

record loc =
  l_workers :: "worker list"
  l_thread :: "nat \<Rightarrow> nat option"
  l_parked :: "nat list"
  l_done :: "nat list"
  l_entered :: "nat list"

definition ctx_of :: "loc \<Rightarrow> nat \<Rightarrow> ctx" where
  "ctx_of l i = \<lparr> x_w = l_workers l ! i, x_thread = l_thread l, x_parked = l_parked l, x_done = l_done l \<rparr>"

definition put_ctx :: "nat \<Rightarrow> ctx \<Rightarrow> loc \<Rightarrow> loc" where
  "put_ctx i x l = l\<lparr>l_workers := (l_workers l)[i := x_w x], l_thread := x_thread x, l_parked := x_parked x, l_done := x_done x\<rparr>"

definition put_worker :: "nat \<Rightarrow> worker \<Rightarrow> loc \<Rightarrow> loc" where
  "put_worker i w l = l\<lparr>l_workers := (l_workers l)[i := w]\<rparr>"

definition stealFrom :: "nat \<Rightarrow> nat \<Rightarrow> loc \<Rightarrow> nat option \<times> loc" where
  "stealFrom i v l =
    (let vw = l_workers l ! v; q = w_queues vw (w_workId vw) in
     case q of
       [] \<Rightarrow> (None, put_worker i ((l_workers l ! i)\<lparr>w_lastVictim := None\<rparr>) l)
     | p # ps \<Rightarrow> (Some p, put_worker i ((l_workers l ! i)\<lparr>w_lastVictim := Some v\<rparr>)
         (put_worker v (vw\<lparr>w_queues := (w_queues vw)(w_workId vw := ps)\<rparr>) l)))"

text \<open>
  The policies: a random victim \<^verbatim>\<open>v\<close>, or the last victim, two random victims of the same node, and a
  request \<^verbatim>\<open>req\<close> mailed to a worker of another node.
\<close>

datatype policy = Random nat | Hier nat nat nat nat

definition stealHierarchical :: "nat \<Rightarrow> nat \<Rightarrow> nat \<Rightarrow> nat \<Rightarrow> nat \<Rightarrow> loc \<Rightarrow> nat option \<times> loc" where
  "stealHierarchical i va vb vc req l =
    (case (case w_lastVictim (l_workers l ! i) of None \<Rightarrow> (None, l) | Some v \<Rightarrow> stealFrom i v l) of
       (Some p, la) \<Rightarrow> (Some p, la)
     | (None, la) \<Rightarrow> (case stealFrom i va la of
         (Some p, lb) \<Rightarrow> (Some p, lb)
       | (None, lb) \<Rightarrow> (case stealFrom i vb lb of
           (Some p, lc) \<Rightarrow> (Some p, lc)
         | (None, lc) \<Rightarrow> (None, put_worker vc (pushMail [req] (l_workers lc ! vc)) (lc\<lparr>l_entered := req # l_entered lc\<rparr>)))))"

definition handleSteal :: "policy \<Rightarrow> nat \<Rightarrow> loc \<Rightarrow> nat option \<times> loc" where
  "handleSteal pol i l =
    (if length (l_workers l) = 1 then (None, l)
     else case pol of Random v \<Rightarrow> stealFrom i v l | Hier va vb vc req \<Rightarrow> stealHierarchical i va vb vc req l)"

definition run_worker :: "wcfg \<Rightarrow> nat \<Rightarrow> nat \<Rightarrow> nat list \<Rightarrow> policy \<Rightarrow> loc \<Rightarrow> loc outcome" where
  "run_worker cfg i fresh ns pol l =
    bindO (run_turn cfg fresh ns (ctx_of l i)) (\<lambda>(found, got, x).
      let l1 = (put_ctx i x l)\<lparr>l_entered := got @ l_entered l\<rparr> in
      if found then Ret l1
      else case handleSteal pol i l1 of
          (None, l2) \<Rightarrow> Ret l2
        | (Some p, l2) \<Rightarrow> bindO (transfer cfg fresh p KNull (ctx_of l2 i)) (\<lambda>x. Ret (put_ctx i x l2)))"

definition spawn :: "wcfg \<Rightarrow> nat \<Rightarrow> nat \<Rightarrow> bool \<Rightarrow> nat \<Rightarrow> loc \<Rightarrow> loc outcome" where
  "spawn cfg i fresh inLCO p l =
    (let a = c_affinity cfg p in
     if 0 \<le> a \<and> a \<noteq> int (w_id (l_workers l ! i)) then Ret (put_worker (nat a) (pushMail [p] (l_workers l ! nat a)) l)
     else bindO (spawn_here cfg fresh inLCO p (ctx_of l i)) (\<lambda>x. Ret (put_ctx i x l)))"

definition StealHalfHandler :: "wcfg \<Rightarrow> nat \<Rightarrow> nat \<Rightarrow> loc \<Rightarrow> loc outcome" where
  "StealHalfHandler cfg i src l =
    bindO (stealHalf cfg (l_workers l ! i)) (\<lambda>(half, dropped, w).
      let l1 = (put_worker i w l)\<lparr>l_done := dropped @ l_done l\<rparr> in
      Ret (if half \<noteq> [] then put_worker src (pushMail half (l_workers l1 ! src)) l1 else l1))"

text \<open>
  The steps of a locality: a turn of a worker's loop, the end of a thread, its yield or wait, a
  spawn of a new parcel or of one that had left the workers, the handler of a request to steal, a
  turn of the sleep loop, and \<^verbatim>\<open>start\<close>, \<^verbatim>\<open>stop\<close> and \<^verbatim>\<open>shutdown\<close>. The first number is the worker, the second
  the address a new stack would get.
\<close>

datatype wev =
    EvRun nat nat "nat list" policy
  | EvEnd nat nat tstatus
  | EvYield nat nat
  | EvSuspend nat nat
  | EvSpawn nat nat bool nat
  | EvStealHalf nat nat
  | EvSleep nat
  | EvState nat wstate

fun wexec :: "wcfg \<Rightarrow> wev \<Rightarrow> loc \<Rightarrow> loc outcome" where
  "wexec cfg (EvRun i f ns pol) l = run_worker cfg i f ns pol l"
| "wexec cfg (EvEnd i f st) l = bindO (ExecuteUserThread cfg f st (ctx_of l i)) (\<lambda>x. Ret (put_ctx i x l))"
| "wexec cfg (EvYield i f) l = bindO (yield cfg f (ctx_of l i)) (\<lambda>x. Ret (put_ctx i x l))"
| "wexec cfg (EvSuspend i f) l = bindO (suspend cfg f (ctx_of l i)) (\<lambda>x. Ret (put_ctx i x l))"
| "wexec cfg (EvSpawn i f b p) l = spawn cfg i f b p
     (if p \<in> set (l_parked l) then l\<lparr>l_parked := remove1 p (l_parked l)\<rparr> else l\<lparr>l_entered := p # l_entered l\<rparr>)"
| "wexec cfg (EvStealHalf i src) l = StealHalfHandler cfg i src l"
| "wexec cfg (EvSleep i) l = bindO (sleep_turn cfg (l_workers l ! i)) (\<lambda>w. Ret (put_worker i w l))"
| "wexec cfg (EvState i st) l = Ret (put_worker i ((l_workers l ! i)\<lparr>w_state := st\<rparr>) l)"

definition systems :: "worker list \<Rightarrow> nat set" where
  "systems ws = w_system ` set ws"

definition l_fresh :: "nat \<Rightarrow> loc \<Rightarrow> bool" where
  "l_fresh t l = (t \<notin> (\<Union>w\<in>set (l_workers l). set (w_threads w)) \<and> t \<notin> ran (l_thread l))"

definition l_new :: "nat list \<Rightarrow> loc \<Rightarrow> bool" where
  "l_new ps l = (distinct ps \<and> set ps \<inter> (set (l_entered l) \<union> systems (l_workers l)) = {})"

fun pol_ok :: "nat \<Rightarrow> nat list \<Rightarrow> policy \<Rightarrow> loc \<Rightarrow> bool" where
  "pol_ok i ns (Random v) l = (v < length (l_workers l) \<and> v \<noteq> i)"
| "pol_ok i ns (Hier va vb vc req) l =
    (va < length (l_workers l) \<and> va \<noteq> i \<and> vb < length (l_workers l) \<and> vb \<noteq> i \<and> vc < length (l_workers l) \<and> l_new (req # ns) l)"

definition on_system :: "nat \<Rightarrow> loc \<Rightarrow> bool" where
  "on_system i l = (w_current (l_workers l ! i) = w_system (l_workers l ! i))"

text \<open>When a step is possible. A new stack has an address that no other stack has.\<close>

fun wev_ok :: "wcfg \<Rightarrow> wev \<Rightarrow> loc \<Rightarrow> bool" where
  "wev_ok cfg (EvRun i f ns pol) l = (i < length (l_workers l) \<and> on_system i l \<and> w_state (l_workers l ! i) = RUN \<and> l_fresh f l \<and> l_new ns l
     \<and> (length (l_workers l) \<noteq> 1 \<longrightarrow> pol_ok i ns pol l))"
| "wev_ok cfg (EvEnd i f st) l = (i < length (l_workers l) \<and> \<not> on_system i l \<and> l_fresh f l \<and> st \<noteq> HPX_OTHER)"
| "wev_ok cfg (EvYield i f) l = (i < length (l_workers l) \<and> \<not> on_system i l \<and> l_fresh f l \<and> c_default cfg (w_current (l_workers l ! i)))"
| "wev_ok cfg (EvSuspend i f) l = (i < length (l_workers l) \<and> \<not> on_system i l \<and> l_fresh f l)"
| "wev_ok cfg (EvSpawn i f b p) l = (i < length (l_workers l) \<and> l_fresh f l \<and> (p \<in> set (l_parked l) \<or> l_new [p] l)
     \<and> c_affinity cfg p < int (length (l_workers l)))"
| "wev_ok cfg (EvStealHalf i src) l = (i < length (l_workers l) \<and> src < length (l_workers l))"
| "wev_ok cfg (EvSleep i) l = (i < length (l_workers l) \<and> on_system i l \<and> w_state (l_workers l ! i) = STOP)"
| "wev_ok cfg (EvState i st) l = (i < length (l_workers l))"

text \<open>In the beginning every worker is on its system stack and has nothing.\<close>

definition worker_new :: "nat \<Rightarrow> nat \<Rightarrow> worker" where
  "worker_new i sys = \<lparr> w_id = i, w_state = STOP, w_workFirst = 0, w_workId = 0, w_queues = (\<lambda>k. []), w_inbox = [],
     w_system = sys, w_current = sys, w_threads = [], w_lastVictim = None \<rparr>"

definition loc_new :: "nat list \<Rightarrow> loc" where
  "loc_new ss = \<lparr> l_workers = map (\<lambda>i. worker_new i (ss ! i)) [0..<length ss],
     l_thread = (\<lambda>p. if p \<in> set ss then Some p else None), l_parked = [], l_done = [], l_entered = [] \<rparr>"

inductive loc_reach :: "wcfg \<Rightarrow> nat list \<Rightarrow> loc \<Rightarrow> bool" for cfg ss where
  start: "loc_reach cfg ss (loc_new ss)"
| step: "loc_reach cfg ss l \<Longrightarrow> wev_ok cfg ev l \<Longrightarrow> wexec cfg ev l = Ret l' \<Longrightarrow> loc_reach cfg ss l'"

section \<open>Where parcels are\<close>

definition cur :: "worker \<Rightarrow> nat list" where
  "cur w = (if w_current w = w_system w then [] else [w_current w])"

definition km :: "worker \<Rightarrow> nat multiset" where
  "km w = mset (w_queues w 0) + mset (w_queues w 1)"

definition qm :: "worker \<Rightarrow> nat multiset" where
  "qm w = km w + mset (concat (w_inbox w))"

definition wm :: "worker \<Rightarrow> nat multiset" where
  "wm w = qm w + mset (cur w)"

text \<open>What the queue operations leave alone.\<close>

definition w_rest :: "worker \<Rightarrow> nat \<times> wstate \<times> nat \<times> nat \<times> nat list \<times> nat option" where
  "w_rest w = (w_id w, w_state w, w_system w, w_current w, w_threads w, w_lastVictim w)"

lemma w_restD:
  assumes "w_rest w' = w_rest w"
  shows "w_id w' = w_id w" "w_state w' = w_state w" "w_system w' = w_system w" "w_current w' = w_current w" "w_threads w' = w_threads w"
    "w_lastVictim w' = w_lastVictim w" "cur w' = cur w"
  using assms by (simp_all add: w_rest_def cur_def)

lemma less2: "n < 2 \<longleftrightarrow> n = 0 \<or> n = Suc 0"
  by auto

lemma pushLIFO_facts:
  assumes "w_workId w < 2"
  shows "km (pushLIFO cfg p w) = add_mset p (km w)" "w_inbox (pushLIFO cfg p w) = w_inbox w" "w_rest (pushLIFO cfg p w) = w_rest w"
    "w_workId (pushLIFO cfg p w) = w_workId w"
  using assms by (auto simp: pushLIFO_def km_def w_rest_def less2 Let_def)

lemma pushYield_facts:
  assumes "w_workId w < 2"
  shows "km (pushYield p w) = add_mset p (km w)" "w_inbox (pushYield p w) = w_inbox w" "w_rest (pushYield p w) = w_rest w"
    "w_workId (pushYield p w) = w_workId w"
  using assms by (auto simp: pushYield_def km_def w_rest_def less2)

lemma pushMail_facts:
  "km (pushMail ps w) = km w" "qm (pushMail ps w) = qm w + mset ps" "w_rest (pushMail ps w) = w_rest w" "w_workId (pushMail ps w) = w_workId w"
  by (simp_all add: pushMail_def km_def qm_def w_rest_def)

lemma fold_pushLIFO_facts:
  assumes "w_workId w < 2"
  shows "km (fold (pushLIFO cfg) ps w) = km w + mset ps" "w_inbox (fold (pushLIFO cfg) ps w) = w_inbox w"
    "w_rest (fold (pushLIFO cfg) ps w) = w_rest w" "w_workId (fold (pushLIFO cfg) ps w) = w_workId w"
  using assms by (induction ps arbitrary: w) (simp_all add: pushLIFO_facts)

lemma popLIFO_cases:
  assumes "w_workId w < 2" "w_current w \<notin># km w"
  obtains "popLIFO cfg w = Ret (None, w)" "w_queues w (w_workId w) = []"
  | p w' where "popLIFO cfg w = Ret (Some p, w')" "km w = add_mset p (km w')" "w_inbox w' = w_inbox w" "w_rest w' = w_rest w" "w_workId w' = w_workId w"
proof (cases "w_queues w (w_workId w)" rule: rev_cases)
  case Nil
  then show ?thesis using that(1) by (simp add: popLIFO_def)
next
  case (snoc q p)
  let ?w = "w\<lparr>w_queues := (w_queues w)(w_workId w := q)\<rparr>"
  have km: "km w = add_mset p (km ?w)" using snoc assms(1) by (auto simp: km_def less2)
  then have "p \<noteq> w_current w" using assms(2) by auto
  then have "popLIFO cfg w = Ret (Some p, ?w)" using snoc by (simp add: popLIFO_def)
  then show ?thesis using that(2) km by (simp add: w_rest_def)
qed

lemma mail_inner_facts:
  assumes "w_workId w < 2" "w_current w \<notin> set ns"
  shows "\<exists>prev' w'. mail_inner cfg prev ns w = Ret (prev', w') \<and> add_mset prev' (km w') = add_mset prev (km w) + mset ns
    \<and> w_inbox w' = w_inbox w \<and> w_rest w' = w_rest w \<and> w_workId w' = w_workId w"
  using assms
proof (induction ns arbitrary: prev w)
  case (Cons n ns)
  note f = pushLIFO_facts [OF Cons.prems(1), of cfg prev]
  have "w_current (pushLIFO cfg prev w) = w_current w" using w_restD(4) [OF f(3)] .
  then show ?case using Cons.IH [of "pushLIFO cfg prev w" n] Cons.prems by (auto simp: f)
qed simp

lemma mail_outer_facts:
  assumes "w_workId w < 2" "w_current w \<notin> set ps \<union> set (concat inbox)"
  shows "\<exists>prev' w'. mail_outer cfg prev ps inbox w = Ret (prev', w')
    \<and> add_mset prev' (qm w') = add_mset prev (km w) + mset ps + mset (concat inbox) \<and> w_rest w' = w_rest w \<and> w_workId w' = w_workId w
    \<and> ([] \<notin> set inbox \<longrightarrow> w_inbox w' = [])"
  using assms
proof (induction inbox arbitrary: prev ps w)
  case Nil
  then obtain prev' w' where "mail_inner cfg prev ps w = Ret (prev', w')" "add_mset prev' (km w') = add_mset prev (km w) + mset ps"
    "w_rest w' = w_rest w" "w_workId w' = w_workId w" using mail_inner_facts [of w ps cfg prev] by auto
  then show ?case by (simp add: qm_def km_def w_rest_def)
next
  case (Cons m rest)
  obtain prev' w' where i: "mail_inner cfg prev ps w = Ret (prev', w')" "add_mset prev' (km w') = add_mset prev (km w) + mset ps"
    "w_rest w' = w_rest w" "w_workId w' = w_workId w" using mail_inner_facts [of w ps cfg prev] Cons.prems by auto
  show ?case
  proof (cases m)
    case Nil
    then show ?thesis using i by (simp add: qm_def km_def w_rest_def)
  next
    case (Cons a as)
    have "w_workId w' < 2" "w_current w' \<notin> set m \<union> set (concat rest)"
      using Cons.prems i(4) w_restD(4) [OF i(3)] by auto
    from Cons.IH [OF this, of prev'] show ?thesis using i Cons by (auto simp del: mail_outer.simps simp: mail_outer.simps [of cfg prev ps])
  qed
qed

definition opt_m :: "nat option \<Rightarrow> nat multiset" where
  "opt_m m = (case m of None \<Rightarrow> {#} | Some p \<Rightarrow> {#p#})"

lemma handleMail_facts:
  assumes "w_workId w < 2" "w_current w \<notin># qm w"
  shows "\<exists>m w'. handleMail cfg w = Ret (m, w') \<and> qm w = qm w' + opt_m m \<and> w_rest w' = w_rest w \<and> w_workId w' = w_workId w
    \<and> (m = None \<longrightarrow> km w' = km w) \<and> ([] \<notin> set (w_inbox w) \<longrightarrow> w_inbox w' = [])"
proof (cases "w_inbox w")
  case Nil
  then show ?thesis by (simp add: handleMail_def opt_m_def)
next
  case (Cons mail rest)
  show ?thesis
  proof (cases mail)
    case Nil
    then show ?thesis using Cons by (simp add: handleMail_def qm_def km_def w_rest_def opt_m_def)
  next
    case (Cons p ps)
    note inbox = \<open>w_inbox w = mail # rest\<close>
    have "w_current w \<notin> set ps \<union> set (concat rest)" using assms(2) by (auto simp: qm_def inbox Cons)
    from mail_outer_facts [OF assms(1) this, of cfg p] obtain prev' w' where
      "mail_outer cfg p ps rest w = Ret (prev', w')" "add_mset prev' (qm w') = add_mset p (km w) + mset ps + mset (concat rest)"
      "w_rest w' = w_rest w" "w_workId w' = w_workId w" "[] \<notin> set rest \<longrightarrow> w_inbox w' = []" by auto
    then show ?thesis by (simp add: handleMail_def inbox Cons qm_def opt_m_def del: mail_outer.simps)
  qed
qed

section \<open>Transfers keep parcels and stacks\<close>

text \<open>
  A worker in order, beside the stacks \<^verbatim>\<open>F\<close> that other workers cache and the system threads \<^verbatim>\<open>S\<close> of the
  workers: system threads have a stack and are in no queue; no stack is bound to two parcels or both bound and cached; the cache is below
  its limit.
\<close>

definition stacks_ok :: "nat set \<Rightarrow> nat list \<Rightarrow> (nat \<Rightarrow> nat option) \<Rightarrow> bool" where
  "stacks_ok F ts th = (distinct ts \<and> set ts \<inter> F = {} \<and> (\<forall>p t. th p = Some t \<longrightarrow> t \<notin> set ts \<union> F) \<and> inj_on th (dom th) \<and> finite (dom th))"

definition limit_ok :: "wcfg \<Rightarrow> nat list \<Rightarrow> bool" where
  "limit_ok cfg ts = (c_limit cfg < 0 \<or> int (length ts) < c_limit cfg)"

definition cfg_ok :: "wcfg \<Rightarrow> bool" where
  "cfg_ok cfg = (c_limit cfg < 0 \<or> c_limit cfg = 1 \<or> (0 < c_limit cfg \<and> even (c_limit cfg)))"

definition xm :: "ctx \<Rightarrow> nat multiset" where
  "xm x = wm (x_w x) + mset (x_parked x) + mset (x_done x)"

definition xok :: "wcfg \<Rightarrow> nat set \<Rightarrow> nat set \<Rightarrow> ctx \<Rightarrow> bool" where
  "xok cfg F S x = (w_workId (x_w x) < 2 \<and> w_system (x_w x) \<in> S \<and> (\<forall>q\<in>S. x_thread x q \<noteq> None \<and> q \<notin># xm x)
     \<and> stacks_ok F (w_threads (x_w x)) (x_thread x) \<and> limit_ok cfg (w_threads (x_w x)))"

text \<open>What no operation of a worker changes.\<close>

definition w_fixed :: "worker \<Rightarrow> nat \<times> wstate \<times> nat \<times> nat option" where
  "w_fixed w = (w_id w, w_state w, w_system w, w_lastVictim w)"

lemma stacks_ok_bind:
  assumes "stacks_ok F ts th" "th p = None" "t \<notin> set ts' \<union> F" "t \<notin> ran th" "set ts' \<subseteq> set ts" "distinct ts'"
  shows "stacks_ok F ts' (th(p \<mapsto> t))"
  using assms unfolding stacks_ok_def inj_on_def ran_def by (auto split: if_splits)

lemma bind_facts:
  assumes "stacks_ok F (w_threads (x_w x)) (x_thread x)" "x_thread x p = None" "fresh \<notin> set (w_threads (x_w x)) \<union> F" "fresh \<notin> ran (x_thread x)"
  shows "\<exists>t ts. bind cfg fresh p x = Ret (x\<lparr>x_w := (x_w x)\<lparr>w_threads := ts\<rparr>, x_thread := (x_thread x)(p \<mapsto> t)\<rparr>)
    \<and> stacks_ok F ts ((x_thread x)(p \<mapsto> t)) \<and> length ts \<le> length (w_threads (x_w x))"
proof (cases "w_threads (x_w x)")
  case Nil
  have "stacks_ok F [] ((x_thread x)(p \<mapsto> fresh))" by (rule stacks_ok_bind [OF assms(1,2) _ assms(4)]) (use assms(3) in auto)
  then show ?thesis using assms(2) by (auto simp: bind_def Nil)
next
  case (Cons b bs)
  have "stacks_ok F bs ((x_thread x)(p \<mapsto> b))"
    by (rule stacks_ok_bind [OF assms(1,2)]) (use assms(1) in \<open>auto simp: stacks_ok_def Cons ran_def\<close>)
  then show ?thesis using assms(2) by (intro exI [of _ b] exI [of _ bs]) (simp add: bind_def Cons)
qed

lemma stacks_ok_unbind:
  assumes "stacks_ok F ts th" "th p = Some t"
  shows "stacks_ok F (drop n (t # ts)) (th(p := None))"
proof -
  have "distinct (t # ts)" using assms by (auto simp: stacks_ok_def)
  then have "distinct (drop n (t # ts))" by (rule distinct_drop)
  moreover have "set (drop n (t # ts)) \<subseteq> set (t # ts)" by (rule set_drop_subset)
  moreover have "u \<notin> set (t # ts) \<union> F" if "(th(p := None)) q = Some u" for q u
    using assms that by (auto simp: stacks_ok_def inj_on_def dom_def split: if_splits)
  moreover have "inj_on (th(p := None)) (dom (th(p := None)))"
    using assms(1) by (auto simp: stacks_ok_def inj_on_def)
  moreover have "set (t # ts) \<inter> F = {}" "finite (dom (th(p := None)))" using assms by (auto simp: stacks_ok_def)
  ultimately show ?thesis unfolding stacks_ok_def by (intro conjI) (blast | simp)+
qed

lemma ceil_div_half:
  assumes "n = 1 \<or> even n" "0 < n"
  shows "ceil_div n 2 \<le> n" "ceil_div n 2 = n \<or> n - ceil_div n 2 = ceil_div n 2" "n - ceil_div n 2 < n"
proof -
  consider "n = 1" | m where "n = 2 * m" "0 < m" using assms by (auto elim!: evenE)
  then have "ceil_div n 2 \<le> n \<and> (ceil_div n 2 = n \<or> n - ceil_div n 2 = ceil_div n 2) \<and> n - ceil_div n 2 < n"
    by cases (auto simp: ceil_div_def)
  then show "ceil_div n 2 \<le> n" "ceil_div n 2 = n \<or> n - ceil_div n 2 = ceil_div n 2" "n - ceil_div n 2 < n" by blast+
qed

lemma unbind_facts:
  assumes "cfg_ok cfg" "stacks_ok F (w_threads (x_w x)) (x_thread x)" "limit_ok cfg (w_threads (x_w x))"
  shows "\<exists>ts. unbind cfg p x = Ret (x\<lparr>x_w := (x_w x)\<lparr>w_threads := ts\<rparr>, x_thread := (x_thread x)(p := None)\<rparr>)
    \<and> stacks_ok F ts ((x_thread x)(p := None)) \<and> limit_ok cfg ts"
proof (cases "x_thread x p")
  case None
  then have "(x_thread x)(p := None) = x_thread x" by auto
  then show ?thesis using None assms(2,3) by (intro exI [of _ "w_threads (x_w x)"]) (simp add: unbind_def)
next
  case (Some t)
  let ?ts = "t # w_threads (x_w x)" and ?l = "c_limit cfg"
  note keep = stacks_ok_unbind [OF assms(2) Some]
  show ?thesis
  proof (cases "?l < 0 \<or> int (length ?ts) < ?l")
    case True
    then show ?thesis using Some keep [of 0] by (intro exI [of _ ?ts]) (simp add: unbind_def Let_def limit_ok_def)
  next
    case False
    define n where "n = nat ?l"
    have n: "length ?ts = n" "?l = int n" using False assms(3) by (auto simp: limit_ok_def n_def)
    have e: "n = 1 \<or> even n" "0 < n" using assms(1) n False by (auto simp: cfg_ok_def)
    define e where "e = ceil_div n 2"
    have h: "e \<le> n" "e = n \<or> n - e = e" "n - e < n" using ceil_div_half [OF e] by (simp_all only: e_def)
    have d: "drop e ?ts = [] \<or> length (drop e ?ts) = e" using h(2) unfolding length_drop drop_eq_Nil n(1) by auto
    have "unbind cfg p x = Ret (x\<lparr>x_w := (x_w x)\<lparr>w_threads := drop e ?ts\<rparr>, x_thread := (x_thread x)(p := None)\<rparr>)"
    proof -
      have "\<not> (?l < 0 \<or> int (length ?ts) < ?l)" "\<not> length ?ts < ceil_div (nat ?l) 2" "drop (ceil_div (nat ?l) 2) ?ts = drop e ?ts"
        using False h(1) n(1) by (simp_all only: e_def n_def not_less simp_thms)
      then show ?thesis using Some d unfolding unbind_def Let_def by (simp only: option.case if_False) (simp add: assertO_def e_def n_def)
    qed
    moreover have "limit_ok cfg (drop e ?ts)" using h(3) n by (simp only: limit_ok_def length_drop of_nat_less_iff simp_thms)
    ultimately show ?thesis using keep [of e] by blast
  qed
qed

definition fresh_ok :: "nat set \<Rightarrow> nat \<Rightarrow> ctx \<Rightarrow> bool" where
  "fresh_ok F t x = (t \<notin> set (w_threads (x_w x)) \<union> F \<and> t \<notin> ran (x_thread x))"

lemma transfer_bind:
  assumes "xok cfg F S x" "fresh_ok F fresh x"
  obtains ts th where "(if x_thread x p = None then bind cfg fresh p x else Ret x) = Ret (x\<lparr>x_w := (x_w x)\<lparr>w_threads := ts\<rparr>, x_thread := th\<rparr>)"
    "stacks_ok F ts th" "limit_ok cfg ts" "\<forall>q\<in>S. th q \<noteq> None"
proof (cases "x_thread x p")
  case None
  have f: "fresh \<notin> set (w_threads (x_w x)) \<union> F" "fresh \<notin> ran (x_thread x)" using assms(2) by (auto simp: fresh_ok_def)
  have x: "stacks_ok F (w_threads (x_w x)) (x_thread x)" "limit_ok cfg (w_threads (x_w x))" "\<forall>q\<in>S. x_thread x q \<noteq> None"
    using assms(1) by (auto simp: xok_def)
  obtain t ts where b: "bind cfg fresh p x = Ret (x\<lparr>x_w := (x_w x)\<lparr>w_threads := ts\<rparr>, x_thread := (x_thread x)(p \<mapsto> t)\<rparr>)"
    "stacks_ok F ts ((x_thread x)(p \<mapsto> t))" "length ts \<le> length (w_threads (x_w x))"
    using bind_facts [OF x(1) None f] by blast
  then show ?thesis using that [where ts = ts and th = "(x_thread x)(p \<mapsto> t)"] None x(2,3) by (auto simp: limit_ok_def)
next
  case (Some t)
  have "x\<lparr>x_w := (x_w x)\<lparr>w_threads := w_threads (x_w x)\<rparr>, x_thread := x_thread x\<rparr> = x" by simp
  then show ?thesis using that [where ts = "w_threads (x_w x)" and th = "x_thread x"] Some assms(1) by (simp add: xok_def)
qed

lemma kont_facts:
  fixes pk dn :: "nat list"
  assumes "cfg_ok cfg" "w_workId w < 2" "stacks_ok F (w_threads w) th" "limit_ok cfg (w_threads w)" "\<forall>q\<in>S. th q \<noteq> None" "old \<notin> S" "k \<noteq> KNull"
  defines "x \<equiv> \<lparr> x_w = w, x_thread = th, x_parked = pk, x_done = dn \<rparr>"
  shows "\<exists>x'. run_kont cfg k old x = Ret x' \<and> qm (x_w x') + mset (x_parked x') + mset (x_done x') = add_mset old (qm w + mset pk + mset dn)
    \<and> w_workId (x_w x') < 2 \<and> stacks_ok F (w_threads (x_w x')) (x_thread x') \<and> limit_ok cfg (w_threads (x_w x'))
    \<and> (\<forall>q\<in>S. x_thread x' q \<noteq> None) \<and> w_fixed (x_w x') = w_fixed w \<and> w_current (x_w x') = w_current w \<and> w_inbox (x_w x') = w_inbox w
    \<and> (k = KDelete \<longrightarrow> x_parked x' = pk \<and> x_done x' = old # dn)"
proof -
  obtain ts where u: "unbind cfg old x = Ret (x\<lparr>x_w := w\<lparr>w_threads := ts\<rparr>, x_thread := th(old := None)\<rparr>)"
    "stacks_ok F ts (th(old := None))" "limit_ok cfg ts"
    using unbind_facts [OF assms(1), of F x old] assms(3,4) by (auto simp: x_def)
  note un = u [unfolded x_def]
  have ne: "\<forall>q\<in>S. q \<noteq> old" using assms(6) by auto
  show ?thesis
  proof (cases k)
    case KYield
    then show ?thesis using assms pushYield_facts [OF assms(2), of old] w_restD [OF pushYield_facts(3) [OF assms(2), of old]]
      by (simp add: x_def qm_def w_fixed_def)
  next
    case KLifo
    then show ?thesis using assms pushLIFO_facts [OF assms(2), of cfg old] w_restD [OF pushLIFO_facts(3) [OF assms(2), of cfg old]]
      by (simp add: x_def qm_def w_fixed_def)
  qed (use assms un ne in \<open>simp_all add: x_def qm_def km_def w_fixed_def\<close>)
qed

lemma transfer_facts:
  assumes "cfg_ok cfg" "xok cfg F S x" "fresh_ok F fresh x" "p \<noteq> w_current (x_w x)" "(k = KNull) = (w_current (x_w x) = w_system (x_w x))"
    "p = w_system (x_w x) \<or> p \<notin> S"
  shows "\<exists>x'. transfer cfg fresh p k x = Ret x' \<and> xm x' = xm x + (if p = w_system (x_w x) then {#} else {#p#}) \<and> xok cfg F S x'
    \<and> w_fixed (x_w x') = w_fixed (x_w x) \<and> w_current (x_w x') = p \<and> w_inbox (x_w x') = w_inbox (x_w x)
    \<and> (k = KNull \<longrightarrow> x_parked x' = x_parked x \<and> x_done x' = x_done x \<and> qm (x_w x') = qm (x_w x))
    \<and> (k = KDelete \<longrightarrow> x_parked x' = x_parked x \<and> x_done x' = w_current (x_w x) # x_done x)"
proof -
  let ?w = "x_w x"
  obtain ts th where b: "(if x_thread x p = None then bind cfg fresh p x else Ret x) = Ret (x\<lparr>x_w := ?w\<lparr>w_threads := ts\<rparr>, x_thread := th\<rparr>)"
    and st: "stacks_ok F ts th" "limit_ok cfg ts" "\<forall>q\<in>S. th q \<noteq> None"
    by (rule transfer_bind [OF assms(2,3)])
  define w where "w = ?w\<lparr>w_threads := ts, w_current := p\<rparr>"
  define y where "y = \<lparr> x_w = w, x_thread = th, x_parked = x_parked x, x_done = x_done x \<rparr>"
  have y: "x\<lparr>x_thread := th, x_w := ?w\<lparr>w_threads := ts, w_current := p\<rparr>\<rparr> = y" by (simp add: y_def w_def)
  have t: "transfer cfg fresh p k x = run_kont cfg k (w_current ?w) y"
    using assms(4) y by (simp add: transfer_def b checkpoint_def)
  have w: "w_workId w < 2" "w_threads w = ts" "w_system w = w_system ?w" "w_fixed w = w_fixed ?w" "qm w = qm ?w" "w_current w = p" "w_inbox w = w_inbox ?w"
    using assms(2) by (simp_all add: w_def xok_def w_fixed_def qm_def km_def)
  have sys: "\<forall>q\<in>S. q \<notin># xm x" "w_system ?w \<in> S" using assms(2) by (auto simp: xok_def)
  show ?thesis
  proof (cases "k = KNull")
    case True
    then have c: "w_current ?w = w_system ?w" "cur ?w = []" using assms(5) by (simp_all add: cur_def)
    have xmy: "xm y = xm x + {#p#}" using c assms(4) by (simp add: xm_def wm_def y_def w(5) cur_def w(3,6))
    have "p \<notin> S" using assms(4,6) c(1) by simp
    then have "\<forall>q\<in>S. q \<notin># xm y" using sys(1) unfolding xmy by auto
    moreover have "x_w y = w" "x_thread y = th" by (simp_all add: y_def)
    ultimately have "xok cfg F S y" using st w sys(2) by (simp add: xok_def)
    then show ?thesis using t True xmy c(1) assms(4) w by (simp add: y_def)
  next
    case False
    have old: "w_current ?w \<noteq> w_system w" using assms(5) False w(3) by simp
    have "w_current ?w \<in># xm x" using old w(3) by (simp add: xm_def wm_def cur_def)
    then have oldS: "w_current ?w \<notin> S" using sys(1) by auto
    have st': "stacks_ok F (w_threads w) th" "limit_ok cfg (w_threads w)" using st w by simp_all
    from kont_facts [OF assms(1) w(1) st' st(3) oldS False, of "x_parked x" "x_done x"] obtain x' where
      r: "run_kont cfg k (w_current ?w) y = Ret x'" "qm (x_w x') + mset (x_parked x') + mset (x_done x') = add_mset (w_current ?w) (qm w + mset (x_parked x) + mset (x_done x))"
      "w_workId (x_w x') < 2" "stacks_ok F (w_threads (x_w x')) (x_thread x')" "limit_ok cfg (w_threads (x_w x'))"
      "\<forall>q\<in>S. x_thread x' q \<noteq> None" "w_fixed (x_w x') = w_fixed w" "w_current (x_w x') = w_current w" "w_inbox (x_w x') = w_inbox w"
      "k = KDelete \<Longrightarrow> x_parked x' = x_parked x \<and> x_done x' = w_current ?w # x_done x"
      unfolding y_def by blast
    have s': "w_system (x_w x') = w_system ?w" using r(7) w(3) by (simp add: w_fixed_def)
    have "xm x' = qm (x_w x') + mset (x_parked x') + mset (x_done x') + mset (cur (x_w x'))" by (simp add: xm_def wm_def)
    also have "\<dots> = xm x + (if p = w_system ?w then {#} else {#p#})"
      using old w(3,5,6) r(8) s' by (simp add: r(2) xm_def wm_def cur_def)
    finally have xmx: "xm x' = xm x + (if p = w_system ?w then {#} else {#p#})" .
    have "\<forall>q\<in>S. q \<notin># xm x'" using sys assms(6) unfolding xmx by auto
    then have "xok cfg F S x'" using r(3-6) s' sys(2) by (simp add: xok_def)
    then show ?thesis using t r xmx w False by simp
  qed
qed

section \<open>Scheduling decisions\<close>

text \<open>No parcel is in two places.\<close>

definition once :: "nat multiset \<Rightarrow> bool" where
  "once M = (\<forall>p. count M p \<le> 1)"

lemma once_subset: "once M \<Longrightarrow> N \<subseteq># M \<Longrightarrow> once N"
  unfolding once_def by (meson dual_order.trans mset_subset_eq_count)

lemma once_add: "once (add_mset p M) \<longleftrightarrow> p \<notin># M \<and> once M"
proof
  assume a: "once (add_mset p M)"
  have "count M p = 0" using spec [OF a [unfolded once_def], of p] by simp
  moreover have "once M" by (rule once_subset [OF a]) simp
  ultimately show "p \<notin># M \<and> once M" by (simp add: not_in_iff)
next
  assume "p \<notin># M \<and> once M"
  then show "once (add_mset p M)" by (auto simp: once_def not_in_iff)
qed

lemma current_not_queued:
  assumes "xok cfg F S x" "once (xm x)"
  shows "w_current (x_w x) \<notin># qm (x_w x)"
proof (cases "w_current (x_w x) = w_system (x_w x)")
  case True
  then show ?thesis using assms(1) by (auto simp: xok_def xm_def wm_def)
next
  case False
  have "add_mset (w_current (x_w x)) (qm (x_w x)) \<subseteq># xm x" using False by (simp add: xm_def wm_def cur_def)
  from once_subset [OF assms(2) this] show ?thesis by (simp add: once_add)
qed

lemma replace_worker:
  assumes "xok cfg F S x" "fresh_ok F fresh x" "w_rest w = w_rest (x_w x)" "w_workId w < 2" "qm (x_w x) + A = qm w + B"
    "\<forall>q\<in>S. q \<notin># A"
  shows "xok cfg F S (x\<lparr>x_w := w\<rparr>)" "fresh_ok F fresh (x\<lparr>x_w := w\<rparr>)" "xm x + A = xm (x\<lparr>x_w := w\<rparr>) + B" "w_fixed w = w_fixed (x_w x)"
    "w_current w = w_current (x_w x)" "w_system w = w_system (x_w x)"
proof -
  note r = w_restD [OF assms(3)]
  have "xm x + A = (qm (x_w x) + A) + mset (cur (x_w x)) + mset (x_parked x) + mset (x_done x)" by (simp add: xm_def wm_def)
  also have "\<dots> = xm (x\<lparr>x_w := w\<rparr>) + B" unfolding assms(5) by (simp add: xm_def wm_def r)
  finally show xm: "xm x + A = xm (x\<lparr>x_w := w\<rparr>) + B" .
  have "\<forall>q\<in>S. q \<notin># xm (x\<lparr>x_w := w\<rparr>)" using assms(1,6) union_iff xm by (metis xok_def)
  then show "xok cfg F S (x\<lparr>x_w := w\<rparr>)" using assms(1,4) by (simp add: xok_def r)
  show "fresh_ok F fresh (x\<lparr>x_w := w\<rparr>)" using assms(2) by (simp add: fresh_ok_def r)
  show "w_fixed w = w_fixed (x_w x)" "w_current w = w_current (x_w x)" "w_system w = w_system (x_w x)" by (simp_all add: w_fixed_def r)
qed

text \<open>Running a parcel that has just been taken from the queues of the worker.\<close>

lemma transfer_taken:
  assumes "cfg_ok cfg" "xok cfg F S x" "fresh_ok F fresh x" "w_current (x_w x) \<notin># qm (x_w x) + A" "\<forall>q\<in>S. q \<notin># A"
    and w: "w_rest w = w_rest (x_w x)" "w_workId w < 2" "qm (x_w x) + A = add_mset p (qm w)"
    and k: "(k = KNull) = (w_current (x_w x) = w_system (x_w x))"
  shows "\<exists>x'. transfer cfg fresh p k (x\<lparr>x_w := w\<rparr>) = Ret x' \<and> xm x' = xm x + A \<and> xok cfg F S x' \<and> w_fixed (x_w x') = w_fixed (x_w x)
    \<and> w_current (x_w x') = p \<and> w_inbox (x_w x') = w_inbox w
    \<and> (k = KNull \<longrightarrow> x_parked x' = x_parked x \<and> x_done x' = x_done x \<and> qm (x_w x') = qm w)
    \<and> (k = KDelete \<longrightarrow> x_parked x' = x_parked x \<and> x_done x' = w_current (x_w x) # x_done x)"
proof -
  have eq: "qm (x_w x) + A = qm w + {#p#}" using w(3) by simp
  note r = replace_worker [OF assms(2,3) w(1,2) eq assms(5)]
  have "p \<in># qm (x_w x) + A" by (simp add: w(3))
  then have ne: "p \<noteq> w_current (x_w x)" using assms(4) by metis
  have "p \<in># xm x + A" unfolding r(3) by simp
  then have pS: "p \<notin> S" using assms(2,5) by (auto simp: xok_def)
  then have sys: "p \<noteq> w_system (x_w x)" using assms(2) by (auto simp: xok_def)
  have k': "(k = KNull) = (w_current (x_w (x\<lparr>x_w := w\<rparr>)) = w_system (x_w (x\<lparr>x_w := w\<rparr>)))" using k r(5,6) by simp
  have ne': "p \<noteq> w_current (x_w (x\<lparr>x_w := w\<rparr>))" using ne r(5) by simp
  from transfer_facts [OF assms(1) r(1,2) ne' k' disjI2 [OF pS]] show ?thesis using r(3,4,5,6) sys by auto
qed

lemma schedule_facts:
  assumes "cfg_ok cfg" "xok cfg F S x" "fresh_ok F fresh x" "once (xm x)" "w_current (x_w x) \<noteq> w_system (x_w x)" "k \<noteq> KNull"
  shows "\<exists>x'. schedule cfg fresh k x = Ret x' \<and> xm x' = xm x \<and> xok cfg F S x' \<and> w_fixed (x_w x') = w_fixed (x_w x)
    \<and> ([] \<notin> set (w_inbox (x_w x)) \<longrightarrow> [] \<notin> set (w_inbox (x_w x')))
    \<and> (k = KDelete \<longrightarrow> x_parked x' = x_parked x \<and> x_done x' = w_current (x_w x) # x_done x)"
proof -
  let ?w = "x_w x"
  have k: "(k = KNull) = (w_current ?w = w_system ?w)" using assms(5,6) by simp
  have id: "w_workId ?w < 2" using assms(2) by (simp add: xok_def)
  note c = current_not_queued [OF assms(2,4)]
  have to_system: "\<exists>x'. transfer cfg fresh (w_system w) k (x\<lparr>x_w := w\<rparr>) = Ret x' \<and> xm x' = xm x \<and> xok cfg F S x' \<and> w_fixed (x_w x') = w_fixed ?w
      \<and> w_inbox (x_w x') = w_inbox w \<and> (k = KDelete \<longrightarrow> x_parked x' = x_parked x \<and> x_done x' = w_current ?w # x_done x)"
    if "w_rest w = w_rest ?w" "w_workId w < 2" "qm w = qm ?w" for w
  proof -
    note r = replace_worker [OF assms(2,3) that(1,2), of "{#}" "{#}"]
    have "w_system w \<noteq> w_current (x_w (x\<lparr>x_w := w\<rparr>))" "(k = KNull) = (w_current (x_w (x\<lparr>x_w := w\<rparr>)) = w_system (x_w (x\<lparr>x_w := w\<rparr>)))"
      using assms(5,6) r that(3) by simp_all
    from transfer_facts [OF assms(1) _ _ this, of F S fresh] show ?thesis using r that(3) by auto
  qed
  show ?thesis
  proof (cases "w_state ?w = RUN")
    case False
    then show ?thesis using to_system [of ?w] id by (auto simp: schedule_def)
  next
    case True
    obtain m w where m: "handleMail cfg ?w = Ret (m, w)" "qm ?w = qm w + opt_m m" "w_rest w = w_rest ?w" "w_workId w = w_workId ?w"
      "[] \<notin> set (w_inbox ?w) \<longrightarrow> w_inbox w = []"
      using handleMail_facts [OF id c] by blast
    show ?thesis
    proof (cases m)
      case (Some p)
      have "qm ?w + {#} = add_mset p (qm w)" using m(2) Some by (simp add: opt_m_def)
      from transfer_taken [OF assms(1-3) _ _ m(3) _ this k] show ?thesis using True m Some c id by (fastforce simp: schedule_def)
    next
      case None
      have q: "qm w = qm ?w" using m(2) None by (simp add: opt_m_def)
      have "w_current w \<notin># qm w" unfolding q w_restD(4) [OF m(3)] by (rule c)
      then have nc: "w_current w \<notin># km w" by (simp add: qm_def)
      have wi: "w_workId w < 2" using id m(4) by simp
      show ?thesis
      proof (cases rule: popLIFO_cases [OF wi nc, of cfg])
        case 1
        then show ?thesis using to_system [OF m(3) _ q] True m(1,4,5) None id by (fastforce simp: schedule_def)
      next
        case (2 p w')
        have e: "qm ?w + {#} = add_mset p (qm w')" unfolding q [symmetric] by (simp add: qm_def 2(2,3))
        have "w_rest w' = w_rest ?w" "w_workId w' < 2" using 2(4,5) m(3,4) id by simp_all
        from transfer_taken [OF assms(1-3) _ _ this e k] show ?thesis using True m(1,5) None c 2(1,3) by (fastforce simp: schedule_def)
      qed
    qed
  qed
qed

lemma run_turn_facts:
  assumes "cfg_ok cfg" "xok cfg F S x" "fresh_ok F fresh x" "once (xm x)" "w_current (x_w x) = w_system (x_w x)" "set ns \<inter> S = {}"
  shows "\<exists>found got x'. run_turn cfg fresh ns x = Ret (found, got, x') \<and> xm x' = xm x + mset got \<and> got \<in> {[], ns} \<and> xok cfg F S x'
    \<and> w_fixed (x_w x') = w_fixed (x_w x) \<and> x_parked x' = x_parked x \<and> x_done x' = x_done x
    \<and> (found \<longrightarrow> qm (x_w x) + mset got = add_mset (w_current (x_w x')) (qm (x_w x')) \<and> w_current (x_w x') \<noteq> w_system (x_w x'))
    \<and> (\<not> found \<longrightarrow> fresh_ok F fresh x' \<and> w_current (x_w x') = w_system (x_w x'))
    \<and> ([] \<notin> set (w_inbox (x_w x)) \<longrightarrow> [] \<notin> set (w_inbox (x_w x')) \<and> (\<not> found \<longrightarrow> qm (x_w x') = {#}))"
proof -
  let ?w = "x_w x"
  have k: "(KNull = KNull) = (w_current ?w = w_system ?w)" using assms(5) by simp
  have id: "w_workId ?w < 2" and S: "w_system ?w \<in> S" using assms(2) by (simp_all add: xok_def)
  note c = current_not_queued [OF assms(2,4)]
  have go: "\<exists>x'. transfer cfg fresh p KNull (x\<lparr>x_w := w\<rparr>) = Ret x' \<and> xm x' = xm x + mset got \<and> xok cfg F S x' \<and> w_fixed (x_w x') = w_fixed ?w
      \<and> x_parked x' = x_parked x \<and> x_done x' = x_done x \<and> qm ?w + mset got = add_mset (w_current (x_w x')) (qm (x_w x'))
      \<and> w_current (x_w x') \<noteq> w_system (x_w x') \<and> w_inbox (x_w x') = w_inbox w"
    if "w_rest w = w_rest ?w" "w_workId w < 2" "qm ?w + mset got = add_mset p (qm w)" "got \<in> {[], ns}" for w p got
  proof -
    have a: "\<forall>q\<in>S. q \<notin># mset got" "w_current ?w \<notin># qm ?w + mset got" using assms(5,6) that(4) c S by auto
    have "p \<noteq> w_system ?w" using a(2) that(3) assms(5) by auto
    then show ?thesis using transfer_taken [OF assms(1-3) a(2,1) that(1-3) k] that(3) by (auto simp: w_fixed_def)
  qed
  obtain m w where m: "handleMail cfg ?w = Ret (m, w)" "qm ?w = qm w + opt_m m" "w_rest w = w_rest ?w" "w_workId w = w_workId ?w"
    "[] \<notin> set (w_inbox ?w) \<longrightarrow> w_inbox w = []" using handleMail_facts [OF id c] by blast
  show ?thesis
  proof (cases m)
    case (Some p)
    have "qm ?w + mset [] = add_mset p (qm w)" using m(2) Some by (simp add: opt_m_def)
    from go [OF m(3) _ this] show ?thesis using m(1,4,5) Some id by (fastforce simp: run_turn_def)
  next
    case None
    have q: "qm w = qm ?w" using m(2) None by (simp add: opt_m_def)
    have "w_current w \<notin># qm w" unfolding q w_restD(4) [OF m(3)] by (rule c)
    then have nc: "w_current w \<notin># km w" by (simp add: qm_def)
    have wi: "w_workId w < 2" using id m(4) by simp
    show ?thesis
    proof (cases rule: popLIFO_cases [OF wi nc, of cfg])
      case (2 p w')
      have e: "qm ?w + mset [] = add_mset p (qm w')" unfolding q [symmetric] by (simp add: qm_def 2(2,3))
      have "w_rest w' = w_rest ?w" "w_workId w' < 2" using 2(4,5) m(3,4) id by simp_all
      from go [OF this e] show ?thesis using m(1,5) None 2(1,3) by (fastforce simp: run_turn_def)
    next
      case 1
      define v where "v = fold (pushLIFO cfg) ns (handleEpoch w)"
      have ep: "w_workId (handleEpoch w) < 2" "km (handleEpoch w) = km w" "w_inbox (handleEpoch w) = w_inbox w" "w_rest (handleEpoch w) = w_rest w"
        by (simp_all add: handleEpoch_def km_def w_rest_def)
      note f = fold_pushLIFO_facts [OF ep(1), of cfg ns]
      have v: "km v = km w + mset ns" "w_inbox v = w_inbox w" "w_rest v = w_rest ?w" "w_workId v = 1 - w_workId w"
        using f ep m(3) by (simp_all add: v_def handleEpoch_def)
      have vi: "w_workId v < 2" by (simp add: v(4))
      have vq: "qm ?w + mset ns = qm v" unfolding q [symmetric] by (simp add: qm_def v(1,2))
      have vc: "w_current v \<notin># km v"
        using nc assms(5,6) S w_restD(4) [OF m(3)] w_restD(4) [OF v(3)] by (auto simp: v(1))
      have net: "handleNetwork cfg ns (handleEpoch w) = popLIFO cfg v" by (simp add: handleNetwork_def v_def)
      show ?thesis
      proof (cases rule: popLIFO_cases [OF vi vc, of cfg])
        case (2 p w')
        have e: "qm ?w + mset ns = add_mset p (qm w')" unfolding vq by (simp add: qm_def 2(2,3))
        have "w_rest w' = w_rest ?w" "w_workId w' < 2" using 2(4,5) v(3) vi by simp_all
        from go [OF this e] show ?thesis using m(1,5) None 1(1) net 2(1,3) v(2) by (fastforce simp: run_turn_def)
      next
        case empty: 1
        have "qm ?w + mset ns = qm v + {#}" using vq by simp
        note r = replace_worker [OF assms(2,3) v(3) vi this]
        have s: "\<forall>q\<in>S. q \<notin># mset ns" using assms(6) by auto
        have other: "w_queues v 0 = [] \<and> w_queues v 1 = []" if "ns = []"
          using 1(2) empty(2) wi that by (auto simp: v_def handleEpoch_def less2)
        have nsq: "ns = []"
        proof (rule ccontr)
          assume "ns \<noteq> []"
          then obtain a n where ns: "ns = a @ [n]" by (metis rev_exhaust)
          have "w_queues v (w_workId v) \<noteq> []" by (simp add: v_def ns pushLIFO_def Let_def)
          then show False using empty(2) by simp
        qed
        have none: "qm v = {#}" if "[] \<notin> set (w_inbox ?w)" using other [OF nsq] m(5) that v(2) by (simp add: qm_def km_def)
        have "run_turn cfg fresh ns x = Ret (False, ns, x\<lparr>x_w := v\<rparr>)" using m(1) None 1(1) net empty(1) by (simp add: run_turn_def)
        then show ?thesis using r s none assms(5) m(5) v(2) by auto
      qed
    qed
  qed
qed

section \<open>A worker left to itself\<close>

inductive drive :: "wcfg \<Rightarrow> nat set \<Rightarrow> nat \<Rightarrow> ctx \<Rightarrow> ctx \<Rightarrow> bool" for cfg F where
  zero: "drive cfg F 0 x x"
| step: "fresh_ok F fresh x \<Longrightarrow> drive_step cfg fresh x = Ret y \<Longrightarrow> drive cfg F n y z \<Longrightarrow> drive cfg F (Suc n) x z"

definition alone :: "wcfg \<Rightarrow> nat set \<Rightarrow> nat set \<Rightarrow> ctx \<Rightarrow> bool" where
  "alone cfg F S x = (xok cfg F S x \<and> once (xm x) \<and> w_state (x_w x) = RUN \<and> [] \<notin> set (w_inbox (x_w x)))"

definition work :: "ctx \<Rightarrow> nat" where
  "work x = 2 * size (qm (x_w x)) + length (cur (x_w x))"

lemma fresh_exists:
  assumes "xok cfg F S x" "finite F"
  shows "\<exists>t. fresh_ok F t x"
proof -
  have "finite (ran (x_thread x))" using assms(1) by (simp add: xok_def stacks_ok_def finite_ran)
  then have "finite (set (w_threads (x_w x)) \<union> F \<union> ran (x_thread x))" using assms(2) by simp
  from ex_new_if_finite [OF infinite_UNIV_nat this] obtain t where "t \<notin> set (w_threads (x_w x)) \<union> F \<union> ran (x_thread x)" ..
  then show ?thesis by (auto simp: fresh_ok_def)
qed

lemma drive_step_facts:
  assumes "cfg_ok cfg" "alone cfg F S x" "fresh_ok F fresh x"
  shows "\<exists>y. drive_step cfg fresh x = Ret y \<and> alone cfg F S y \<and> x_parked y = x_parked x \<and> xm y = xm x \<and> work y \<le> work x - 1"
proof (cases "w_current (x_w x) = w_system (x_w x)")
  case True
  have x: "xok cfg F S x" "once (xm x)" "[] \<notin> set (w_inbox (x_w x))" using assms(2) by (simp_all add: alone_def)
  have "set [] \<inter> S = {}" by simp
  from run_turn_facts [OF assms(1) x(1) assms(3) x(2) True this] obtain found got y where
    R: "run_turn cfg fresh [] x = Ret (found, got, y) \<and> xm y = xm x + mset got \<and> got \<in> {[], []} \<and> xok cfg F S y
    \<and> w_fixed (x_w y) = w_fixed (x_w x) \<and> x_parked y = x_parked x \<and> x_done y = x_done x
    \<and> (found \<longrightarrow> qm (x_w x) + mset got = add_mset (w_current (x_w y)) (qm (x_w y)) \<and> w_current (x_w y) \<noteq> w_system (x_w y))
    \<and> (\<not> found \<longrightarrow> fresh_ok F fresh y \<and> w_current (x_w y) = w_system (x_w y))
    \<and> ([] \<notin> set (w_inbox (x_w x)) \<longrightarrow> [] \<notin> set (w_inbox (x_w y)) \<and> (\<not> found \<longrightarrow> qm (x_w y) = {#}))"
    by (elim exE)
  have r: "run_turn cfg fresh [] x = Ret (found, got, y)" "xm y = xm x + mset got" "got \<in> {[], []}" "xok cfg F S y"
    "w_fixed (x_w y) = w_fixed (x_w x)" "x_parked y = x_parked x"
    "found \<Longrightarrow> qm (x_w x) + mset got = add_mset (w_current (x_w y)) (qm (x_w y)) \<and> w_current (x_w y) \<noteq> w_system (x_w y)"
    "\<not> found \<Longrightarrow> w_current (x_w y) = w_system (x_w y)" "\<not> found \<Longrightarrow> qm (x_w y) = {#}" "[] \<notin> set (w_inbox (x_w y))"
    using R x(3) by blast+
  have got: "got = []" using r(3) by simp
  have "work y \<le> work x - 1"
  proof (cases found)
    case True
    then have "size (qm (x_w x)) = Suc (size (qm (x_w y)))" using r(7) got by (metis mset.simps(1) add_0_right size_add_mset)
    then show ?thesis by (simp add: work_def cur_def)
  next
    case False
    then show ?thesis using r(8,9) by (simp add: work_def cur_def)
  qed
  then show ?thesis using r got assms(2) True by (auto simp: drive_step_def alone_def w_fixed_def)
next
  case False
  have x: "xok cfg F S x" "once (xm x)" "[] \<notin> set (w_inbox (x_w x))" using assms(2) by (simp_all add: alone_def)
  obtain y where r: "schedule cfg fresh KDelete x = Ret y" "xm y = xm x" "xok cfg F S y" "w_fixed (x_w y) = w_fixed (x_w x)"
    "[] \<notin> set (w_inbox (x_w y))" "x_parked y = x_parked x" "x_done y = w_current (x_w x) # x_done x"
    using schedule_facts [OF assms(1) x(1) assms(3) x(2) False, of KDelete] x(3) by auto
  have "size (xm y) = size (xm x)" by (simp add: r(2))
  then have "Suc (size (wm (x_w y))) = size (wm (x_w x))" by (simp add: xm_def r(6,7))
  then have "work y \<le> work x - 1" using False by (simp add: work_def wm_def cur_def)
  then show ?thesis using r assms(2) False by (auto simp: drive_step_def alone_def w_fixed_def)
qed

lemma drive_facts:
  assumes "cfg_ok cfg" "drive cfg F n x z" "alone cfg F S x"
  shows "alone cfg F S z \<and> x_parked z = x_parked x \<and> xm z = xm x \<and> work z \<le> work x - n"
  using assms(2,3)
proof (induction rule: drive.induct)
  case (step fresh x y n z)
  then show ?case using drive_step_facts [OF assms(1) step.prems step.hyps(1)] by fastforce
qed simp

lemma drive_exists:
  assumes "cfg_ok cfg" "finite F" "alone cfg F S x"
  shows "\<exists>z. drive cfg F n x z"
  using assms(3)
proof (induction n arbitrary: x)
  case (Suc n)
  have "xok cfg F S x" using Suc.prems by (simp add: alone_def)
  then obtain t where t: "fresh_ok F t x" using fresh_exists [OF _ assms(2)] by blast
  obtain y where "drive_step cfg t x = Ret y" "alone cfg F S y" using drive_step_facts [OF assms(1) Suc.prems t] by blast
  then show ?case using Suc.IH drive.step [OF t] by blast
qed (blast intro: drive.zero)

text \<open>C16: A running worker left to itself runs everything it has. Whatever is in its mailbox, in its
  work queue and in the queue of yielded threads, if threads run to their end and nothing new
  arrives, the worker never stops on an error, and after at most two steps for each parcel all of
  them have been run and deleted, and nothing else.\<close>
theorem worker_drains:
  assumes "cfg_ok cfg" "finite F" "alone cfg F S x"
  shows "(\<exists>z. drive cfg F n x z) \<and>
    (\<forall>z. drive cfg F n x z \<and> 2 * size (wm (x_w x)) \<le> n \<longrightarrow>
      wm (x_w z) = {#} \<and> mset (x_done z) = wm (x_w x) + mset (x_done x) \<and> x_parked z = x_parked x)"
proof -
  have "wm (x_w z) = {#} \<and> mset (x_done z) = wm (x_w x) + mset (x_done x) \<and> x_parked z = x_parked x"
    if "drive cfg F n x z" "2 * size (wm (x_w x)) \<le> n" for z
  proof -
    note f = drive_facts [OF assms(1) that(1) assms(3)]
    have "work x \<le> 2 * size (wm (x_w x))" by (simp add: work_def wm_def)
    then have "work z = 0" using f that(2) by simp
    then have w: "wm (x_w z) = {#}" by (simp add: work_def wm_def)
    have "wm (x_w z) + mset (x_parked z) + mset (x_done z) = wm (x_w x) + mset (x_parked x) + mset (x_done x)" using f unfolding xm_def by blast
    then have "mset (x_parked x) + mset (x_done z) = mset (x_parked x) + (wm (x_w x) + mset (x_done x))" using f w by (simp add: ac_simps)
    then have "mset (x_done z) = wm (x_w x) + mset (x_done x)" by (rule add_left_imp_eq)
    then show ?thesis using w f by simp
  qed
  then show ?thesis using drive_exists [OF assms] by blast
qed

text \<open>An example: two stacks cached at most, asserts on.\<close>

definition wcfg_two :: wcfg where
  "wcfg_two = \<lparr> c_debug = True, c_limit = 2, c_wfthreshold = 0, c_size = length, c_affinity = (\<lambda>p. -1),
     c_interrupt = (\<lambda>p. False), c_default = (\<lambda>p. True), c_stealHalf = (\<lambda>p. False) \<rparr>"

definition ctx_two :: ctx where
  "ctx_two = \<lparr> x_w = (worker_new 0 100)\<lparr>w_state := RUN, w_queues := (\<lambda>k. if k = 0 then [1] else if k = 1 then [2] else []), w_inbox := [[3]]\<rparr>,
     x_thread = [100 \<mapsto> 100], x_parked = [], x_done = [] \<rparr>"

lemma wcfg_two_ok: "cfg_ok wcfg_two"
  by (simp add: cfg_ok_def wcfg_two_def)

lemma wm_ctx_two: "wm (x_w ctx_two) = {#1, 2, 3#}"
  by (simp add: ctx_two_def worker_new_def wm_def qm_def km_def cur_def)

lemma alone_ctx_two: "alone wcfg_two {} {100} ctx_two"
  by (auto simp: alone_def xok_def once_def xm_def wm_ctx_two)
    (auto simp: ctx_two_def worker_new_def wcfg_two_def stacks_ok_def limit_ok_def)

theorem worker_drains_witness:
  "cfg_ok wcfg_two \<and> alone wcfg_two {} {100} ctx_two \<and>
   (\<exists>z. drive wcfg_two {} 6 ctx_two z \<and> wm (x_w z) = {#} \<and> mset (x_done z) = {#1, 2, 3#})"
proof -
  note r = worker_drains [OF wcfg_two_ok finite.emptyI alone_ctx_two, where n = 6]
  have "x_done ctx_two = []" by (simp add: ctx_two_def)
  then show ?thesis using r wcfg_two_ok alone_ctx_two by (auto simp: wm_ctx_two)
qed

section \<open>The workers of a locality\<close>

lemma spawn_here_facts:
  assumes "cfg_ok cfg" "xok cfg F S x" "fresh_ok F fresh x" "p \<notin># xm x" "p \<notin> S"
  shows "\<exists>x'. spawn_here cfg fresh inLCO p x = Ret x' \<and> xm x' = add_mset p (xm x) \<and> xok cfg F S x' \<and> w_fixed (x_w x') = w_fixed (x_w x)"
proof -
  let ?w = "x_w x"
  have id: "w_workId ?w < 2" and S: "w_system ?w \<in> S" using assms(2) by (simp_all add: xok_def)
  note f = pushLIFO_facts [OF id, of cfg p]
  have pushed: "qm ?w + {#p#} = qm (pushLIFO cfg p ?w) + {#}" "w_workId (pushLIFO cfg p ?w) < 2" "\<forall>q\<in>S. q \<notin># {#p#}"
    using id assms(5) by (auto simp: qm_def f)
  note r = replace_worker [OF assms(2,3) f(3) pushed(2,1,3)]
  have later: "xm (x\<lparr>x_w := pushLIFO cfg p ?w\<rparr>) = add_mset p (xm x)" "xok cfg F S (x\<lparr>x_w := pushLIFO cfg p ?w\<rparr>)"
    "w_fixed (pushLIFO cfg p ?w) = w_fixed ?w"
    using r by simp_all
  have ne: "p \<noteq> w_current ?w"
    using assms(4,5) S by (cases "w_current ?w = w_system ?w") (auto simp: xm_def wm_def cur_def)
  have "p \<noteq> w_system ?w" using S assms(5) by auto
  then show ?thesis
    using transfer_facts [OF assms(1-3) ne _ disjI2 [OF assms(5)], of "if w_current ?w = w_system ?w then KNull else KLifo"] later
    by (auto simp: spawn_here_def Let_def)
qed

lemma stealHalf_loop_facts:
  assumes "w_workId w < 2" "w_current w \<notin># km w"
  shows "\<exists>half dropped' w'. stealHalf_loop cfg n parcels dropped w = Ret (half, dropped', w')
    \<and> km w + mset parcels + mset dropped = km w' + mset half + mset dropped' \<and> w_inbox w' = w_inbox w \<and> w_rest w' = w_rest w \<and> w_workId w' = w_workId w"
  using assms
proof (induction n arbitrary: parcels dropped w)
  case (Suc n)
  show ?case
  proof (cases rule: popLIFO_cases [OF Suc.prems, of cfg])
    case (2 p v)
    have "w_workId v < 2" "w_current v \<notin># km v" using Suc.prems 2(2,5) w_restD(4) [OF 2(4)] by simp_all
    then show ?thesis using Suc.IH [of v "p # parcels" dropped] Suc.IH [of v parcels "p # dropped"] 2 by auto
  qed simp
qed simp

lemma stealHalf_facts:
  assumes "w_workId w < 2" "w_current w \<notin># km w"
  shows "\<exists>half dropped w'. stealHalf cfg w = Ret (half, dropped, w') \<and> km w = km w' + mset half + mset dropped
    \<and> w_inbox w' = w_inbox w \<and> w_rest w' = w_rest w \<and> w_workId w' = w_workId w"
  using stealHalf_loop_facts [OF assms, of cfg "length (w_queues w (w_workId w)) div 2" "[]" "[]"] by (simp add: stealHalf_def Let_def)

lemma sleep_turn_facts:
  assumes "w_workId w < 2" "w_current w \<notin># qm w"
  shows "\<exists>w'. sleep_turn cfg w = Ret w' \<and> qm w' = qm w \<and> w_rest w' = w_rest w \<and> w_workId w' < 2"
proof -
  let ?y = "w_queues w (1 - w_workId w)" and ?v = "w\<lparr>w_queues := (w_queues w)(1 - w_workId w := [])\<rparr>"
  define u where "u = fold (pushLIFO cfg) (rev ?y) ?v"
  have v: "w_workId ?v < 2" "km ?v + mset ?y = km w" "w_inbox ?v = w_inbox w" "w_rest ?v = w_rest w"
    using assms(1) by (auto simp: km_def w_rest_def less2)
  have u: "km u = km w" "w_inbox u = w_inbox w" "w_rest u = w_rest w" "w_workId u < 2"
    using fold_pushLIFO_facts [OF v(1), of cfg "rev ?y"] v by (simp_all add: u_def)
  have q: "qm u = qm w" by (simp add: qm_def u)
  have "w_current u \<notin># qm u" unfolding q w_restD(4) [OF u(3)] by (rule assms(2))
  from handleMail_facts [OF u(4) this, of cfg] obtain m t where
    h: "handleMail cfg u = Ret (m, t)" "qm u = qm t + opt_m m" "w_rest t = w_rest u" "w_workId t = w_workId u" by blast
  have st: "sleep_turn cfg w = Ret (case m of None \<Rightarrow> t | Some p \<Rightarrow> pushLIFO cfg p t)"
    using h(1) by (simp add: sleep_turn_def Let_def u_def)
  have "w_workId t < 2" using h(4) u(4) by simp
  then show ?thesis using st h q u(3) pushLIFO_facts [of t cfg] by (cases m) (auto simp: opt_m_def qm_def)
qed

definition others :: "worker list \<Rightarrow> nat \<Rightarrow> nat set" where
  "others ws i = (\<Union>j\<in>{..<length ws} - {i}. set (w_threads (ws ! j)))"

definition lm :: "loc \<Rightarrow> nat multiset" where
  "lm l = sum_list (map wm (l_workers l)) + mset (l_parked l) + mset (l_done l)"

text \<open>
  A locality in order while the parcels \<^verbatim>\<open>H\<close> are on their way from one place to another: every parcel
  that has entered is in exactly one place, and each worker is in order beside the others.
\<close>

definition l_ok :: "wcfg \<Rightarrow> nat multiset \<Rightarrow> loc \<Rightarrow> bool" where
  "l_ok cfg H l = (lm l + H = mset (l_entered l) \<and> distinct (l_entered l) \<and> systems (l_workers l) \<inter> set (l_entered l) = {}
     \<and> (\<forall>i < length (l_workers l). w_id (l_workers l ! i) = i
          \<and> (\<forall>v. w_lastVictim (l_workers l ! i) = Some v \<longrightarrow> v \<noteq> i \<and> v < length (l_workers l))
          \<and> xok cfg (others (l_workers l) i) (systems (l_workers l)) (ctx_of l i)))"

lemma sum_list_update:
  fixes ms :: "'a multiset list"
  shows "i < length ms \<Longrightarrow> sum_list (ms[i := m]) + ms ! i = sum_list ms + m"
  by (induction ms arbitrary: i) (auto simp: ac_simps split: nat.splits)

lemma lm_put_ctx:
  assumes "i < length (l_workers l)"
  shows "lm (put_ctx i x l) + xm (ctx_of l i) = lm l + xm x"
  using sum_list_update [of i "map wm (l_workers l)" "wm (x_w x)"] assms
  by (simp add: lm_def put_ctx_def xm_def ctx_of_def map_update ac_simps)

lemma sum_list_member:
  fixes ms :: "'a multiset list"
  shows "m \<in> set ms \<Longrightarrow> m \<subseteq># sum_list ms"
  by (induction ms) (auto intro: subset_mset.add_increasing subset_mset.add_increasing2)

lemma lm_ctx: "i < length (l_workers l) \<Longrightarrow> xm (ctx_of l i) \<subseteq># lm l"
  using sum_list_member [of "wm (l_workers l ! i)" "map wm (l_workers l)"]
  by (simp add: lm_def xm_def ctx_of_def subset_mset.add_mono)

lemma l_okD:
  assumes "l_ok cfg H l"
  shows "lm l + H = mset (l_entered l)" "distinct (l_entered l)" "systems (l_workers l) \<inter> set (l_entered l) = {}"
    "i < length (l_workers l) \<Longrightarrow> w_id (l_workers l ! i) = i"
    "i < length (l_workers l) \<Longrightarrow> w_lastVictim (l_workers l ! i) = Some v \<Longrightarrow> v \<noteq> i \<and> v < length (l_workers l)"
    "i < length (l_workers l) \<Longrightarrow> xok cfg (others (l_workers l) i) (systems (l_workers l)) (ctx_of l i)"
  using assms unfolding l_ok_def by blast+

lemma others_same: "others (ws[i := w]) i = others ws i"
  by (simp add: others_def)

lemma others_update:
  assumes "j \<noteq> i" "i < length ws"
  shows "others (ws[i := w]) j \<subseteq> others ws i \<union> set (w_threads w)" "others (ws[i := w]) j \<subseteq> others ws j \<union> set (w_threads w)"
    "j < length ws \<Longrightarrow> set (w_threads (ws ! j)) \<subseteq> others ws i"
proof -
  have w: "set (w_threads (ws[i := w] ! k)) = (if k = i then set (w_threads w) else set (w_threads (ws ! k)))" for k
    using assms(2) by (simp add: nth_list_update)
  show "others (ws[i := w]) j \<subseteq> others ws i \<union> set (w_threads w)" "others (ws[i := w]) j \<subseteq> others ws j \<union> set (w_threads w)"
    unfolding others_def w by (auto split: if_splits)
  show "j < length ws \<Longrightarrow> set (w_threads (ws ! j)) \<subseteq> others ws i" using assms(1) by (auto simp: others_def)
qed

lemma systems_update: "w_system w = w_system (ws ! i) \<Longrightarrow> systems (ws[i := w]) = systems ws"
proof -
  assume "w_system w = w_system (ws ! i)"
  then have "map w_system (ws[i := w]) = map w_system ws" by (simp add: map_update list_update_same_conv) (metis list_update_id map_update)
  then show ?thesis unfolding systems_def by (metis image_set)
qed

lemma stacks_ok_other:
  assumes "stacks_ok F ts th" "set us \<subseteq> F" "G \<subseteq> F \<union> set ts" "distinct us" "set us \<inter> G = {}"
  shows "stacks_ok G us th"
  using assms unfolding stacks_ok_def by blast

lemma put_ctx_ok:
  assumes ok: "l_ok cfg H l" and i: "i < length (l_workers l)" and x: "xok cfg (others (l_workers l) i) (systems (l_workers l)) x"
    and w: "w_id (x_w x) = i" "w_system (x_w x) = w_system (l_workers l ! i)" "\<And>v. w_lastVictim (x_w x) = Some v \<Longrightarrow> v \<noteq> i \<and> v < length (l_workers l)"
    and m: "xm x + H' = xm (ctx_of l i) + H"
  shows "l_ok cfg H' (put_ctx i x l)"
proof -
  let ?ws = "l_workers l" and ?l = "put_ctx i x l"
  have ws: "l_workers ?l = ?ws[i := x_w x]" "l_thread ?l = x_thread x" "l_entered ?l = l_entered l" by (simp_all add: put_ctx_def)
  have sy: "systems (?ws[i := x_w x]) = systems ?ws" by (rule systems_update [OF w(2)])
  have "lm ?l + H' + xm (ctx_of l i) = (lm ?l + xm (ctx_of l i)) + H'" by (simp add: ac_simps)
  also have "\<dots> = lm l + (xm x + H')" unfolding lm_put_ctx [OF i] by (simp add: ac_simps)
  also have "\<dots> = lm l + H + xm (ctx_of l i)" unfolding m by (simp add: ac_simps)
  finally have lm: "lm ?l + H' = mset (l_entered l)" using l_okD(1) [OF ok] by simp
  have ctx: "ctx_of ?l i = x" using i by (simp add: ctx_of_def put_ctx_def)
  have inv: "xok cfg (others (?ws[i := x_w x]) j) (systems ?ws) (ctx_of ?l j)" if j: "j < length ?ws" for j
  proof (cases "j = i")
    case True
    then show ?thesis using x ctx others_same by simp
  next
    case False
    note o = others_update [OF False i]
    have xj: "xok cfg (others ?ws j) (systems ?ws) (ctx_of l j)" by (rule l_okD(6) [OF ok j])
    have cj: "x_w (ctx_of ?l j) = ?ws ! j" "x_thread (ctx_of ?l j) = x_thread x"
      using False by (simp_all add: ctx_of_def put_ctx_def)
    have sx: "stacks_ok (others ?ws i) (w_threads (x_w x)) (x_thread x)" using x by (simp add: xok_def)
    have sj: "stacks_ok (others ?ws j) (w_threads (?ws ! j)) (l_thread l)" "w_workId (?ws ! j) < 2" "w_system (?ws ! j) \<in> systems ?ws" "limit_ok cfg (w_threads (?ws ! j))"
      using xj by (simp_all add: xok_def ctx_of_def)
    have disj: "set (w_threads (?ws ! j)) \<inter> others (?ws[i := x_w x]) j = {}"
    proof -
      have "others (?ws[i := x_w x]) j \<subseteq> others ?ws j \<union> set (w_threads (x_w x))" by (rule o(2))
      moreover have "set (w_threads (?ws ! j)) \<inter> others ?ws j = {}" using sj(1) by (simp add: stacks_ok_def)
      moreover have "set (w_threads (?ws ! j)) \<inter> set (w_threads (x_w x)) = {}" using sx o(3) [OF j] by (auto simp: stacks_ok_def)
      ultimately show ?thesis by blast
    qed
    have "stacks_ok (others (?ws[i := x_w x]) j) (w_threads (?ws ! j)) (x_thread x)"
      by (rule stacks_ok_other [OF sx o(3) [OF j] o(1) _ disj]) (use sj(1) in \<open>simp add: stacks_ok_def\<close>)
    moreover have "q \<notin># xm (ctx_of ?l j)" if "q \<in> systems ?ws" for q
    proof -
      have "xm (ctx_of ?l j) \<subseteq># mset (l_entered l)" using lm_ctx [of j ?l] j lm ws(1) by (metis length_list_update mset_subset_eq_add_left subset_mset.trans)
      then show ?thesis using that l_okD(3) [OF ok] mset_subset_eqD by fastforce
    qed
    ultimately show ?thesis using sj x by (simp add: xok_def cj)
  qed
  have "w_id (?ws[i := x_w x] ! j) = j \<and> (\<forall>v. w_lastVictim (?ws[i := x_w x] ! j) = Some v \<longrightarrow> v \<noteq> j \<and> v < length ?ws)" if "j < length ?ws" for j
    using w(1,3) l_okD(4,5) [OF ok that] i by (cases "j = i") auto
  then show ?thesis unfolding l_ok_def ws sy length_list_update using lm l_okD(2,3) [OF ok] inv by blast
qed

lemma put_worker_ctx: "put_worker i w l = put_ctx i ((ctx_of l i)\<lparr>x_w := w\<rparr>) l"
  by (simp add: put_worker_def put_ctx_def ctx_of_def)

lemma put_worker_ok:
  assumes ok: "l_ok cfg H l" and i: "i < length (l_workers l)"
    and w: "w_threads w = w_threads (l_workers l ! i)" "w_workId w < 2" "w_id w = i" "w_system w = w_system (l_workers l ! i)"
      "\<And>v. w_lastVictim w = Some v \<Longrightarrow> v \<noteq> i \<and> v < length (l_workers l)"
    and m: "wm w + H' = wm (l_workers l ! i) + H"
  shows "l_ok cfg H' (put_worker i w l)"
proof -
  let ?x = "(ctx_of l i)\<lparr>x_w := w\<rparr>" and ?S = "systems (l_workers l)"
  have xi: "xok cfg (others (l_workers l) i) ?S (ctx_of l i)" by (rule l_okD(6) [OF ok i])
  have xw: "x_w (ctx_of l i) = l_workers l ! i" by (simp add: ctx_of_def)
  have "xm ?x + H' = wm w + H' + mset (x_parked (ctx_of l i)) + mset (x_done (ctx_of l i))" by (simp add: xm_def ac_simps)
  also have "\<dots> = xm (ctx_of l i) + H" unfolding m by (simp add: xm_def xw ac_simps)
  finally have xm: "xm ?x + H' = xm (ctx_of l i) + H" .
  have "xm (ctx_of l i) + H \<subseteq># mset (l_entered l)" unfolding l_okD(1) [OF ok, symmetric] using lm_ctx [OF i] by (simp add: subset_mset.add_mono)
  then have "xm ?x \<subseteq># mset (l_entered l)" unfolding xm [symmetric] by (meson mset_subset_eq_add_left subset_mset.trans)
  then have "\<forall>q\<in>?S. q \<notin># xm ?x" using l_okD(3) [OF ok] mset_subset_eqD by fastforce
  then have "xok cfg (others (l_workers l) i) ?S ?x" using xi w(1,2,4) by (simp add: xok_def xw)
  from put_ctx_ok [OF ok i this _ _ _ xm] show ?thesis unfolding put_worker_ctx using w by simp
qed

lemma l_once:
  assumes "l_ok cfg H l" "i < length (l_workers l)"
  shows "once (xm (ctx_of l i) + H)"
proof -
  have "once (mset (l_entered l))" using l_okD(2) [OF assms(1)] by (auto simp: once_def distinct_count_atmost_1)
  moreover have "xm (ctx_of l i) + H \<subseteq># mset (l_entered l)"
    unfolding l_okD(1) [OF assms(1), symmetric] using lm_ctx [OF assms(2)] by (simp add: subset_mset.add_mono)
  ultimately show ?thesis by (rule once_subset)
qed

lemma l_hand:
  assumes "l_ok cfg (add_mset p H) l" "i < length (l_workers l)"
  shows "p \<notin># xm (ctx_of l i)" "p \<notin> systems (l_workers l)"
proof -
  show "p \<notin># xm (ctx_of l i)" using l_once [OF assms] by (simp add: once_add)
  have "p \<in># mset (l_entered l)" unfolding l_okD(1) [OF assms(1), symmetric] by simp
  then show "p \<notin> systems (l_workers l)" using l_okD(3) [OF assms(1)] by auto
qed

lemma l_fresh_ctx: "l_fresh t l \<Longrightarrow> i < length (l_workers l) \<Longrightarrow> fresh_ok (others (l_workers l) i) t (ctx_of l i)"
  by (auto simp: l_fresh_def fresh_ok_def others_def ctx_of_def)

text \<open>What a search for work leaves alone.\<close>

definition l_like :: "nat \<Rightarrow> loc \<Rightarrow> loc \<Rightarrow> bool" where
  "l_like i l l' = (l_thread l' = l_thread l \<and> map w_threads (l_workers l') = map w_threads (l_workers l)
     \<and> map w_system (l_workers l') = map w_system (l_workers l) \<and> w_current (l_workers l' ! i) = w_current (l_workers l ! i))"

lemma l_likeD:
  assumes "l_like i l l'"
  shows "length (l_workers l') = length (l_workers l)" "l_fresh t l' = l_fresh t l" "systems (l_workers l') = systems (l_workers l)"
    "i < length (l_workers l) \<Longrightarrow> on_system i l' = on_system i l"
proof -
  have m: "map w_threads (l_workers l') = map w_threads (l_workers l)" "map w_system (l_workers l') = map w_system (l_workers l)"
    and t: "l_thread l' = l_thread l" and c: "w_current (l_workers l' ! i) = w_current (l_workers l ! i)"
    using assms by (auto simp: l_like_def)
  show len: "length (l_workers l') = length (l_workers l)" using m(1) by (rule map_eq_imp_length_eq)
  have U: "(\<Union>w\<in>set (l_workers k). set (w_threads w)) = (\<Union>ts\<in>set (map w_threads (l_workers k)). set ts)" for k by auto
  show "l_fresh t l' = l_fresh t l" unfolding l_fresh_def U m(1) t by (rule refl)
  show "systems (l_workers l') = systems (l_workers l)" unfolding systems_def using m(2) by (metis set_map)
  show "i < length (l_workers l) \<Longrightarrow> on_system i l' = on_system i l"
    unfolding on_system_def c using m(2) len by (metis nth_map)
qed

lemma l_like_trans: "l_like i l l' \<Longrightarrow> l_like i l' l'' \<Longrightarrow> l_like i l l''"
  by (simp add: l_like_def)

lemma l_like_put:
  assumes "w_threads w = w_threads (l_workers l ! j)" "w_system w = w_system (l_workers l ! j)" "w_current w = w_current (l_workers l ! j)"
  shows "l_like i l (put_worker j w l)"
proof -
  have "map w_threads ((l_workers l)[j := w]) = map w_threads (l_workers l)" "map w_system ((l_workers l)[j := w]) = map w_system (l_workers l)"
    using assms by (metis list_update_id map_update)+
  moreover have "w_current ((l_workers l)[j := w] ! i) = w_current (l_workers l ! i)"
    using assms(3) by (cases "j < length (l_workers l)") (auto simp: nth_list_update list_update_beyond)
  ultimately show ?thesis by (simp add: l_like_def put_worker_def)
qed

lemma stealFrom_ok:
  assumes ok: "l_ok cfg {#} l" and iv: "i < length (l_workers l)" "v < length (l_workers l)" "v \<noteq> i"
    and r: "stealFrom i v l = (r, l')"
  shows "l_ok cfg (opt_m r) l' \<and> l_like i l l' \<and> l_entered l' = l_entered l"
proof (cases "w_queues (l_workers l ! v) (w_workId (l_workers l ! v))")
  case Nil
  let ?w = "(l_workers l ! i)\<lparr>w_lastVictim := None\<rparr>"
  have l': "r = None" "l' = put_worker i ?w l" using r Nil by (simp_all add: stealFrom_def Let_def)
  have wi: "w_workId ?w < 2" using l_okD(6) [OF ok iv(1)] by (simp add: xok_def ctx_of_def)
  have "wm ?w = wm (l_workers l ! i)" by (simp add: wm_def qm_def km_def cur_def)
  then have "l_ok cfg {#} l'" unfolding l'(2) by (intro put_worker_ok [OF ok iv(1) _ wi]) (use l_okD(4) [OF ok iv(1)] in simp_all)
  then show ?thesis using l_like_put [of ?w l i i] by (simp add: l' opt_m_def) (simp add: put_worker_def)
next
  case (Cons p ps)
  let ?v = "l_workers l ! v"
  let ?w = "?v\<lparr>w_queues := (w_queues ?v)(w_workId ?v := ps)\<rparr>" and ?u = "(l_workers l ! i)\<lparr>w_lastVictim := Some v\<rparr>"
  let ?l = "put_worker v ?w l"
  have l': "r = Some p" "l' = put_worker i ?u ?l" using r Cons by (simp_all add: stealFrom_def Let_def)
  have vi: "w_workId ?v < 2" using l_okD(6) [OF ok iv(2)] by (simp add: xok_def ctx_of_def)
  have "wm ?w + {#p#} = wm ?v + {#}" using Cons vi by (auto simp: wm_def qm_def km_def cur_def less2)
  then have ok1: "l_ok cfg {#p#} ?l"
    by (intro put_worker_ok [OF ok iv(2)]) (use vi l_okD(4,5) [OF ok iv(2)] in simp_all)
  have same: "l_workers ?l ! i = l_workers l ! i" "length (l_workers ?l) = length (l_workers l)" using iv by (simp_all add: put_worker_def)
  have ui: "w_workId (l_workers l ! i) < 2" using l_okD(6) [OF ok iv(1)] by (simp add: xok_def ctx_of_def)
  have "wm ?u = wm (l_workers l ! i)" by (simp add: wm_def qm_def km_def cur_def)
  then have ok2: "l_ok cfg {#p#} l'" unfolding l'(2)
    by (intro put_worker_ok [OF ok1]) (use ui iv same l_okD(4) [OF ok iv(1)] in simp_all)
  have "l_like i l ?l" "l_like i ?l l'" unfolding l'(2) by (rule l_like_put; simp add: same)+
  then show ?thesis using ok2 l_like_trans [of i l ?l l'] by (simp add: l'(1) opt_m_def) (simp add: l'(2) put_worker_def)
qed

lemma pushMail_ok:
  assumes "l_ok cfg (H + mset ps) l" "i < length (l_workers l)"
  shows "l_ok cfg H (put_worker i (pushMail ps (l_workers l ! i)) l)"
proof -
  let ?w = "l_workers l ! i"
  note r = w_restD [OF pushMail_facts(3) [of ps ?w]]
  have "w_workId (pushMail ps ?w) < 2" using l_okD(6) [OF assms] by (simp add: xok_def ctx_of_def pushMail_facts)
  moreover have "wm (pushMail ps ?w) + H = wm ?w + (H + mset ps)" by (simp add: wm_def pushMail_facts r)
  ultimately show ?thesis by (intro put_worker_ok [OF assms]) (use l_okD(4,5) [OF assms] r in auto)
qed

lemma enter_ok:
  assumes "l_ok cfg H l" "l_new ps l"
  shows "l_ok cfg (H + mset ps) (l\<lparr>l_entered := ps @ l_entered l\<rparr>)"
proof -
  let ?l = "l\<lparr>l_entered := ps @ l_entered l\<rparr>"
  have c: "ctx_of ?l i = ctx_of l i" for i by (simp add: ctx_of_def)
  have "lm ?l = lm l" by (simp add: lm_def)
  then have "lm ?l + (H + mset ps) = mset (l_entered ?l)" using l_okD(1) [OF assms(1)] by (simp add: ac_simps)
  moreover have "distinct (l_entered ?l)" "systems (l_workers ?l) \<inter> set (l_entered ?l) = {}"
    using l_okD(2,3) [OF assms(1)] assms(2) by (auto simp: l_new_def)
  moreover have ws: "l_workers ?l = l_workers l" by simp
  ultimately show ?thesis using l_okD(4-6) [OF assms(1)] unfolding l_ok_def ws c by blast
qed

lemma handleSteal_ok:
  assumes ok: "l_ok cfg {#} l" and i: "i < length (l_workers l)" "length (l_workers l) \<noteq> 1 \<Longrightarrow> pol_ok i [] pol l"
    and r: "handleSteal pol i l = (r, l')"
  shows "l_ok cfg (opt_m r) l' \<and> l_like i l l'"
proof (cases "length (l_workers l) = 1")
  case True
  then show ?thesis using ok r by (auto simp: handleSteal_def opt_m_def l_like_def)
next
  case False
  show ?thesis
  proof (cases pol)
    case (Random v)
    then show ?thesis using stealFrom_ok [OF ok i(1)] i(2) [OF False] r False by (auto simp: handleSteal_def)
  next
    case (Hier va vb vc req)
    have p: "va < length (l_workers l)" "va \<noteq> i" "vb < length (l_workers l)" "vb \<noteq> i" "vc < length (l_workers l)" "l_new [req] l"
      using i(2) [OF False] Hier by auto
    have st: "stealHierarchical i va vb vc req l = (r, l')" using r False Hier by (simp add: handleSteal_def)
    obtain ra la where a: "(case w_lastVictim (l_workers l ! i) of None \<Rightarrow> (None, l) | Some v \<Rightarrow> stealFrom i v l) = (ra, la)" by fastforce
    have oka: "l_ok cfg (opt_m ra) la \<and> l_like i l la \<and> l_entered la = l_entered l"
    proof (cases "w_lastVictim (l_workers l ! i)")
      case None
      then show ?thesis using a ok by (auto simp: opt_m_def l_like_def)
    next
      case (Some v)
      then show ?thesis using a stealFrom_ok [OF ok i(1)] l_okD(5) [OF ok i(1) Some] by auto
    qed
    show ?thesis
    proof (cases ra)
      case (Some q)
      then show ?thesis using st a oka by (simp add: stealHierarchical_def)
    next
      case None
      then have oka': "l_ok cfg {#} la" using oka by (simp add: opt_m_def)
      note la = l_likeD [OF conjunct1 [OF conjunct2 [OF oka]]]
      obtain rb lb where b: "stealFrom i va la = (rb, lb)" by fastforce
      have okb: "l_ok cfg (opt_m rb) lb \<and> l_like i la lb \<and> l_entered lb = l_entered la"
        by (rule stealFrom_ok [OF oka' _ _ p(2) b]) (use i(1) p(1) la(1) in simp_all)
      have lb: "l_like i l lb" using oka okb l_like_trans by blast
      show ?thesis
      proof (cases rb)
        case (Some q)
        then show ?thesis using st a None b okb lb by (simp add: stealHierarchical_def)
      next
        case rbn: None
        then have okb': "l_ok cfg {#} lb" using okb by (simp add: opt_m_def)
        obtain rc lc where c: "stealFrom i vb lb = (rc, lc)" by fastforce
        have okc: "l_ok cfg (opt_m rc) lc \<and> l_like i lb lc \<and> l_entered lc = l_entered lb"
          by (rule stealFrom_ok [OF okb' _ _ p(4) c]) (use i(1) p(3) l_likeD(1) [OF lb] in simp_all)
        have lc: "l_like i l lc" using lb okc l_like_trans by blast
        show ?thesis
        proof (cases rc)
          case (Some q)
          then show ?thesis using st a None b rbn c okc lc by (simp add: stealHierarchical_def)
        next
          case rcn: None
          let ?e = "lc\<lparr>l_entered := [req] @ l_entered lc\<rparr>"
          have "l_ok cfg {#} lc" using okc rcn by (simp add: opt_m_def)
          moreover have "l_new [req] lc" using p(6) oka okb okc l_likeD(3) [OF lc] by (simp add: l_new_def)
          ultimately have "l_ok cfg ({#} + mset [req]) ?e" by (rule enter_ok)
          from pushMail_ok [OF this, of vc] have "l_ok cfg {#} (put_worker vc (pushMail [req] (l_workers lc ! vc)) ?e)"
            using p(5) l_likeD(1) [OF lc] by simp
          moreover have "r = None" "l' = put_worker vc (pushMail [req] (l_workers lc ! vc)) ?e"
            using st a None b rbn c rcn by (simp_all add: stealHierarchical_def)
          moreover have "l_like i lc (put_worker vc (pushMail [req] (l_workers lc ! vc)) lc)"
            by (rule l_like_put) (simp_all add: pushMail_def)
          ultimately show ?thesis using l_like_trans [OF lc] by (simp add: opt_m_def l_like_def put_worker_def)
        qed
      qed
    qed
  qed
qed

lemma put_ctx_fixed:
  assumes "l_ok cfg H l" "i < length (l_workers l)" "xok cfg (others (l_workers l) i) (systems (l_workers l)) x"
    "w_fixed (x_w x) = w_fixed (l_workers l ! i)" "xm x + H' = xm (ctx_of l i) + H"
  shows "l_ok cfg H' (put_ctx i x l)"
proof -
  have w: "w_id (x_w x) = w_id (l_workers l ! i)" "w_system (x_w x) = w_system (l_workers l ! i)" "w_lastVictim (x_w x) = w_lastVictim (l_workers l ! i)"
    using assms(4) by (simp_all add: w_fixed_def)
  show ?thesis by (rule put_ctx_ok [OF assms(1-3) _ w(2) _ assms(5)]) (use w l_okD(4,5) [OF assms(1,2)] in auto)
qed

lemma ctx_of_sel: "x_w (ctx_of l i) = l_workers l ! i"
  by (simp add: ctx_of_def)

lemma hand_transfer:
  assumes "cfg_ok cfg" "l_ok cfg {#p#} l" "i < length (l_workers l)" "l_fresh f l" "on_system i l"
  shows "\<exists>x. transfer cfg f p KNull (ctx_of l i) = Ret x \<and> l_ok cfg {#} (put_ctx i x l)"
proof -
  note h = l_hand [OF assms(2,3)] and x = l_okD(6) [OF assms(2,3)]
  have s: "w_system (l_workers l ! i) \<in> systems (l_workers l)" using assms(3) by (simp add: systems_def)
  have c: "p \<noteq> w_current (x_w (ctx_of l i))" "(KNull = KNull) = (w_current (x_w (ctx_of l i)) = w_system (x_w (ctx_of l i)))" "p \<noteq> w_system (l_workers l ! i)"
    using assms(5) h(2) s by (auto simp: on_system_def ctx_of_sel)
  from transfer_facts [OF assms(1) x l_fresh_ctx [OF assms(4,3)] c(1,2) disjI2 [OF h(2)]] obtain x' where
    r: "transfer cfg f p KNull (ctx_of l i) = Ret x'" "xm x' = xm (ctx_of l i) + {#p#}" "xok cfg (others (l_workers l) i) (systems (l_workers l)) x'"
    "w_fixed (x_w x') = w_fixed (l_workers l ! i)"
    using c(3) by (auto simp: ctx_of_sel)
  then show ?thesis using put_ctx_fixed [OF assms(2,3) r(3,4), of "{#}"] by auto
qed

lemma put_ctx_entered: "(put_ctx i x l)\<lparr>l_entered := e\<rparr> = put_ctx i x (l\<lparr>l_entered := e\<rparr>)"
  by (simp add: put_ctx_def)

lemma run_worker_ok:
  assumes "cfg_ok cfg" and ok: "l_ok cfg {#} l" and ev: "wev_ok cfg (EvRun i f ns pol) l"
  shows "\<exists>l'. run_worker cfg i f ns pol l = Ret l' \<and> l_ok cfg {#} l'"
proof -
  have i: "i < length (l_workers l)" and sys: "on_system i l" and f: "l_fresh f l" and ns: "l_new ns l"
    and pol: "length (l_workers l) \<noteq> 1 \<Longrightarrow> pol_ok i ns pol l" using ev by auto
  let ?F = "others (l_workers l) i" and ?S = "systems (l_workers l)"
  have "set ns \<inter> ?S = {}" using ns by (auto simp: l_new_def)
  moreover have "once (xm (ctx_of l i))" using l_once [OF ok i] by simp
  moreover have "w_current (x_w (ctx_of l i)) = w_system (x_w (ctx_of l i))" using sys by (simp add: on_system_def ctx_of_sel)
  ultimately obtain found got x where r: "run_turn cfg f ns (ctx_of l i) = Ret (found, got, x)" "xm x = xm (ctx_of l i) + mset got" "got \<in> {[], ns}"
    "xok cfg ?F ?S x" "w_fixed (x_w x) = w_fixed (x_w (ctx_of l i))"
    "\<not> found \<longrightarrow> fresh_ok ?F f x \<and> w_current (x_w x) = w_system (x_w x)"
    using run_turn_facts [OF assms(1) l_okD(6) [OF ok i] l_fresh_ctx [OF f i]] by metis
  let ?e = "l\<lparr>l_entered := got @ l_entered l\<rparr>"
  have "l_new got l" using r(3) ns by (auto simp: l_new_def)
  from enter_ok [OF ok this] have oke: "l_ok cfg (mset got) ?e" by simp
  define l1 where "l1 = put_ctx i x ?e"
  have ws: "l_workers ?e = l_workers l" "ctx_of ?e i = ctx_of l i" by (simp_all add: ctx_of_def)
  have ok1: "l_ok cfg {#} l1" unfolding l1_def
    by (rule put_ctx_fixed [OF oke]) (use i r(2,4,5) in \<open>simp_all add: ws ctx_of_sel\<close>)
  have l1: "length (l_workers l1) = length (l_workers l)" "l_workers l1 = (l_workers l)[i := x_w x]" "l_thread l1 = x_thread x" "l_entered l1 = got @ l_entered l"
    by (simp_all add: l1_def put_ctx_def)
  have run: "run_worker cfg i f ns pol l = (if found then Ret l1 else case handleSteal pol i l1 of
          (None, l2) \<Rightarrow> Ret l2
        | (Some p, l2) \<Rightarrow> bindO (transfer cfg f p KNull (ctx_of l2 i)) (\<lambda>x. Ret (put_ctx i x l2)))"
    unfolding run_worker_def r(1) by (simp add: put_ctx_entered l1_def Let_def)
  show ?thesis
  proof (cases found)
    case True
    then show ?thesis using run ok1 by simp
  next
    case False
    have sys1: "on_system i l1" using r(6) False i by (simp add: on_system_def l1)
    have "f \<notin> set (w_threads (l_workers l1 ! j))" if "j < length (l_workers l1)" for j
      using r(6) False i that by (cases "j = i") (auto simp: fresh_ok_def others_def l1)
    then have "\<forall>w\<in>set (l_workers l1). f \<notin> set (w_threads w)" unfolding all_set_conv_all_nth by blast
    then have f1: "l_fresh f l1" using r(6) False unfolding l_fresh_def fresh_ok_def l1(3) by blast
    have w: "w_system (x_w x) = w_system (l_workers l ! i)" using r(5) by (simp add: w_fixed_def ctx_of_sel)
    have sy: "systems (l_workers l1) = ?S" unfolding l1(2) by (rule systems_update [OF w])
    have "pol_ok i [] pol l1" if "length (l_workers l1) \<noteq> 1"
      using pol that r(3) by (cases pol) (auto simp: l1(1,4) l_new_def sy)
    note p1 = this
    obtain m l2 where m: "handleSteal pol i l1 = (m, l2)" by fastforce
    have s: "l_ok cfg (opt_m m) l2 \<and> l_like i l1 l2" by (rule handleSteal_ok [OF ok1 _ p1 m]) (use i l1(1) in simp_all)
    note k = l_likeD [OF conjunct2 [OF s]]
    show ?thesis
    proof (cases m)
      case None
      then show ?thesis using run False m s by (simp add: opt_m_def)
    next
      case (Some p)
      have ok2: "l_ok cfg {#p#} l2" using s Some by (simp add: opt_m_def)
      have "i < length (l_workers l2)" "l_fresh f l2" "on_system i l2" using k i l1(1) f1 sys1 by simp_all
      from hand_transfer [OF assms(1) ok2 this] show ?thesis using run False m Some by auto
    qed
  qed
qed

lemma sched_ok:
  assumes "cfg_ok cfg" and ok: "l_ok cfg {#} l" and i: "i < length (l_workers l)" and "\<not> on_system i l" "l_fresh f l" "k \<noteq> KNull"
  shows "\<exists>x. schedule cfg f k (ctx_of l i) = Ret x \<and> l_ok cfg {#} (put_ctx i x l)"
proof -
  have "once (xm (ctx_of l i))" using l_once [OF ok i] by simp
  moreover have "w_current (x_w (ctx_of l i)) \<noteq> w_system (x_w (ctx_of l i))" using assms(4) by (simp add: on_system_def ctx_of_sel)
  ultimately obtain x where r: "schedule cfg f k (ctx_of l i) = Ret x" "xm x = xm (ctx_of l i)"
    "xok cfg (others (l_workers l) i) (systems (l_workers l)) x" "w_fixed (x_w x) = w_fixed (x_w (ctx_of l i))"
    using schedule_facts [OF assms(1) l_okD(6) [OF ok i] l_fresh_ctx [OF assms(5) i] _ _ assms(6)] by metis
  have "l_ok cfg {#} (put_ctx i x l)" by (rule put_ctx_fixed [OF ok i r(3)]) (use r(2,4) in \<open>simp_all add: ctx_of_sel\<close>)
  then show ?thesis using r(1) by blast
qed

lemma unpark_ok:
  assumes "l_ok cfg {#} l" "p \<in> set (l_parked l)"
  shows "l_ok cfg {#p#} (l\<lparr>l_parked := remove1 p (l_parked l)\<rparr>)"
proof -
  let ?l = "l\<lparr>l_parked := remove1 p (l_parked l)\<rparr>"
  have "lm ?l + {#p#} = lm l" using assms(2) by (simp add: lm_def mset_remove1)
  then have "lm ?l + {#p#} = mset (l_entered ?l)" using l_okD(1) [OF assms(1)] by simp
  moreover have "xok cfg F S (ctx_of ?l i)" if "xok cfg F S (ctx_of l i)" for F S i
  proof -
    have "xm (ctx_of ?l i) \<subseteq># xm (ctx_of l i)" by (simp add: xm_def ctx_of_def mset_remove1)
    then have "q \<notin># xm (ctx_of l i) \<Longrightarrow> q \<notin># xm (ctx_of ?l i)" for q by (meson mset_subset_eqD)
    moreover have "x_w (ctx_of ?l i) = x_w (ctx_of l i)" "x_thread (ctx_of ?l i) = x_thread (ctx_of l i)" by (simp_all add: ctx_of_def)
    ultimately show ?thesis using that unfolding xok_def by metis
  qed
  moreover have ws: "l_workers ?l = l_workers l" "l_entered ?l = l_entered l" by simp_all
  ultimately show ?thesis using l_okD(2-6) [OF assms(1)] unfolding l_ok_def ws by blast
qed

lemma spawn_ok:
  assumes "cfg_ok cfg" and ok: "l_ok cfg {#p#} l" and i: "i < length (l_workers l)" and f: "l_fresh f l"
    and a: "c_affinity cfg p < int (length (l_workers l))"
  shows "\<exists>l'. spawn cfg i f b p l = Ret l' \<and> l_ok cfg {#} l'"
proof (cases "0 \<le> c_affinity cfg p \<and> c_affinity cfg p \<noteq> int (w_id (l_workers l ! i))")
  case True
  then have "nat (c_affinity cfg p) < length (l_workers l)" using a by linarith
  then show ?thesis using True pushMail_ok [of cfg "{#}" "[p]" l] ok by (auto simp: spawn_def Let_def)
next
  case False
  note h = l_hand [OF ok i]
  from spawn_here_facts [OF assms(1) l_okD(6) [OF ok i] l_fresh_ctx [OF f i] h] obtain x where
    r: "spawn_here cfg f b p (ctx_of l i) = Ret x" "xm x = add_mset p (xm (ctx_of l i))"
    "xok cfg (others (l_workers l) i) (systems (l_workers l)) x" "w_fixed (x_w x) = w_fixed (x_w (ctx_of l i))" by blast
  have "l_ok cfg {#} (put_ctx i x l)" by (rule put_ctx_fixed [OF ok i r(3)]) (use r(2,4) in \<open>simp_all add: ctx_of_sel\<close>)
  then show ?thesis using r(1) False by (auto simp: spawn_def Let_def)
qed

lemma current_not_waiting:
  assumes "l_ok cfg {#} l" "i < length (l_workers l)"
  shows "w_workId (l_workers l ! i) < 2" "w_current (l_workers l ! i) \<notin># qm (l_workers l ! i)"
  using current_not_queued [OF l_okD(6) [OF assms]] l_once [OF assms] l_okD(6) [OF assms] by (simp_all add: ctx_of_sel xok_def)

lemma steal_half_ok:
  assumes ok: "l_ok cfg {#} l" and i: "i < length (l_workers l)" "src < length (l_workers l)"
  shows "\<exists>l'. StealHalfHandler cfg i src l = Ret l' \<and> l_ok cfg {#} l'"
proof -
  let ?w = "l_workers l ! i"
  note c = current_not_waiting [OF ok i(1)]
  have "w_current ?w \<notin># km ?w" using c(2) by (simp add: qm_def)
  from stealHalf_facts [OF c(1) this, of cfg] obtain half dropped w where
    r: "stealHalf cfg ?w = Ret (half, dropped, w)" "km ?w = km w + mset half + mset dropped" "w_inbox w = w_inbox ?w"
    "w_rest w = w_rest ?w" "w_workId w = w_workId ?w" by blast
  note d = w_restD [OF r(4)]
  have wm: "wm w + (mset half + mset dropped) = wm ?w" using r(2,3) d by (simp add: wm_def qm_def cur_def ac_simps)
  have ok1: "l_ok cfg (mset half + mset dropped) (put_worker i w l)"
    by (rule put_worker_ok [OF ok i(1)]) (use c(1) r(5) d wm l_okD(4,5) [OF ok i(1)] in auto)
  let ?m = "put_worker i w l"
  have i': "i < length (l_workers ?m)" "src < length (l_workers ?m)" using i by (simp_all add: put_worker_def)
  let ?x = "(ctx_of ?m i)\<lparr>x_done := dropped @ l_done l\<rparr>"
  have px: "put_ctx i ?x ?m = ?m\<lparr>l_done := dropped @ l_done l\<rparr>" using i by (simp add: put_ctx_def ctx_of_def put_worker_def)
  have xm: "xm ?x + mset half = xm (ctx_of ?m i) + (mset half + mset dropped)" by (simp add: xm_def ctx_of_def put_worker_def)
  have "xok cfg (others (l_workers ?m) i) (systems (l_workers ?m)) ?x"
  proof -
    have "xm (ctx_of ?m i) + (mset half + mset dropped) \<subseteq># mset (l_entered ?m)"
      unfolding l_okD(1) [OF ok1, symmetric] using lm_ctx [OF i'(1)] by (rule subset_mset.add_right_mono)
    then have "xm ?x \<subseteq># mset (l_entered ?m)" unfolding xm [symmetric] by (meson mset_subset_eq_add_left subset_mset.trans)
    then have "q \<in># xm ?x \<Longrightarrow> q \<in> set (l_entered ?m)" for q by (meson mset_subset_eqD set_mset_mset in_multiset_in_set)
    then have "\<forall>q\<in>systems (l_workers ?m). q \<notin># xm ?x" using l_okD(3) [OF ok1] by blast
    moreover have "x_w ?x = x_w (ctx_of ?m i)" "x_thread ?x = x_thread (ctx_of ?m i)" by simp_all
    ultimately show ?thesis using l_okD(6) [OF ok1 i'(1)] unfolding xok_def by metis
  qed
  from put_ctx_fixed [OF ok1 i'(1) this _ xm] have ok2: "l_ok cfg (mset half) (?m\<lparr>l_done := dropped @ l_done l\<rparr>)"
    unfolding px by (simp add: ctx_of_sel)
  show ?thesis
  proof (cases "half = []")
    case True
    then show ?thesis using r(1) ok2 by (simp add: StealHalfHandler_def Let_def)
  next
    case False
    have "src < length (l_workers (?m\<lparr>l_done := dropped @ l_done l\<rparr>))" using i'(2) by simp
    from pushMail_ok [OF _ this, of cfg "{#}" half] ok2 show ?thesis using r(1) False by (simp add: StealHalfHandler_def Let_def)
  qed
qed

lemma sleep_ok:
  assumes ok: "l_ok cfg {#} l" and i: "i < length (l_workers l)"
  shows "\<exists>w. sleep_turn cfg (l_workers l ! i) = Ret w \<and> l_ok cfg {#} (put_worker i w l)"
proof -
  let ?w = "l_workers l ! i"
  from sleep_turn_facts [OF current_not_waiting [OF ok i], of cfg] obtain w where
    r: "sleep_turn cfg ?w = Ret w" "qm w = qm ?w" "w_rest w = w_rest ?w" "w_workId w < 2" by blast
  note d = w_restD [OF r(3)]
  have "l_ok cfg {#} (put_worker i w l)"
    by (rule put_worker_ok [OF ok i]) (use r(2,4) d l_okD(4,5) [OF ok i] in \<open>auto simp: wm_def cur_def\<close>)
  then show ?thesis using r(1) by blast
qed

lemma wexec_ok:
  assumes "cfg_ok cfg" and ok: "l_ok cfg {#} l" and ev: "wev_ok cfg ev l"
  shows "\<exists>l'. wexec cfg ev l = Ret l' \<and> l_ok cfg {#} l'"
proof (cases ev)
  case (EvRun i f ns pol)
  then show ?thesis using run_worker_ok [OF assms(1) ok, of i f ns pol] ev by simp
next
  case (EvEnd i f st)
  have "\<exists>x. ExecuteUserThread cfg f st (ctx_of l i) = Ret x \<and> l_ok cfg {#} (put_ctx i x l)"
    using ev sched_ok [OF assms(1) ok, of i f] unfolding EvEnd by (cases st) auto
  then show ?thesis unfolding EvEnd by auto
next
  case (EvYield i f)
  then show ?thesis using ev sched_ok [OF assms(1) ok, of i f KYield] by (auto simp: yield_def ctx_of_sel)
next
  case (EvSuspend i f)
  then show ?thesis using ev sched_ok [OF assms(1) ok, of i f KPark] by (auto simp: suspend_def)
next
  case (EvSpawn i f b p)
  let ?l = "if p \<in> set (l_parked l) then l\<lparr>l_parked := remove1 p (l_parked l)\<rparr> else l\<lparr>l_entered := p # l_entered l\<rparr>"
  have "l_ok cfg {#p#} ?l" using ev unpark_ok [OF ok, of p] enter_ok [OF ok, of "[p]"] unfolding EvSpawn by auto
  moreover have "l_workers ?l = l_workers l" "l_fresh f ?l = l_fresh f l" by (simp_all add: l_fresh_def)
  ultimately show ?thesis using ev spawn_ok [OF assms(1), of p ?l i f b] unfolding EvSpawn by simp
next
  case (EvStealHalf i src)
  then show ?thesis using ev steal_half_ok [OF ok, of i src] by simp
next
  case (EvSleep i)
  then show ?thesis using ev sleep_ok [OF ok, of i] by auto
next
  case (EvState i st)
  then have i: "i < length (l_workers l)" using ev by simp
  have "l_ok cfg {#} (put_worker i ((l_workers l ! i)\<lparr>w_state := st\<rparr>) l)"
    by (rule put_worker_ok [OF ok i])
      (use current_not_waiting(1) [OF ok i] l_okD(4,5) [OF ok i] in \<open>auto simp: wm_def cur_def qm_def km_def\<close>)
  then show ?thesis using EvState by simp
qed

lemma loc_new_ok:
  assumes "cfg_ok cfg" "distinct ss"
  shows "l_ok cfg {#} (loc_new ss)"
proof -
  let ?l = "loc_new ss"
  have ws: "l_workers ?l ! i = worker_new i (ss ! i)" "length (l_workers ?l) = length ss" if "i < length ss" for i
    using that by (simp_all add: loc_new_def)
  have sy: "systems (l_workers ?l) = set ss"
    by (force simp: systems_def loc_new_def worker_new_def image_image in_set_conv_nth)
  have wm: "wm (worker_new i s) = {#}" for i s by (simp add: wm_def qm_def km_def cur_def worker_new_def)
  have lm: "lm ?l = {#}" by (simp add: lm_def loc_new_def wm sum_list_0 comp_def)
  have ot: "others (l_workers ?l) i = {}" for i by (auto simp: others_def loc_new_def worker_new_def)
  have xm: "xm (ctx_of ?l i) = {#}" if "i < length ss" for i
    using that by (simp add: xm_def ctx_of_def ws wm) (simp add: loc_new_def)
  have "finite (dom (l_thread ?l))" "inj_on (l_thread ?l) (dom (l_thread ?l))"
    by (auto simp: loc_new_def dom_def inj_on_def)
  then have "xok cfg {} (set ss) (ctx_of ?l i)" if "i < length ss" for i
    using that assms(1) unfolding xok_def xm [OF that] by (auto simp: stacks_ok_def ctx_of_def ws worker_new_def loc_new_def limit_ok_def cfg_ok_def)
  then show ?thesis unfolding l_ok_def lm sy ot using ws by (auto simp: worker_new_def) (auto simp: loc_new_def)
qed

lemma loc_reach_ok:
  assumes "cfg_ok cfg" "distinct ss" "loc_reach cfg ss l"
  shows "l_ok cfg {#} l"
  using assms(3)
proof induction
  case start
  show ?case by (rule loc_new_ok [OF assms(1,2)])
next
  case (step l ev l')
  then show ?case using wexec_ok [OF assms(1) step.IH step.hyps(2)] by auto
qed

lemma sum_list_pair:
  fixes f :: "'a \<Rightarrow> 'b multiset"
  assumes "i < length xs" "j < length xs" "i \<noteq> j"
  shows "f (xs ! i) + f (xs ! j) \<subseteq># sum_list (map f xs)"
  using assms
proof (induction xs arbitrary: i j)
  case (Cons x xs)
  consider (a) j' where "i = 0" "j = Suc j'" | (b) i' where "i = Suc i'" "j = 0" | (c) i' j' where "i = Suc i'" "j = Suc j'"
    using Cons.prems(3) by (cases i; cases j) auto
  then show ?case
  proof cases
    case c
    then have "f (xs ! i') + f (xs ! j') \<subseteq># sum_list (map f xs)" using Cons by auto
    then show ?thesis using c by (simp add: subset_mset.add_increasing)
  qed (use Cons.prems sum_list_member [of _ "map f xs"] in \<open>auto simp: add.commute subset_mset.add_right_mono\<close>)
qed simp

text \<open>An example: two workers, one of them running with a parcel in its queue.\<close>

definition loc_two :: loc where
  "loc_two = (loc_new [100, 101])\<lparr>l_workers := [pushLIFO wcfg_two 1 ((worker_new 0 100)\<lparr>w_state := RUN\<rparr>), worker_new 1 101], l_entered := [1]\<rparr>"

lemma loc_two_reach: "loc_reach wcfg_two [100, 101] loc_two"
proof -
  let ?l = "loc_new [100, 101]"
  have ws: "l_workers ?l = [worker_new 0 100, worker_new 1 101]" by (simp add: loc_new_def upt_rec)
  let ?m = "?l\<lparr>l_workers := [(worker_new 0 100)\<lparr>w_state := RUN\<rparr>, worker_new 1 101]\<rparr>"
  have "wexec wcfg_two (EvState 0 RUN) ?l = Ret ?m" by (simp add: ws put_worker_def)
  then have m: "loc_reach wcfg_two [100, 101] ?m" by (rule loc_reach.step [OF loc_reach.start, rotated]) (simp add: ws)
  have x: "l_parked ?l = []" "l_entered ?l = []" "l_done ?l = []" "l_thread ?l = (\<lambda>p. if p \<in> set [100, 101] then Some p else None)"
    by (simp_all add: loc_new_def)
  have "wev_ok wcfg_two (EvSpawn 0 200 False 1) ?m"
    by (auto simp: l_fresh_def l_new_def systems_def worker_new_def wcfg_two_def x ran_def split: if_splits)
  moreover have "wexec wcfg_two (EvSpawn 0 200 False 1) ?m = Ret loc_two"
    by (simp add: x spawn_def Let_def spawn_here_def wcfg_two_def put_ctx_def ctx_of_def loc_two_def worker_new_def outcome_simps)
  ultimately show ?thesis by (rule loc_reach.step [OF m])
qed

text \<open>C1: No parcel is lost and none is run twice. Workers take turns of their loops, threads end, yield,
  wait and spawn, workers steal from each other and mail each other in any order; then what is in
  queues, mailboxes, running, waiting outside of the workers and deleted is at all times exactly
  what was ever spawned or received, each once, no two workers run the same parcel, and no step
  that is possible then stops on an error.\<close>
theorem worker_parcels_exclusive:
  assumes "cfg_ok cfg" "distinct ss" "loc_reach cfg ss l"
  shows "lm l = mset (l_entered l) \<and> distinct (l_entered l)
    \<and> (\<forall>i j. i < length (l_workers l) \<longrightarrow> j < length (l_workers l) \<longrightarrow> i \<noteq> j \<longrightarrow> \<not> on_system i l \<longrightarrow>
        w_current (l_workers l ! i) \<notin># wm (l_workers l ! j))
    \<and> (\<forall>ev. wev_ok cfg ev l \<longrightarrow> (\<exists>l'. wexec cfg ev l = Ret l'))"
proof -
  note ok = loc_reach_ok [OF assms]
  have "w_current (l_workers l ! i) \<notin># wm (l_workers l ! j)"
    if "i < length (l_workers l)" "j < length (l_workers l)" "i \<noteq> j" "\<not> on_system i l" for i j
  proof -
    have "wm (l_workers l ! i) + wm (l_workers l ! j) \<subseteq># mset (l_entered l)"
      using sum_list_pair [OF that(1-3), of wm] l_okD(1) [OF ok] unfolding lm_def
      by (metis add.assoc add.right_neutral mset_subset_eq_add_left subset_mset.trans)
    moreover have "once (mset (l_entered l))" using l_okD(2) [OF ok] by (auto simp: once_def distinct_count_atmost_1)
    ultimately have "once (wm (l_workers l ! i) + wm (l_workers l ! j))" using once_subset by blast
    then show ?thesis using that(4) by (simp add: wm_def cur_def on_system_def once_add)
  qed
  moreover have "lm l = mset (l_entered l)" using l_okD(1) [OF ok] by simp
  ultimately show ?thesis using l_okD(2) [OF ok] wexec_ok [OF assms(1) ok] by blast
qed

theorem worker_parcels_exclusive_witness:
  "loc_reach wcfg_two [100, 101] loc_two \<and> lm loc_two = {#1#} \<and> (\<exists>l'. wexec wcfg_two (EvRun 0 200 [] (Random 1)) loc_two = Ret l')"
proof -
  have d: "distinct [100, 101 :: nat]" by simp
  note r = worker_parcels_exclusive [OF wcfg_two_ok d loc_two_reach]
  have "wev_ok wcfg_two (EvRun 0 200 [] (Random 1)) loc_two"
    by (auto simp: loc_two_def on_system_def l_fresh_def l_new_def pushLIFO_def Let_def worker_new_def loc_new_def ran_def split: if_splits)
  with r have "\<exists>l'. wexec wcfg_two (EvRun 0 200 [] (Random 1)) loc_two = Ret l'" by blast
  moreover have "lm loc_two = {#1#}" using conjunct1 [OF r] by (simp add: loc_two_def)
  ultimately show ?thesis using loc_two_reach by blast
qed

text \<open>C12: Stacks are never shared. Whatever the workers do, two parcels are never bound to one stack,
  a stack in a worker's cache is bound to no parcel and is in no other worker's cache nor twice in
  the same one, and a cache stays below the configured limit.\<close>
theorem worker_stacks_exclusive:
  assumes "cfg_ok cfg" "distinct ss" "loc_reach cfg ss l" "i < length (l_workers l)"
  shows "inj_on (l_thread l) (dom (l_thread l)) \<and> distinct (w_threads (l_workers l ! i))
    \<and> set (w_threads (l_workers l ! i)) \<inter> ran (l_thread l) = {}
    \<and> (\<forall>j. j < length (l_workers l) \<longrightarrow> j \<noteq> i \<longrightarrow> set (w_threads (l_workers l ! i)) \<inter> set (w_threads (l_workers l ! j)) = {})
    \<and> (0 \<le> c_limit cfg \<longrightarrow> int (length (w_threads (l_workers l ! i))) < c_limit cfg)"
proof -
  have "xok cfg (others (l_workers l) i) (systems (l_workers l)) (ctx_of l i)" by (rule l_okD(6) [OF loc_reach_ok [OF assms(1-3)] assms(4)])
  then have s: "stacks_ok (others (l_workers l) i) (w_threads (l_workers l ! i)) (l_thread l)" "limit_ok cfg (w_threads (l_workers l ! i))"
    by (simp_all add: xok_def ctx_of_def)
  have "set (w_threads (l_workers l ! j)) \<subseteq> others (l_workers l) i" if "j < length (l_workers l)" "j \<noteq> i" for j
    using that by (auto simp: others_def)
  then show ?thesis using s unfolding stacks_ok_def limit_ok_def ran_def by fastforce
qed

theorem worker_stacks_exclusive_witness:
  "loc_reach wcfg_two [100, 101] loc_two \<and> inj_on (l_thread loc_two) (dom (l_thread loc_two))"
  using worker_stacks_exclusive [OF wcfg_two_ok _ loc_two_reach, of 0] loc_two_reach by (simp add: loc_two_def)

text \<open>The assertion at the end of \<^verbatim>\<open>unbind\<close> holds only for even limits. With a limit of zero it fails as
  soon as a thread ends, and with an odd limit above one as soon as the cache reaches it: half of
  the stacks, rounded up, are freed, and the assertion expects as many to be left.\<close>
lemma unbind_odd_limit_stops:
  assumes "c_debug cfg" "x_thread x p = Some t"
    "c_limit cfg = 0 \<or> odd (c_limit cfg) \<and> 1 < c_limit cfg \<and> int (Suc (length (w_threads (x_w x)))) = c_limit cfg"
  shows "unbind cfg p x = Fault Assert_failed"
proof (cases "c_limit cfg = 0")
  case True
  then show ?thesis using assms(1,2) by (simp add: unbind_def Let_def ceil_div_def assertO_def)
next
  case False
  then obtain k where k: "c_limit cfg = int (Suc (2 * k))" "0 < k" "length (w_threads (x_w x)) = 2 * k"
    using assms(3) by (elim disjE conjE oddE) (auto intro: that [of "nat (c_limit cfg div 2)"])
  have "ceil_div (Suc (nat (2 * int k))) 2 = Suc k" by (simp add: ceil_div_def nat_mult_distrib)
  then show ?thesis using assms(1,2) k by (simp add: unbind_def Let_def nat_add_distrib assertO_def)
qed

end
