(* ===== verification/Hpx_Process.thy ===== *)
theory Hpx_Process
  imports Hpx_Parcel "HOL-Library.Multiset"
begin

text \<open>
  Processes of \<^verbatim>\<open>libhpx/process/process.cpp\<close>, which find out when all of their parcels have ended. A
  parcel with credit \<^verbatim>\<open>c\<close> holds a share of one over two to the \<^verbatim>\<open>c\<close>; a parcel that sends another one
  halves its share, and a thread that ends sends its share back to the process, which adds up what
  has come back in the bitmap of \<^verbatim>\<open>libhpx/process/Bitmap.cpp\<close> and sets an LCO when nothing is missing.
\<close>

unbundle bit_operations_syntax

section \<open>The bitmap\<close>

text \<open>
  A table of pages of words; \<^verbatim>\<open>W\<close> is the number of words in a page and of pages in the table, which the
  size of a memory page gives. Pages are allocated when they are first used.
\<close>

type_synonym debt = "nat \<Rightarrow> (nat \<Rightarrow> u64) option"

definition db_new :: debt where
  "db_new = [0 \<mapsto> (\<lambda>i. 0)]"

definition db_getPage :: "debt \<Rightarrow> nat \<Rightarrow> nat \<Rightarrow> u64" where
  "db_getPage bm page = (case bm page of Some ws \<Rightarrow> ws | None \<Rightarrow> (\<lambda>i. 0))"

text \<open>The loop over the words of a page: whether the carry leaves the page.\<close>

fun page_addBit_loop :: "(nat \<Rightarrow> u64) \<Rightarrow> nat \<Rightarrow> u64 \<Rightarrow> (nat \<Rightarrow> u64) \<times> bool" where
  "page_addBit_loop ws 0 m = (let v = ws 0 + m in (ws(0 := v), v > m))"
| "page_addBit_loop ws (Suc i) m =
    (let v = ws (Suc i) + m; ws' = ws(Suc i := v) in if v > m then page_addBit_loop ws' i 1 else (ws', False))"

definition page_addBit :: "nat \<Rightarrow> (nat \<Rightarrow> u64) \<Rightarrow> nat \<Rightarrow> ((nat \<Rightarrow> u64) \<times> bool) outcome" where
  "page_addBit W ws offset =
    (let word = offset div 8; b = 63 - offset mod 8 in
     if W \<le> word then Fault Out_of_bounds else Ret (page_addBit_loop ws word (push_bit b 1)))"

fun db_addBit :: "nat \<Rightarrow> debt \<Rightarrow> nat \<Rightarrow> nat \<Rightarrow> debt outcome" where
  "db_addBit W bm 0 offset =
    (if W \<le> 0 then Fault Out_of_bounds
     else bindO (page_addBit W (db_getPage bm 0) offset) (\<lambda>(ws, carry). Ret (bm(0 \<mapsto> ws))))"
| "db_addBit W bm (Suc page) offset =
    (if W \<le> Suc page then Fault Out_of_bounds
     else bindO (page_addBit W (db_getPage bm (Suc page)) offset) (\<lambda>(ws, carry).
       if carry then db_addBit W (bm(Suc page \<mapsto> ws)) page (W * 8) else Ret (bm(Suc page \<mapsto> ws))))"

text \<open>
  The credit is read as a signed number; a number below one gives an offset outside of every page.
  The word that \<^verbatim>\<open>addAndTest\<close> returns is read after the bit has been added.
\<close>

definition db_addAndTest :: "nat \<Rightarrow> debt \<Rightarrow> u64 \<Rightarrow> debt outcome" where
  "db_addAndTest W bm i =
    (let k = sint i - 1 in
     if k < 0 then Fault Out_of_bounds else db_addBit W bm (u32wrap (nat k div W)) (nat k mod W))"

definition db_baseWord :: "debt \<Rightarrow> u64" where
  "db_baseWord bm = db_getPage bm 0 0"

section \<open>Processes\<close>

record process =
  pr_credit :: u64
  pr_debt :: debt
  pr_termination :: addr

definition hpx_process_new :: "addr \<Rightarrow> process option" where
  "hpx_process_new termination =
    (if termination = 0 then None else Some \<lparr> pr_credit = 0, pr_debt = db_new, pr_termination = termination \<rparr>)"

text \<open>
  The handler for returned credit, split where other handlers can interfere: about to add, about to
  read the base word, about to read the credit, and about to exchange it. The exchange may fail
  without a reason (\<^verbatim>\<open>sp\<close>). A shift by 64 or more is undefined. The number tells how often the LCO has been set.
\<close>

datatype hpc = HAdd u64 | HBase | HLoad u64 | HCas u64 u64

fun proc_return_credit :: "nat \<Rightarrow> bool \<Rightarrow> hpc \<Rightarrow> process \<Rightarrow> (process \<times> hpc option \<times> nat) outcome" where
  "proc_return_credit W sp (HAdd c) p = bindO (db_addAndTest W (pr_debt p) c) (\<lambda>bm. Ret (p\<lparr>pr_debt := bm\<rparr>, Some HBase, 0))"
| "proc_return_credit W sp HBase p = Ret (p, Some (HLoad (db_baseWord (pr_debt p))), 0)"
| "proc_return_credit W sp (HLoad debt) p =
    (let credit = pr_credit p in
     if credit = 0 then Ret (p, None, 0)
     else if 64 \<le> unat (64 - credit) then Fault Out_of_bounds
     else if NOT (debt OR (push_bit (unat (64 - credit)) 1 - 1)) = 0 then Ret (p, Some (HCas debt credit), 0)
     else Ret (p, None, 0))"
| "proc_return_credit W sp (HCas debt credit) p =
    (if pr_credit p = credit \<and> \<not> sp then assertO (pr_termination p \<noteq> 0) (Ret (p\<lparr>pr_credit := 0 - credit\<rparr>, None, 1))
     else Ret (p, Some (HLoad debt), 0))"

text \<open>
  A process with the credits of its parcels that are running or on their way, the credits on their
  way back, the handlers that are running, and how often the LCO has been set.
\<close>

record psys =
  ps_proc :: process
  ps_live :: "u64 list"
  ps_msgs :: "u64 list"
  ps_pcs :: "hpc list"
  ps_sets :: nat

definition drop_nth :: "nat \<Rightarrow> 'a list \<Rightarrow> 'a list" where
  "drop_nth i xs = take i xs @ drop (Suc i) xs"

definition proc_call :: "psys \<Rightarrow> psys" where
  "proc_call s = (let credit = pr_credit (ps_proc s) + 1 in
     s\<lparr>ps_proc := (ps_proc s)\<lparr>pr_credit := credit\<rparr>, ps_live := ps_live s @ [credit]\<rparr>)"

text \<open>A parcel sends another one; the parcel theory has this for parcels in memory.\<close>

definition split_credit :: "nat \<Rightarrow> psys \<Rightarrow> psys" where
  "split_credit i s = (let c = ps_live s ! i + 1 in s\<lparr>ps_live := (ps_live s)[i := c] @ [c]\<rparr>)"

text \<open>A call from a thread of the process itself is a send, a call from outside goes through the process.\<close>

definition hpx_process_call :: "nat option \<Rightarrow> psys \<Rightarrow> psys" where
  "hpx_process_call current s = (case current of Some i \<Rightarrow> split_credit i s | None \<Rightarrow> proc_call s)"

definition process_recover_credit :: "nat \<Rightarrow> psys \<Rightarrow> psys" where
  "process_recover_credit i s = (let c = ps_live s ! i in
     s\<lparr>ps_live := drop_nth i (ps_live s), ps_msgs := (if c = 0 then ps_msgs s else ps_msgs s @ [c])\<rparr>)"

datatype pev = PCall "nat option" | PEnd nat | PDeliver nat | PStep nat bool

fun pexec :: "nat \<Rightarrow> pev \<Rightarrow> psys \<Rightarrow> psys outcome" where
  "pexec W (PCall current) s = Ret (hpx_process_call current s)"
| "pexec W (PEnd i) s = Ret (process_recover_credit i s)"
| "pexec W (PDeliver i) s = Ret (s\<lparr>ps_msgs := drop_nth i (ps_msgs s), ps_pcs := ps_pcs s @ [HAdd (ps_msgs s ! i)]\<rparr>)"
| "pexec W (PStep j sp) s = bindO (proc_return_credit W sp (ps_pcs s ! j) (ps_proc s)) (\<lambda>(p, pc, n).
     Ret (s\<lparr>ps_proc := p, ps_pcs := (case pc of None \<Rightarrow> drop_nth j (ps_pcs s) | Some c \<Rightarrow> (ps_pcs s)[j := c]), ps_sets := ps_sets s + n\<rparr>))"

text \<open>
  When a step is possible, with credits up to \<^verbatim>\<open>B\<close>. The process is not called from outside any more once
  it has terminated.
\<close>

fun pev_ok :: "nat \<Rightarrow> pev \<Rightarrow> psys \<Rightarrow> bool" where
  "pev_ok B (PCall None) s = (ps_sets s = 0 \<and> unat (pr_credit (ps_proc s)) < B)"
| "pev_ok B (PCall (Some i)) s = (i < length (ps_live s) \<and> unat (ps_live s ! i) < B)"
| "pev_ok B (PEnd i) s = (i < length (ps_live s))"
| "pev_ok B (PDeliver i) s = (i < length (ps_msgs s))"
| "pev_ok B (PStep j sp) s = (j < length (ps_pcs s))"

definition psys_new :: "addr \<Rightarrow> psys" where
  "psys_new t = \<lparr> ps_proc = \<lparr> pr_credit = 0, pr_debt = db_new, pr_termination = t \<rparr>, ps_live = [], ps_msgs = [], ps_pcs = [], ps_sets = 0 \<rparr>"

inductive preach :: "nat \<Rightarrow> nat \<Rightarrow> addr \<Rightarrow> psys \<Rightarrow> bool" for W B t where
  start: "t \<noteq> 0 \<Longrightarrow> preach W B t (psys_new t)"
| step: "preach W B t s \<Longrightarrow> pev_ok B ev s \<Longrightarrow> pexec W ev s = Ret s' \<Longrightarrow> preach W B t s'"

section \<open>Shares\<close>

definition share :: "u64 \<Rightarrow> nat" where
  "share c = 2 ^ (64 - unat c)"

lemma share_pos: "0 < share c"
  by (simp add: share_def)

lemma share_half: "unat c < 64 \<Longrightarrow> share (c + 1) + share (c + 1) = share c"
proof -
  assume c: "unat c < 64"
  have u: "unat (c + 1) = Suc (unat c)" using c by (simp add: unat_add_small)
  have "64 - unat c = Suc (64 - Suc (unat c))" using c by simp
  then show ?thesis unfolding share_def u by simp
qed

lemma full_test:
  fixes d :: u64
  assumes "k \<le> 64"
  shows "NOT (d OR (push_bit k 1 - 1)) = 0 \<longleftrightarrow> 2 ^ 64 - 2 ^ k \<le> unat d"
proof -
  have m: "push_bit k 1 - 1 = (mask k :: u64)" by (simp add: mask_eq_decr_exp push_bit_eq_mult)
  have "NOT (d OR mask k) = 0 \<longleftrightarrow> (\<forall>i<64. k \<le> i \<longrightarrow> bit d i)"
    by (auto simp: bit_eq_iff bit_simps not_less)
  also have "\<dots> \<longleftrightarrow> drop_bit k d = mask (64 - k)"
  proof
    assume l: "\<forall>i<64. k \<le> i \<longrightarrow> bit d i"
    have "bit (drop_bit k d) i = bit (mask (64 - k) :: u64) i" if "i < 64" for i
    proof (cases "k + i < 64")
      case True
      then show ?thesis using l that by (simp add: bit_simps)
    next
      case False
      then have "\<not> bit d (k + i)" using bit_imp_le_length [of d "k + i"] by auto
      then show ?thesis using False by (auto simp: bit_simps)
    qed
    then show "drop_bit k d = mask (64 - k)" by (intro bit_word_eqI) simp
  next
    assume r: "drop_bit k d = mask (64 - k)"
    have "bit d i" if "i < 64" "k \<le> i" for i
    proof -
      have "bit (drop_bit k d) (i - k)" unfolding r using that by (auto simp: bit_simps)
      then show ?thesis using that by (simp add: bit_simps)
    qed
    then show "\<forall>i<64. k \<le> i \<longrightarrow> bit d i" by blast
  qed
  also have "\<dots> \<longleftrightarrow> unat d div 2 ^ k = 2 ^ (64 - k) - 1"
  proof -
    have "unat (mask (64 - k) :: u64) = 2 ^ (64 - k) - 1"
      unfolding unat_eq_nat_uint uint_mask_eq by (simp add: mask_eq_exp_minus_1 nat_diff_distrib nat_power_eq min_absorb2)
    then show ?thesis unfolding word_unat_eq_iff unat_div_pow by simp
  qed
  also have "\<dots> \<longleftrightarrow> 2 ^ 64 - 2 ^ k \<le> unat d"
  proof -
    have p: "(2 :: nat) ^ 64 = 2 ^ k * 2 ^ (64 - k)" using assms by (simp flip: power_add)
    have lt: "unat d < 2 ^ k * 2 ^ (64 - k)" using unat_less_pow [of d] p by simp
    then have "unat d div 2 ^ k < 2 ^ (64 - k)" by (simp add: less_mult_imp_div_less mult.commute)
    then have "unat d div 2 ^ k = 2 ^ (64 - k) - 1 \<longleftrightarrow> 2 ^ (64 - k) - 1 \<le> unat d div 2 ^ k" by linarith
    also have "\<dots> \<longleftrightarrow> (2 ^ (64 - k) - 1) * 2 ^ k \<le> unat d" by (simp add: less_eq_div_iff_mult_less_eq)
    moreover have "(2 ^ (64 - k) - 1) * 2 ^ k = (2 :: nat) ^ 64 - 2 ^ k" unfolding p diff_mult_distrib by (simp add: mult.commute)
    ultimately show ?thesis by simp
  qed
  finally show ?thesis unfolding m .
qed

lemma db_addAndTest_small:
  assumes "8 \<le> W" "1 \<le> unat c" "unat c \<le> 8"
  shows "\<exists>bm'. db_addAndTest W bm c = Ret bm' \<and> db_baseWord bm' = db_baseWord bm + push_bit (64 - unat c) 1"
proof -
  have "int (unat c) \<le> int 8" using assms(3) by (rule of_nat_mono)
  moreover have "- (2 ^ 63) \<le> uint c" by (rule order.trans [OF _ uint_ge_0]) simp
  ultimately have si: "sint c = int (unat c)" unfolding sint_uint by (subst signed_take_bit_int_eq_self) simp_all
  have "1 \<le> n \<Longrightarrow> nat (int n - 1) = n - 1 \<and> \<not> int n - 1 < 0" for n by auto
  then have k: "nat (sint c - 1) = unat c - 1" "\<not> sint c - 1 < 0" unfolding si using assms(2) by blast+
  have "unat c - 1 < W" "(unat c - 1) div 8 = 0" "63 - (unat c - 1) = 64 - unat c" using assms by auto
  then show ?thesis using assms k
    by (simp add: db_addAndTest_def Let_def page_addBit_def db_baseWord_def db_getPage_def)
qed

section \<open>The invariant\<close>

text \<open>The credits that have not been added to the bitmap yet.\<close>

definition pending :: "hpc list \<Rightarrow> u64 multiset" where
  "pending pcs = sum_list (map (\<lambda>pc. case pc of HAdd c \<Rightarrow> {#c#} | _ \<Rightarrow> {#}) pcs)"

definition out :: "psys \<Rightarrow> u64 multiset" where
  "out s = mset (ps_live s) + mset (ps_msgs s) + pending (ps_pcs s)"

definition owed :: "u64 multiset \<Rightarrow> nat" where
  "owed M = sum_mset (image_mset share M)"

lemma owed_simps [simp]: "owed {#} = 0" "owed (add_mset c M) = share c + owed M" "owed (M + N) = owed M + owed N"
  by (simp_all add: owed_def)

lemma owed_zero: "owed M = 0 \<longleftrightarrow> M = {#}"
  by (induction M) (use share_pos in auto)

lemma mset_drop_nth: "i < length xs \<Longrightarrow> mset xs = add_mset (xs ! i) (mset (drop_nth i xs))"
  by (metis drop_nth_def id_take_nth_drop mset.simps(2) mset_append union_mset_add_mset_right)

lemma set_drop_nth: "set (drop_nth i xs) \<subseteq> set xs"
  by (auto simp: drop_nth_def dest: in_set_takeD in_set_dropD)

lemma pending_append [simp]: "pending (xs @ ys) = pending xs + pending ys"
  by (simp add: pending_def)

lemma pending_simps [simp]: "pending [] = {#}" "pending (HAdd c # xs) = add_mset c (pending xs)" "pending (HBase # xs) = pending xs"
  "pending (HLoad d # xs) = pending xs" "pending (HCas d m # xs) = pending xs"
  by (simp_all add: pending_def)

lemma pending_nth: "j < length xs \<Longrightarrow> pending xs = pending [xs ! j] + pending (drop_nth j xs)"
  unfolding drop_nth_def by (subst id_take_nth_drop [of j xs]) (simp_all add: pending_def ac_simps)

lemma pending_update: "j < length xs \<Longrightarrow> pending (xs[j := c]) = pending [c] + pending (drop_nth j xs)"
  by (simp add: upd_conv_take_nth_drop drop_nth_def pending_def ac_simps)

definition base :: "psys \<Rightarrow> nat" where
  "base s = unat (db_baseWord (pr_debt (ps_proc s)))"

definition credit :: "psys \<Rightarrow> nat" where
  "credit s = unat (pr_credit (ps_proc s))"

definition full :: "nat \<Rightarrow> nat" where
  "full n = 2 ^ 64 - 2 ^ (64 - n)"

text \<open>What a handler knows, and the handlers that will still find that nothing is missing.\<close>

fun pc_ok :: "nat \<Rightarrow> hpc \<Rightarrow> bool" where
  "pc_ok b (HLoad d) = (unat d \<le> b)"
| "pc_ok b (HCas d c) = (1 \<le> unat c \<and> unat c \<le> 8 \<and> full (unat c) \<le> unat d \<and> unat d \<le> b)"
| "pc_ok b _ = True"

fun pc_finds :: "nat \<Rightarrow> hpc \<Rightarrow> bool" where
  "pc_finds b (HAdd c) = False"
| "pc_finds b HBase = True"
| "pc_finds b (HLoad d) = (unat d = b)"
| "pc_finds b (HCas d c) = (unat d = b)"

definition pst :: "u64 multiset \<Rightarrow> hpc list \<Rightarrow> nat \<Rightarrow> nat \<Rightarrow> nat \<Rightarrow> bool" where
  "pst M pcs n b k = ((\<forall>c. c \<in># M \<longrightarrow> 1 \<le> unat c \<and> unat c \<le> 8) \<and> (\<forall>pc\<in>set pcs. pc_ok b pc)
    \<and> (n = 0 \<longrightarrow> k \<le> 8 \<and> b + owed M = full k \<and> (M = {#} \<and> k \<noteq> 0 \<longrightarrow> (\<exists>pc\<in>set pcs. pc_finds b pc)))
    \<and> (n \<noteq> 0 \<longrightarrow> n = 1 \<and> M = {#} \<and> 2 ^ 64 \<le> k + 8))"

definition pinv :: "psys \<Rightarrow> bool" where
  "pinv s = (pr_termination (ps_proc s) \<noteq> 0 \<and> pst (out s) (ps_pcs s) (ps_sets s) (base s) (credit s))"

lemma full_mono: "m \<le> n \<Longrightarrow> full m \<le> full n"
  by (simp add: full_def diff_le_mono2 power_increasing)

lemma full_0 [simp]: "full 0 = 0"
  by (simp add: full_def)

lemma full_less: "full n < 2 ^ 64"
  by (simp add: full_def)

lemma full_Suc: "n < 64 \<Longrightarrow> full (Suc n) = full n + 2 ^ (64 - Suc n)"
proof -
  assume n: "n < 64"
  have "64 - n = Suc (64 - Suc n)" using n by simp
  then have "(2 :: nat) ^ (64 - n) = 2 * 2 ^ (64 - Suc n)" by simp
  moreover have "(2 :: nat) ^ (64 - n) \<le> 2 ^ 64" by (rule power_increasing) simp_all
  ultimately show ?thesis unfolding full_def by linarith
qed

lemma full_strict: "m < n \<Longrightarrow> n \<le> 64 \<Longrightarrow> full m < full n"
proof -
  assume "m < n" "n \<le> 64"
  then have "full (Suc m) = full m + 2 ^ (64 - Suc m)" "full (Suc m) \<le> full n" using full_Suc [of m] full_mono [of "Suc m" n] by simp_all
  moreover have "(0 :: nat) < 2 ^ (64 - Suc m)" by simp
  ultimately show ?thesis by linarith
qed

lemma pinv_new: "t \<noteq> 0 \<Longrightarrow> pinv (psys_new t)"
  by (simp add: pinv_def pst_def psys_new_def out_def base_def credit_def db_new_def db_baseWord_def db_getPage_def)

lemma pst_call:
  assumes "pst M pcs 0 b k" "k < 8" "unat c = Suc k"
  shows "pst (add_mset c M) pcs 0 b (Suc k)"
proof -
  have "share c + full k = full (Suc k)" using full_Suc [of k] assms(2,3) by (simp add: share_def)
  then show ?thesis using assms by (auto simp: pst_def)
qed

lemma pst_split:
  assumes "pst (add_mset c M) pcs n b k" "unat c < 8"
  shows "pst (add_mset (c + 1) (add_mset (c + 1) M)) pcs n b k"
proof -
  have u: "unat (c + 1) = Suc (unat c)" using assms(2) by (simp add: unat_add_small)
  have "n = 0" using assms(1) by (auto simp: pst_def)
  moreover have "share (c + 1) + share (c + 1) = share c" using assms(2) by (intro share_half) simp
  ultimately show ?thesis using assms u by (auto simp: pst_def)
qed

lemma pst_deliver: "pst M pcs n b k \<Longrightarrow> pst M (pcs @ [HAdd c]) n b k"
  by (auto simp: pst_def)

lemma pst_add:
  assumes p: "pst (add_mset c M) pcs n b k" and j: "j < length pcs" and b: "b' = b + share c"
  shows "pst M (pcs[j := HBase]) n b' k"
proof -
  have n: "n = 0" using p by (auto simp: pst_def)
  have "pc_ok b' pc" if "pc \<in> set (pcs[j := HBase])" for pc
  proof -
    have "pc \<in> set pcs \<or> pc = HBase" using that by (auto dest: set_update_subset_insert [THEN subsetD])
    then show ?thesis using p b by (cases pc) (auto simp: pst_def)
  qed
  moreover have "HBase \<in> set (pcs[j := HBase])" using j by (simp add: set_update_memI)
  ultimately show ?thesis using p n b by (auto simp: pst_def intro: bexI [of _ HBase])
qed

lemma pst_replace:
  assumes p: "pst M pcs n b k" and j: "j < length pcs" and "pc_ok b pc" "pc_finds b (pcs ! j) \<Longrightarrow> M = {#} \<Longrightarrow> n = 0 \<Longrightarrow> k \<noteq> 0 \<Longrightarrow> pc_finds b pc"
  shows "pst M (pcs[j := pc]) n b k"
proof -
  have "pc_ok b q" if "q \<in> set (pcs[j := pc])" for q
  proof -
    have "q \<in> set pcs \<or> q = pc" using that by (auto dest: set_update_subset_insert [THEN subsetD])
    then show ?thesis using p assms(3) by (auto simp: pst_def)
  qed
  moreover have "\<exists>q\<in>set (pcs[j := pc]). pc_finds b q" if "M = {#}" "k \<noteq> 0" "n = 0"
  proof -
    from p that obtain q where q: "q \<in> set pcs" "pc_finds b q" by (auto simp: pst_def)
    then obtain i where i: "i < length pcs" "pcs ! i = q" by (auto simp: in_set_conv_nth)
    show ?thesis
    proof (cases "i = j")
      case True
      then have "pc_finds b pc" using assms(4) i q that by simp
      then show ?thesis using j by (auto intro: set_update_memI)
    next
      case False
      then have "pcs[j := pc] ! i = q" using i by simp
      then show ?thesis using i(1) q(2) by (metis length_list_update nth_mem)
    qed
  qed
  ultimately show ?thesis using p by (auto simp: pst_def)
qed

lemma pst_drop:
  assumes p: "pst M pcs n b k" and j: "j < length pcs" and "M = {#} \<Longrightarrow> n = 0 \<Longrightarrow> k \<noteq> 0 \<Longrightarrow> \<not> pc_finds b (pcs ! j)"
  shows "pst M (drop_nth j pcs) n b k"
proof -
  have "set pcs \<subseteq> insert (pcs ! j) (set (drop_nth j pcs))"
    using arg_cong [where f = set_mset, OF mset_drop_nth [OF j]] by simp
  then show ?thesis using p assms(3) set_drop_nth [of j pcs] unfolding pst_def by blast
qed

lemma pinv_step:
  assumes W: "8 \<le> W" and inv: "pinv s" and ev: "pev_ok 8 (PStep j sp) s" and r: "pexec W (PStep j sp) s = Ret s'"
  shows "pinv s'"
proof -
  let ?p = "ps_proc s" and ?pcs = "ps_pcs s"
  have t: "pr_termination ?p \<noteq> 0" and p: "pst (out s) ?pcs (ps_sets s) (base s) (credit s)" using inv by (simp_all add: pinv_def)
  have j: "j < length ?pcs" using ev by simp
  have jok: "pc_ok (base s) (?pcs ! j)" using p j by (auto simp: pst_def)
  note pn = pending_nth [OF j] and pu = pending_update [OF j]
  show ?thesis
  proof (cases "?pcs ! j")
    case (HAdd c)
    have o: "out s = add_mset c (mset (ps_live s) + mset (ps_msgs s) + pending (drop_nth j ?pcs))" by (simp add: out_def pn HAdd)
    then have c: "1 \<le> unat c" "unat c \<le> 8" using p by (auto simp: pst_def)
    from db_addAndTest_small [OF W c] obtain bm where
      bm: "db_addAndTest W (pr_debt ?p) c = Ret bm" "db_baseWord bm = db_baseWord (pr_debt ?p) + push_bit (64 - unat c) 1" by blast
    have s': "s' = s\<lparr>ps_proc := ?p\<lparr>pr_debt := bm\<rparr>, ps_pcs := ?pcs[j := HBase]\<rparr>" using r by (simp add: HAdd bm(1))
    have "unat (push_bit (64 - unat c) 1 :: u64) = share c" using c by (simp add: share_def push_bit_eq_mult)
    moreover have "base s + share c < 2 ^ 64"
      using p o full_less [of "credit s"] by (auto simp: pst_def)
    ultimately have "base s' = base s + share c" unfolding s' base_def by (simp add: bm(2) unat_add_small)
    moreover have "out s' = mset (ps_live s) + mset (ps_msgs s) + pending (drop_nth j ?pcs)" by (simp add: out_def s' pu)
    ultimately show ?thesis using pst_add [OF p [unfolded o] j] t by (simp add: pinv_def s' credit_def)
  next
    case HBase
    have s': "s' = s\<lparr>ps_pcs := ?pcs[j := HLoad (db_baseWord (pr_debt ?p))]\<rparr>" using r by (simp add: HBase)
    have "out s' = out s" by (simp add: out_def s' pu pn HBase)
    then show ?thesis using pst_replace [OF p j, of "HLoad (db_baseWord (pr_debt ?p))"] t by (simp add: pinv_def s' base_def credit_def)
  next
    case (HLoad d)
    have drop: "pinv s'" if "s' = s\<lparr>ps_pcs := drop_nth j ?pcs\<rparr>" "out s = {#} \<Longrightarrow> ps_sets s = 0 \<Longrightarrow> credit s \<noteq> 0 \<Longrightarrow> unat d \<noteq> base s"
    proof -
      have "out s' = out s" by (simp add: out_def that(1) pn HLoad)
      then show ?thesis using pst_drop [OF p j] that t by (simp add: pinv_def HLoad base_def credit_def)
    qed
    show ?thesis
    proof (cases "pr_credit ?p = 0")
      case True
      then have "s' = s\<lparr>ps_pcs := drop_nth j ?pcs\<rparr>" using r by (simp add: HLoad)
      then show ?thesis using drop True by (simp add: credit_def)
    next
      case False
      then have sh: "unat (64 - pr_credit ?p) < 64" using r by (auto simp: HLoad Let_def not_less split: if_splits)
      have k: "ps_sets s = 0" "1 \<le> credit s" "credit s \<le> 8" "unat (64 - pr_credit ?p) = 64 - credit s"
      proof -
        show "ps_sets s = 0"
        proof (rule ccontr)
          assume "ps_sets s \<noteq> 0"
          then have "2 ^ 64 \<le> credit s + 8" using p by (simp add: pst_def)
          then have "64 < pr_credit ?p" by (simp add: credit_def word_less_nat_alt)
          then have "unat (64 - pr_credit ?p) = 2 ^ 64 + 64 - credit s" by (simp add: unat_sub_if' word_less_nat_alt credit_def)
          then show False using sh unat_less_pow [of "pr_credit ?p"] by (simp add: credit_def)
        qed
        then show "credit s \<le> 8" using p by (simp add: pst_def)
        moreover show "1 \<le> credit s" using False by (simp add: credit_def Suc_le_eq unat_gt_0)
        ultimately show "unat (64 - pr_credit ?p) = 64 - credit s" by (simp add: unat_sub word_le_nat_alt credit_def)
      qed
      have test: "NOT (d OR (push_bit (unat (64 - pr_credit ?p)) 1 - 1)) = 0 \<longleftrightarrow> full (credit s) \<le> unat d"
        unfolding k(4) full_def by (rule full_test) simp
      show ?thesis
      proof (cases "full (credit s) \<le> unat d")
        case True
        then have s': "s' = s\<lparr>ps_pcs := ?pcs[j := HCas d (pr_credit ?p)]\<rparr>" using r False sh test by (simp add: HLoad Let_def)
        have "out s' = out s" by (simp add: out_def s' pu pn HLoad)
        moreover have "pc_ok (base s) (HCas d (pr_credit ?p))" using jok True k by (simp add: HLoad credit_def)
        ultimately show ?thesis using pst_replace [OF p j, of "HCas d (pr_credit ?p)"] t by (simp add: pinv_def s' HLoad base_def credit_def)
      next
        case False
        then have "s' = s\<lparr>ps_pcs := drop_nth j ?pcs\<rparr>" using r \<open>pr_credit ?p \<noteq> 0\<close> sh test by (simp add: HLoad Let_def)
        moreover have "unat d \<noteq> base s" if "out s = {#}" using p k(1) that False by (auto simp: pst_def)
        ultimately show ?thesis by (rule drop)
      qed
    qed
  next
    case (HCas d c)
    have c: "1 \<le> unat c" "unat c \<le> 8" "full (unat c) \<le> unat d" "unat d \<le> base s" using jok by (simp_all add: HCas)
    show ?thesis
    proof (cases "pr_credit ?p = c \<and> \<not> sp")
      case True
      then have s': "s' = s\<lparr>ps_proc := ?p\<lparr>pr_credit := 0 - c\<rparr>, ps_pcs := drop_nth j ?pcs, ps_sets := ps_sets s + 1\<rparr>" using r t by (simp add: HCas)
      have k: "credit s = unat c" using True by (simp add: credit_def)
      then have n: "ps_sets s = 0" using p c(2) by (auto simp: pst_def)
      then have "base s + owed (out s) = full (unat c)" using p k by (simp add: pst_def)
      then have "owed (out s) = 0" using c(3,4) by linarith
      then have o: "out s = {#}" by (simp add: owed_zero)
      have o': "out s' = {#}" using o by (simp add: out_def s' pn HCas)
      have "unat (0 - c) = 2 ^ 64 - unat c" unfolding unat_sub_if' using c by simp
      then have "2 ^ 64 \<le> credit s' + 8" using c by (simp add: s' credit_def)
      moreover have "\<forall>pc\<in>set (drop_nth j ?pcs). pc_ok (base s) pc" using p set_drop_nth [of j ?pcs] by (auto simp: pst_def)
      ultimately show ?thesis using o' t n by (simp add: pinv_def pst_def s' base_def credit_def)
    next
      case False
      then have "proc_return_credit W sp (HCas d c) ?p = Ret (?p, Some (HLoad d), 0)" by (simp only: proc_return_credit.simps if_False)
      then have s': "s' = s\<lparr>ps_pcs := ?pcs[j := HLoad d]\<rparr>" using r by (simp add: HCas del: proc_return_credit.simps)
      have "out s' = out s" by (simp add: out_def s' pu pn HCas)
      then show ?thesis using pst_replace [OF p j, of "HLoad d"] c(4) t by (simp add: pinv_def s' HCas base_def credit_def)
    qed
  qed
qed

lemma pinv_exec:
  assumes W: "8 \<le> W" and inv: "pinv s" and ev: "pev_ok 8 ev s" and r: "pexec W ev s = Ret s'"
  shows "pinv s'"
proof (cases ev)
  case (PCall current)
  have t: "pr_termination (ps_proc s) \<noteq> 0" and p: "pst (out s) (ps_pcs s) (ps_sets s) (base s) (credit s)" using inv by (simp_all add: pinv_def)
  show ?thesis
  proof (cases current)
    case None
    let ?c = "pr_credit (ps_proc s) + 1"
    have k: "ps_sets s = 0" "credit s < 8" using ev by (simp_all add: PCall None credit_def)
    have u: "unat ?c = Suc (credit s)" using k(2) by (simp add: unat_add_small credit_def)
    have s': "s' = s\<lparr>ps_proc := (ps_proc s)\<lparr>pr_credit := ?c\<rparr>, ps_live := ps_live s @ [?c]\<rparr>"
      using r by (simp add: PCall None hpx_process_call_def proc_call_def Let_def)
    have "out s' = add_mset ?c (out s)" "base s' = base s" "credit s' = Suc (credit s)" using u by (simp_all add: s' out_def base_def credit_def)
    then show ?thesis using pst_call [OF p [unfolded k(1)] k(2) u] t k(1) by (simp add: pinv_def s')
  next
    case (Some i)
    let ?c = "ps_live s ! i"
    have i: "i < length (ps_live s)" "unat ?c < 8" using ev by (simp_all add: PCall Some)
    have s': "s' = s\<lparr>ps_live := (ps_live s)[i := ?c + 1] @ [?c + 1]\<rparr>" using r by (simp add: PCall Some hpx_process_call_def split_credit_def Let_def)
    define M where "M = mset (drop_nth i (ps_live s)) + mset (ps_msgs s) + pending (ps_pcs s)"
    have o: "out s = add_mset ?c M" by (simp add: out_def M_def mset_drop_nth [OF i(1)])
    have "mset ((ps_live s)[i := ?c + 1]) = add_mset (?c + 1) (mset (drop_nth i (ps_live s)))"
      using i(1) by (simp add: upd_conv_take_nth_drop drop_nth_def)
    then have "out s' = add_mset (?c + 1) (add_mset (?c + 1) M)" by (simp add: out_def s' M_def)
    then show ?thesis using pst_split [OF p [unfolded o] i(2)] t by (simp add: pinv_def s' base_def credit_def)
  qed
next
  case (PEnd i)
  let ?c = "ps_live s ! i"
  have i: "i < length (ps_live s)" using ev by (simp add: PEnd)
  have "?c \<in># out s" using i by (simp add: out_def)
  then have "?c \<noteq> 0" using inv by (auto simp: pinv_def pst_def)
  then have s': "s' = s\<lparr>ps_live := drop_nth i (ps_live s), ps_msgs := ps_msgs s @ [?c]\<rparr>" using r by (simp add: PEnd process_recover_credit_def Let_def)
  have "out s' = out s" by (simp add: out_def s' mset_drop_nth [OF i])
  then show ?thesis using inv by (simp add: pinv_def s' base_def credit_def)
next
  case (PDeliver i)
  let ?c = "ps_msgs s ! i"
  have i: "i < length (ps_msgs s)" using ev by (simp add: PDeliver)
  have s': "s' = s\<lparr>ps_msgs := drop_nth i (ps_msgs s), ps_pcs := ps_pcs s @ [HAdd ?c]\<rparr>" using r by (simp add: PDeliver)
  have "out s' = out s" by (simp add: out_def s' mset_drop_nth [OF i])
  then show ?thesis using inv pst_deliver [of "out s" "ps_pcs s" "ps_sets s" "base s" "credit s" ?c] by (simp add: pinv_def s' base_def credit_def)
next
  case (PStep j sp)
  then show ?thesis using pinv_step [OF W inv] ev r by blast
qed

lemma pinv_reach:
  assumes "8 \<le> W" "preach W 8 t s"
  shows "pinv s"
  using assms(2) by induction (auto intro: pinv_new pinv_exec [OF assms(1)])

section \<open>Quiescence\<close>

text \<open>A run of given steps, if all of them are possible.\<close>

fun pruns :: "nat \<Rightarrow> nat \<Rightarrow> pev list \<Rightarrow> psys \<Rightarrow> psys option" where
  "pruns W B [] s = Some s"
| "pruns W B (e # es) s = (if pev_ok B e s then (case pexec W e s of Ret s' \<Rightarrow> pruns W B es s' | Fault f \<Rightarrow> None) else None)"

lemma pruns_reach: "pruns W B es s = Some s' \<Longrightarrow> preach W B t s \<Longrightarrow> preach W B t s'"
  by (induction es arbitrary: s) (auto split: if_splits sum.splits intro: preach.step)

text \<open>C5: A process learns exactly when it has ended, while no credit exceeds eight. However its
  parcels send, end and return their credit, and however the handlers of returned credit overlap, the
  termination LCO is set at most once; when it has been set, no parcel is running or on its way and
  no credit is missing; and when all parcels have ended, all credit has come back and all handlers
  are done, it has been set.\<close>
theorem process_detects_quiescence:
  assumes "8 \<le> W" "preach W 8 t s"
  shows "ps_sets s \<le> 1
    \<and> (ps_sets s = 1 \<longrightarrow> ps_live s = [] \<and> ps_msgs s = [] \<and> (\<forall>c. HAdd c \<notin> set (ps_pcs s)))
    \<and> (ps_live s = [] \<and> ps_msgs s = [] \<and> ps_pcs s = [] \<and> pr_credit (ps_proc s) \<noteq> 0 \<longrightarrow> ps_sets s = 1)"
proof -
  have p: "pst (out s) (ps_pcs s) (ps_sets s) (base s) (credit s)" using pinv_reach [OF assms] by (simp add: pinv_def)
  have "HAdd c \<notin> set (ps_pcs s)" if "pending (ps_pcs s) = {#}" for c
  proof
    assume "HAdd c \<in> set (ps_pcs s)"
    then obtain j where "j < length (ps_pcs s)" "ps_pcs s ! j = HAdd c" by (auto simp: in_set_conv_nth)
    then show False using pending_nth [of j "ps_pcs s"] that by simp
  qed
  then have b: "ps_live s = [] \<and> ps_msgs s = [] \<and> (\<forall>c. HAdd c \<notin> set (ps_pcs s))" if "out s = {#}" using that by (simp add: out_def)
  have z: "ps_sets s = 0 \<longrightarrow> (out s = {#} \<and> credit s \<noteq> 0 \<longrightarrow> (\<exists>pc\<in>set (ps_pcs s). pc_finds (base s) pc))"
    and o: "ps_sets s \<noteq> 0 \<longrightarrow> ps_sets s = 1 \<and> out s = {#}" using p unfolding pst_def by blast+
  have "ps_sets s \<noteq> 0" if "ps_live s = [] \<and> ps_msgs s = [] \<and> ps_pcs s = [] \<and> pr_credit (ps_proc s) \<noteq> 0"
  proof -
    have "0 < credit s" unfolding credit_def unat_gt_0 using that by simp
    moreover have "out s = {#}" using that by (simp add: out_def)
    ultimately show ?thesis using z that by auto
  qed
  moreover have "ps_sets s \<le> 1" using o by (cases "ps_sets s = 0") simp_all
  moreover have "ps_sets s = 1 \<longrightarrow> ps_sets s \<noteq> 0" by simp
  ultimately show ?thesis using b o by blast
qed

lemmas prun_simps = psys_new_def hpx_process_call_def proc_call_def split_credit_def process_recover_credit_def drop_nth_def
  db_addAndTest_def page_addBit_def db_getPage_def db_baseWord_def db_new_def Let_def

lemma preach_new: "preach W B 1 (psys_new 1)"
  by (rule preach.start) simp

text \<open>A parcel that sends one more; one handler reads the base word before the other has added.\<close>

definition prun_two :: "pev list" where
  "prun_two = [PCall None, PCall (Some 0), PEnd 0, PEnd 0, PDeliver 0, PDeliver 0, PStep 0 False, PStep 1 False, PStep 0 False, PStep 0 False, PStep 0 True,
     PStep 0 False, PStep 0 False]"

lemma prun_two_runs: "\<exists>s. pruns 512 8 prun_two (psys_new 1) = Some s \<and> ps_sets s = 1"
  by (simp add: prun_two_def prun_simps)

theorem process_detects_quiescence_witness:
  "\<exists>s. preach 512 8 1 s \<and> ps_sets s = 1 \<and> ps_live s = [] \<and> ps_msgs s = []"
proof -
  obtain s where s: "pruns 512 8 prun_two (psys_new 1) = Some s" "ps_sets s = 1" using prun_two_runs by blast
  have "preach 512 8 1 s" by (rule pruns_reach [OF s(1) preach_new])
  then show ?thesis using process_detects_quiescence [of 512 1 s] s(2) by auto
qed

text \<open>C40: Credits above eight are lost. A parcel of a process that sends eight others holds a ninth of
  the halvings, and so does the last one it sent. The bitmap keeps eight credits to a word but counts
  a carry when the sum of a word exceeds the bit added, not when it overflows, so the two halves
  vanish: all parcels end, all credit comes back, all handlers finish, and the LCO is never set.\<close>
theorem process_misses_deep_quiescence:
  "\<exists>s. preach 512 9 1 s \<and> ps_live s = [] \<and> ps_msgs s = [] \<and> ps_pcs s = [] \<and> pr_credit (ps_proc s) = 1 \<and> ps_sets s = 0"
proof -
  let ?send = "PCall (Some 0)" and ?fin = "PEnd 0" and ?go = "PStep 0 False"
  let ?ret = "[PDeliver 0, ?go, ?go, ?go]"
  let ?es = "[PCall None, ?send, ?send, ?send, ?send, ?send, ?send, ?send, ?send, ?fin, ?fin, ?fin, ?fin, ?fin, ?fin, ?fin, ?fin, ?fin]
    @ ?ret @ ?ret @ ?ret @ ?ret @ ?ret @ ?ret @ ?ret @ ?ret @ ?ret"
  have "\<exists>s. pruns 512 9 ?es (psys_new 1) = Some s \<and> ps_live s = [] \<and> ps_msgs s = [] \<and> ps_pcs s = [] \<and> pr_credit (ps_proc s) = 1 \<and> ps_sets s = 0"
    by (simp add: prun_simps)
  then show ?thesis using pruns_reach preach_new by blast
qed

text \<open>Two handlers may both find that nothing is missing. The one that loses the exchange reads the
  credit again, which is now negative, and shifts by more than the width of a word, which is undefined.\<close>
lemma process_double_detection:
  "\<exists>s. preach 512 8 1 s \<and> ps_sets s = 1 \<and> pev_ok 8 (PStep 0 False) s \<and> pexec 512 (PStep 0 False) s = Fault Out_of_bounds"
proof -
  let ?es = "[PCall None, PCall None, PEnd 0, PEnd 0, PDeliver 0, PDeliver 0, PStep 0 False, PStep 1 False, PStep 0 False, PStep 1 False,
    PStep 0 False, PStep 1 False, PStep 0 False, PStep 0 False]"
  have "\<exists>s. pruns 512 8 ?es (psys_new 1) = Some s \<and> ps_sets s = 1 \<and> pev_ok 8 (PStep 0 False) s \<and> pexec 512 (PStep 0 False) s = Fault Out_of_bounds"
    by (simp add: prun_simps)
  then show ?thesis using pruns_reach preach_new by blast
qed

text \<open>A carry out of a page that is not the first is added beyond the end of the page before.\<close>

lemma db_carry_overruns:
  assumes "page_addBit W (db_getPage bm (Suc page)) offset = Ret (ws, True)" "Suc page < W"
  shows "db_addBit W bm (Suc page) offset = Fault Out_of_bounds"
  using assms by (cases page) (simp_all add: page_addBit_def Let_def)

text \<open>The step of a send is what preparing a parcel does to the credits of parent and child.\<close>

lemma split_credit_parcel:
  assumes "parcel_take_credit parent h p = Ret h'" "p \<noteq> parent" "h p = Some q" "h parent = Some par" "p_pid q \<noteq> 0" "p_credit q = 0"
    "ps_live s ! i = p_credit par" "i < length (ps_live s)"
  shows "\<exists>q' par'. h' p = Some q' \<and> h' parent = Some par' \<and> ps_live (split_credit i s) = (ps_live s)[i := p_credit par'] @ [p_credit q']"
  using assms by (auto simp: parcel_take_credit_def Let_def split_credit_def outcome_simps)

end
