(* ===== verification/Spec2Isabelle.thy ===== *)
theory Spec2Isabelle
  imports Hpx_Allocator Hpx_Address Hpx_CircularBuffer Hpx_And Hpx_Future Hpx_Semaphore Hpx_GenCount
    Hpx_Reduce Hpx_AllReduce Hpx_Gather Hpx_AllToAll Hpx_ISend Hpx_IRecv Hpx_ChaseLev Hpx_Par Hpx_PGAS
    Hpx_LCO Hpx_TwoLock Hpx_BTT Hpx_Worker Hpx_Process
begin

text \<open>
  A verification development of HPX-5, a runtime for programs that run as many lightweight threads
  on the localities of a parallel machine. Paths below are relative to \<^verbatim>\<open>src/\<close>.

  \<^bold>\<open>The program.\<close> A program is a set of actions that are run by parcels. A parcel names an action, a
  global address, its arguments and a continuation; sending one runs the action where the address
  is. The \<^emph>\<open>global address space\<close> maps addresses to memory, in blocks that are dealt out over the localities;
  it takes its memory from a heap of chunks that a bitmap allocates. The \<^emph>\<open>network\<close> moves parcels between
  localities. The \<^emph>\<open>scheduler\<close> has one worker per core; each runs threads from a work-stealing deque
  and from a mailbox other workers write to. Threads synchronise on \<^emph>\<open>local control objects\<close> (LCOs),
  objects at a global address with a lock, state bits and condition variables on which threads sleep.

  \<^bold>\<open>How the models are written.\<close> \<^verbatim>\<open>Hpx_Prelude\<close> has the machine types and the outcome of an operation:
  a value, or a fault (a failed assertion, an access outside of an array, the runtime's error
  routine, an exception). Unsigned 64-bit values are words; 32-bit counters of the allocators are natural numbers with
  the wrap-around written out. Objects are records, operations are functions of the object and their
  arguments with the names of the source, and loops are recursive and terminate or, where
  they may run for ever, are partial with results of option type, and a theorem says that they return. There is no fuel.
  What the sources take from outside (MPI, the hash table, the monoid of a reduction, random numbers, addresses of new memory) is an argument.
  Operations that run under a lock are one step. Code that works without one is split at its accesses
  to shared variables, and the theorems are about all interleavings of these steps; memory is
  sequentially consistent.

  \<^bold>\<open>Integer helpers, bitmap, heap.\<close> \<^verbatim>\<open>Hpx_Math\<close> (\<^verbatim>\<open>include/libhpx/util/math.h\<close>, \<^verbatim>\<open>padding.h\<close>, \<^verbatim>\<open>builtins.h\<close>).
  \<^verbatim>\<open>Hpx_Bitmap\<close> has every operation of \<^verbatim>\<open>libhpx/util/Bitmap.cpp\<close> and what they do to the set of free blocks;
  the locales \<^verbatim>\<open>block_scan\<close> and \<^verbatim>\<open>range_update\<close> are interpreted on its scans and on its two update loops.
  \<^verbatim>\<open>Hpx_Allocator\<close> proves that \<^verbatim>\<open>reserve\<close> and \<^verbatim>\<open>rreserve\<close> terminate with the first and the last fit, and, in the locale
  \<^verbatim>\<open>range_allocator\<close>, that live allocations stay disjoint. \<^verbatim>\<open>Hpx_Heap\<close> (\<^verbatim>\<open>libhpx/gas/pgas/HeapSegment.cpp\<close>) uses the bitmap from
  both ends and interprets the same locale for the chunks of the segment. The search loops are
  partial; the fit theorems show that they return.

  \<^bold>\<open>Addresses and global memory.\<close> \<^verbatim>\<open>Hpx_Address\<close> has the two kinds of addresses (\<^verbatim>\<open>include/libhpx/gpa.h\<close> and
  \<^verbatim>\<open>libhpx/gas/gpa.c\<close>; \<^verbatim>\<open>libhpx/gas/agas/GlobalVirtualAddress.h\<close>): block-cyclic addition moves by exactly the given
  distance in the linear order of blocks, unless it goes back by more than a block. \<^verbatim>\<open>Hpx_PGAS\<close> (\<^verbatim>\<open>libhpx/gas/pgas/PGAS.cpp\<close>) has translation, put, get, copy, allocation and
  release over them. \<^verbatim>\<open>Hpx_BTT\<close> (\<^verbatim>\<open>libhpx/gas/agas/BlockTranslationTable.cpp\<close>) has the table that pins blocks which may move; the
  concurrent hash table it uses is the parameter \<^verbatim>\<open>cuckoo\<close> with the laws of the locale \<^verbatim>\<open>cuckoo_map\<close>, each of
  its operations being atomic.

  \<^bold>\<open>Parcels and the network.\<close> \<^verbatim>\<open>Hpx_Parcel\<close> (\<^verbatim>\<open>libhpx/network/parcel.cpp\<close>, \<^verbatim>\<open>hpx_parcel_glue.cpp\<close>) has the life of a parcel: its holds, and what deleting it does in each.
  \<^verbatim>\<open>Hpx_Buffer\<close> and \<^verbatim>\<open>Hpx_Ring\<close> are shared: bounded copies, and ring buffers that double, with the locale \<^verbatim>\<open>fifo\<close>.
  \<^verbatim>\<open>Hpx_CircularBuffer\<close> (\<^verbatim>\<open>libhpx/network/pwc/CircularBuffer.cpp\<close>) interprets it. \<^verbatim>\<open>Hpx_ISend\<close> and \<^verbatim>\<open>Hpx_IRecv\<close> (\<^verbatim>\<open>libhpx/network/isir\<close>)
  are the two buffers of the MPI network: what is posted, completed and delivered, and that sizes on both sides agree. Which requests
  have completed is an input of each test, of which only what MPI documents is assumed: distinct active requests, in any order. Without an
  order the send buffer may throw or lose a send; the theorems say what holds then, and what holds when completions
  ascend or at most two sends are active. \<^verbatim>\<open>isend_flush_returns\<close> shows that flushing ends when MPI goes on completing sends.

  \<^bold>\<open>The scheduler.\<close> \<^verbatim>\<open>Hpx_ChaseLev\<close> (\<^verbatim>\<open>include/libhpx/util/ChaseLevDeque.h\<close>) is the work-stealing deque, split at every access:
  each item is taken exactly once, whatever interleaves and however the weak compare-and-swap fails. \<^verbatim>\<open>Hpx_TwoLock\<close> (\<^verbatim>\<open>include/libhpx/util/TwoLockQueue.h\<close>) is the mailbox, on a heap of nodes.
  \<^verbatim>\<open>Hpx_Worker\<close> (\<^verbatim>\<open>libhpx/scheduler/Worker.cpp\<close>) is the workers of a locality over the sequential views of both: a step is one turn of a worker's
  loop, the end, yield or wait of a thread, a spawn, or a steal. Parcels and stacks are never shared or lost, and a worker
  left to itself runs all it has.

  \<^bold>\<open>Local control objects.\<close> \<^verbatim>\<open>Hpx_Condition\<close> (\<^verbatim>\<open>libhpx/scheduler/Condition.cpp\<close>) refines the tagged pointer to a wait queue; the contract is the locale
  \<^verbatim>\<open>condition_contract\<close>. \<^verbatim>\<open>Hpx_Monitor\<close> has the state bits of \<^verbatim>\<open>libhpx/scheduler/lco/LCO.cpp\<close>, the wait of \<^verbatim>\<open>Worker::wait\<close>
  and a generic system of threads that run operations of one LCO under its lock; an operation that
  waits is split where it gives up the lock. The locale \<^verbatim>\<open>lco_monitor\<close> carries invariants and wake-ups, and each LCO interprets it:
  \<^verbatim>\<open>Hpx_And\<close>, \<^verbatim>\<open>Hpx_Future\<close>, \<^verbatim>\<open>Hpx_Semaphore\<close>, \<^verbatim>\<open>Hpx_GenCount\<close>, \<^verbatim>\<open>Hpx_Reduce\<close>, \<^verbatim>\<open>Hpx_AllReduce\<close>, \<^verbatim>\<open>Hpx_Gather\<close>, \<^verbatim>\<open>Hpx_AllToAll\<close>
  (the files of \<^verbatim>\<open>libhpx/scheduler/lco\<close> of these names). The theorems are about values (what a get returns is what was set, folded,
  concatenated or transposed) and about wake-ups (nobody sleeps although it could go on, or the run in which somebody does).
  \<^verbatim>\<open>Hpx_LCO\<close> has the functions by which programs reach an LCO at a global address; their effects are a list
  of local operations and messages, and the get requests of the two networks (\<^verbatim>\<open>lco_get.cpp\<close>) are what a remote read does at the LCO. \<^verbatim>\<open>Hpx_Par\<close> (\<^verbatim>\<open>libhpx/par.cpp\<close>) has the parallel loops on top.

  \<^bold>\<open>Processes.\<close> \<^verbatim>\<open>Hpx_Process\<close> (\<^verbatim>\<open>libhpx/process/process.cpp\<close>, \<^verbatim>\<open>Bitmap.cpp\<close>) has the credit scheme by which a group of parcels learns that
  all of them have ended. Parcels, messages and handlers interleave; the theorem holds for credits up to eight, and one
  more is shown to be lost.

  \<^bold>\<open>Errors.\<close> Where the code does not do what it means to, a theorem or lemma has the run that shows it, and the
  hypotheses of the positive theorem say what is needed: the semaphore and the allreduce can lose a wake-up, the allreduce resets only as many bytes as its last reader asked for, the send buffer that compacts out of order, the receive buffer with a limit, the
  heap break, zeroed cyclic allocation, removal of blocks and the interface functions on remote or null addresses have such runs.

  \<^bold>\<open>Not modelled.\<close> Network transports and hardware (\<^verbatim>\<open>libhpx/network/pwc\<close> apart from the circular buffer and the get request, \<^verbatim>\<open>libhpx/network/isir\<close> apart
  from the two buffers and the get request, \<^verbatim>\<open>libhpx/boot\<close>): they are calls of Photon, MPI and PMI, whose behaviour under failures and progress is not in the sources.
  Context switches and stack frames (\<^verbatim>\<open>libhpx/scheduler/Thread.cpp\<close>, \<^verbatim>\<open>arch\<close>): assembly and signal masks; a thread is what is left of its operation.
  Actions and calls by variadic arguments (\<^verbatim>\<open>libhpx/actions\<close>, \<^verbatim>\<open>libhpx/call.cpp\<close>): they marshal through libffi; what runs is an argument of the models.
  Allocators (\<^verbatim>\<open>libhpx/memory\<close>, the jemalloc, dlmalloc and tbbmalloc glue): calls of third-party libraries.
  The moving global address space above its table (\<^verbatim>\<open>AGAS.cpp\<close>, \<^verbatim>\<open>partitioning.cpp\<close>, \<^verbatim>\<open>Rebalancer.cpp\<close>) depends on hooks of those
  allocators and on METIS. Startup, options, topology, tracing and percolation are input and output of the machine. Programs, tests, the C++ headers and
  \<^verbatim>\<open>contrib\<close> are clients or copies of other projects. Relaxed memory is not modelled: the
  orderings of the atomic accesses are taken as sequentially consistent.
\<close>

end
